(* ===== verification/Pool_Prelude.thy ===== *)
theory Pool_Prelude
  imports Main "HOL-Library.Word"
begin

text \<open>
  Shared vocabulary of the development: the machine types of the modelled platform (a 64-bit
  \<^verbatim>\<open>std::size_t\<close> and 64-bit addresses), the exceptions of the library as values, the type of an
  operation's outcome, and the generic lemmas on words, powers of two, address ranges and lists
  that the component theories rest on.
\<close>

unbundle bit_operations_syntax

section \<open>Machine types, errors and outcomes\<close>

type_synonym size_t = "64 word"
type_synonym addr = "64 word"
type_synonym byte = "8 word"

abbreviation (input) nullptr :: addr where
  "nullptr \<equiv> 0"

text \<open>\<^verbatim>\<open>std::numeric_limits<std::size_t>::max()\<close>.\<close>

definition size_max :: size_t where
  "size_max = - 1"

text \<open>
  Every exception type the sources throw is one constructor. \<open>Terminate\<close> is a call of
  \<^verbatim>\<open>std::terminate\<close>, \<open>UndefinedBehaviour\<close> an access the C++ standard leaves undefined (an
  out-of-range \<^verbatim>\<open>operator[]\<close> on a vector, a \<^verbatim>\<open>delete\<close> that matches no live \<^verbatim>\<open>new\<close>), \<open>UserException\<close>
  an exception that a constructor supplied by the client throws.
\<close>

datatype exn =
    InvalidArgument
  | LengthError
  | OutOfRange
  | BadAlloc
  | LogicError
  | InvalidPoolPointer
  | DoubleFreeError
  | MemoryCorruptionError
  | AllocationMismatchError
  | UserException
  | Terminate
  | UndefinedBehaviour

text \<open>
  A pure computation that may throw returns \<open>exn + 'a\<close>. An operation with state returns the
  state it leaves behind also when it throws, because C++ does not roll back side effects.
\<close>

type_synonym 'a result = "exn + 'a"
type_synonym ('a, 's) outcome = "'a result \<times> 's"

fun bind_result :: "'a result \<Rightarrow> ('a \<Rightarrow> 'b result) \<Rightarrow> 'b result" where
  "bind_result (Inl e) f = Inl e"
| "bind_result (Inr x) f = f x"

lemma bind_result_eq_Inr:
  "bind_result r f = Inr y \<longleftrightarrow> (\<exists>x. r = Inr x \<and> f x = Inr y)"
  by (cases r) auto

lemma bind_result_eq_Inl:
  "bind_result r f = Inl e \<longleftrightarrow> r = Inl e \<or> (\<exists>x. r = Inr x \<and> f x = Inl e)"
  by (cases r) auto

named_theorems pool_simps \<open>unfolding rules shared by the component proofs\<close>
named_theorems addr_simps \<open>rules that read word arithmetic as arithmetic on natural numbers\<close>

section \<open>Size arithmetic\<close>

lemma unat_lt_64 [simp]: "unat (x :: size_t) < 18446744073709551616"
  using unsigned_less [of x] by simp

lemma unat_le_64 [simp]: "unat (x :: size_t) \<le> 18446744073709551615"
  using unat_lt_64 [of x] by linarith

lemma unat_size_max [simp]: "unat size_max = 18446744073709551615"
  by (simp add: size_max_def unsigned_minus_1_eq_mask mask_eq_exp_minus_1)

lemma le_size_max [simp]: "x \<le> size_max"
  by (simp add: size_max_def)

lemma unat_of_nat_size: "n < 18446744073709551616 \<Longrightarrow> unat (of_nat n :: size_t) = n"
  by (simp add: unat_of_nat)

lemma of_nat_unat_size [simp]: "(of_nat (unat x) :: size_t) = x"
  by simp

lemma unat_eq_size: "unat x = unat y \<longleftrightarrow> x = y" for x y :: size_t
  by (metis of_nat_unat_size)

lemma unat_add_size:
  "unat x + unat y < 18446744073709551616 \<Longrightarrow> unat (x + y) = unat x + unat y" for x y :: size_t
  by (simp add: unat_word_ariths)

lemma unat_mult_size:
  "unat x * unat y < 18446744073709551616 \<Longrightarrow> unat (x * y) = unat x * unat y" for x y :: size_t
  by (simp add: unat_word_ariths)

lemma unat_sub_size: "unat y \<le> unat x \<Longrightarrow> unat (x - y) = unat x - unat y" for x y :: size_t
  by (simp add: unat_sub word_le_nat_alt)

lemma add_overflow_guard:
  "size_max - r < l \<longleftrightarrow> 18446744073709551616 \<le> unat l + unat r" for l r :: size_t
proof -
  have "unat (size_max - r) = 18446744073709551615 - unat r"
    by (simp add: unat_sub_size)
  moreover have "unat r < 18446744073709551616" by simp
  ultimately show ?thesis unfolding word_less_nat_alt by arith
qed

lemma mult_overflow_guard:
  fixes l r :: size_t
  assumes "r \<noteq> 0"
  shows "size_max div r < l \<longleftrightarrow> 18446744073709551616 \<le> unat l * unat r"
proof -
  have r: "0 < unat r" using assms by (simp add: unat_gt_0)
  have "size_max div r < l \<longleftrightarrow> 18446744073709551615 div unat r < unat l"
    by (simp add: word_less_nat_alt unat_div)
  also have "\<dots> \<longleftrightarrow> 18446744073709551615 < unat l * unat r"
    using r by (simp add: div_less_iff_less_mult)
  finally show ?thesis by simp linarith
qed

subsection \<open>Powers of two\<close>

definition is_power_of_two :: "size_t \<Rightarrow> bool" where
  "is_power_of_two v \<longleftrightarrow> v \<noteq> 0 \<and> (v AND (v - 1)) = 0"

lemma bit_size_iff: "bit (v :: size_t) k \<longleftrightarrow> k < 64 \<and> odd (unat v div 2 ^ k)"
proof -
  have "bit v k \<longleftrightarrow> bit (unat v) k"
    by (simp add: bit_unsigned_iff)
  moreover have "bit v k \<Longrightarrow> k < 64"
    using bit_imp_le_length [of v k] by simp
  ultimately show ?thesis by (auto simp: bit_iff_odd)
qed

lemma odd_div_exp: "2 ^ k \<le> n \<Longrightarrow> n < 2 ^ Suc k \<Longrightarrow> odd (n div 2 ^ k)" for n :: nat
proof -
  assume "2 ^ k \<le> n" "n < 2 ^ Suc k"
  then have "n div 2 ^ k = 1"
    by (simp add: div_nat_eqI)
  then show ?thesis by simp
qed

lemma is_power_of_twoE:
  assumes "is_power_of_two v"
  obtains k where "k < 64" and "unat v = 2 ^ k"
proof -
  from assms have v: "v \<noteq> 0" "v AND (v - 1) = 0" by (auto simp: is_power_of_two_def)
  then have "1 \<le> unat v" by (simp add: Suc_leI unat_gt_0)
  then obtain k where k: "2 ^ k \<le> unat v" "unat v < 2 ^ (k + 1)"
    using ex_power_ivl1 [of 2 "unat v"] by auto
  have lt: "unat v < 2 ^ 64" by simp
  have k64: "k < 64" using k(1) lt
    by (metis le_less_trans power_less_imp_less_exp one_less_numeral_iff semiring_norm(76))
  have "unat v = 2 ^ k"
  proof (rule ccontr)
    assume "unat v \<noteq> 2 ^ k"
    with k have "2 ^ k \<le> unat (v - 1)" "unat (v - 1) < 2 ^ Suc k"
      using v(1) by (simp_all add: unat_minus_one)
    then have "bit (v - 1) k" "bit v k"
      using k k64 odd_div_exp by (simp_all add: bit_size_iff)
    then have "bit (v AND (v - 1)) k" by (simp add: bit_and_iff)
    with v(2) show False by simp
  qed
  with k64 that show thesis by blast
qed

lemma unat_exp_eq: "unat v = 2 ^ k \<Longrightarrow> v = 2 ^ k" for v :: size_t
  by (metis of_nat_numeral of_nat_power of_nat_unat_size)

lemma unat_exp_minus_1: "unat v = 2 ^ k \<Longrightarrow> v - 1 = mask k" for v :: size_t
  by (simp add: unat_exp_eq mask_eq_exp_minus_1)

lemma is_power_of_twoI:
  assumes "unat v = 2 ^ k"
  shows "is_power_of_two v"
proof -
  have v: "v = 2 ^ k" using assms by (rule unat_exp_eq)
  have "v AND (v - 1) = take_bit k v"
    using assms by (simp add: unat_exp_minus_1 take_bit_eq_mask)
  also have "\<dots> = 0" by (rule bit_word_eqI) (simp add: v bit_simps)
  finally show ?thesis using assms by (auto simp: is_power_of_two_def)
qed

lemma is_power_of_two_iff: "is_power_of_two v \<longleftrightarrow> (\<exists>k. unat v = 2 ^ k)"
  by (metis is_power_of_twoE is_power_of_twoI)

lemma is_power_of_two_pos: "is_power_of_two v \<Longrightarrow> 0 < unat v"
  by (simp add: is_power_of_two_def unat_gt_0)

lemma is_power_of_two_dvd_64: "is_power_of_two v \<Longrightarrow> unat v dvd 18446744073709551616"
proof -
  assume "is_power_of_two v"
  then obtain k where k: "k < 64" "unat v = 2 ^ k" by (rule is_power_of_twoE)
  then have "(2::nat) ^ k dvd 2 ^ 64" by (intro le_imp_power_dvd) simp
  with k show ?thesis by simp
qed

lemma is_power_of_two_dvd:
  "is_power_of_two a \<Longrightarrow> is_power_of_two b \<Longrightarrow> a \<le> b \<Longrightarrow> unat a dvd unat b"
  by (auto simp: is_power_of_two_iff word_le_nat_alt intro!: le_imp_power_dvd)

lemma is_power_of_two_max:
  "is_power_of_two a \<Longrightarrow> is_power_of_two b \<Longrightarrow> is_power_of_two (max a b)"
  by (simp add: max_def)

lemma unat_and_not_mask: "unat (x AND NOT (mask k)) = unat x - unat x mod 2 ^ k" for x :: size_t
proof -
  have "x AND NOT (mask k) = push_bit k (drop_bit k x)"
    by (rule bit_word_eqI) (auto simp: bit_simps)
  also have "\<dots> = x - take_bit k x"
    using bits_ident [of k x] by (simp add: algebra_simps)
  finally have "x AND NOT (mask k) = x - take_bit k x" .
  moreover have "unat (take_bit k x) = unat x mod 2 ^ k"
    unfolding unsigned_take_bit_eq by (rule take_bit_eq_mod)
  ultimately show ?thesis by (simp add: unat_sub_size)
qed

text \<open>The least multiple of \<open>a\<close> that is at least \<open>n\<close>, on unbounded numbers.\<close>

definition round_up_nat :: "nat \<Rightarrow> nat \<Rightarrow> nat" where
  "round_up_nat n a = (n + a - 1) div a * a"

lemma round_up_nat_ge: "0 < a \<Longrightarrow> n \<le> round_up_nat n a"
proof -
  assume a: "0 < a"
  have "n + a - 1 = (n + a - 1) div a * a + (n + a - 1) mod a" by simp
  moreover have "(n + a - 1) mod a < a" using a by simp
  ultimately show ?thesis unfolding round_up_nat_def by linarith
qed

lemma round_up_nat_dvd [simp]: "a dvd round_up_nat n a"
  by (simp add: round_up_nat_def)

lemma round_up_nat_least: "0 < a \<Longrightarrow> a dvd m \<Longrightarrow> n \<le> m \<Longrightarrow> round_up_nat n a \<le> m"
proof -
  assume a: "0 < a" and "a dvd m" and le: "n \<le> m"
  then obtain c where m: "m = a * c" by blast
  have "(n + a - 1) div a \<le> (a * c + a - 1) div a"
    using le by (intro div_le_mono) (simp add: m)
  also have "\<dots> = c"
    using a by (simp add: div_nat_eqI)
  finally show ?thesis by (simp add: round_up_nat_def m mult.commute)
qed

lemma round_up_nat_le: "round_up_nat n a \<le> n + a - 1"
  by (simp add: round_up_nat_def)

lemma round_up_nat_overflow:
  assumes "0 < a" and "a dvd m"
  shows "round_up_nat n a < m \<longleftrightarrow> n + a - 1 < m"
proof
  assume lt: "round_up_nat n a < m"
  obtain q where q: "round_up_nat n a = a * q" using round_up_nat_dvd by blast
  obtain c where c: "m = a * c" using assms by blast
  from lt q c have "q < c" by simp
  then have "a * Suc q \<le> a * c" by (intro mult_le_mono2) simp
  then have "round_up_nat n a + a \<le> m" using q c by simp
  with round_up_nat_ge [OF assms(1), of n] assms(1) show "n + a - 1 < m" by linarith
next
  assume "n + a - 1 < m"
  with round_up_nat_le [of n a] show "round_up_nat n a < m" by linarith
qed

section \<open>Sums over updated lists\<close>

lemma sum_list_map_update:
  fixes f :: "'a \<Rightarrow> 'b :: ab_group_add"
  assumes "i < length xs"
  shows "sum_list (map f (xs[i := x])) = sum_list (map f xs) - f (xs ! i) + f x"
proof -
  have "sum_list (map f xs) = sum_list (map f (take i xs)) + f (xs ! i) + sum_list (map f (drop (Suc i) xs))"
    by (subst id_take_nth_drop [OF assms]) (simp add: add.assoc)
  moreover have "sum_list (map f (xs[i := x])) = sum_list (map f (take i xs)) + f x + sum_list (map f (drop (Suc i) xs))"
    using assms by (simp add: upd_conv_take_nth_drop add.assoc)
  ultimately show ?thesis by simp
qed

end
