(* ===== verification/Byte_Memory.thy ===== *)
theory Byte_Memory
  imports Pool_Prelude
begin

text \<open>
  The byte-addressed memory that the pools, the chunks and their clients share. The sources
  reach it through \<^verbatim>\<open>FreeNode::next\<close> (placement \<^verbatim>\<open>new\<close> of a link into a free block),
  \<^verbatim>\<open>std::memcpy\<close> of a 64-bit canary and \<^verbatim>\<open>std::memset\<close>; these are the operations below.
  Words are stored in little-endian order, as on the modelled platform.
\<close>

section \<open>Extents\<close>

type_synonym mem = "addr \<Rightarrow> byte"

text \<open>The addresses of \<open>n\<close> bytes that start at \<open>a\<close>, in modular address arithmetic.\<close>

definition extent :: "addr \<Rightarrow> size_t \<Rightarrow> addr set" where
  "extent a n = {x. x - a < n}"

definition no_wrap :: "addr \<Rightarrow> size_t \<Rightarrow> bool" where
  "no_wrap a n \<longleftrightarrow> unat a + unat n < 18446744073709551616"

lemma extent_iff:
  assumes "no_wrap a n"
  shows "x \<in> extent a n \<longleftrightarrow> unat a \<le> unat x \<and> unat x < unat a + unat n"
proof (cases "unat a \<le> unat x")
  case True
  then show ?thesis by (auto simp: extent_def word_less_nat_alt unat_sub_size)
next
  case False
  then have "unat (x - a) = unat x + 18446744073709551616 - unat a"
    by (simp add: unat_sub_if')
  with False assms show ?thesis
    by (auto simp: extent_def no_wrap_def word_less_nat_alt)
qed

lemma extent_disjointI:
  assumes "no_wrap a n" and "no_wrap b k"
    and "unat a + unat n \<le> unat b \<or> unat b + unat k \<le> unat a"
  shows "extent a n \<inter> extent b k = {}"
  using assms by (auto simp: extent_iff)

lemma extent_disjointD:
  assumes "no_wrap a n" and "no_wrap b k" and "0 < unat n" and "0 < unat k"
    and "extent a n \<inter> extent b k = {}"
  shows "unat a + unat n \<le> unat b \<or> unat b + unat k \<le> unat a"
proof (rule ccontr)
  assume "\<not> ?thesis"
  then have "a \<in> extent b k \<or> b \<in> extent a n"
    using assms(1-4) by (auto simp: extent_iff)
  moreover have "a \<in> extent a n" and "b \<in> extent b k"
    using assms(1-4) by (auto simp: extent_iff)
  ultimately show False using assms(5) by blast
qed

lemma extent_subsetI:
  assumes "no_wrap a n" and "no_wrap b k"
    and "unat b \<le> unat a" and "unat a + unat n \<le> unat b + unat k"
  shows "extent a n \<subseteq> extent b k"
  using assms by (auto simp: extent_iff)

lemma extent_self: "n \<noteq> 0 \<Longrightarrow> a \<in> extent a n"
  by (simp add: extent_def word_gt_0)

lemma extent_mono: "n \<le> k \<Longrightarrow> extent a n \<subseteq> extent a k"
  by (auto simp: extent_def)

section \<open>Loads, stores and fills\<close>

definition load64 :: "mem \<Rightarrow> addr \<Rightarrow> 64 word" where
  "load64 m a = word_rcat (rev (map (\<lambda>i. m (a + of_nat i)) [0..<8]))"

definition store64 :: "mem \<Rightarrow> addr \<Rightarrow> 64 word \<Rightarrow> mem" where
  "store64 m a v =
     (\<lambda>x. if x - a < 8 then ucast (drop_bit (8 * unat (x - a)) v) else m x)"

definition memset :: "mem \<Rightarrow> addr \<Rightarrow> byte \<Rightarrow> size_t \<Rightarrow> mem" where
  "memset m a c n = (\<lambda>x. if x - a < n then c else m x)"

lemma store64_other: "x \<notin> extent a 8 \<Longrightarrow> store64 m a v x = m x"
  by (simp add: store64_def extent_def)

lemma memset_other: "x \<notin> extent a n \<Longrightarrow> memset m a c n x = m x"
  by (simp add: memset_def extent_def)

lemma memset_inside: "x \<in> extent a n \<Longrightarrow> memset m a c n x = c"
  by (simp add: memset_def extent_def)

lemma of_nat_less_8: "i < 8 \<Longrightarrow> (of_nat i :: size_t) < 8"
  by (simp add: word_less_nat_alt unat_of_nat)

lemma load64_cong:
  assumes "\<And>x. x \<in> extent a 8 \<Longrightarrow> m x = m' x"
  shows "load64 m a = load64 m' a"
proof -
  have "m (a + of_nat i) = m' (a + of_nat i)" if "i < 8" for i
    using that by (intro assms) (simp add: extent_def of_nat_less_8)
  then show ?thesis unfolding load64_def by (metis (mono_tags, lifting) atLeastLessThan_iff map_eq_conv set_upt)
qed

lemma bit_load64:
  "bit (load64 m a) n \<longleftrightarrow> n < 64 \<and> bit (m (a + of_nat (n div 8))) (n mod 8)"
proof -
  have "load64 m a = word_of_int (horner_sum uint (2 ^ LENGTH(8)) (map (\<lambda>i. m (a + of_nat i)) [0..<8]))"
    by (simp add: load64_def word_rcat_def rev_map)
  moreover have "n < 64 \<Longrightarrow> map (\<lambda>i. m (a + of_nat i)) [0..<8] ! (n div 8) = m (a + of_nat (n div 8))"
    by (subst nth_map) (simp_all del: upt_rec_numeral)
  moreover note bit_horner_sum_uint_exp_iff [of "map (\<lambda>i. m (a + of_nat i)) [0..<8]" n]
  ultimately show ?thesis
    by (auto simp: bit_word_of_int_iff simp del: upt_rec_numeral)
qed

lemma load64_store64 [simp]: "load64 (store64 m a v) a = v"
proof (rule bit_word_eqI)
  fix n assume "n < LENGTH(64)"
  then have n: "n < 64" by simp
  then have j: "n div 8 < 8" by simp
  then have u: "unat (of_nat (n div 8) :: size_t) = n div 8" by (simp add: unat_of_nat)
  have "store64 m a v (a + of_nat (n div 8)) = ucast (drop_bit (8 * (n div 8)) v)"
    using j of_nat_less_8 [OF j] u by (simp add: store64_def)
  then have "bit (load64 (store64 m a v) a) n \<longleftrightarrow> bit v (8 * (n div 8) + n mod 8)"
    using n by (simp add: bit_load64 bit_ucast_iff bit_drop_bit_eq)
  then show "bit (load64 (store64 m a v) a) n \<longleftrightarrow> bit v n" by simp
qed

lemma load64_store64_other:
  "extent a 8 \<inter> extent b 8 = {} \<Longrightarrow> load64 (store64 m b v) a = load64 m a"
  by (rule load64_cong) (auto intro: store64_other)

lemma load64_memset_other:
  "extent a 8 \<inter> extent b n = {} \<Longrightarrow> load64 (memset m b c n) a = load64 m a"
  by (rule load64_cong) (auto intro: memset_other)

text \<open>A 64-bit load sees every byte of its extent.\<close>

lemma load64_eq_iff:
  "load64 m a = load64 m' a \<longleftrightarrow> (\<forall>x \<in> extent a 8. m x = m' x)"
proof
  assume eq: "load64 m a = load64 m' a"
  show "\<forall>x \<in> extent a 8. m x = m' x"
  proof
    fix x assume x: "x \<in> extent a 8"
    define j where "j = unat (x - a)"
    have j: "j < 8" using x by (simp add: extent_def j_def word_less_nat_alt)
    have xa: "x = a + of_nat j" by (simp add: j_def)
    show "m x = m' x"
    proof (rule bit_word_eqI)
      fix b assume "b < LENGTH(8)"
      then have b: "b < 8" by simp
      have "bit (load64 m a) (8 * j + b) = bit (load64 m' a) (8 * j + b)" by (simp add: eq)
      then show "bit (m x) b = bit (m' x) b" using b j by (simp add: bit_load64 xa)
    qed
  qed
next
  assume "\<forall>x \<in> extent a 8. m x = m' x"
  then show "load64 m a = load64 m' a" by (intro load64_cong) simp
qed

end
