(* ===== verification/Free_List.thy ===== *)
theory Free_List
  imports Byte_Memory
begin

text \<open>
  The intrusive free list that \<^verbatim>\<open>FixedSizeMemoryPool\<close> and \<^verbatim>\<open>MemoryChunk\<close> both keep: a free
  block stores the address of the next free block in its first eight bytes. The operations are
  the pop, the push (placement \<^verbatim>\<open>new\<close> of a \<^verbatim>\<open>FreeNode\<close>) and the backward construction loop of
  \<^verbatim>\<open>initialize_free_list\<close>; the lemmas relate the list in memory to the set of free block
  indices of an equally spaced region.
\<close>

section \<open>The geometry of a region of equally spaced blocks\<close>

definition block_at :: "addr \<Rightarrow> size_t \<Rightarrow> nat \<Rightarrow> addr" where
  "block_at st sd i = st + of_nat i * sd"

definition region_ok :: "addr \<Rightarrow> size_t \<Rightarrow> nat \<Rightarrow> bool" where
  "region_ok st sd n \<longleftrightarrow> st \<noteq> 0 \<and> 8 \<le> unat sd \<and> unat st + n * unat sd < 18446744073709551616"

lemma region_okD:
  assumes "region_ok st sd n"
  shows "0 < unat st" and "8 \<le> unat sd" and "unat st + n * unat sd < 18446744073709551616"
  using assms by (auto simp: region_ok_def unat_gt_0)

lemma index_bound: "i < n \<Longrightarrow> i * s + s \<le> n * (s :: nat)"
  using mult_le_mono1 [of "Suc i" n s] by simp

lemma unat_block_at:
  assumes "region_ok st sd n" and "i \<le> n"
  shows "unat (block_at st sd i) = unat st + i * unat sd"
proof -
  note r = region_okD [OF assms(1)]
  have le: "i * unat sd \<le> n * unat sd" using assms(2) by (rule mult_le_mono1)
  have "i \<le> i * unat sd" using r(2) by simp
  with le r have i: "i < 18446744073709551616" by linarith
  have "i * unat sd < 18446744073709551616" using le r(3) by linarith
  then have "unat (of_nat i * sd) = i * unat sd"
    using unat_mult_size [of "of_nat i" sd] by (simp only: unat_of_nat_size [OF i])
  moreover from this have "unat (st + of_nat i * sd) = unat st + unat (of_nat i * sd)"
    using le r(3) by (intro unat_add_size) linarith
  ultimately show ?thesis by (simp only: block_at_def)
qed

lemma block_at_nonnull: "region_ok st sd n \<Longrightarrow> i \<le> n \<Longrightarrow> block_at st sd i \<noteq> 0"
  using unat_block_at [of st sd n i] region_okD(1) [of st sd n] by (auto simp del: unat_0_iff simp: unat_0_iff [symmetric])

lemma block_at_inj:
  assumes "region_ok st sd n" and "i \<le> n" and "j \<le> n" and "block_at st sd i = block_at st sd j"
  shows "i = j"
proof -
  have "i * unat sd = j * unat sd"
    using unat_block_at [OF assms(1,2)] unat_block_at [OF assms(1,3)] unfolding assms(4) by linarith
  moreover have "unat sd \<noteq> 0" using region_okD(2) [OF assms(1)] by linarith
  ultimately show ?thesis by (metis mult_right_cancel)
qed

lemma block_at_no_wrap:
  assumes "region_ok st sd n" and "i < n" and "unat k \<le> unat sd"
  shows "no_wrap (block_at st sd i) k"
  using unat_block_at [of st sd n i] assms region_okD(3) [OF assms(1)] index_bound [OF assms(2), of "unat sd"]
  by (simp add: no_wrap_def)

lemma block_extents_disjoint:
  assumes "region_ok st sd n" and "i < n" and "j < n" and "i \<noteq> j"
    and "unat k \<le> unat sd" and "unat l \<le> unat sd"
  shows "extent (block_at st sd i) k \<inter> extent (block_at st sd j) l = {}"
proof (rule extent_disjointI)
  show "no_wrap (block_at st sd i) k" and "no_wrap (block_at st sd j) l"
    using assms block_at_no_wrap by auto
  have "i < j \<or> j < i" using assms(4) by linarith
  then have "i * unat sd + unat sd \<le> j * unat sd \<or> j * unat sd + unat sd \<le> i * unat sd"
    using index_bound by blast
  then show "unat (block_at st sd i) + unat k \<le> unat (block_at st sd j) \<or>
      unat (block_at st sd j) + unat l \<le> unat (block_at st sd i)"
    using assms unat_block_at [OF assms(1)] by auto
qed

lemma block_offset:
  assumes "region_ok st sd n" and "i \<le> n"
  shows "unat (block_at st sd i - st) = i * unat sd"
  using unat_block_at [OF assms] by (simp add: unat_sub_size)

lemma block_offset_div:
  assumes "region_ok st sd n" and "i \<le> n"
  shows "unat ((block_at st sd i - st) div sd) = i"
  using block_offset [OF assms] region_okD(2) [OF assms(1)] by (simp add: unat_div)

section \<open>The list in memory\<close>

primrec free_chain :: "mem \<Rightarrow> addr \<Rightarrow> addr list \<Rightarrow> bool" where
  "free_chain m h [] \<longleftrightarrow> h = 0"
| "free_chain m h (b # bs) \<longleftrightarrow> h = b \<and> b \<noteq> 0 \<and> free_chain m (load64 m b) bs"

lemma free_chain_unique: "free_chain m h bs \<Longrightarrow> free_chain m h cs \<Longrightarrow> bs = cs"
proof (induction bs arbitrary: h cs)
  case Nil
  then show ?case by (cases cs) auto
next
  case (Cons b bs)
  then show ?case by (cases cs) auto
qed

lemma free_chain_cong:
  assumes "free_chain m h bs" and "\<And>b x. b \<in> set bs \<Longrightarrow> x \<in> extent b 8 \<Longrightarrow> m' x = m x"
  shows "free_chain m' h bs"
  using assms
proof (induction bs arbitrary: h)
  case (Cons b bs)
  have "load64 m' b = load64 m b" using Cons.prems(2) by (intro load64_cong) auto
  with Cons show ?case by auto
qed simp

text \<open>\<^verbatim>\<open>::new (block) FreeNode{head}\<close> and \<^verbatim>\<open>head = node->next\<close>.\<close>

definition push_free :: "mem \<Rightarrow> addr \<Rightarrow> addr \<Rightarrow> mem \<times> addr" where
  "push_free m head block = (store64 m block head, block)"

text \<open>
  The loop of \<^verbatim>\<open>initialize_free_list\<close>: blocks \<open>i - 1\<close>, \<dots>, \<open>0\<close> are pushed in this order, so the
  first pop returns block zero.
\<close>

fun init_free_list :: "nat \<Rightarrow> addr \<Rightarrow> size_t \<Rightarrow> mem \<Rightarrow> addr \<Rightarrow> mem \<times> addr" where
  "init_free_list 0 st sd m head = (m, head)"
| "init_free_list (Suc i) st sd m head =
     (let (m', head') = push_free m head (block_at st sd i)
      in init_free_list i st sd m' head')"

text \<open>
  \<open>free_blocks_ok m st sd n head F\<close>: the list that starts at \<open>head\<close> visits exactly the blocks
  with an index in \<open>F\<close>, each once.
\<close>

definition free_blocks_ok ::
  "mem \<Rightarrow> addr \<Rightarrow> size_t \<Rightarrow> nat \<Rightarrow> addr \<Rightarrow> nat list \<Rightarrow> bool" where
  "free_blocks_ok m st sd n head F \<longleftrightarrow>
     distinct F \<and> set F \<subseteq> {..<n} \<and> free_chain m head (map (block_at st sd) F)"

lemma free_blocks_ok_unique:
  assumes "region_ok st sd n" and "free_blocks_ok m st sd n h F" and "free_blocks_ok m st sd n h G"
  shows "F = G"
proof -
  have "map (block_at st sd) F = map (block_at st sd) G"
    using assms by (auto simp: free_blocks_ok_def intro: free_chain_unique)
  moreover have "inj_on (block_at st sd) (set F \<union> set G)"
    using assms by (intro inj_onI block_at_inj [OF assms(1)]) (auto simp: free_blocks_ok_def)
  ultimately show ?thesis by (simp add: inj_on_map_eq_map)
qed

lemma free_blocks_ok_head:
  assumes "region_ok st sd n" and "free_blocks_ok m st sd n h F"
  shows "h = 0 \<longleftrightarrow> F = []"
  using assms by (cases F) (auto simp: free_blocks_ok_def)

lemma free_blocks_ok_pop:
  "free_blocks_ok m st sd n h (i # F) \<Longrightarrow>
   h = block_at st sd i \<and> i < n \<and> i \<notin> set F \<and> free_blocks_ok m st sd n (load64 m h) F"
  by (auto simp: free_blocks_ok_def)

lemma free_blocks_ok_cong:
  assumes "free_blocks_ok m st sd n h F"
    and "\<And>i x. i \<in> set F \<Longrightarrow> x \<in> extent (block_at st sd i) 8 \<Longrightarrow> m' x = m x"
  shows "free_blocks_ok m' st sd n h F"
proof -
  have "free_chain m' h (map (block_at st sd) F)"
  proof (rule free_chain_cong)
    show "free_chain m h (map (block_at st sd) F)" using assms(1) by (simp add: free_blocks_ok_def)
    show "m' x = m x" if "b \<in> set (map (block_at st sd) F)" and "x \<in> extent b 8" for b x
      using that assms(2) by auto
  qed
  with assms(1) show ?thesis by (simp add: free_blocks_ok_def)
qed

lemma free_blocks_ok_push:
  assumes "region_ok st sd n" and "free_blocks_ok m st sd n h F" and "i < n" and "i \<notin> set F"
  shows "free_blocks_ok (store64 m (block_at st sd i) h) st sd n (block_at st sd i) (i # F)"
proof -
  have "free_blocks_ok (store64 m (block_at st sd i) h) st sd n h F"
  proof (rule free_blocks_ok_cong [OF assms(2)])
    fix j x assume j: "j \<in> set F" and x: "x \<in> extent (block_at st sd j) 8"
    have "extent (block_at st sd j) 8 \<inter> extent (block_at st sd i) 8 = {}"
      using assms j region_okD(2) [OF assms(1)]
      by (intro block_extents_disjoint [OF assms(1)]) (auto simp: free_blocks_ok_def)
    with x show "store64 m (block_at st sd i) h x = m x" by (intro store64_other) auto
  qed
  with assms block_at_nonnull [OF assms(1), of i] show ?thesis
    by (auto simp: free_blocks_ok_def)
qed

lemma init_free_list_ok:
  assumes "region_ok st sd n" and "free_blocks_ok m st sd n h F" and "k \<le> n" and "set F \<subseteq> {k..<n}"
  shows "case init_free_list k st sd m h of (m', h') \<Rightarrow>
           free_blocks_ok m' st sd n h' ([0..<k] @ F) \<and>
           (\<forall>x. x \<notin> (\<Union>i<k. extent (block_at st sd i) 8) \<longrightarrow> m' x = m x)"
  using assms
proof (induction k arbitrary: m h F)
  case (Suc k)
  let ?b = "block_at st sd k"
  have "free_blocks_ok (store64 m ?b h) st sd n ?b (k # F)"
    using Suc.prems by (intro free_blocks_ok_push) auto
  moreover have "set (k # F) \<subseteq> {k..<n}" using Suc.prems by auto
  ultimately show ?case
    using Suc.IH [of "store64 m ?b h" ?b "k # F"] Suc.prems
    by (auto simp: push_free_def store64_other lessThan_Suc)
qed simp

text \<open>A user may write anything into the blocks that are not on the list.\<close>

lemma free_blocks_ok_frame:
  assumes "region_ok st sd n" and "free_blocks_ok m st sd n h F" and "i < n" and "i \<notin> set F"
    and "\<And>x. x \<notin> extent (block_at st sd i) sd \<Longrightarrow> m' x = m x"
  shows "free_blocks_ok m' st sd n h F"
proof (rule free_blocks_ok_cong [OF assms(2)])
  fix j x assume j: "j \<in> set F" and x: "x \<in> extent (block_at st sd j) 8"
  have "extent (block_at st sd j) 8 \<inter> extent (block_at st sd i) sd = {}"
    using assms(2-4) j region_okD(2) [OF assms(1)]
    by (intro block_extents_disjoint [OF assms(1)]) (auto simp: free_blocks_ok_def)
  with x show "m' x = m x" by (intro assms(5)) auto
qed

end
