(* ===== verification/Block_Layout.thy ===== *)
theory Block_Layout
  imports Pool_Prelude
begin

text \<open>
  \<^verbatim>\<open>src/detail/block_layout.{hpp,cpp}\<close>: the checked size arithmetic and the computation of the
  dimensions of a block. The lemmas relate the 64-bit computation to a reference on unbounded
  natural numbers: the code throws exactly when the exact total does not fit in \<^verbatim>\<open>size_t\<close>.
\<close>

section \<open>Definitions\<close>

record block_layout =
  block_size :: size_t
  block_count :: size_t
  alignment :: size_t
  payload_offset :: size_t
  block_stride :: size_t
  storage_size :: size_t

definition validate_alignment :: "size_t \<Rightarrow> unit result" where
  "validate_alignment al =
     (if al = 0 \<or> (al AND (al - 1)) \<noteq> 0 then Inl InvalidArgument else Inr ())"

definition checked_add :: "size_t \<Rightarrow> size_t \<Rightarrow> size_t result" where
  "checked_add left right =
     (if left > size_max - right then Inl LengthError else Inr (left + right))"

definition checked_multiply :: "size_t \<Rightarrow> size_t \<Rightarrow> size_t result" where
  "checked_multiply left right =
     (if right \<noteq> 0 \<and> left > size_max div right then Inl LengthError else Inr (left * right))"

definition round_up :: "size_t \<Rightarrow> size_t \<Rightarrow> size_t result" where
  "round_up sz al =
     bind_result (validate_alignment al) (\<lambda>_.
       if sz > size_max - (al - 1) then Inl LengthError
       else Inr ((sz + al - 1) AND NOT (al - 1)))"

definition make_block_layout ::
  "size_t \<Rightarrow> size_t \<Rightarrow> size_t \<Rightarrow> bool \<Rightarrow> size_t \<Rightarrow> size_t \<Rightarrow> size_t \<Rightarrow> block_layout result" where
  "make_block_layout requested_block_size count requested_alignment guard_bytes
       free_node_size free_node_alignment guard_sz =
     (if count = 0 then Inl InvalidArgument
      else
        bind_result (validate_alignment requested_alignment) (\<lambda>_.
        let al = max requested_alignment free_node_alignment in
        bind_result (round_up (max requested_block_size free_node_size) al) (\<lambda>bs.
        bind_result (if guard_bytes then round_up (max guard_sz free_node_size) al else Inr 0) (\<lambda>po.
        bind_result
          (if guard_bytes
           then bind_result (checked_add po bs) (\<lambda>payload_end.
                bind_result (checked_add payload_end guard_sz) (\<lambda>e. round_up e al))
           else Inr bs) (\<lambda>stride.
        bind_result (checked_multiply stride count) (\<lambda>total.
          Inr \<lparr>block_size = bs, block_count = count, alignment = al, payload_offset = po,
               block_stride = stride, storage_size = total\<rparr>))))))"

section \<open>The checked operations compute the exact value or throw\<close>

lemma validate_alignment_iff:
  "validate_alignment al = (if is_power_of_two al then Inr () else Inl InvalidArgument)"
  by (auto simp: validate_alignment_def is_power_of_two_def)

lemma checked_add_spec:
  "checked_add l r =
     (if unat l + unat r < 18446744073709551616 then Inr (l + r) else Inl LengthError)"
  by (auto simp: checked_add_def add_overflow_guard)

lemma checked_multiply_spec:
  "checked_multiply l r =
     (if unat l * unat r < 18446744073709551616 then Inr (l * r) else Inl LengthError)"
  by (cases "r = 0") (auto simp: checked_multiply_def mult_overflow_guard)

text \<open>The value of a checked step, as a number: \<open>Some n\<close> when it fits.\<close>

definition fits :: "nat \<Rightarrow> size_t result" where
  "fits n = (if n < 18446744073709551616 then Inr (of_nat n) else Inl LengthError)"

lemma fits_unat [simp]: "fits (unat x) = Inr x"
  by (simp add: fits_def)

lemma checked_add_fits: "checked_add l r = fits (unat l + unat r)"
  by (auto simp: checked_add_spec fits_def)

lemma checked_multiply_fits: "checked_multiply l r = fits (unat l * unat r)"
  by (auto simp: checked_multiply_spec fits_def)

lemma round_up_fits:
  assumes "is_power_of_two al"
  shows "round_up sz al = fits (round_up_nat (unat sz) (unat al))"
proof -
  obtain k where k: "k < 64" "unat al = 2 ^ k" using assms by (rule is_power_of_twoE)
  have pos: "0 < unat al" using assms by (rule is_power_of_two_pos)
  have m1: "al - 1 = mask k" using k(2) by (rule unat_exp_minus_1)
  have u1: "unat (al - 1) = unat al - 1" using pos by (simp add: unat_minus_one unat_gt_0)
  have guard: "sz > size_max - (al - 1) \<longleftrightarrow>
      \<not> round_up_nat (unat sz) (unat al) < 18446744073709551616"
    unfolding add_overflow_guard u1
    using round_up_nat_overflow [OF pos is_power_of_two_dvd_64 [OF assms], of "unat sz"] pos by linarith
  show ?thesis
  proof (cases "round_up_nat (unat sz) (unat al) < 18446744073709551616")
    case True
    then have lt: "unat sz + unat al - 1 < 18446744073709551616"
      using round_up_nat_overflow [OF pos is_power_of_two_dvd_64 [OF assms]] by blast
    have sum: "unat (sz + al - 1) = unat sz + unat al - 1"
    proof -
      have "unat (sz + (al - 1)) = unat sz + unat (al - 1)"
        using lt pos by (intro unat_add_size) (simp add: u1)
      with pos u1 show ?thesis by (simp add: add_diff_eq)
    qed
    have "unat ((sz + al - 1) AND NOT (al - 1)) = round_up_nat (unat sz) (unat al)"
      unfolding m1 unat_and_not_mask sum round_up_nat_def k(2)
      by (metis minus_mod_eq_div_mult)
    then have "(sz + al - 1) AND NOT (al - 1) = of_nat (round_up_nat (unat sz) (unat al))"
      by (metis of_nat_unat_size)
    with True guard assms show ?thesis
      by (simp add: round_up_def validate_alignment_iff fits_def)
  next
    case False
    with guard assms show ?thesis
      by (simp add: round_up_def validate_alignment_iff fits_def)
  qed
qed

section \<open>The reference layout on natural numbers\<close>

record layout_nat =
  ln_block_size :: nat
  ln_payload_offset :: nat
  ln_block_stride :: nat
  ln_storage_size :: nat

definition reference_layout ::
  "nat \<Rightarrow> nat \<Rightarrow> nat \<Rightarrow> bool \<Rightarrow> nat \<Rightarrow> nat \<Rightarrow> layout_nat" where
  "reference_layout requested count al guard node_size guard_sz =
     (let bs = round_up_nat (max requested node_size) al;
          po = (if guard then round_up_nat (max guard_sz node_size) al else 0);
          stride = (if guard then round_up_nat (po + bs + guard_sz) al else bs)
      in \<lparr>ln_block_size = bs, ln_payload_offset = po, ln_block_stride = stride,
          ln_storage_size = stride * count\<rparr>)"

definition layout_of_nat :: "size_t \<Rightarrow> size_t \<Rightarrow> layout_nat \<Rightarrow> block_layout" where
  "layout_of_nat count al r =
     \<lparr>block_size = of_nat (ln_block_size r), block_count = count, alignment = al,
      payload_offset = of_nat (ln_payload_offset r),
      block_stride = of_nat (ln_block_stride r), storage_size = of_nat (ln_storage_size r)\<rparr>"

lemma unat_max_size: "unat (max a b) = max (unat a) (unat b)" for a b :: size_t
  by (simp add: max_def word_le_nat_alt)

lemma fits_bind:
  "bind_result (fits n) f = (if n < 18446744073709551616 then f (of_nat n) else Inl LengthError)"
  by (simp add: fits_def)

lemma bind_LengthError_if:
  "bind_result (if b then x else Inl e) f = (if b then bind_result x f else Inl e)"
  by simp

lemma factor_fits: "0 < c \<Longrightarrow> x * c < (N :: nat) \<Longrightarrow> x < N"
  by (metis le_less_trans mult.right_neutral mult_le_mono2 Suc_leI One_nat_def)

lemma unguarded_layout_eq:
  assumes "count \<noteq> 0" and "is_power_of_two ra" and "is_power_of_two fa"
  defines "al \<equiv> max ra fa"
  shows "make_block_layout rb count ra False fs fa gs =
     (let r = reference_layout (unat rb) (unat count) (unat al) False (unat fs) (unat gs) in
      if ln_storage_size r < 18446744073709551616 then Inr (layout_of_nat count al r)
      else Inl LengthError)"
proof -
  have p: "is_power_of_two al" using assms by (simp add: is_power_of_two_max)
  define bs where "bs = round_up_nat (max (unat rb) (unat fs)) (unat al)"
  have "bs * unat count < 18446744073709551616 \<Longrightarrow> bs < 18446744073709551616"
    using assms(1) factor_fits [of "unat count" bs] by (simp add: unat_gt_0)
  moreover have "make_block_layout rb count ra False fs fa gs =
      bind_result (fits bs) (\<lambda>b. bind_result (checked_multiply b count) (\<lambda>t.
        Inr \<lparr>block_size = b, block_count = count, alignment = al, payload_offset = 0,
             block_stride = b, storage_size = t\<rparr>))"
    using assms(1,2) p
    by (simp add: make_block_layout_def validate_alignment_iff Let_def al_def [symmetric]
        round_up_fits unat_max_size bs_def)
  ultimately show ?thesis
    by (simp add: fits_bind checked_multiply_fits unat_of_nat_size layout_of_nat_def
        reference_layout_def Let_def bs_def [symmetric])
qed

lemma guarded_layout_eq:
  assumes "count \<noteq> 0" and "is_power_of_two ra" and "is_power_of_two fa"
  defines "al \<equiv> max ra fa"
  shows "make_block_layout rb count ra True fs fa gs =
     (let r = reference_layout (unat rb) (unat count) (unat al) True (unat fs) (unat gs) in
      if ln_storage_size r < 18446744073709551616 then Inr (layout_of_nat count al r)
      else Inl LengthError)"
proof -
  have p: "is_power_of_two al" using assms by (simp add: is_power_of_two_max)
  then have pos: "0 < unat al" by (rule is_power_of_two_pos)
  define bs where "bs = round_up_nat (max (unat rb) (unat fs)) (unat al)"
  define po where "po = round_up_nat (max (unat gs) (unat fs)) (unat al)"
  define sd where "sd = round_up_nat (po + bs + unat gs) (unat al)"
  have le: "po + bs + unat gs \<le> sd" unfolding sd_def by (rule round_up_nat_ge [OF pos])
  have total: "sd * unat count < 18446744073709551616 \<Longrightarrow> sd < 18446744073709551616"
    using assms(1) factor_fits [of "unat count" sd] by (simp add: unat_gt_0)
  have eq: "make_block_layout rb count ra True fs fa gs =
      bind_result (fits bs) (\<lambda>b. bind_result (fits po) (\<lambda>q.
      bind_result (bind_result (checked_add q b) (\<lambda>e. bind_result (checked_add e gs)
         (\<lambda>e. round_up e al))) (\<lambda>s. bind_result (checked_multiply s count) (\<lambda>t.
      Inr \<lparr>block_size = b, block_count = count, alignment = al, payload_offset = q,
           block_stride = s, storage_size = t\<rparr>))))"
    using assms(1,2) p
    by (simp add: make_block_layout_def validate_alignment_iff Let_def al_def [symmetric]
        round_up_fits unat_max_size bs_def po_def)
  have step: "bind_result (checked_add (of_nat po) (of_nat bs)) (\<lambda>e. bind_result (checked_add e gs)
      (\<lambda>e. round_up e al)) = fits sd"
    if "po < 18446744073709551616" "bs < 18446744073709551616"
    using that le p
    by (auto simp: checked_add_fits round_up_fits unat_of_nat_size fits_bind sd_def
        simp del: of_nat_add) (auto simp: fits_def)
  show ?thesis
    using le total step
    by (auto simp: eq fits_bind checked_multiply_fits unat_of_nat_size layout_of_nat_def
        reference_layout_def Let_def bs_def [symmetric] po_def [symmetric] sd_def [symmetric]
        simp del: of_nat_mult)
qed

lemma make_block_layout_eq:
  assumes "is_power_of_two fa"
  shows "make_block_layout rb count ra g fs fa gs =
     (if count = 0 \<or> \<not> is_power_of_two ra then Inl InvalidArgument
      else let al = max ra fa;
               r = reference_layout (unat rb) (unat count) (unat al) g (unat fs) (unat gs)
           in if ln_storage_size r < 18446744073709551616 then Inr (layout_of_nat count al r)
              else Inl LengthError)"
proof (cases "count = 0 \<or> \<not> is_power_of_two ra")
  case True
  then show ?thesis by (auto simp: make_block_layout_def validate_alignment_iff)
next
  case False
  with assms show ?thesis
    by (cases g) (simp_all add: unguarded_layout_eq guarded_layout_eq Let_def)
qed

section \<open>What a successful layout guarantees\<close>

text \<open>
  \<open>layout_ok\<close> is the contract that the pools and chunks rely on: every dimension is a multiple
  of the alignment, a block holds the request and a free-list node, a guarded block is
  \<^verbatim>\<open>[node and front guard][payload][back guard]\<close>, and the total is exact.
\<close>

definition layout_ok :: "bool \<Rightarrow> size_t \<Rightarrow> size_t \<Rightarrow> block_layout \<Rightarrow> bool" where
  "layout_ok g node_size guard_sz L \<longleftrightarrow>
     is_power_of_two (alignment L) \<and> block_count L \<noteq> 0 \<and>
     unat (alignment L) dvd unat (block_size L) \<and>
     unat (alignment L) dvd unat (payload_offset L) \<and>
     unat (alignment L) dvd unat (block_stride L) \<and>
     node_size \<le> block_size L \<and>
     unat (storage_size L) = unat (block_stride L) * unat (block_count L) \<and>
     (if g then guard_sz \<le> payload_offset L \<and> node_size \<le> payload_offset L \<and>
              unat (payload_offset L) + unat (block_size L) + unat guard_sz \<le> unat (block_stride L)
      else payload_offset L = 0 \<and> block_stride L = block_size L)"

lemma make_block_layout_ok:
  assumes "make_block_layout rb count ra g fs fa gs = Inr L" and "is_power_of_two fa"
  shows "layout_ok g fs gs L" and "block_count L = count" and "rb \<le> block_size L"
    and "alignment L = max ra fa" and "is_power_of_two ra"
proof -
  define al where "al = max ra fa"
  define r where "r = reference_layout (unat rb) (unat count) (unat al) g (unat fs) (unat gs)"
  have c: "count \<noteq> 0" and ra: "is_power_of_two ra"
    and lt: "ln_storage_size r < 18446744073709551616" and L: "L = layout_of_nat count al r"
    using assms by (auto simp: make_block_layout_eq Let_def al_def r_def split: if_splits)
  have p: "is_power_of_two al" using ra assms(2) by (simp add: al_def is_power_of_two_max)
  then have pos: "0 < unat al" by (rule is_power_of_two_pos)
  have c1: "1 \<le> unat count" using c by (simp add: unat_gt_0 Suc_le_eq)
  have total: "ln_storage_size r = ln_block_stride r * unat count"
    by (simp add: r_def reference_layout_def Let_def)
  have sd: "ln_block_stride r \<le> ln_storage_size r" using c1 total by simp
  have bs: "ln_block_size r = round_up_nat (max (unat rb) (unat fs)) (unat al)"
    by (simp add: r_def reference_layout_def Let_def)
  have g1: "ln_payload_offset r = round_up_nat (max (unat gs) (unat fs)) (unat al)"
      "ln_block_stride r = round_up_nat (ln_payload_offset r + ln_block_size r + unat gs) (unat al)"
    if g using that by (simp_all add: r_def reference_layout_def Let_def)
  have g0: "ln_payload_offset r = 0" "ln_block_stride r = ln_block_size r"
    if "\<not> g" using that by (simp_all add: r_def reference_layout_def Let_def)
  have fit: "ln_payload_offset r + ln_block_size r + (if g then unat gs else 0) \<le> ln_block_stride r"
    using g0 g1(2) round_up_nat_ge [OF pos, of "ln_payload_offset r + ln_block_size r + unat gs"]
    by (cases g) simp_all
  have u: "unat (block_size L) = ln_block_size r" "unat (payload_offset L) = ln_payload_offset r"
      "unat (block_stride L) = ln_block_stride r" "unat (storage_size L) = ln_storage_size r"
    using fit sd lt by (simp_all add: L layout_of_nat_def unat_of_nat_size)
  have mx: "max (unat rb) (unat fs) \<le> ln_block_size r" unfolding bs by (rule round_up_nat_ge [OF pos])
  show "block_count L = count" and "alignment L = max ra fa" and "is_power_of_two ra"
    using ra by (simp_all add: L layout_of_nat_def al_def)
  show "rb \<le> block_size L" using mx u by (simp add: word_le_nat_alt)
  have dv: "unat al dvd ln_block_size r" "unat al dvd ln_payload_offset r" "unat al dvd ln_block_stride r"
    using g0 g1 by (cases g; simp add: bs)+
  show "layout_ok g fs gs L"
  proof (cases g)
    case True
    have "max (unat gs) (unat fs) \<le> ln_payload_offset r"
      unfolding g1(1) [OF True] by (rule round_up_nat_ge [OF pos])
    with True dv u mx fit p c total show ?thesis
      by (simp add: layout_ok_def word_le_nat_alt) (simp add: L layout_of_nat_def)
  next
    case False
    with dv u mx p c total g0 show ?thesis
      by (simp add: layout_ok_def word_le_nat_alt) (simp add: L layout_of_nat_def)
  qed
qed

section \<open>Properties\<close>

text \<open>
  C13: the overflow-checked 64-bit layout computation agrees with the same computation on
  unbounded natural numbers. It throws \<^verbatim>\<open>invalid_argument\<close> exactly for a zero count or an alignment
  that is not a power of two, \<^verbatim>\<open>length_error\<close> exactly when the total storage does not fit in 64 bits,
  and otherwise returns the exact values; no intermediate result wraps.
\<close>

theorem layout_matches_reference:
  assumes "is_power_of_two fa"
  shows "make_block_layout rb count ra g fs fa gs =
     (if count = 0 \<or> \<not> is_power_of_two ra then Inl InvalidArgument
      else let al = max ra fa;
               r = reference_layout (unat rb) (unat count) (unat al) g (unat fs) (unat gs)
           in if ln_storage_size r < 2 ^ 64 then Inr (layout_of_nat count al r) else Inl LengthError)"
  using make_block_layout_eq [OF assms] by simp

theorem layout_matches_reference_witness:
  "make_block_layout 20 3 16 True 8 8 8 =
     Inr \<lparr>block_size = 32, block_count = 3, alignment = 16, payload_offset = 16, block_stride = 64, storage_size = 192\<rparr>"
proof -
  have "is_power_of_two 8" "is_power_of_two 16"
    by (rule is_power_of_twoI [of _ 3], simp) (rule is_power_of_twoI [of _ 4], simp)
  then show ?thesis
    using layout_matches_reference [of 8 20 3 16 True 8 8]
    by (simp add: reference_layout_def round_up_nat_def layout_of_nat_def Let_def)
qed

text \<open>
  C14: a returned layout is sound: the alignment is a power of two that satisfies the request
  and the free-list node, payload offset, payload and stride are multiples of it, the payload
  holds the request and a node, with guards both canaries fit around the payload inside the stride,
  and the storage is exactly stride times count.
\<close>

theorem layout_sound:
  assumes "make_block_layout rb count ra g fs fa gs = Inr L" and "is_power_of_two fa"
  shows "alignment L = max ra fa \<and> is_power_of_two (alignment L) \<and>
     unat (alignment L) dvd unat (block_size L) \<and> unat (alignment L) dvd unat (payload_offset L) \<and>
     unat (alignment L) dvd unat (block_stride L) \<and>
     rb \<le> block_size L \<and> fs \<le> block_size L \<and> block_count L = count \<and>
     unat (storage_size L) = unat (block_stride L) * unat count \<and>
     (if g then gs \<le> payload_offset L \<and> fs \<le> payload_offset L \<and>
        unat (payload_offset L) + unat (block_size L) + unat gs \<le> unat (block_stride L)
      else payload_offset L = 0 \<and> block_stride L = block_size L)"
  using make_block_layout_ok [OF assms] by (auto simp: layout_ok_def)

theorem layout_sound_witness:
  "\<exists>L. make_block_layout 20 3 16 False 8 8 8 = Inr L \<and> unat (storage_size L) = unat (block_stride L) * unat (3 :: size_t)"
proof -
  have c: "make_block_layout 20 3 16 False 8 8 8 =
      Inr \<lparr>block_size = 32, block_count = 3, alignment = 16, payload_offset = 0, block_stride = 32, storage_size = 96\<rparr>"
    by (simp add: make_block_layout_def validate_alignment_def round_up_def checked_multiply_def size_max_def)
  have "is_power_of_two 8" by (rule is_power_of_twoI [of _ 3]) simp
  with layout_sound [OF c] c show ?thesis by simp
qed

end
