(* ===== verification/Memory_Guard.thy ===== *)
theory Memory_Guard
  imports Byte_Memory
begin

text \<open>
  \<^verbatim>\<open>src/detail/memory_guard.{hpp,cpp}\<close>: the canaries before and after a guarded payload and the
  poison patterns. The lemmas show that the canaries survive every write inside the payload
  and that a change of any of the sixteen guard bytes is detected.
\<close>

definition guard_size :: size_t where
  "guard_size = 8"

definition front_canary :: "64 word" where
  "front_canary = 0xA110CA7EA110CA7E"

definition back_canary :: "64 word" where
  "back_canary = 0xB10CCAFEB10CCAFE"

definition allocated_pattern :: byte where
  "allocated_pattern = 0xCD"

definition freed_pattern :: byte where
  "freed_pattern = 0xDD"

definition write_canaries :: "mem \<Rightarrow> addr \<Rightarrow> size_t \<Rightarrow> mem" where
  "write_canaries m payload bs =
     store64 (store64 m (payload - guard_size) front_canary) (payload + bs) back_canary"

definition canaries_are_valid :: "mem \<Rightarrow> addr \<Rightarrow> size_t \<Rightarrow> bool" where
  "canaries_are_valid m payload bs \<longleftrightarrow>
     load64 m (payload - guard_size) = front_canary \<and> load64 m (payload + bs) = back_canary"

definition prepare_allocated_memory ::
  "mem \<Rightarrow> addr \<Rightarrow> size_t \<Rightarrow> size_t \<Rightarrow> bool \<Rightarrow> bool \<Rightarrow> mem" where
  "prepare_allocated_memory m raw_block offset bs poison_memory guard_bytes =
     (let payload = raw_block + offset;
          m1 = (if poison_memory then memset m payload allocated_pattern bs else m)
      in if guard_bytes then write_canaries m1 payload bs else m1)"

definition validate_and_prepare_freed_memory ::
  "mem \<Rightarrow> addr \<Rightarrow> size_t \<Rightarrow> size_t \<Rightarrow> bool \<Rightarrow> bool \<Rightarrow> (unit, mem) outcome" where
  "validate_and_prepare_freed_memory m raw_block offset bs poison_memory guard_bytes =
     (let payload = raw_block + offset
      in if guard_bytes \<and> \<not> canaries_are_valid m payload bs then (Inl MemoryCorruptionError, m)
         else (Inr (), if poison_memory then memset m payload freed_pattern bs else m))"

section \<open>Facts\<close>

text \<open>The bytes of the two canaries of a payload, and the shape that keeps them apart.\<close>

definition guard_bytes_of :: "addr \<Rightarrow> size_t \<Rightarrow> addr set" where
  "guard_bytes_of payload bs = extent (payload - guard_size) guard_size \<union> extent (payload + bs) guard_size"

definition guarded_shape :: "addr \<Rightarrow> size_t \<Rightarrow> bool" where
  "guarded_shape payload bs \<longleftrightarrow>
     8 \<le> unat payload \<and> unat payload + unat bs + 8 < 18446744073709551616"

lemma guarded_shapeD:
  assumes "guarded_shape payload bs"
  shows "unat (payload - guard_size) = unat payload - 8" and "no_wrap (payload - guard_size) 8"
    and "unat (payload + bs) = unat payload + unat bs" and "no_wrap (payload + bs) 8"
    and "no_wrap payload bs"
  using assms by (auto simp: guarded_shape_def guard_size_def unat_sub_size unat_add_size no_wrap_def)

lemma guards_apart:
  assumes "guarded_shape payload bs"
  shows "extent (payload - guard_size) 8 \<inter> extent (payload + bs) 8 = {}"
    and "extent (payload - guard_size) 8 \<inter> extent payload bs = {}"
    and "extent (payload + bs) 8 \<inter> extent payload bs = {}"
  using guarded_shapeD [OF assms] assms
  by (intro extent_disjointI; simp add: guarded_shape_def)+

lemma canaries_cong:
  assumes "\<And>x. x \<in> guard_bytes_of payload bs \<Longrightarrow> m' x = m x"
  shows "canaries_are_valid m' payload bs = canaries_are_valid m payload bs"
proof -
  have "load64 m' (payload - guard_size) = load64 m (payload - guard_size)"
    and "load64 m' (payload + bs) = load64 m (payload + bs)"
    by (intro load64_cong assms; simp add: guard_bytes_of_def guard_size_def)+
  then show ?thesis by (simp add: canaries_are_valid_def)
qed

lemma write_canaries_valid:
  "guarded_shape payload bs \<Longrightarrow> canaries_are_valid (write_canaries m payload bs) payload bs"
  using guards_apart(1) [of payload bs]
  by (simp add: canaries_are_valid_def write_canaries_def load64_store64_other)

lemma write_canaries_other:
  "x \<notin> guard_bytes_of payload bs \<Longrightarrow> write_canaries m payload bs x = m x"
  by (simp add: write_canaries_def guard_bytes_of_def guard_size_def store64_other)

lemma canaries_detect_change:
  assumes "canaries_are_valid m payload bs"
    and "x \<in> guard_bytes_of payload bs" and "m' x \<noteq> m x"
  shows "\<not> canaries_are_valid m' payload bs"
proof
  assume "canaries_are_valid m' payload bs"
  then have "load64 m' (payload - guard_size) = load64 m (payload - guard_size)"
    and "load64 m' (payload + bs) = load64 m (payload + bs)"
    using assms(1) by (simp_all add: canaries_are_valid_def)
  then show False using assms(2,3) by (auto simp: load64_eq_iff guard_bytes_of_def guard_size_def)
qed

end
