(* ===== verification/Diagnostic_State.thy ===== *)
theory Diagnostic_State
  imports Pool_Prelude
begin

text \<open>
  \<^verbatim>\<open>src/detail/diagnostic_state.{hpp,cpp}\<close>: the table of block states that a pool in diagnostic
  mode keeps beside its free list. An index outside the table is an out-of-range
  \<^verbatim>\<open>std::vector::operator[]\<close>, which is undefined behaviour.
\<close>

datatype block_state = Free | Allocated

type_synonym diagnostic_state = "block_state list"

definition diagnostic_state_create :: "size_t \<Rightarrow> diagnostic_state" where
  "diagnostic_state_create count = replicate (unat count) Free"

definition try_mark_allocated ::
  "diagnostic_state \<Rightarrow> size_t \<Rightarrow> (bool \<times> diagnostic_state) result" where
  "try_mark_allocated ds index =
     (if unat index \<ge> length ds then Inl UndefinedBehaviour
      else if ds ! unat index \<noteq> Free then Inr (False, ds)
      else Inr (True, ds[unat index := Allocated]))"

definition mark_free :: "diagnostic_state \<Rightarrow> size_t \<Rightarrow> diagnostic_state result" where
  "mark_free ds index =
     (if unat index \<ge> length ds then Inl UndefinedBehaviour
      else if ds ! unat index \<noteq> Allocated then Inl DoubleFreeError
      else Inr (ds[unat index := Free]))"

definition diagnostic_is_allocated :: "diagnostic_state \<Rightarrow> size_t \<Rightarrow> bool result" where
  "diagnostic_is_allocated ds index =
     (if unat index \<ge> length ds then Inl UndefinedBehaviour
      else Inr (ds ! unat index = Allocated))"

definition state_name :: "diagnostic_state \<Rightarrow> size_t \<Rightarrow> string result" where
  "state_name ds index =
     bind_result (diagnostic_is_allocated ds index) (\<lambda>b. Inr (if b then ''allocated'' else ''free''))"

text \<open>The two loops of \<^verbatim>\<open>validate_free_blocks\<close>.\<close>

fun mark_seen :: "diagnostic_state \<Rightarrow> size_t list \<Rightarrow> bool list \<Rightarrow> bool list result" where
  "mark_seen ds [] seen = Inr seen"
| "mark_seen ds (index # rest) seen =
     (if unat index \<ge> length ds then Inl MemoryCorruptionError
      else if seen ! unat index then Inl MemoryCorruptionError
      else if ds ! unat index \<noteq> Free then Inl MemoryCorruptionError
      else mark_seen ds rest (seen[unat index := True]))"

definition states_agree :: "diagnostic_state \<Rightarrow> bool list \<Rightarrow> unit result" where
  "states_agree ds seen =
     (if list_all (\<lambda>index. (ds ! index = Free) = (seen ! index)) [0..<length ds]
      then Inr () else Inl MemoryCorruptionError)"

definition validate_free_blocks ::
  "diagnostic_state \<Rightarrow> size_t list \<Rightarrow> size_t \<Rightarrow> unit result" where
  "validate_free_blocks ds free_indices expected_free_count =
     (if length free_indices \<noteq> unat expected_free_count then Inl MemoryCorruptionError
      else bind_result (mark_seen ds free_indices (replicate (length ds) False)) (states_agree ds))"

section \<open>Facts\<close>

definition free_indices_of :: "diagnostic_state \<Rightarrow> nat set" where
  "free_indices_of ds = {i. i < length ds \<and> ds ! i = Free}"

lemma finite_free_indices_of [simp]: "finite (free_indices_of ds)"
  by (simp add: free_indices_of_def)

lemma length_diagnostic_state_create [simp]: "length (diagnostic_state_create n) = unat n"
  by (simp add: diagnostic_state_create_def)

lemma free_indices_of_create [simp]:
  "free_indices_of (diagnostic_state_create n) = {..<unat n}"
  by (auto simp: free_indices_of_def diagnostic_state_create_def)

lemma try_mark_allocated_free:
  assumes "unat i < length ds" and "ds ! unat i = Free"
  shows "try_mark_allocated ds i = Inr (True, ds[unat i := Allocated])"
    and "free_indices_of (ds[unat i := Allocated]) = free_indices_of ds - {unat i}"
  using assms by (auto simp: try_mark_allocated_def free_indices_of_def nth_list_update)

lemma mark_free_allocated:
  assumes "unat i < length ds" and "ds ! unat i = Allocated"
  shows "mark_free ds i = Inr (ds[unat i := Free])"
    and "free_indices_of (ds[unat i := Free]) = insert (unat i) (free_indices_of ds)"
  using assms by (auto simp: mark_free_def free_indices_of_def nth_list_update)

lemma mark_seen_ok:
  assumes "length seen = length ds"
  shows "mark_seen ds is seen =
     (if (\<forall>i \<in> set is. unat i < length ds \<and> \<not> seen ! unat i \<and> ds ! unat i = Free) \<and> distinct is
      then Inr (map (\<lambda>k. seen ! k \<or> k \<in> unat ` set is) [0..<length ds])
      else Inl MemoryCorruptionError)"
  using assms
proof (induction "is" arbitrary: seen)
  case Nil
  then show ?case by (auto intro!: nth_equalityI)
next
  case (Cons i "is")
  show ?case
  proof (cases "unat i < length ds \<and> \<not> seen ! unat i \<and> ds ! unat i = Free")
    case True
    let ?seen = "seen[unat i := True]"
    have step: "mark_seen ds (i # is) seen = mark_seen ds is ?seen" using True by auto
    have nth: "?seen ! k \<longleftrightarrow> seen ! k \<or> k = unat i" if "k < length ds" for k
      using that True Cons.prems by (auto simp: nth_list_update)
    have cond: "(\<forall>j \<in> set is. unat j < length ds \<and> \<not> ?seen ! unat j \<and> ds ! unat j = Free) \<and> distinct is \<longleftrightarrow>
        (\<forall>j \<in> set (i # is). unat j < length ds \<and> \<not> seen ! unat j \<and> ds ! unat j = Free) \<and> distinct (i # is)"
      using True nth by (auto simp: unat_eq_size)
    have res: "map (\<lambda>k. ?seen ! k \<or> k \<in> unat ` set is) [0..<length ds] =
        map (\<lambda>k. seen ! k \<or> k \<in> unat ` set (i # is)) [0..<length ds]"
      using nth by auto
    have "mark_seen ds is ?seen = (if (\<forall>j \<in> set is. unat j < length ds \<and> \<not> ?seen ! unat j \<and>
        ds ! unat j = Free) \<and> distinct is
      then Inr (map (\<lambda>k. ?seen ! k \<or> k \<in> unat ` set is) [0..<length ds]) else Inl MemoryCorruptionError)"
      using Cons.prems by (intro Cons.IH) simp
    then show ?thesis unfolding step cond res .
  next
    case False
    then show ?thesis by auto
  qed
qed

text \<open>
  The check accepts exactly the duplicate-free enumerations of the free blocks of the table,
  of the expected length.
\<close>

lemma validate_free_blocks_iff:
  "validate_free_blocks ds is n = Inr () \<longleftrightarrow>
     length is = unat n \<and> distinct is \<and> unat ` set is = free_indices_of ds"
proof -
  let ?seen = "map (\<lambda>k. replicate (length ds) False ! k \<or> k \<in> unat ` set is) [0..<length ds]"
  let ?in = "\<forall>i \<in> set is. unat i < length ds \<and> ds ! unat i = Free"
  have in_iff: "?in \<longleftrightarrow> unat ` set is \<subseteq> free_indices_of ds" by (auto simp: free_indices_of_def)
  have agree: "states_agree ds ?seen = Inr () \<longleftrightarrow> free_indices_of ds \<subseteq> unat ` set is" if ?in
    using that by (auto simp: states_agree_def list_all_iff free_indices_of_def)
  have "mark_seen ds is (replicate (length ds) False) =
      (if ?in \<and> distinct is then Inr ?seen else Inl MemoryCorruptionError)"
    by (subst mark_seen_ok) auto
  then show ?thesis using agree in_iff by (auto simp: validate_free_blocks_def)
qed

lemma validate_free_blocks_error:
  "validate_free_blocks ds is n \<noteq> Inr () \<Longrightarrow> validate_free_blocks ds is n = Inl MemoryCorruptionError"
proof -
  assume ne: "validate_free_blocks ds is n \<noteq> Inr ()"
  have "mark_seen ds is s = Inl e \<Longrightarrow> e = MemoryCorruptionError" for s e
    by (induction ds "is" s rule: mark_seen.induct) (auto split: if_splits)
  with ne show ?thesis
    by (cases "mark_seen ds is (replicate (length ds) False)")
      (auto simp: validate_free_blocks_def states_agree_def)
qed

end
