(* ===== verification/Statistics_Tracker.thy ===== *)
theory Statistics_Tracker
  imports Pool_Prelude
begin

text \<open>
  \<^verbatim>\<open>src/detail/statistics_tracker.{hpp,cpp}\<close> and \<^verbatim>\<open>include/memory_pool/pool_statistics.hpp\<close>: the
  optional counters of a fixed pool. All counters are \<^verbatim>\<open>size_t\<close>; only \<open>requested_bytes\<close>
  saturates.
\<close>

record pool_statistics =
  allocation_requests :: size_t
  successful_allocations :: size_t
  deallocation_requests :: size_t
  failed_allocations :: size_t
  currently_allocated :: size_t
  peak_allocated :: size_t
  requested_bytes :: size_t
  reserved_bytes :: size_t

definition zero_statistics :: pool_statistics where
  "zero_statistics =
     \<lparr>allocation_requests = 0, successful_allocations = 0, deallocation_requests = 0,
      failed_allocations = 0, currently_allocated = 0, peak_allocated = 0,
      requested_bytes = 0, reserved_bytes = 0\<rparr>"

definition record_allocation_request :: "pool_statistics \<Rightarrow> size_t \<Rightarrow> pool_statistics" where
  "record_allocation_request s bs =
     (let s' = s\<lparr>allocation_requests := allocation_requests s + 1\<rparr>
      in if requested_bytes s' > size_max - bs then s'\<lparr>requested_bytes := size_max\<rparr>
         else s'\<lparr>requested_bytes := requested_bytes s' + bs\<rparr>)"

definition record_successful_allocation :: "pool_statistics \<Rightarrow> pool_statistics" where
  "record_successful_allocation s =
     (let s1 = s\<lparr>successful_allocations := successful_allocations s + 1\<rparr>;
          s2 = s1\<lparr>currently_allocated := currently_allocated s1 + 1\<rparr>
      in if currently_allocated s2 > peak_allocated s2
         then s2\<lparr>peak_allocated := currently_allocated s2\<rparr> else s2)"

definition record_failed_allocation :: "pool_statistics \<Rightarrow> pool_statistics" where
  "record_failed_allocation s = s\<lparr>failed_allocations := failed_allocations s + 1\<rparr>"

definition record_deallocation :: "pool_statistics \<Rightarrow> pool_statistics" where
  "record_deallocation s =
     s\<lparr>deallocation_requests := deallocation_requests s + 1,
       currently_allocated := currently_allocated s - 1\<rparr>"

lemma requested_bytes_saturates:
  "unat (requested_bytes (record_allocation_request s bs)) =
     min (unat (requested_bytes s) + unat bs) 18446744073709551615"
  by (auto simp: record_allocation_request_def Let_def add_overflow_guard unat_add_size not_le)

end
