(* ===== verification/Memory_Provider.thy ===== *)
theory Memory_Provider
  imports Byte_Memory
begin

text \<open>
  \<^verbatim>\<open>include/memory_pool/memory_provider.hpp\<close> and \<^verbatim>\<open>src/new_delete_memory_provider.cpp\<close>: the
  backing-storage interface and its default implementation over the global \<^verbatim>\<open>new\<close> and \<^verbatim>\<open>delete\<close>.
  The interface is a record of operations that the clients take as an argument; its contract is
  the locale \<open>memory_provider\<close>, interpreted below on \<^verbatim>\<open>NewDeleteMemoryProvider\<close>.
\<close>

section \<open>The interface\<close>

record 'p provider =
  prov_allocate :: "size_t \<Rightarrow> size_t \<Rightarrow> 'p \<Rightarrow> (addr, 'p) outcome"
  prov_deallocate :: "addr \<Rightarrow> size_t \<Rightarrow> size_t \<Rightarrow> 'p \<Rightarrow> 'p"

type_synonym grant = "addr \<times> size_t \<times> size_t"

abbreviation grant_extent :: "grant \<Rightarrow> addr set" where
  "grant_extent g \<equiv> extent (fst g) (fst (snd g))"

text \<open>
  A provider owes its clients: fresh storage that is non-null, aligned, inside the address space
  and disjoint from everything it has handed out; a failed call changes nothing the client can
  see; a deallocation that repeats the size and alignment of a live allocation ends exactly that
  allocation. \<open>live p\<close> is the set of calls of \<^verbatim>\<open>deallocate\<close> that are legitimate in state \<open>p\<close>.
\<close>

locale memory_provider =
  fixes P :: "'p provider"
    and live :: "'p \<Rightarrow> grant set"
    and ok :: "'p \<Rightarrow> bool"
  assumes allocate_Inr:
      "ok p \<Longrightarrow> n \<noteq> 0 \<Longrightarrow> is_power_of_two a \<Longrightarrow> prov_allocate P n a p = (Inr q, p') \<Longrightarrow>
         ok p' \<and> q \<noteq> 0 \<and> unat a dvd unat q \<and> no_wrap q n \<and>
         (\<forall>g \<in> live p. extent q n \<inter> grant_extent g = {}) \<and>
         (q, n, a) \<in> live p' \<and> {g \<in> live p'. fst g \<noteq> q} = live p"
    and allocate_Inl:
      "ok p \<Longrightarrow> prov_allocate P n a p = (Inl e, p') \<Longrightarrow>
         e \<noteq> UndefinedBehaviour \<and> e \<noteq> Terminate \<and> ok p' \<and> live p' = live p"
    and deallocate:
      "ok p \<Longrightarrow> (q, n, a) \<in> live p \<Longrightarrow>
         ok (prov_deallocate P q n a p) \<and>
         live (prov_deallocate P q n a p) = {g \<in> live p. fst g \<noteq> q}"
    and live_wf: "ok p \<Longrightarrow> (q, n, a) \<in> live p \<Longrightarrow> q \<noteq> 0 \<and> n \<noteq> 0 \<and> no_wrap q n"
    and live_disjoint:
      "ok p \<Longrightarrow> g \<in> live p \<Longrightarrow> g' \<in> live p \<Longrightarrow> fst g \<noteq> fst g' \<Longrightarrow>
         grant_extent g \<inter> grant_extent g' = {}"
begin

lemma allocate_live_mono:
  assumes "ok p" and "n \<noteq> 0" and "is_power_of_two a" and "prov_allocate P n a p = (Inr q, p')"
  shows "live p \<subseteq> live p'"
  using allocate_Inr [OF assms] by blast

lemma allocate_fresh:
  assumes "ok p" and "n \<noteq> 0" and "is_power_of_two a" and "prov_allocate P n a p = (Inr q, p')"
    and "g \<in> live p"
  shows "fst g \<noteq> q"
  using allocate_Inr [OF assms(1-4)] assms(5) by blast

text \<open>A round trip through the provider ends with the grants it started with.\<close>

lemma allocate_deallocate:
  assumes "ok p" and "n \<noteq> 0" and "is_power_of_two a" and "prov_allocate P n a p = (Inr q, p')"
  shows "ok (prov_deallocate P q n a p') \<and> live (prov_deallocate P q n a p') = live p"
  using allocate_Inr [OF assms] deallocate [of p' q n a] by simp

text \<open>Destructors return a list of grants, one call each.\<close>

lemma release_list:
  assumes "ok p" and "set gs \<subseteq> live p" and "distinct (map fst gs)"
  shows "ok (fold (\<lambda>(q, n, a). prov_deallocate P q n a) gs p) \<and>
         live (fold (\<lambda>(q, n, a). prov_deallocate P q n a) gs p) = {g \<in> live p. fst g \<notin> fst ` set gs}"
  using assms
proof (induction gs arbitrary: p)
  case (Cons g gs)
  obtain q n a where g: "g = (q, n, a)" by (cases g)
  let ?p = "prov_deallocate P q n a p"
  have d: "ok ?p" "live ?p = {g \<in> live p. fst g \<noteq> q}"
    using deallocate [of p q n a] Cons.prems g by auto
  moreover have "set gs \<subseteq> live ?p" using Cons.prems d g by force
  ultimately have "ok (fold (\<lambda>(q, n, a). prov_deallocate P q n a) gs ?p) \<and>
      live (fold (\<lambda>(q, n, a). prov_deallocate P q n a) gs ?p) = {h \<in> live ?p. fst h \<notin> fst ` set gs}"
    using Cons.prems by (intro Cons.IH) auto
  then show ?case using d g by auto
qed simp

end

section \<open>The global \<open>operator new\<close> and \<open>operator delete\<close>\<close>

text \<open>
  The system allocator of the C++ runtime. \<open>sh_place t\<close> is the address the allocator would use
  for its \<open>t\<close>-th request: the environment chooses it freely, and the theorems below hold for
  every choice. What the standard guarantees is enforced: a request is granted only when the
  chosen storage is non-null, aligned, inside the address space and overlaps no live
  allocation; otherwise it ends in \<^verbatim>\<open>std::bad_alloc\<close>. A live entry records the overload that made
  it (\<open>Some a\<close> for the overload with \<^verbatim>\<open>std::align_val_t\<close>), because a \<^verbatim>\<open>delete\<close> of the other family
  is undefined; \<open>sh_ub\<close> records that such a \<^verbatim>\<open>delete\<close> has happened.
\<close>

record sys_heap =
  sh_live :: "(addr \<times> size_t \<times> size_t option) list"
  sh_place :: "nat \<Rightarrow> size_t \<Rightarrow> size_t \<Rightarrow> addr"
  sh_tick :: nat
  sh_ub :: bool

definition default_new_alignment :: size_t where
  "default_new_alignment = 16"

definition placeable :: "sys_heap \<Rightarrow> addr \<Rightarrow> size_t \<Rightarrow> size_t \<Rightarrow> bool" where
  "placeable h q n a \<longleftrightarrow>
     q \<noteq> 0 \<and> unat a dvd unat q \<and> no_wrap q n \<and>
     list_all (\<lambda>(r, k, _). unat q + unat n \<le> unat r \<or> unat r + unat k \<le> unat q) (sh_live h)"

definition sys_new :: "size_t \<Rightarrow> size_t option \<Rightarrow> sys_heap \<Rightarrow> (addr, sys_heap) outcome" where
  "sys_new bytes fam h =
     (let n = max bytes 1;
          a = (case fam of None \<Rightarrow> default_new_alignment | Some al \<Rightarrow> al);
          q = sh_place h (sh_tick h) n a;
          h' = h\<lparr>sh_tick := Suc (sh_tick h)\<rparr>
      in if placeable h q n a then (Inr q, h'\<lparr>sh_live := (q, n, fam) # sh_live h\<rparr>)
         else (Inl BadAlloc, h'))"

definition sys_delete :: "addr \<Rightarrow> size_t option \<Rightarrow> sys_heap \<Rightarrow> sys_heap" where
  "sys_delete q fam h =
     (if list_ex (\<lambda>(r, _, f). r = q \<and> f = fam) (sh_live h)
      then h\<lparr>sh_live := filter (\<lambda>e. fst e \<noteq> q) (sh_live h)\<rparr>
      else h\<lparr>sh_ub := True\<rparr>)"

definition sys_ok :: "sys_heap \<Rightarrow> bool" where
  "sys_ok h \<longleftrightarrow> \<not> sh_ub h \<and> distinct (map fst (sh_live h)) \<and>
     (\<forall>(q, n, f) \<in> set (sh_live h). q \<noteq> 0 \<and> n \<noteq> 0 \<and> no_wrap q n) \<and>
     (\<forall>e \<in> set (sh_live h). \<forall>e' \<in> set (sh_live h). fst e \<noteq> fst e' \<longrightarrow>
        extent (fst e) (fst (snd e)) \<inter> extent (fst e') (fst (snd e')) = {})"

definition empty_sys_heap :: "(nat \<Rightarrow> size_t \<Rightarrow> size_t \<Rightarrow> addr) \<Rightarrow> sys_heap" where
  "empty_sys_heap place = \<lparr>sh_live = [], sh_place = place, sh_tick = 0, sh_ub = False\<rparr>"

lemma sys_ok_empty [simp]: "sys_ok (empty_sys_heap place)"
  by (simp add: sys_ok_def empty_sys_heap_def)

lemma max_1_nonzero: "max n 1 \<noteq> (0 :: size_t)"
  by (metis max.cobounded2 word_le_0_iff zero_neq_one)

lemma max_1_id: "n \<noteq> 0 \<Longrightarrow> max n 1 = (n :: size_t)"
proof -
  assume "n \<noteq> 0"
  then have "1 \<le> n" by (simp add: word_le_nat_alt unat_gt_0 Suc_le_eq)
  then show ?thesis by (rule max_absorb1)
qed

lemma sys_ok_tick [simp]: "sys_ok (h\<lparr>sh_tick := t\<rparr>) = sys_ok h"
  by (simp add: sys_ok_def)

lemma sys_new_Inr:
  assumes "sys_ok h" and "sys_new bytes fam h = (Inr q, h')"
  defines "n \<equiv> max bytes 1"
  shows "sys_ok h'" and "q \<noteq> 0" and "no_wrap q n"
    and "unat (case fam of None \<Rightarrow> default_new_alignment | Some al \<Rightarrow> al) dvd unat q"
    and "\<forall>e \<in> set (sh_live h). extent q n \<inter> extent (fst e) (fst (snd e)) = {}"
    and "sh_live h' = (q, n, fam) # sh_live h"
    and "q \<notin> fst ` set (sh_live h)"
proof -
  define a where "a = (case fam of None \<Rightarrow> default_new_alignment | Some al \<Rightarrow> al)"
  have pl: "placeable h q n a"
    and h': "h' = h\<lparr>sh_tick := Suc (sh_tick h), sh_live := (q, n, fam) # sh_live h\<rparr>"
    using assms(2) by (auto simp: sys_new_def Let_def n_def a_def split: if_splits)
  show q: "q \<noteq> 0" and nw: "no_wrap q n" and "unat a dvd unat q"
    using pl by (simp_all add: placeable_def)
  show disj: "\<forall>e \<in> set (sh_live h). extent q n \<inter> extent (fst e) (fst (snd e)) = {}"
  proof
    fix e assume e: "e \<in> set (sh_live h)"
    obtain r k f where e': "e = (r, k, f)" by (cases e)
    have "no_wrap r k" using assms(1) e e' by (auto simp: sys_ok_def)
    moreover have "unat q + unat n \<le> unat r \<or> unat r + unat k \<le> unat q"
      using pl e e' by (auto simp: placeable_def list_all_iff)
    ultimately show "extent q n \<inter> extent (fst e) (fst (snd e)) = {}"
      using nw e' by (intro extent_disjointI) auto
  qed
  show l: "sh_live h' = (q, n, fam) # sh_live h" by (simp add: h')
  have n0: "n \<noteq> 0" unfolding n_def by (rule max_1_nonzero)
  show fresh: "q \<notin> fst ` set (sh_live h)"
  proof
    assume "q \<in> fst ` set (sh_live h)"
    then obtain k f where e: "(q, k, f) \<in> set (sh_live h)" by force
    then have "k \<noteq> 0" using assms(1) by (auto simp: sys_ok_def)
    then show False using disj e n0 extent_self [of n q] extent_self [of k q] by force
  qed
  show "sys_ok h'"
    using assms(1) q nw n0 disj fresh l by (auto simp: sys_ok_def h' Int_commute)
qed

lemma sys_new_Inl: "sys_new bytes fam h = (Inl e, h') \<Longrightarrow>
    e = BadAlloc \<and> sh_live h' = sh_live h \<and> (sys_ok h \<longrightarrow> sys_ok h')"
  by (auto simp: sys_new_def Let_def split: if_splits)

lemma sys_delete_live:
  assumes "sys_ok h" and "(q, n, fam) \<in> set (sh_live h)"
  shows "sys_ok (sys_delete q fam h)"
    and "sh_live (sys_delete q fam h) = filter (\<lambda>e. fst e \<noteq> q) (sh_live h)"
  using assms by (auto simp: sys_delete_def sys_ok_def list_ex_iff distinct_map_filter)

section \<open>\<open>NewDeleteMemoryProvider\<close>\<close>

definition needs_extended_alignment :: "size_t \<Rightarrow> bool" where
  "needs_extended_alignment al \<longleftrightarrow> al > default_new_alignment"

definition new_delete_allocate :: "size_t \<Rightarrow> size_t \<Rightarrow> sys_heap \<Rightarrow> (addr, sys_heap) outcome" where
  "new_delete_allocate bytes al h =
     (if bytes = 0 then (Inl InvalidArgument, h)
      else if \<not> is_power_of_two al then (Inl InvalidArgument, h)
      else if needs_extended_alignment al then sys_new bytes (Some al) h
      else sys_new bytes None h)"

definition new_delete_deallocate :: "addr \<Rightarrow> size_t \<Rightarrow> size_t \<Rightarrow> sys_heap \<Rightarrow> sys_heap" where
  "new_delete_deallocate memory bytes al h =
     (if memory = nullptr then h
      else if needs_extended_alignment al then sys_delete memory (Some al) h
      else sys_delete memory None h)"

definition new_delete_provider :: "sys_heap provider" where
  "new_delete_provider =
     \<lparr>prov_allocate = new_delete_allocate, prov_deallocate = new_delete_deallocate\<rparr>"

definition new_delete_family :: "size_t \<Rightarrow> size_t option" where
  "new_delete_family al = (if needs_extended_alignment al then Some al else None)"

definition new_delete_live :: "sys_heap \<Rightarrow> grant set" where
  "new_delete_live h =
     {(q, n, a). is_power_of_two a \<and> (q, n, new_delete_family a) \<in> set (sh_live h)}"

lemma default_new_alignment_dvd:
  assumes "is_power_of_two a" and "\<not> needs_extended_alignment a"
  shows "unat a dvd unat default_new_alignment"
proof (rule is_power_of_two_dvd [OF assms(1)])
  show "is_power_of_two default_new_alignment"
    by (rule is_power_of_twoI [of _ 4]) (simp add: default_new_alignment_def)
  show "a \<le> default_new_alignment" using assms(2) by (simp add: needs_extended_alignment_def not_less)
qed

interpretation new_delete: memory_provider new_delete_provider new_delete_live sys_ok
proof
  fix p p' :: sys_heap and n a q
  assume ok: "sys_ok p" and n: "n \<noteq> 0" and a: "is_power_of_two a"
    and "prov_allocate new_delete_provider n a p = (Inr q, p')"
  then have new: "sys_new n (new_delete_family a) p = (Inr q, p')"
    by (auto simp: new_delete_provider_def new_delete_allocate_def new_delete_family_def
        split: if_splits)
  note s = sys_new_Inr [OF ok new] max_1_id [OF n]
  have "unat a dvd unat q"
  proof (cases "needs_extended_alignment a")
    case True
    then show ?thesis using s(4) by (simp add: new_delete_family_def)
  next
    case False
    then show ?thesis
      using s(4) default_new_alignment_dvd [OF a False]
      by (auto simp: new_delete_family_def intro: dvd_trans)
  qed
  moreover have "\<forall>g \<in> new_delete_live p. extent q n \<inter> grant_extent g = {}"
    using s by (force simp: new_delete_live_def)
  moreover have "(q, n, a) \<in> new_delete_live p'" using s a by (simp add: new_delete_live_def)
  moreover have "{g \<in> new_delete_live p'. fst g \<noteq> q} = new_delete_live p"
    using s by (force simp: new_delete_live_def)
  ultimately show "sys_ok p' \<and> q \<noteq> 0 \<and> unat a dvd unat q \<and> no_wrap q n \<and>
      (\<forall>g \<in> new_delete_live p. extent q n \<inter> grant_extent g = {}) \<and>
      (q, n, a) \<in> new_delete_live p' \<and> {g \<in> new_delete_live p'. fst g \<noteq> q} = new_delete_live p"
    using s by simp
next
  fix p p' :: sys_heap and n a e
  assume "sys_ok p" and "prov_allocate new_delete_provider n a p = (Inl e, p')"
  then show "e \<noteq> UndefinedBehaviour \<and> e \<noteq> Terminate \<and> sys_ok p' \<and> new_delete_live p' = new_delete_live p"
    by (auto simp: new_delete_provider_def new_delete_allocate_def new_delete_live_def
        dest!: sys_new_Inl split: if_splits)
next
  fix p :: sys_heap and q n a
  assume ok: "sys_ok p" and l: "(q, n, a) \<in> new_delete_live p"
  then have q: "q \<noteq> 0" and e: "(q, n, new_delete_family a) \<in> set (sh_live p)"
    by (auto simp: new_delete_live_def sys_ok_def)
  have "prov_deallocate new_delete_provider q n a p = sys_delete q (new_delete_family a) p"
    using q by (simp add: new_delete_provider_def new_delete_deallocate_def new_delete_family_def)
  then show "sys_ok (prov_deallocate new_delete_provider q n a p) \<and>
      new_delete_live (prov_deallocate new_delete_provider q n a p) =
      {g \<in> new_delete_live p. fst g \<noteq> q}"
    using sys_delete_live [OF ok e] by (auto simp: new_delete_live_def)
next
  fix p :: sys_heap and q n a
  assume "sys_ok p" and "(q, n, a) \<in> new_delete_live p"
  then show "q \<noteq> 0 \<and> n \<noteq> 0 \<and> no_wrap q n"
    by (auto simp: new_delete_live_def sys_ok_def)
next
  fix p :: sys_heap and g g'
  assume "sys_ok p" and "g \<in> new_delete_live p" and "g' \<in> new_delete_live p" and "fst g \<noteq> fst g'"
  then show "grant_extent g \<inter> grant_extent g' = {}"
    by (force simp: new_delete_live_def sys_ok_def)
qed

section \<open>Properties\<close>

text \<open>
  \<^verbatim>\<open>NewDeleteMemoryProvider\<close> returns storage that is non-null, aligned as requested and
  disjoint from every live allocation, and releases it through the matching overload of
  \<^verbatim>\<open>operator delete\<close>: after \<^verbatim>\<open>deallocate\<close> with the same size and alignment no mismatched delete has
  happened and the heap has exactly the allocations it had before.
\<close>

theorem new_delete_round_trip:
  assumes "sys_ok h" and "new_delete_allocate bytes al h = (Inr q, h')"
  shows "q \<noteq> 0 \<and> unat al dvd unat q \<and> no_wrap q bytes \<and>
     (\<forall>(r, k, f) \<in> set (sh_live h). extent q bytes \<inter> extent r k = {}) \<and>
     sys_ok (new_delete_deallocate q bytes al h') \<and>
     sh_live (new_delete_deallocate q bytes al h') = sh_live h"
proof -
  have b: "bytes \<noteq> 0" and a: "is_power_of_two al" and new: "sys_new bytes (new_delete_family al) h = (Inr q, h')"
    using assms(2) by (auto simp: new_delete_allocate_def new_delete_family_def split: if_splits)
  note s = sys_new_Inr [OF assms(1) new]
  have "q \<noteq> 0 \<and> unat al dvd unat q \<and> no_wrap q bytes"
    using new_delete.allocate_Inr [OF assms(1) b a, of q h'] assms(2) by (simp add: new_delete_provider_def)
  moreover have "\<forall>(r, k, f) \<in> set (sh_live h). extent q bytes \<inter> extent r k = {}"
    using s(5) max_1_id [OF b] by fastforce
  moreover have "new_delete_deallocate q bytes al h' = sys_delete q (new_delete_family al) h'"
    using s(2) by (simp add: new_delete_deallocate_def new_delete_family_def)
  moreover have "sys_ok (sys_delete q (new_delete_family al) h') \<and> sh_live (sys_delete q (new_delete_family al) h') = sh_live h"
    using sys_delete_live [OF s(1), of q "max bytes 1" "new_delete_family al"] s(6,7)
    by (simp add: filter_id_conv) force
  ultimately show ?thesis by simp
qed

theorem new_delete_round_trip_witness:
  "\<exists>q h'. new_delete_allocate 100 64 (empty_sys_heap (\<lambda>t n a. 8192)) = (Inr q, h') \<and>
     sh_live h' = [(8192, 100, Some 64)] \<and> sh_live (new_delete_deallocate q 100 64 h') = []"
proof -
  let ?h = "empty_sys_heap (\<lambda>t n a. 8192)"
  have c: "new_delete_allocate 100 64 ?h =
      (Inr 8192, ?h\<lparr>sh_tick := 1, sh_live := [(8192, 100, Some 64)]\<rparr>)"
    by (simp add: new_delete_allocate_def is_power_of_two_def needs_extended_alignment_def default_new_alignment_def
        sys_new_def placeable_def no_wrap_def empty_sys_heap_def Let_def max_1_id)
  show ?thesis using new_delete_round_trip [OF sys_ok_empty c] c by (simp add: empty_sys_heap_def)
qed

end
