(* ===== verification/Fixed_Pool.thy ===== *)
theory Fixed_Pool
  imports Free_List Block_Layout Memory_Guard Diagnostic_State Statistics_Tracker Memory_Provider
begin

text \<open>
  \<^verbatim>\<open>include/memory_pool/fixed_size_memory_pool.hpp\<close>, \<^verbatim>\<open>pool_options.hpp\<close> and
  \<^verbatim>\<open>src/fixed_size_memory_pool.cpp\<close>: the fixed-capacity pool. The record keeps the fields of the
  class; every operation takes the byte memory beside the pool and returns both, also when it
  throws. \<open>pool_inv m p F\<close> says that the intrusive list visits exactly the blocks \<open>F\<close>, in this
  order, and that the counters, the diagnostic table and the canaries agree with it.
\<close>

section \<open>State\<close>

datatype diagnostic_mode = DiagnosticsDisabled | DiagnosticsEnabled

text \<open>\<open>opt_leak_handler\<close> tells whether the callback pointer is non-null.\<close>

record pool_options =
  opt_diagnostics :: diagnostic_mode
  opt_poison_memory :: bool
  opt_guard_bytes :: bool
  opt_collect_statistics :: bool
  opt_leak_handler :: bool

record fixed_pool =
  fp_storage :: addr
  fp_free_head :: addr
  fp_block_size :: size_t
  fp_block_count :: size_t
  fp_alignment :: size_t
  fp_payload_offset :: size_t
  fp_block_stride :: size_t
  fp_storage_size :: size_t
  fp_free_blocks :: size_t
  fp_options :: pool_options
  fp_fast_path :: bool
  fp_statistics :: pool_statistics
  fp_diagnostic_state :: "diagnostic_state option"

definition free_node_size :: size_t where
  "free_node_size = 8"

definition free_node_alignment :: size_t where
  "free_node_alignment = 8"

section \<open>Operations\<close>

definition fixed_pool_create ::
  "size_t \<Rightarrow> size_t \<Rightarrow> size_t \<Rightarrow> pool_options \<Rightarrow> mem \<Rightarrow> sys_heap \<Rightarrow> (fixed_pool, mem \<times> sys_heap) outcome" where
  "fixed_pool_create bs count al options m h =
     (case make_block_layout bs count al (opt_guard_bytes options)
             free_node_size free_node_alignment guard_size of
        Inl e \<Rightarrow> (Inl e, (m, h))
      | Inr L \<Rightarrow>
          (let diag = (if opt_diagnostics options = DiagnosticsEnabled
                       then Some (diagnostic_state_create (block_count L)) else None)
           in case sys_new (storage_size L) (Some (alignment L)) h of
                (Inl e, h') \<Rightarrow> (Inl e, (m, h'))
              | (Inr st, h') \<Rightarrow>
                  (let (m', head) = init_free_list (unat (block_count L)) st (block_stride L) m nullptr
                   in (Inr \<lparr>fp_storage = st, fp_free_head = head,
                            fp_block_size = block_size L, fp_block_count = block_count L,
                            fp_alignment = alignment L, fp_payload_offset = payload_offset L,
                            fp_block_stride = block_stride L, fp_storage_size = storage_size L,
                            fp_free_blocks = block_count L, fp_options = options,
                            fp_fast_path =
                              (opt_diagnostics options = DiagnosticsDisabled \<and>
                               \<not> opt_poison_memory options \<and> \<not> opt_guard_bytes options \<and>
                               \<not> opt_collect_statistics options),
                            fp_statistics = zero_statistics\<lparr>reserved_bytes := storage_size L\<rparr>,
                            fp_diagnostic_state = diag\<rparr>, (m', h')))))"

text \<open>The destructor reports the outstanding blocks (the argument of the leak handler) and releases the storage.\<close>

definition fixed_pool_destroy :: "fixed_pool \<Rightarrow> sys_heap \<Rightarrow> size_t option \<times> sys_heap" where
  "fixed_pool_destroy p h =
     ((if fp_diagnostic_state p \<noteq> None \<and> opt_leak_handler (fp_options p) \<and>
          fp_free_blocks p \<noteq> fp_block_count p
       then Some (fp_block_count p - fp_free_blocks p) else None),
      sys_delete (fp_storage p) (Some (fp_alignment p)) h)"

definition pool_owns :: "fixed_pool \<Rightarrow> addr \<Rightarrow> bool" where
  "pool_owns p pointer \<longleftrightarrow>
     pointer \<ge> fp_storage p \<and> pointer < fp_storage p + fp_storage_size p"

definition pool_is_block_start :: "fixed_pool \<Rightarrow> addr \<Rightarrow> bool" where
  "pool_is_block_start p pointer \<longleftrightarrow>
     (if pointer = nullptr \<or> \<not> pool_owns p pointer then False
      else let offset = pointer - fp_storage p
           in offset \<ge> fp_payload_offset p \<and>
              (offset - fp_payload_offset p) mod fp_block_stride p = 0 \<and>
              (offset - fp_payload_offset p) div fp_block_stride p < fp_block_count p)"

definition pool_block_index :: "fixed_pool \<Rightarrow> addr \<Rightarrow> size_t result" where
  "pool_block_index p pointer =
     (if \<not> pool_is_block_start p pointer then Inl InvalidPoolPointer
      else Inr ((pointer - fp_storage p - fp_payload_offset p) div fp_block_stride p))"

definition pool_is_raw_block_start :: "fixed_pool \<Rightarrow> addr \<Rightarrow> bool" where
  "pool_is_raw_block_start p pointer \<longleftrightarrow>
     (if pointer = nullptr then False
      else pointer \<ge> fp_storage p \<and> pointer < fp_storage p + fp_storage_size p \<and>
           (pointer - fp_storage p) mod fp_block_stride p = 0)"

definition pool_raw_block_index :: "fixed_pool \<Rightarrow> addr \<Rightarrow> size_t" where
  "pool_raw_block_index p pointer = (pointer - fp_storage p) div fp_block_stride p"

definition payload_from_raw_block :: "fixed_pool \<Rightarrow> addr \<Rightarrow> addr" where
  "payload_from_raw_block p raw = raw + fp_payload_offset p"

definition raw_block_from_payload :: "fixed_pool \<Rightarrow> addr \<Rightarrow> addr" where
  "raw_block_from_payload p payload = payload - fp_payload_offset p"

definition pool_allocate :: "mem \<Rightarrow> fixed_pool \<Rightarrow> (addr, mem \<times> fixed_pool) outcome" where
  "pool_allocate m p =
     (if fp_fast_path p then
        (if fp_free_head p = nullptr then (Inr nullptr, (m, p))
         else let node = fp_free_head p
              in (Inr node, (m, p\<lparr>fp_free_head := load64 m node,
                                  fp_free_blocks := fp_free_blocks p - 1\<rparr>)))
      else
        let stats = opt_collect_statistics (fp_options p);
            p1 = (if stats then p\<lparr>fp_statistics := record_allocation_request (fp_statistics p) (fp_block_size p)\<rparr>
                  else p)
        in if fp_free_head p1 = nullptr then
             (Inr nullptr,
              (m, if stats then p1\<lparr>fp_statistics := record_failed_allocation (fp_statistics p1)\<rparr> else p1))
           else
             let node = fp_free_head p1;
                 p2 = p1\<lparr>fp_free_head := load64 m node, fp_free_blocks := fp_free_blocks p1 - 1\<rparr>;
                 marked = (case fp_diagnostic_state p2 of
                             None \<Rightarrow> Inr p2
                           | Some ds \<Rightarrow>
                               (case try_mark_allocated ds (pool_raw_block_index p2 node) of
                                  Inl e \<Rightarrow> Inl e
                                | Inr (ok, ds') \<Rightarrow>
                                    if ok then Inr (p2\<lparr>fp_diagnostic_state := Some ds'\<rparr>)
                                    else Inl Terminate))
             in case marked of
                  Inl e \<Rightarrow> (Inl e, (m, p2))
                | Inr p3 \<Rightarrow>
                    let m1 = (if opt_poison_memory (fp_options p3) \<or> opt_guard_bytes (fp_options p3)
                              then prepare_allocated_memory m node (fp_payload_offset p3) (fp_block_size p3)
                                     (opt_poison_memory (fp_options p3)) (opt_guard_bytes (fp_options p3))
                              else m);
                        p4 = (if stats then p3\<lparr>fp_statistics := record_successful_allocation (fp_statistics p3)\<rparr>
                              else p3)
                    in (Inr (payload_from_raw_block p4 node), (m1, p4)))"

definition pool_deallocate :: "mem \<Rightarrow> fixed_pool \<Rightarrow> addr \<Rightarrow> (unit, mem \<times> fixed_pool) outcome" where
  "pool_deallocate m p pointer =
     (if pointer = nullptr then (Inr (), (m, p))
      else case pool_block_index p pointer of
        Inl e \<Rightarrow> (Inl e, (m, p))
      | Inr index \<Rightarrow>
          let raw_block = raw_block_from_payload p pointer
          in if fp_fast_path p then
               (let (m', head) = push_free m (fp_free_head p) raw_block
                in (Inr (), (m', p\<lparr>fp_free_head := head, fp_free_blocks := fp_free_blocks p + 1\<rparr>)))
             else
               (case (if opt_poison_memory (fp_options p) \<or> opt_guard_bytes (fp_options p)
                      then validate_and_prepare_freed_memory m raw_block (fp_payload_offset p) (fp_block_size p)
                             (opt_poison_memory (fp_options p)) (opt_guard_bytes (fp_options p))
                      else (Inr (), m)) of
                  (Inl e, m1) \<Rightarrow> (Inl e, (m1, p))
                | (Inr _, m1) \<Rightarrow>
                    (case (case fp_diagnostic_state p of
                             None \<Rightarrow> Inr None
                           | Some ds \<Rightarrow> bind_result (mark_free ds index) (\<lambda>ds'. Inr (Some ds'))) of
                       Inl e \<Rightarrow> (Inl e, (m1, p))
                     | Inr ds' \<Rightarrow>
                         let p1 = p\<lparr>fp_diagnostic_state := ds'\<rparr>;
                             p2 = (if opt_collect_statistics (fp_options p)
                                   then p1\<lparr>fp_statistics := record_deallocation (fp_statistics p1)\<rparr> else p1);
                             (m2, head) = push_free m1 (fp_free_head p2) raw_block
                         in (Inr (), (m2, p2\<lparr>fp_free_head := head, fp_free_blocks := fp_free_blocks p2 + 1\<rparr>)))))"

definition pool_is_allocated :: "fixed_pool \<Rightarrow> addr \<Rightarrow> bool result" where
  "pool_is_allocated p pointer =
     (case fp_diagnostic_state p of
        None \<Rightarrow> Inl LogicError
      | Some ds \<Rightarrow> bind_result (pool_block_index p pointer) (diagnostic_is_allocated ds))"

text \<open>
  The traversal of \<^verbatim>\<open>validate_integrity\<close>. The loop ends on any memory contents: it gives up when it
  has visited more nodes than the pool has blocks. The vector that collects the indices is taken to get its memory.
\<close>

function collect_free_indices ::
  "mem \<Rightarrow> fixed_pool \<Rightarrow> addr \<Rightarrow> size_t list \<Rightarrow> size_t list result" where
  "collect_free_indices m p node acc =
     (if node = nullptr then Inr acc
      else if \<not> pool_is_raw_block_start p node then Inl MemoryCorruptionError
      else let acc' = acc @ [pool_raw_block_index p node]
           in if length acc' > unat (fp_block_count p) then Inl MemoryCorruptionError
              else collect_free_indices m p (load64 m node) acc')"
  by pat_completeness auto
termination
  by (relation "measure (\<lambda>(m, p, node, acc). Suc (unat (fp_block_count p)) - length acc)") auto

declare collect_free_indices.simps [simp del]

definition pool_validate_integrity :: "mem \<Rightarrow> fixed_pool \<Rightarrow> unit result" where
  "pool_validate_integrity m p =
     (case fp_diagnostic_state p of
        None \<Rightarrow> Inl LogicError
      | Some ds \<Rightarrow>
          bind_result (collect_free_indices m p (fp_free_head p) [])
            (\<lambda>free_indices. validate_free_blocks ds free_indices (fp_free_blocks p)))"

definition validate_allocated_pointer :: "fixed_pool \<Rightarrow> addr \<Rightarrow> unit result" where
  "validate_allocated_pointer p pointer =
     bind_result (pool_block_index p pointer) (\<lambda>index.
       case fp_diagnostic_state p of
         None \<Rightarrow> Inr ()
       | Some ds \<Rightarrow> bind_result (diagnostic_is_allocated ds index)
                      (\<lambda>live. if \<not> live then Inl DoubleFreeError else Inr ()))"

definition pool_in_use :: "fixed_pool \<Rightarrow> size_t" where
  "pool_in_use p = fp_block_count p - fp_free_blocks p"

definition pool_diagnostics_enabled :: "fixed_pool \<Rightarrow> bool" where
  "pool_diagnostics_enabled p \<longleftrightarrow> fp_diagnostic_state p \<noteq> None"

text \<open>
  \<^verbatim>\<open>debug_dump\<close> as a function to the text it writes. \<open>decimal\<close> is the default formatting of an
  unsigned integer by \<^verbatim>\<open>std::ostream\<close>; the free-list part is bounded by the capacity, so it ends
  on a cyclic or corrupted list.
\<close>

fun decimal :: "nat \<Rightarrow> string" where
  "decimal n = (if n < 10 then [char_of (48 + n)] else decimal (n div 10) @ [char_of (48 + n mod 10)])"

declare decimal.simps [simp del]

definition newline :: string where
  "newline = [char_of (10 :: nat)]"

fun dump_block_states :: "diagnostic_state \<Rightarrow> nat list \<Rightarrow> string result" where
  "dump_block_states ds [] = Inr []"
| "dump_block_states ds (index # rest) =
     bind_result (state_name ds (of_nat index)) (\<lambda>name.
     bind_result (dump_block_states ds rest) (\<lambda>out.
       Inr (''block['' @ decimal index @ '']='' @ name @ newline @ out)))"

function dump_nodes :: "mem \<Rightarrow> fixed_pool \<Rightarrow> addr \<Rightarrow> nat \<Rightarrow> string \<Rightarrow> addr \<times> nat \<times> string" where
  "dump_nodes m p node visited out =
     (if \<not> (node \<noteq> nullptr \<and> visited < unat (fp_block_count p)) then (node, visited, out)
      else if \<not> pool_is_raw_block_start p node then (nullptr, visited, out @ ''invalid-address'')
      else dump_nodes m p (load64 m node) (visited + 1)
             (out @ (if visited \<noteq> 0 then ''->'' else []) @ decimal (unat (pool_raw_block_index p node))))"
  by pat_completeness auto
termination
  by (relation "measure (\<lambda>(m, p, node, visited, out). unat (fp_block_count p) - visited)") auto

declare dump_nodes.simps [simp del]

definition dump_free_list :: "mem \<Rightarrow> fixed_pool \<Rightarrow> string" where
  "dump_free_list m p =
     (case dump_nodes m p (fp_free_head p) 0 ''free_list='' of
        (node, visited, out) \<Rightarrow>
          (if node \<noteq> nullptr then out @ ''->cycle-or-overflow''
           else if visited = 0 then out @ ''empty'' else out) @ newline)"

definition debug_dump :: "mem \<Rightarrow> fixed_pool \<Rightarrow> string result" where
  "debug_dump m p =
     (let header = ''FixedSizeMemoryPool{block_size='' @ decimal (unat (fp_block_size p)) @
                   '', capacity='' @ decimal (unat (fp_block_count p)) @
                   '', available='' @ decimal (unat (fp_free_blocks p)) @
                   '', diagnostics='' @ (if pool_diagnostics_enabled p then ''enabled'' else ''disabled'') @
                   ''}'' @ newline
      in case fp_diagnostic_state p of
           None \<Rightarrow> Inr (header @ ''block states unavailable'' @ newline)
         | Some ds \<Rightarrow>
             bind_result (dump_block_states ds [0..<unat (fp_block_count p)]) (\<lambda>states.
               Inr (header @ states @ dump_free_list m p)))"

end
