(* ===== verification/Block_Source.thy ===== *)
theory Block_Source
  imports Byte_Memory
begin

text \<open>
  The contract that every block allocator of the library owes a client: \<open>alloc\<close> hands out
  blocks that nobody holds, \<open>free\<close> takes back what is held, and the client may write into the
  bytes of the blocks it holds. The locale is interpreted on \<^verbatim>\<open>FixedSizeMemoryPool\<close>,
  \<^verbatim>\<open>MemoryChunk\<close> and the chunk pools.
\<close>

section \<open>Well-behaved clients\<close>

text \<open>
  \<open>client_run alloc free poke sz s0 s H\<close>: starting in \<open>s0\<close> with no block, a client that frees only
  pointers it holds and writes only into blocks it holds can reach state \<open>s\<close> holding the
  pointers \<open>H\<close>.
\<close>

inductive client_run ::
  "('s \<Rightarrow> (addr, 's) outcome) \<Rightarrow> (addr \<Rightarrow> 's \<Rightarrow> (unit, 's) outcome) \<Rightarrow> (addr \<Rightarrow> byte \<Rightarrow> 's \<Rightarrow> 's) \<Rightarrow>
   ('s \<Rightarrow> size_t) \<Rightarrow> 's \<Rightarrow> 's \<Rightarrow> addr set \<Rightarrow> bool"
  for alloc free poke sz s0 where
  run_start: "client_run alloc free poke sz s0 s0 {}"
| run_alloc: "client_run alloc free poke sz s0 s H \<Longrightarrow> alloc s = (Inr q, s') \<Longrightarrow>
    client_run alloc free poke sz s0 s' (if q = nullptr then H else insert q H)"
| run_alloc_throw: "client_run alloc free poke sz s0 s H \<Longrightarrow> alloc s = (Inl e, s') \<Longrightarrow>
    client_run alloc free poke sz s0 s' H"
| run_free: "client_run alloc free poke sz s0 s H \<Longrightarrow> q \<in> H \<Longrightarrow> free q s = (r, s') \<Longrightarrow>
    client_run alloc free poke sz s0 s' (H - {q})"
| run_poke: "client_run alloc free poke sz s0 s H \<Longrightarrow> q \<in> H \<Longrightarrow> x \<in> extent q (sz s) \<Longrightarrow>
    client_run alloc free poke sz s0 (poke x b s) H"

inductive_cases client_runE: "client_run alloc free poke sz s0 s H"

section \<open>The contract\<close>

locale block_source =
  fixes alloc :: "'s \<Rightarrow> (addr, 's) outcome"
    and free :: "addr \<Rightarrow> 's \<Rightarrow> (unit, 's) outcome"
    and poke :: "addr \<Rightarrow> byte \<Rightarrow> 's \<Rightarrow> 's"
    and sz :: "'s \<Rightarrow> size_t"
    and inv :: "'s \<Rightarrow> bool"
    and live :: "'s \<Rightarrow> addr set"
  assumes alloc_block:
      "inv s \<Longrightarrow> alloc s = (Inr q, s') \<Longrightarrow> q \<noteq> 0 \<Longrightarrow>
         inv s' \<and> q \<notin> live s \<and> live s' = insert q (live s) \<and> sz s' = sz s"
    and alloc_null:
      "inv s \<Longrightarrow> alloc s = (Inr 0, s') \<Longrightarrow> inv s' \<and> live s' = live s \<and> sz s' = sz s"
    and alloc_throw:
      "inv s \<Longrightarrow> alloc s = (Inl e, s') \<Longrightarrow>
         e \<noteq> UndefinedBehaviour \<and> e \<noteq> Terminate \<and> inv s' \<and> live s' = live s \<and> sz s' = sz s"
    and free_held:
      "inv s \<Longrightarrow> q \<in> live s \<Longrightarrow>
         \<exists>s'. free q s = (Inr (), s') \<and> inv s' \<and> live s' = live s - {q} \<and> sz s' = sz s"
    and poke_held:
      "inv s \<Longrightarrow> q \<in> live s \<Longrightarrow> x \<in> extent q (sz s) \<Longrightarrow>
         inv (poke x b s) \<and> live (poke x b s) = live s \<and> sz (poke x b s) = sz s"
    and live_nonnull: "inv s \<Longrightarrow> q \<in> live s \<Longrightarrow> q \<noteq> 0"
    and live_apart:
      "inv s \<Longrightarrow> q \<in> live s \<Longrightarrow> r \<in> live s \<Longrightarrow> q \<noteq> r \<Longrightarrow> extent q (sz s) \<inter> extent r (sz s) = {}"
begin

text \<open>The allocator's view of the live blocks is always what the client holds.\<close>

lemma client_run_inv:
  assumes "client_run alloc free poke sz s0 s H" and "inv s0" and "live s0 = {}"
  shows "inv s \<and> live s = H \<and> sz s = sz s0"
  using assms
proof (induction rule: client_run.induct)
  case (run_alloc s H q s')
  then show ?case using alloc_block [of s q s'] alloc_null [of s s'] by (cases "q = 0") auto
next
  case (run_alloc_throw s H e s')
  then show ?case using alloc_throw [of s e s'] by auto
next
  case (run_free s H q r s')
  then show ?case using free_held [of s q] by auto
next
  case (run_poke s H q x b)
  then show ?case using poke_held [of s q x b] by auto
qed simp

text \<open>Blocks held at the same time never overlap, and returning a held block never throws.\<close>

lemma client_blocks_apart:
  assumes "client_run alloc free poke sz s0 s H" and "inv s0" and "live s0 = {}"
    and "q \<in> H" and "r \<in> H" and "q \<noteq> r"
  shows "extent q (sz s) \<inter> extent r (sz s) = {}"
  using client_run_inv [OF assms(1-3)] live_apart [of s q r] assms(4-6) by simp

lemma client_free_succeeds:
  assumes "client_run alloc free poke sz s0 s H" and "inv s0" and "live s0 = {}" and "q \<in> H"
  shows "\<exists>s'. free q s = (Inr (), s')"
  using client_run_inv [OF assms(1-3)] free_held [of s q] assms(4) by auto

lemma client_alloc_fresh:
  assumes "client_run alloc free poke sz s0 s H" and "inv s0" and "live s0 = {}"
    and "alloc s = (Inr q, s')" and "q \<noteq> 0"
  shows "q \<notin> H" and "\<And>r. r \<in> H \<Longrightarrow> extent q (sz s) \<inter> extent r (sz s) = {}"
proof -
  note i = client_run_inv [OF assms(1-3)]
  then have a: "inv s'" "q \<notin> live s" "live s' = insert q (live s)" "sz s' = sz s"
    using alloc_block [of s q s'] assms(4,5) by auto
  then show "q \<notin> H" using i by simp
  fix r assume "r \<in> H"
  then show "extent q (sz s) \<inter> extent r (sz s) = {}"
    using live_apart [of s' q r] a i \<open>q \<notin> H\<close> by auto
qed

end

end
