(* ===== verification/Fixed_Pool_Correct.thy ===== *)
theory Fixed_Pool_Correct
  imports Fixed_Pool Block_Source
begin

text \<open>
  The invariant of \<^verbatim>\<open>FixedSizeMemoryPool\<close>, that every operation keeps it, and the behaviour of
  every operation on every branch.
\<close>

section \<open>Geometry\<close>

definition pool_layout :: "fixed_pool \<Rightarrow> block_layout" where
  "pool_layout p =
     \<lparr>block_size = fp_block_size p, block_count = fp_block_count p, alignment = fp_alignment p,
      payload_offset = fp_payload_offset p, block_stride = fp_block_stride p,
      storage_size = fp_storage_size p\<rparr>"

abbreviation pool_block :: "fixed_pool \<Rightarrow> nat \<Rightarrow> addr" where
  "pool_block p i \<equiv> block_at (fp_storage p) (fp_block_stride p) i"

definition pool_payload :: "fixed_pool \<Rightarrow> nat \<Rightarrow> addr" where
  "pool_payload p i = payload_from_raw_block p (pool_block p i)"

text \<open>What the constructor fixes for the lifetime of the pool.\<close>

definition pool_shape :: "fixed_pool \<Rightarrow> bool" where
  "pool_shape p \<longleftrightarrow>
     layout_ok (opt_guard_bytes (fp_options p)) free_node_size guard_size (pool_layout p) \<and>
     region_ok (fp_storage p) (fp_block_stride p) (unat (fp_block_count p)) \<and>
     unat (fp_alignment p) dvd unat (fp_storage p) \<and>
     free_node_alignment \<le> fp_alignment p \<and>
     fp_fast_path p = (opt_diagnostics (fp_options p) = DiagnosticsDisabled \<and>
       \<not> opt_poison_memory (fp_options p) \<and> \<not> opt_guard_bytes (fp_options p) \<and>
       \<not> opt_collect_statistics (fp_options p)) \<and>
     (fp_diagnostic_state p \<noteq> None \<longleftrightarrow> opt_diagnostics (fp_options p) = DiagnosticsEnabled)"

lemma pool_shapeD:
  assumes "pool_shape p"
  shows "region_ok (fp_storage p) (fp_block_stride p) (unat (fp_block_count p))"
    and "unat (fp_storage_size p) = unat (fp_block_stride p) * unat (fp_block_count p)"
    and "unat (fp_payload_offset p) + unat (fp_block_size p) \<le> unat (fp_block_stride p)"
    and "8 \<le> unat (fp_block_size p)"
    and "no_wrap (fp_storage p) (fp_storage_size p)"
    and "0 < unat (fp_block_count p)"
proof -
  show "region_ok (fp_storage p) (fp_block_stride p) (unat (fp_block_count p))"
    and "unat (fp_storage_size p) = unat (fp_block_stride p) * unat (fp_block_count p)"
    and "8 \<le> unat (fp_block_size p)"
    and "0 < unat (fp_block_count p)"
    and "unat (fp_payload_offset p) + unat (fp_block_size p) \<le> unat (fp_block_stride p)"
    using assms
    by (auto simp: pool_shape_def layout_ok_def pool_layout_def word_le_nat_alt free_node_size_def
        unat_gt_0 split: if_splits)
  then show "no_wrap (fp_storage p) (fp_storage_size p)"
    using region_okD(3) by (simp add: no_wrap_def mult.commute)
qed

lemma pool_payload_less:
  assumes "pool_shape p"
  shows "unat (fp_payload_offset p) < unat (fp_block_stride p)"
  using pool_shapeD(3,4) [OF assms] by linarith

lemma unat_pool_payload:
  assumes "pool_shape p" and "i < unat (fp_block_count p)"
  shows "unat (pool_payload p i) =
     unat (fp_storage p) + i * unat (fp_block_stride p) + unat (fp_payload_offset p)"
proof -
  note s = pool_shapeD [OF assms(1)]
  have "unat (pool_block p i) = unat (fp_storage p) + i * unat (fp_block_stride p)"
    using s(1) assms(2) by (simp add: unat_block_at)
  moreover have "unat (fp_storage p) + i * unat (fp_block_stride p) + unat (fp_payload_offset p)
      < 18446744073709551616"
    using region_okD(3) [OF s(1)] index_bound [OF assms(2), of "unat (fp_block_stride p)"]
      pool_payload_less [OF assms(1)] by linarith
  ultimately show ?thesis by (simp add: pool_payload_def payload_from_raw_block_def unat_add_size)
qed

lemma pool_payload_nonnull:
  assumes "pool_shape p" and "i < unat (fp_block_count p)"
  shows "pool_payload p i \<noteq> 0"
  using unat_pool_payload [OF assms] region_okD(1) [OF pool_shapeD(1) [OF assms(1)]]
  by (auto simp del: unat_0_iff simp: unat_0_iff [symmetric])

lemma pool_payload_inj:
  assumes "pool_shape p" and "i < unat (fp_block_count p)" and "j < unat (fp_block_count p)"
    and "pool_payload p i = pool_payload p j"
  shows "i = j"
  using assms block_at_inj [OF pool_shapeD(1) [OF assms(1)], of i j]
  by (simp add: pool_payload_def payload_from_raw_block_def)

lemma raw_block_of_pool_payload [simp]:
  "raw_block_from_payload p (pool_payload p i) = pool_block p i"
  by (simp add: raw_block_from_payload_def pool_payload_def payload_from_raw_block_def)

lemma pool_payload_offset:
  assumes "pool_shape p" and "i < unat (fp_block_count p)"
  shows "unat (pool_payload p i - fp_storage p - fp_payload_offset p) = i * unat (fp_block_stride p)"
  using block_offset [OF pool_shapeD(1) [OF assms(1)], of i] assms(2)
  by (simp add: pool_payload_def payload_from_raw_block_def)

lemma pool_payload_owned:
  assumes "pool_shape p" and "i < unat (fp_block_count p)"
  shows "pool_owns p (pool_payload p i)"
proof -
  note s = pool_shapeD [OF assms(1)]
  have "unat (fp_storage p + fp_storage_size p) = unat (fp_storage p) + unat (fp_storage_size p)"
    using s(5) by (simp add: no_wrap_def unat_add_size)
  moreover have "i * unat (fp_block_stride p) + unat (fp_payload_offset p) < unat (fp_storage_size p)"
    using index_bound [OF assms(2), of "unat (fp_block_stride p)"] pool_payload_less [OF assms(1)] s(2)
    by (simp add: mult.commute)
  ultimately show ?thesis
    using unat_pool_payload [OF assms] by (simp add: pool_owns_def word_le_nat_alt word_less_nat_alt)
qed

lemma pool_owns_iff:
  assumes "pool_shape p"
  shows "pool_owns p q \<longleftrightarrow> q \<in> extent (fp_storage p) (fp_storage_size p)"
  using pool_shapeD(5) [OF assms]
  by (simp add: pool_owns_def extent_iff word_le_nat_alt word_less_nat_alt no_wrap_def unat_add_size)

text \<open>The address test accepts exactly the payload addresses of the pool's blocks.\<close>

lemma pool_is_block_start_iff:
  assumes "pool_shape p"
  shows "pool_is_block_start p q \<longleftrightarrow> (\<exists>i < unat (fp_block_count p). q = pool_payload p i)"
proof
  assume b: "pool_is_block_start p q"
  define o' where "o' = q - fp_storage p - fp_payload_offset p"
  define i where "i = unat (o' div fp_block_stride p)"
  have lt: "o' div fp_block_stride p < fp_block_count p" and md: "o' mod fp_block_stride p = 0"
    using b by (auto simp: pool_is_block_start_def Let_def o'_def split: if_splits)
  have "i < unat (fp_block_count p)" using lt by (simp add: i_def word_less_nat_alt)
  moreover have "o' = of_nat i * fp_block_stride p"
    using md by (simp add: i_def word_mod_less_divisor) (metis add.right_neutral div_mult_mod_eq)
  then have "q = pool_payload p i"
    by (simp add: o'_def pool_payload_def payload_from_raw_block_def block_at_def algebra_simps)
  ultimately show "\<exists>i < unat (fp_block_count p). q = pool_payload p i" by blast
next
  assume "\<exists>i < unat (fp_block_count p). q = pool_payload p i"
  then obtain i where i: "i < unat (fp_block_count p)" and q: "q = pool_payload p i" by blast
  note s = pool_shapeD [OF assms] and po = pool_payload_offset [OF assms i]
  have sd: "0 < unat (fp_block_stride p)" using pool_payload_less [OF assms] by linarith
  have "(pool_payload p i - fp_storage p - fp_payload_offset p) mod fp_block_stride p = 0"
    using po by (simp flip: unat_eq_size add: unat_mod)
  moreover have "(pool_payload p i - fp_storage p - fp_payload_offset p) div fp_block_stride p < fp_block_count p"
    using po sd i by (simp add: word_less_nat_alt unat_div)
  moreover have "fp_payload_offset p \<le> pool_payload p i - fp_storage p"
    using unat_pool_payload [OF assms i] by (simp add: word_le_nat_alt unat_sub_size)
  ultimately show "pool_is_block_start p q"
    using pool_payload_owned [OF assms i] pool_payload_nonnull [OF assms i] q
    by (simp add: pool_is_block_start_def Let_def)
qed

lemma pool_block_index_payload:
  assumes "pool_shape p" and "i < unat (fp_block_count p)"
  shows "pool_block_index p (pool_payload p i) = Inr (of_nat i)"
proof -
  have sd: "0 < unat (fp_block_stride p)" using pool_payload_less [OF assms(1)] by linarith
  have "unat ((pool_payload p i - fp_storage p - fp_payload_offset p) div fp_block_stride p) = i"
    using pool_payload_offset [OF assms] sd by (simp add: unat_div)
  then have "(pool_payload p i - fp_storage p - fp_payload_offset p) div fp_block_stride p = of_nat i"
    by (metis of_nat_unat_size)
  moreover have "pool_is_block_start p (pool_payload p i)"
    using pool_is_block_start_iff [OF assms(1)] assms(2) by blast
  ultimately show ?thesis by (simp add: pool_block_index_def)
qed

lemma pool_block_index_invalid:
  assumes "pool_shape p" and "\<And>i. i < unat (fp_block_count p) \<Longrightarrow> q \<noteq> pool_payload p i"
  shows "pool_block_index p q = Inl InvalidPoolPointer"
  using pool_is_block_start_iff [OF assms(1)] assms(2) by (auto simp: pool_block_index_def)

lemma unat_count_index: "i < unat (n :: size_t) \<Longrightarrow> unat (of_nat i :: size_t) = i"
  using unat_lt_64 [of n] by (intro unat_of_nat_size) linarith

lemma pool_raw_block_index_block:
  assumes "pool_shape p" and "i < unat (fp_block_count p)"
  shows "pool_raw_block_index p (pool_block p i) = of_nat i"
  using block_offset_div [OF pool_shapeD(1) [OF assms(1)], of i] assms(2)
  by (metis pool_raw_block_index_def less_imp_le of_nat_unat_size)

lemma pool_is_raw_block_start_block:
  assumes "pool_shape p" and "i < unat (fp_block_count p)"
  shows "pool_is_raw_block_start p (pool_block p i)"
proof -
  note s = pool_shapeD [OF assms(1)]
  have u: "unat (pool_block p i) = unat (fp_storage p) + i * unat (fp_block_stride p)"
    using s(1) assms(2) by (simp add: unat_block_at)
  have "unat (fp_storage p + fp_storage_size p) = unat (fp_storage p) + unat (fp_storage_size p)"
    using s(5) by (simp add: no_wrap_def unat_add_size)
  moreover have "i * unat (fp_block_stride p) < unat (fp_storage_size p)"
    using assms(2) pool_payload_less [OF assms(1)] s(2) by (simp add: mult.commute)
  moreover have "(pool_block p i - fp_storage p) mod fp_block_stride p = 0"
    using block_offset [OF s(1), of i] assms(2) by (simp flip: unat_eq_size add: unat_mod)
  ultimately show ?thesis
    using u block_at_nonnull [OF s(1), of i] assms(2)
    by (simp add: pool_is_raw_block_start_def word_le_nat_alt word_less_nat_alt)
qed

section \<open>The invariant\<close>

text \<open>
  \<open>F\<close> lists the indices of the free blocks in the order of the free list. In a guarded pool the
  canaries of every allocated block are intact.
\<close>

definition pool_inv :: "mem \<Rightarrow> fixed_pool \<Rightarrow> nat list \<Rightarrow> bool" where
  "pool_inv m p F \<longleftrightarrow>
     pool_shape p \<and>
     free_blocks_ok m (fp_storage p) (fp_block_stride p) (unat (fp_block_count p)) (fp_free_head p) F \<and>
     unat (fp_free_blocks p) = length F \<and>
     (\<forall>ds. fp_diagnostic_state p = Some ds \<longrightarrow>
        length ds = unat (fp_block_count p) \<and> free_indices_of ds = set F) \<and>
     (opt_guard_bytes (fp_options p) \<longrightarrow>
        (\<forall>i < unat (fp_block_count p). i \<notin> set F \<longrightarrow>
           canaries_are_valid m (pool_payload p i) (fp_block_size p)))"

definition pool_live :: "fixed_pool \<Rightarrow> nat list \<Rightarrow> addr set" where
  "pool_live p F = pool_payload p ` ({..<unat (fp_block_count p)} - set F)"

text \<open>The fields that no operation after construction changes.\<close>

definition same_config :: "fixed_pool \<Rightarrow> fixed_pool \<Rightarrow> bool" where
  "same_config p p' \<longleftrightarrow>
     fp_storage p' = fp_storage p \<and> pool_layout p' = pool_layout p \<and>
     fp_options p' = fp_options p \<and> fp_fast_path p' = fp_fast_path p"

lemma same_configD:
  assumes "same_config p p'"
  shows "fp_storage p' = fp_storage p" "fp_block_size p' = fp_block_size p"
    "fp_block_count p' = fp_block_count p" "fp_alignment p' = fp_alignment p"
    "fp_payload_offset p' = fp_payload_offset p" "fp_block_stride p' = fp_block_stride p"
    "fp_storage_size p' = fp_storage_size p" "fp_options p' = fp_options p"
    "fp_fast_path p' = fp_fast_path p" "pool_payload p' = pool_payload p"
  using assms
  by (auto simp: same_config_def pool_layout_def pool_payload_def payload_from_raw_block_def)

lemma same_config_refl [simp]: "same_config p p"
  by (simp add: same_config_def)

lemma same_config_trans: "same_config p q \<Longrightarrow> same_config q r \<Longrightarrow> same_config p r"
  by (simp add: same_config_def)

lemma pool_invD:
  assumes "pool_inv m p F"
  shows "pool_shape p" "distinct F" "set F \<subseteq> {..<unat (fp_block_count p)}"
    "free_blocks_ok m (fp_storage p) (fp_block_stride p) (unat (fp_block_count p)) (fp_free_head p) F"
    "unat (fp_free_blocks p) = length F"
  using assms by (auto simp: pool_inv_def free_blocks_ok_def)

lemma pool_inv_diag:
  assumes "pool_inv m p F" and "fp_diagnostic_state p = Some ds"
  shows "length ds = unat (fp_block_count p)" and "free_indices_of ds = set F"
    and "\<And>i. i < unat (fp_block_count p) \<Longrightarrow> ds ! i = (if i \<in> set F then Free else Allocated)"
proof -
  show ds: "length ds = unat (fp_block_count p)" "free_indices_of ds = set F"
    using assms by (simp_all add: pool_inv_def)
  fix i assume "i < unat (fp_block_count p)"
  then have "ds ! i = Free \<longleftrightarrow> i \<in> set F" using ds by (auto simp: free_indices_of_def)
  then show "ds ! i = (if i \<in> set F then Free else Allocated)" by (cases "ds ! i") auto
qed

lemma pool_inv_canaries:
  "pool_inv m p F \<Longrightarrow> opt_guard_bytes (fp_options p) \<Longrightarrow> i < unat (fp_block_count p) \<Longrightarrow> i \<notin> set F \<Longrightarrow>
   canaries_are_valid m (pool_payload p i) (fp_block_size p)"
  by (simp add: pool_inv_def)

lemma pool_inv_unique: "pool_inv m p F \<Longrightarrow> pool_inv m p G \<Longrightarrow> F = G"
  using free_blocks_ok_unique [OF pool_shapeD(1)] by (metis pool_invD(1,4))

lemma pool_inv_length: "pool_inv m p F \<Longrightarrow> length F \<le> unat (fp_block_count p)"
  using pool_invD(2,3) [of m p F] card_mono [of "{..<unat (fp_block_count p)}" "set F"]
  by (simp add: distinct_card)

subsection \<open>Writes that respect the blocks\<close>

definition pool_block_extent :: "fixed_pool \<Rightarrow> nat \<Rightarrow> addr set" where
  "pool_block_extent p i = extent (pool_block p i) (fp_block_stride p)"

lemma block_extents_apart:
  assumes "pool_shape p" and "i < unat (fp_block_count p)" and "j < unat (fp_block_count p)" and "i \<noteq> j"
  shows "pool_block_extent p i \<inter> pool_block_extent p j = {}"
  unfolding pool_block_extent_def
  using assms by (intro block_extents_disjoint [OF pool_shapeD(1) [OF assms(1)]]) auto

lemma payload_in_block:
  assumes "pool_shape p" and "i < unat (fp_block_count p)"
  shows "extent (pool_payload p i) (fp_block_size p) \<subseteq> pool_block_extent p i"
proof -
  note s = pool_shapeD [OF assms(1)] and u = unat_pool_payload [OF assms]
  have ub: "unat (pool_block p i) = unat (fp_storage p) + i * unat (fp_block_stride p)"
    using s(1) assms(2) by (simp add: unat_block_at)
  have nb: "no_wrap (pool_block p i) (fp_block_stride p)"
    using block_at_no_wrap [OF s(1) assms(2)] by simp
  show ?thesis unfolding pool_block_extent_def
    using u ub nb s(3) by (intro extent_subsetI) (auto simp: no_wrap_def)
qed

lemma guarded_payload:
  assumes "pool_shape p" and "i < unat (fp_block_count p)" and "opt_guard_bytes (fp_options p)"
  shows "guarded_shape (pool_payload p i) (fp_block_size p)"
    and "guard_bytes_of (pool_payload p i) (fp_block_size p) \<subseteq> pool_block_extent p i"
proof -
  note s = pool_shapeD [OF assms(1)] and u = unat_pool_payload [OF assms(1,2)]
  have g: "8 \<le> unat (fp_payload_offset p)"
    "unat (fp_payload_offset p) + unat (fp_block_size p) + 8 \<le> unat (fp_block_stride p)"
    using assms(1,3) by (auto simp: pool_shape_def layout_ok_def pool_layout_def guard_size_def word_le_nat_alt)
  have ub: "unat (pool_block p i) = unat (fp_storage p) + i * unat (fp_block_stride p)"
    using s(1) assms(2) by (simp add: unat_block_at)
  have nb: "no_wrap (pool_block p i) (fp_block_stride p)"
    using block_at_no_wrap [OF s(1) assms(2)] by simp
  show sh: "guarded_shape (pool_payload p i) (fp_block_size p)"
    using u ub nb g by (simp add: guarded_shape_def no_wrap_def)
  note d = guarded_shapeD [OF sh]
  have "extent (pool_payload p i - guard_size) 8 \<subseteq> pool_block_extent p i"
    "extent (pool_payload p i + fp_block_size p) 8 \<subseteq> pool_block_extent p i"
    unfolding pool_block_extent_def using u ub nb g d by (auto simp: extent_iff)
  then show "guard_bytes_of (pool_payload p i) (fp_block_size p) \<subseteq> pool_block_extent p i"
    by (simp add: guard_bytes_of_def guard_size_def)
qed

lemma free_node_in_block:
  assumes "pool_shape p" and "i < unat (fp_block_count p)"
  shows "extent (pool_block p i) 8 \<subseteq> pool_block_extent p i"
  unfolding pool_block_extent_def using region_okD(2) [OF pool_shapeD(1) [OF assms(1)]]
  by (intro extent_mono) (simp add: word_le_nat_alt)

text \<open>
  The part of a live block that its owner may write: the payload. Writing there keeps the whole
  invariant.
\<close>

lemma pool_inv_client_write:
  assumes "pool_inv m p F" and "i < unat (fp_block_count p)" and "i \<notin> set F"
    and "\<And>x. x \<notin> extent (pool_payload p i) (fp_block_size p) \<Longrightarrow> m' x = m x"
  shows "pool_inv m' p F"
proof -
  note sh = pool_invD(1) [OF assms(1)]
  have out: "m' x = m x" if "x \<notin> pool_block_extent p i" for x
    using that payload_in_block [OF sh assms(2)] assms(4) by blast
  have "free_blocks_ok m' (fp_storage p) (fp_block_stride p) (unat (fp_block_count p)) (fp_free_head p) F"
    using out by (intro free_blocks_ok_frame [OF pool_shapeD(1) [OF sh] pool_invD(4) [OF assms(1)] assms(2,3)])
      (simp add: pool_block_extent_def)
  moreover have "canaries_are_valid m' (pool_payload p j) (fp_block_size p)"
    if g: "opt_guard_bytes (fp_options p)" and j: "j < unat (fp_block_count p)" "j \<notin> set F" for j
  proof -
    have "m' x = m x" if "x \<in> guard_bytes_of (pool_payload p j) (fp_block_size p)" for x
    proof (cases "j = i")
      case True
      then show ?thesis
        using that guards_apart [OF guarded_payload(1) [OF sh assms(2) g]] assms(4)
        by (auto simp: guard_bytes_of_def guard_size_def)
    next
      case False
      then show ?thesis
        using that guarded_payload(2) [OF sh j(1) g] block_extents_apart [OF sh j(1) assms(2)] out by blast
    qed
    then show ?thesis using assms(1) g j by (subst canaries_cong) (auto simp: pool_inv_def)
  qed
  ultimately show ?thesis using assms(1) by (auto simp: pool_inv_def)
qed

section \<open>Construction\<close>

lemma power_of_two_8 [simp]: "is_power_of_two 8"
  by (rule is_power_of_twoI [of _ 3]) simp

lemma fixed_pool_create_inv:
  assumes "sys_ok h" and "fixed_pool_create bs count al opts m h = (Inr p, (m', h'))"
  shows "pool_inv m' p [0..<unat count]" and "fp_block_count p = count" and "bs \<le> fp_block_size p"
    and "fp_alignment p = max al 8" and "fp_options p = opts" and "sys_ok h'"
    and "sh_live h' = (fp_storage p, fp_storage_size p, Some (fp_alignment p)) # sh_live h"
    and "\<forall>e \<in> set (sh_live h). extent (fp_storage p) (fp_storage_size p) \<inter> extent (fst e) (fst (snd e)) = {}"
    and "\<And>x. x \<notin> extent (fp_storage p) (fp_storage_size p) \<Longrightarrow> m' x = m x"
proof -
  obtain L st where L: "make_block_layout bs count al (opt_guard_bytes opts) 8 8 8 = Inr L"
    and new: "sys_new (storage_size L) (Some (alignment L)) h = (Inr st, h')"
    using assms(2)
    by (auto simp: fixed_pool_create_def free_node_size_def free_node_alignment_def guard_size_def Let_def
        split: sum.splits prod.splits)
  obtain head where init: "init_free_list (unat count) st (block_stride L) m 0 = (m', head)"
    and p: "p = \<lparr>fp_storage = st, fp_free_head = head, fp_block_size = block_size L,
        fp_block_count = count, fp_alignment = alignment L, fp_payload_offset = payload_offset L,
        fp_block_stride = block_stride L, fp_storage_size = storage_size L, fp_free_blocks = count,
        fp_options = opts, fp_fast_path = (opt_diagnostics opts = DiagnosticsDisabled \<and>
          \<not> opt_poison_memory opts \<and> \<not> opt_guard_bytes opts \<and> \<not> opt_collect_statistics opts),
        fp_statistics = zero_statistics\<lparr>reserved_bytes := storage_size L\<rparr>,
        fp_diagnostic_state = (if opt_diagnostics opts = DiagnosticsEnabled
          then Some (diagnostic_state_create count) else None)\<rparr>"
    using assms(2) L new make_block_layout_ok(2) [OF L power_of_two_8]
    by (auto simp: fixed_pool_create_def free_node_size_def free_node_alignment_def guard_size_def Let_def
        split: prod.splits)
  note l = make_block_layout_ok [OF L power_of_two_8] and s = sys_new_Inr [OF assms(1) new]
  have lo: "8 \<le> unat (block_size L)" "8 \<le> unat (block_stride L)" "count \<noteq> 0"
    "unat (storage_size L) = unat (block_stride L) * unat count"
    using l(1,2) by (auto simp: layout_ok_def word_le_nat_alt split: if_splits)
  have ss: "max (storage_size L) 1 = storage_size L"
  proof (rule max_1_id)
    have "unat (storage_size L) \<noteq> 0" using lo by (auto simp: unat_gt_0 unat_0_iff)
    then show "storage_size L \<noteq> 0" by auto
  qed
  have nw: "no_wrap st (storage_size L)" using s(3) ss by simp
  have reg: "region_ok st (block_stride L) (unat count)"
    using s(2) lo nw by (simp add: region_ok_def no_wrap_def mult.commute)
  have in_st: "extent (block_at st (block_stride L) i) 8 \<subseteq> extent st (storage_size L)" if "i < unat count" for i
    using unat_block_at [OF reg, of i] that block_at_no_wrap [OF reg that, of 8] nw lo
      index_bound [OF that, of "unat (block_stride L)"]
    by (intro extent_subsetI) (auto simp: mult.commute)
  have fb: "free_blocks_ok m' st (block_stride L) (unat count) head [0..<unat count]"
    and out: "\<And>x. x \<notin> (\<Union>i<unat count. extent (block_at st (block_stride L) i) 8) \<Longrightarrow> m' x = m x"
    using init_free_list_ok [OF reg, of m 0 "[]" "unat count"] init
    by (auto simp: free_blocks_ok_def)
  have dv: "unat (alignment L) dvd unat st" using s(4) by simp
  have lay: "pool_layout p = L" by (simp add: pool_layout_def p l(2) [symmetric])
  have shape: "pool_shape p"
    unfolding pool_shape_def lay using l(1,4) reg dv
    by (cases "opt_diagnostics opts") (simp_all add: p free_node_size_def free_node_alignment_def guard_size_def)
  show "pool_inv m' p [0..<unat count]"
    using shape fb by (auto simp: pool_inv_def) (auto simp: p split: if_splits)
  show "fp_block_count p = count" "bs \<le> fp_block_size p" "fp_alignment p = max al 8" "fp_options p = opts"
    using l by (simp_all add: p)
  show "sys_ok h'" by (rule s(1))
  show "sh_live h' = (fp_storage p, fp_storage_size p, Some (fp_alignment p)) # sh_live h"
    using s(6) ss by (simp add: p)
  show "\<forall>e \<in> set (sh_live h). extent (fp_storage p) (fp_storage_size p) \<inter> extent (fst e) (fst (snd e)) = {}"
    using s(5) ss by (simp add: p)
  show "m' x = m x" if "x \<notin> extent (fp_storage p) (fp_storage_size p)" for x
    using that in_st by (intro out) (auto simp: p)
qed

section \<open>Allocation\<close>

definition pool_alloc_mem :: "fixed_pool \<Rightarrow> nat \<Rightarrow> mem \<Rightarrow> mem" where
  "pool_alloc_mem p i m =
     (if opt_poison_memory (fp_options p) \<or> opt_guard_bytes (fp_options p)
      then prepare_allocated_memory m (pool_block p i) (fp_payload_offset p) (fp_block_size p)
             (opt_poison_memory (fp_options p)) (opt_guard_bytes (fp_options p))
      else m)"

definition pool_alloc_stats :: "fixed_pool \<Rightarrow> pool_statistics" where
  "pool_alloc_stats p =
     (if opt_collect_statistics (fp_options p)
      then record_successful_allocation (record_allocation_request (fp_statistics p) (fp_block_size p))
      else fp_statistics p)"

lemma pool_allocate_exhausted:
  assumes "pool_inv m p []"
  shows "pool_allocate m p =
     (Inr 0, (m, p\<lparr>fp_statistics :=
        (if opt_collect_statistics (fp_options p)
         then record_failed_allocation (record_allocation_request (fp_statistics p) (fp_block_size p))
         else fp_statistics p)\<rparr>))"
proof -
  have "fp_free_head p = 0" using pool_invD(4) [OF assms] by (simp add: free_blocks_ok_def)
  moreover have "fp_fast_path p \<Longrightarrow> \<not> opt_collect_statistics (fp_options p)"
    using pool_invD(1) [OF assms] by (simp add: pool_shape_def)
  ultimately show ?thesis by (auto simp: pool_allocate_def Let_def)
qed

lemma pool_allocate_block:
  assumes "pool_inv m p (i # F)"
  shows "pool_allocate m p =
     (Inr (pool_payload p i),
      (pool_alloc_mem p i m,
       p\<lparr>fp_free_head := load64 m (pool_block p i), fp_free_blocks := fp_free_blocks p - 1,
         fp_diagnostic_state := map_option (\<lambda>ds. ds[i := Allocated]) (fp_diagnostic_state p),
         fp_statistics := pool_alloc_stats p\<rparr>))"
proof -
  note sh = pool_invD(1) [OF assms]
  have i: "i < unat (fp_block_count p)" using pool_invD(3) [OF assms] by simp
  have head: "fp_free_head p = pool_block p i" using pool_invD(4) [OF assms] by (simp add: free_blocks_ok_def)
  have nn: "pool_block p i \<noteq> 0" using block_at_nonnull [OF pool_shapeD(1) [OF sh]] i by simp
  have idx: "(pool_block p i - fp_storage p) div fp_block_stride p = of_nat i"
    using pool_raw_block_index_block [OF sh i] by (simp add: pool_raw_block_index_def)
  have mark: "try_mark_allocated ds (of_nat i) = Inr (True, ds[i := Allocated])"
    if "fp_diagnostic_state p = Some ds" for ds
  proof -
    have "i < length ds" "ds ! i = Free" using pool_inv_diag [OF assms that] i by simp_all
    then show ?thesis using try_mark_allocated_free(1) [of "of_nat i" ds] unat_count_index [OF i] by simp
  qed
  have fast: "fp_fast_path p \<Longrightarrow> \<not> opt_poison_memory (fp_options p) \<and> \<not> opt_guard_bytes (fp_options p) \<and>
      \<not> opt_collect_statistics (fp_options p) \<and> fp_diagnostic_state p = None"
    using sh by (auto simp: pool_shape_def)
  have off: "fp_fast_path p \<Longrightarrow> fp_payload_offset p = 0"
    using sh fast by (auto simp: pool_shape_def layout_ok_def pool_layout_def)
  show ?thesis
  proof (cases "fp_fast_path p")
    case True
    with fast off head nn show ?thesis
      by (cases p) (simp add: pool_allocate_def pool_alloc_mem_def pool_alloc_stats_def pool_payload_def
          payload_from_raw_block_def Let_def)
  next
    case False
    then show ?thesis
      using head nn mark
      by (cases "fp_diagnostic_state p")
        (auto simp: pool_allocate_def Let_def pool_alloc_mem_def pool_alloc_stats_def pool_payload_def
          payload_from_raw_block_def pool_raw_block_index_def idx)
  qed
qed

lemma pool_alloc_mem_other:
  assumes "pool_shape p" and "i < unat (fp_block_count p)"
    and "x \<notin> pool_block_extent p i"
  shows "pool_alloc_mem p i m x = m x"
proof -
  have "x \<notin> extent (pool_payload p i) (fp_block_size p)"
    using payload_in_block [OF assms(1,2)] assms(3) by blast
  moreover have "opt_guard_bytes (fp_options p) \<Longrightarrow> x \<notin> guard_bytes_of (pool_payload p i) (fp_block_size p)"
    using guarded_payload(2) [OF assms(1,2)] assms(3) by blast
  ultimately show ?thesis
    by (simp add: pool_alloc_mem_def prepare_allocated_memory_def Let_def pool_payload_def
        payload_from_raw_block_def write_canaries_other memset_other)
qed

lemma pool_alloc_mem_canaries:
  assumes "pool_shape p" and "i < unat (fp_block_count p)" and "opt_guard_bytes (fp_options p)"
  shows "canaries_are_valid (pool_alloc_mem p i m) (pool_payload p i) (fp_block_size p)"
  using write_canaries_valid [OF guarded_payload(1) [OF assms]] assms(3)
  by (simp add: pool_alloc_mem_def prepare_allocated_memory_def Let_def pool_payload_def
      payload_from_raw_block_def)

text \<open>A change inside one block that is off the list keeps everything else of the invariant.\<close>

lemma pool_inv_block_change:
  assumes "pool_shape p" and "i < unat (fp_block_count p)" and "i \<notin> set F"
    and "free_blocks_ok m (fp_storage p) (fp_block_stride p) (unat (fp_block_count p)) h F"
    and "\<And>x. x \<notin> pool_block_extent p i \<Longrightarrow> m' x = m x"
  shows "free_blocks_ok m' (fp_storage p) (fp_block_stride p) (unat (fp_block_count p)) h F"
    and "j < unat (fp_block_count p) \<Longrightarrow> j \<noteq> i \<Longrightarrow> opt_guard_bytes (fp_options p) \<Longrightarrow>
      canaries_are_valid m' (pool_payload p j) (fp_block_size p) =
      canaries_are_valid m (pool_payload p j) (fp_block_size p)"
proof -
  show "free_blocks_ok m' (fp_storage p) (fp_block_stride p) (unat (fp_block_count p)) h F"
    using assms(5) by (intro free_blocks_ok_frame [OF pool_shapeD(1) [OF assms(1)] assms(4,2,3)])
      (simp add: pool_block_extent_def)
  assume j: "j < unat (fp_block_count p)" "j \<noteq> i" "opt_guard_bytes (fp_options p)"
  show "canaries_are_valid m' (pool_payload p j) (fp_block_size p) =
      canaries_are_valid m (pool_payload p j) (fp_block_size p)"
    using guarded_payload(2) [OF assms(1) j(1,3)] block_extents_apart [OF assms(1) j(1) assms(2) j(2)] assms(5)
    by (intro canaries_cong) blast
qed

lemma pool_shape_dynamic [simp]:
  "pool_shape (p\<lparr>fp_free_head := a\<rparr>) = pool_shape p"
  "pool_shape (p\<lparr>fp_free_blocks := b\<rparr>) = pool_shape p"
  "pool_shape (p\<lparr>fp_statistics := c\<rparr>) = pool_shape p"
  by (simp_all add: pool_shape_def pool_layout_def)

lemma pool_shape_diag:
  "(d = None \<longleftrightarrow> fp_diagnostic_state p = None) \<Longrightarrow>
   pool_shape (p\<lparr>fp_diagnostic_state := d\<rparr>) = pool_shape p"
  by (simp add: pool_shape_def pool_layout_def)

lemma pool_payload_dynamic [simp]:
  "pool_payload (p\<lparr>fp_free_head := a\<rparr>) = pool_payload p"
  "pool_payload (p\<lparr>fp_free_blocks := b\<rparr>) = pool_payload p"
  "pool_payload (p\<lparr>fp_statistics := c\<rparr>) = pool_payload p"
  "pool_payload (p\<lparr>fp_diagnostic_state := d\<rparr>) = pool_payload p"
  by (simp_all add: pool_payload_def payload_from_raw_block_def fun_eq_iff)

lemma pool_allocate_inv:
  assumes "pool_inv m p (i # F)" and "pool_allocate m p = (r, (m', p'))"
  shows "r = Inr (pool_payload p i)" and "pool_inv m' p' F" and "same_config p p'"
    and "\<And>x. x \<notin> pool_block_extent p i \<Longrightarrow> m' x = m x"
proof -
  note sh = pool_invD(1) [OF assms(1)]
  have i: "i < unat (fp_block_count p)" "i \<notin> set F" using pool_invD(2,3) [OF assms(1)] by auto
  have m': "m' = pool_alloc_mem p i m"
    and p': "p' = p\<lparr>fp_free_head := load64 m (pool_block p i), fp_free_blocks := fp_free_blocks p - 1,
         fp_diagnostic_state := map_option (\<lambda>ds. ds[i := Allocated]) (fp_diagnostic_state p),
         fp_statistics := pool_alloc_stats p\<rparr>"
    and r: "r = Inr (pool_payload p i)"
    using assms(2) unfolding pool_allocate_block [OF assms(1)] by auto
  show "r = Inr (pool_payload p i)" by (rule r)
  show "same_config p p'" by (simp add: same_config_def p' pool_layout_def)
  show out: "m' x = m x" if "x \<notin> pool_block_extent p i" for x
    using that pool_alloc_mem_other [OF sh i(1)] by (simp add: m')
  have "free_blocks_ok m (fp_storage p) (fp_block_stride p) (unat (fp_block_count p)) (load64 m (pool_block p i)) F"
    using free_blocks_ok_pop [OF pool_invD(4) [OF assms(1)]] by auto
  note ch = pool_inv_block_change [OF sh i this out]
  have "unat (fp_free_blocks p - 1) = length F"
    using pool_invD(5) [OF assms(1)] by (simp add: unat_sub_size)
  moreover have "canaries_are_valid m' (pool_payload p j) (fp_block_size p)"
    if "opt_guard_bytes (fp_options p)" "j < unat (fp_block_count p)" "j \<notin> set F" for j
    using that ch(2) [of j] pool_alloc_mem_canaries [OF sh i(1)] assms(1)
    by (cases "j = i") (auto simp: m' pool_inv_def)
  moreover have "length (ds[i := Allocated]) = unat (fp_block_count p) \<and> free_indices_of (ds[i := Allocated]) = set F"
    if "fp_diagnostic_state p = Some ds" for ds
    using pool_inv_diag [OF assms(1) that] i try_mark_allocated_free(2) [of "of_nat i" ds]
      unat_count_index [OF i(1)] by simp
  ultimately show "pool_inv m' p' F"
    using sh ch(1) by (auto simp: pool_inv_def p' pool_shape_diag)
qed

section \<open>Deallocation\<close>

definition pool_free_mem :: "fixed_pool \<Rightarrow> nat \<Rightarrow> mem \<Rightarrow> mem" where
  "pool_free_mem p i m =
     store64 (if opt_poison_memory (fp_options p)
              then memset m (pool_payload p i) freed_pattern (fp_block_size p) else m)
       (pool_block p i) (fp_free_head p)"

definition pool_freed :: "fixed_pool \<Rightarrow> nat \<Rightarrow> fixed_pool" where
  "pool_freed p i =
     p\<lparr>fp_free_head := pool_block p i, fp_free_blocks := fp_free_blocks p + 1,
       fp_diagnostic_state := map_option (\<lambda>ds. ds[i := Free]) (fp_diagnostic_state p),
       fp_statistics := (if opt_collect_statistics (fp_options p)
         then record_deallocation (fp_statistics p) else fp_statistics p)\<rparr>"

lemma pool_deallocate_null [simp]: "pool_deallocate m p 0 = (Inr (), (m, p))"
  by (simp add: pool_deallocate_def)

lemma pool_deallocate_foreign:
  assumes "pool_shape p" and "q \<noteq> 0" and "\<And>i. i < unat (fp_block_count p) \<Longrightarrow> q \<noteq> pool_payload p i"
  shows "pool_deallocate m p q = (Inl InvalidPoolPointer, (m, p))"
  using pool_block_index_invalid [OF assms(1,3)] assms(2) by (simp add: pool_deallocate_def)

lemma pool_deallocate_live:
  assumes "pool_inv m p F" and "i < unat (fp_block_count p)" and "i \<notin> set F"
  shows "pool_deallocate m p (pool_payload p i) = (Inr (), (pool_free_mem p i m, pool_freed p i))"
proof -
  note sh = pool_invD(1) [OF assms(1)]
  note nn = pool_payload_nonnull [OF sh assms(2)] and idx = pool_block_index_payload [OF sh assms(2)]
  have raw: "pool_block p i + fp_payload_offset p = pool_payload p i"
    by (simp add: pool_payload_def payload_from_raw_block_def)
  have mark: "mark_free ds (of_nat i) = Inr (ds[i := Free])" if "fp_diagnostic_state p = Some ds" for ds
  proof -
    have "i < length ds" "ds ! i = Allocated" using pool_inv_diag [OF assms(1) that] assms(2,3) by simp_all
    then show ?thesis using unat_count_index [OF assms(2)] by (simp add: mark_free_def)
  qed
  note can = pool_inv_canaries [OF assms(1) _ assms(2,3)]
  have fast: "fp_fast_path p \<Longrightarrow> \<not> opt_poison_memory (fp_options p) \<and> \<not> opt_guard_bytes (fp_options p) \<and>
      \<not> opt_collect_statistics (fp_options p) \<and> fp_diagnostic_state p = None"
    using sh by (auto simp: pool_shape_def)
  show ?thesis
  proof (cases "fp_fast_path p")
    case True
    with fast nn idx show ?thesis
      by (cases p) (simp add: pool_deallocate_def pool_free_mem_def pool_freed_def push_free_def Let_def)
  next
    case False
    have prep: "(if opt_poison_memory (fp_options p) \<or> opt_guard_bytes (fp_options p)
       then validate_and_prepare_freed_memory m (pool_block p i) (fp_payload_offset p) (fp_block_size p)
              (opt_poison_memory (fp_options p)) (opt_guard_bytes (fp_options p))
       else (Inr (), m)) = (Inr (), if opt_poison_memory (fp_options p)
              then memset m (pool_payload p i) freed_pattern (fp_block_size p) else m)"
      using can by (auto simp: validate_and_prepare_freed_memory_def Let_def raw)
    show ?thesis
      using False nn idx prep mark
      by (cases "fp_diagnostic_state p"; cases p)
        (auto simp: pool_deallocate_def pool_free_mem_def pool_freed_def push_free_def Let_def)
  qed
qed

lemma pool_free_mem_other:
  assumes "pool_shape p" and "i < unat (fp_block_count p)" and "x \<notin> pool_block_extent p i"
  shows "pool_free_mem p i m x = m x"
proof -
  have "x \<notin> extent (pool_payload p i) (fp_block_size p)" "x \<notin> extent (pool_block p i) 8"
    using payload_in_block [OF assms(1,2)] free_node_in_block [OF assms(1,2)] assms(3) by blast+
  then show ?thesis by (simp add: pool_free_mem_def store64_other memset_other)
qed

lemma pool_freed_inv:
  assumes "pool_inv m p F" and "i < unat (fp_block_count p)" and "i \<notin> set F"
  shows "pool_inv (pool_free_mem p i m) (pool_freed p i) (i # F)"
proof -
  note sh = pool_invD(1) [OF assms(1)]
  let ?m = "if opt_poison_memory (fp_options p)
            then memset m (pool_payload p i) freed_pattern (fp_block_size p) else m"
  have out: "?m x = m x" if "x \<notin> pool_block_extent p i" for x
    using that payload_in_block [OF sh assms(2)] by (auto intro!: memset_other)
  note ch = pool_inv_block_change [OF sh assms(2,3) pool_invD(4) [OF assms(1)]]
  have "free_blocks_ok (pool_free_mem p i m) (fp_storage p) (fp_block_stride p) (unat (fp_block_count p))
      (pool_block p i) (i # F)"
    unfolding pool_free_mem_def
    using out by (intro free_blocks_ok_push [OF pool_shapeD(1) [OF sh] ch(1) assms(2,3)])
  moreover have "unat (fp_free_blocks p + 1) = length (i # F)"
  proof -
    have "length (i # F) \<le> unat (fp_block_count p)"
      using pool_invD(2,3) [OF assms(1)] assms(2,3) card_mono [of "{..<unat (fp_block_count p)}" "set (i # F)"]
      by (simp add: distinct_card)
    then have "unat (fp_free_blocks p) + unat (1 :: size_t) < 18446744073709551616"
      using pool_invD(5) [OF assms(1)] unat_lt_64 [of "fp_block_count p"] by (simp del: unat_lt_64)
    then show ?thesis using pool_invD(5) [OF assms(1)] by (simp add: unat_add_size)
  qed
  moreover have "canaries_are_valid (pool_free_mem p i m) (pool_payload p j) (fp_block_size p)"
    if "opt_guard_bytes (fp_options p)" "j < unat (fp_block_count p)" "j \<notin> set (i # F)" for j
    using that ch(2) [of "pool_free_mem p i m" j] pool_free_mem_other [OF sh assms(2)] assms(1)
    by (simp add: pool_inv_def)
  moreover have "length (ds[i := Free]) = unat (fp_block_count p) \<and> free_indices_of (ds[i := Free]) = set (i # F)"
    if "fp_diagnostic_state p = Some ds" for ds
    using pool_inv_diag [OF assms(1) that] assms(2,3) mark_free_allocated(2) [of "of_nat i" ds]
      unat_count_index [OF assms(2)] by simp
  ultimately show ?thesis
    using sh by (auto simp: pool_inv_def pool_freed_def pool_shape_diag)
qed

lemma same_config_freed: "same_config p (pool_freed p i)"
  by (simp add: same_config_def pool_freed_def pool_layout_def)

section \<open>The pool as a block source\<close>

definition pool_alloc_op :: "mem \<times> fixed_pool \<Rightarrow> (addr, mem \<times> fixed_pool) outcome" where
  "pool_alloc_op s = pool_allocate (fst s) (snd s)"

definition pool_free_op :: "addr \<Rightarrow> mem \<times> fixed_pool \<Rightarrow> (unit, mem \<times> fixed_pool) outcome" where
  "pool_free_op q s = pool_deallocate (fst s) (snd s) q"

definition pool_poke :: "addr \<Rightarrow> byte \<Rightarrow> mem \<times> fixed_pool \<Rightarrow> mem \<times> fixed_pool" where
  "pool_poke x b s = ((fst s)(x := b), snd s)"

definition pool_sz :: "mem \<times> fixed_pool \<Rightarrow> size_t" where
  "pool_sz s = fp_block_size (snd s)"

definition pool_ok :: "mem \<times> fixed_pool \<Rightarrow> bool" where
  "pool_ok s \<longleftrightarrow> (\<exists>F. pool_inv (fst s) (snd s) F)"

definition pool_live_of :: "mem \<times> fixed_pool \<Rightarrow> addr set" where
  "pool_live_of s = {q. \<exists>F. pool_inv (fst s) (snd s) F \<and> q \<in> pool_live (snd s) F}"

lemma pool_live_of_eq: "pool_inv m p F \<Longrightarrow> pool_live_of (m, p) = pool_live p F"
  by (auto simp: pool_live_of_def dest: pool_inv_unique)

lemma pool_inv_stats [simp]: "pool_inv m (p\<lparr>fp_statistics := s\<rparr>) F = pool_inv m p F"
  by (simp add: pool_inv_def)

lemma pool_live_same_config: "same_config p p' \<Longrightarrow> pool_live p' F = pool_live p F"
  by (simp add: pool_live_def same_configD)

lemma pool_live_Cons:
  assumes "pool_inv m p (i # F)"
  shows "pool_live p F = insert (pool_payload p i) (pool_live p (i # F))"
    and "pool_payload p i \<notin> pool_live p (i # F)"
proof -
  have i: "i < unat (fp_block_count p)" "i \<notin> set F" using pool_invD(2,3) [OF assms] by auto
  then show "pool_live p F = insert (pool_payload p i) (pool_live p (i # F))"
    by (auto simp: pool_live_def)
  show "pool_payload p i \<notin> pool_live p (i # F)"
    using pool_payload_inj [OF pool_invD(1) [OF assms] i(1)] by (auto simp: pool_live_def)
qed

lemma pool_live_payload_iff:
  assumes "pool_inv m p F" and "i < unat (fp_block_count p)"
  shows "pool_payload p i \<in> pool_live p F \<longleftrightarrow> i \<notin> set F"
  using assms pool_payload_inj [OF pool_invD(1) [OF assms(1)] assms(2)] by (auto simp: pool_live_def)

lemma pool_live_freed:
  assumes "pool_inv m p F" and "i < unat (fp_block_count p)" and "i \<notin> set F"
  shows "pool_live p (i # F) = pool_live p F - {pool_payload p i}"
  using assms pool_payload_inj [OF pool_invD(1) [OF assms(1)] _ assms(2)] by (auto simp: pool_live_def)

lemma pool_liveE:
  assumes "q \<in> pool_live p F"
  obtains i where "i < unat (fp_block_count p)" and "i \<notin> set F" and "q = pool_payload p i"
  using assms by (auto simp: pool_live_def)

interpretation fixed_pool: block_source pool_alloc_op pool_free_op pool_poke pool_sz pool_ok pool_live_of
proof
  fix s s' :: "mem \<times> fixed_pool" and q
  assume ok: "pool_ok s" and a: "pool_alloc_op s = (Inr q, s')" and q: "q \<noteq> 0"
  obtain m p where s: "s = (m, p)" by (cases s)
  obtain m' p' where s': "s' = (m', p')" by (cases s')
  obtain F where inv: "pool_inv m p F" using ok by (auto simp: pool_ok_def s)
  have al: "pool_allocate m p = (Inr q, (m', p'))" using a by (simp add: pool_alloc_op_def s s')
  then obtain i G where F: "F = i # G"
    using q pool_allocate_exhausted [of m p] inv by (cases F) auto
  note st = pool_allocate_inv [OF inv [unfolded F] al]
  have "q = pool_payload p i" using st(1) by simp
  then show "pool_ok s' \<and> q \<notin> pool_live_of s \<and> pool_live_of s' = insert q (pool_live_of s) \<and> pool_sz s' = pool_sz s"
    using st pool_live_Cons [OF inv [unfolded F]] pool_live_of_eq [OF inv] pool_live_of_eq [OF st(2)]
    by (auto simp: s s' pool_ok_def F pool_sz_def same_configD pool_live_same_config)
next
  fix s s' :: "mem \<times> fixed_pool"
  assume ok: "pool_ok s" and a: "pool_alloc_op s = (Inr 0, s')"
  obtain m p where s: "s = (m, p)" by (cases s)
  obtain F where inv: "pool_inv m p F" using ok by (auto simp: pool_ok_def s)
  have F: "F = []"
  proof (cases F)
    case (Cons i G)
    then have "i < unat (fp_block_count p)" using pool_invD(3) [OF inv] by simp
    then show ?thesis
      using a pool_allocate_block [OF inv [unfolded Cons]] pool_payload_nonnull [OF pool_invD(1) [OF inv]]
      by (simp add: pool_alloc_op_def s)
  qed
  obtain st where s': "s' = (m, p\<lparr>fp_statistics := st\<rparr>)"
    using a pool_allocate_exhausted [OF inv [unfolded F]] by (auto simp: pool_alloc_op_def s)
  have "pool_inv m (p\<lparr>fp_statistics := st\<rparr>) F" using inv by simp
  then show "pool_ok s' \<and> pool_live_of s' = pool_live_of s \<and> pool_sz s' = pool_sz s"
    using pool_live_of_eq [OF inv] pool_live_of_eq [of m "p\<lparr>fp_statistics := st\<rparr>" F]
    by (auto simp: s s' pool_ok_def pool_sz_def pool_live_def)
next
  fix s s' :: "mem \<times> fixed_pool" and e
  assume ok: "pool_ok s" and a: "pool_alloc_op s = (Inl e, s')"
  obtain m p where s: "s = (m, p)" by (cases s)
  obtain F where inv: "pool_inv m p F" using ok by (auto simp: pool_ok_def s)
  have False
    using a inv pool_allocate_exhausted [of m p] pool_allocate_block [of m p]
    by (cases F) (auto simp: pool_alloc_op_def s)
  then show "e \<noteq> UndefinedBehaviour \<and> e \<noteq> Terminate \<and> pool_ok s' \<and> pool_live_of s' = pool_live_of s \<and>
      pool_sz s' = pool_sz s" ..
next
  fix s :: "mem \<times> fixed_pool" and q
  assume ok: "pool_ok s" and q: "q \<in> pool_live_of s"
  obtain m p where s: "s = (m, p)" by (cases s)
  obtain F where inv: "pool_inv m p F" using ok by (auto simp: pool_ok_def s)
  obtain i where i: "i < unat (fp_block_count p)" "i \<notin> set F" and q': "q = pool_payload p i"
    using q pool_live_of_eq [OF inv] by (auto simp: s elim: pool_liveE)
  note fr = pool_freed_inv [OF inv i] and sc = same_config_freed [of p i]
  have "pool_free_op q s = (Inr (), (pool_free_mem p i m, pool_freed p i))"
    using pool_deallocate_live [OF inv i] by (simp add: pool_free_op_def s q')
  moreover have "pool_live_of (pool_free_mem p i m, pool_freed p i) = pool_live_of s - {q}"
    using pool_live_of_eq [OF fr] pool_live_of_eq [OF inv] pool_live_freed [OF inv i]
      pool_live_same_config [OF sc] by (simp add: s q')
  ultimately show "\<exists>s'. pool_free_op q s = (Inr (), s') \<and> pool_ok s' \<and>
      pool_live_of s' = pool_live_of s - {q} \<and> pool_sz s' = pool_sz s"
    using fr sc by (auto simp: pool_ok_def pool_sz_def same_configD s)
next
  fix s :: "mem \<times> fixed_pool" and q x b
  assume ok: "pool_ok s" and q: "q \<in> pool_live_of s" and x: "x \<in> extent q (pool_sz s)"
  obtain m p where s: "s = (m, p)" by (cases s)
  obtain F where inv: "pool_inv m p F" using ok by (auto simp: pool_ok_def s)
  obtain i where i: "i < unat (fp_block_count p)" "i \<notin> set F" and q': "q = pool_payload p i"
    using q pool_live_of_eq [OF inv] by (auto simp: s elim: pool_liveE)
  have "pool_inv (m(x := b)) p F"
    using x by (intro pool_inv_client_write [OF inv i]) (auto simp: pool_sz_def s q')
  then show "pool_ok (pool_poke x b s) \<and> pool_live_of (pool_poke x b s) = pool_live_of s \<and>
      pool_sz (pool_poke x b s) = pool_sz s"
    using pool_live_of_eq [OF inv] pool_live_of_eq [of "m(x := b)" p F]
    by (auto simp: pool_poke_def s pool_ok_def pool_sz_def)
next
  fix s :: "mem \<times> fixed_pool" and q
  assume "pool_ok s" and "q \<in> pool_live_of s"
  then show "q \<noteq> 0"
    by (auto simp: pool_live_of_def pool_payload_nonnull dest!: pool_invD(1) elim!: pool_liveE)
next
  fix s :: "mem \<times> fixed_pool" and q r
  assume ok: "pool_ok s" and q: "q \<in> pool_live_of s" "r \<in> pool_live_of s" "q \<noteq> r"
  obtain m p where s: "s = (m, p)" by (cases s)
  obtain F where inv: "pool_inv m p F" using ok by (auto simp: pool_ok_def s)
  note sh = pool_invD(1) [OF inv]
  obtain i j where ij: "i < unat (fp_block_count p)" "j < unat (fp_block_count p)" "i \<noteq> j"
      "q = pool_payload p i" "r = pool_payload p j"
    using q pool_live_of_eq [OF inv] by (auto simp: s elim!: pool_liveE)
  then show "extent q (pool_sz s) \<inter> extent r (pool_sz s) = {}"
    using payload_in_block [OF sh ij(1)] payload_in_block [OF sh ij(2)] block_extents_apart [OF sh ij(1-3)]
    by (auto simp: pool_sz_def s)
qed

end
