(* ===== verification/Fixed_Pool_Diagnostics.thy ===== *)
theory Fixed_Pool_Diagnostics
  imports Fixed_Pool_Correct
begin

text \<open>
  What the diagnostic options of \<^verbatim>\<open>FixedSizeMemoryPool\<close> detect: \<^verbatim>\<open>validate_integrity\<close> accepts
  exactly the consistent states, double frees, overruns into the guard bytes, foreign pointers,
  and what the poison patterns leave in memory.
\<close>

section \<open>The free-list traversal\<close>

lemma pool_is_raw_block_start_iff:
  assumes "pool_shape p"
  shows "pool_is_raw_block_start p q \<longleftrightarrow> (\<exists>i < unat (fp_block_count p). q = pool_block p i)"
proof
  assume b: "pool_is_raw_block_start p q"
  note s = pool_shapeD [OF assms]
  define i where "i = unat ((q - fp_storage p) div fp_block_stride p)"
  have q: "unat (fp_storage p) \<le> unat q" "unat q < unat (fp_storage p) + unat (fp_storage_size p)"
    using b s(5) by (auto simp: pool_is_raw_block_start_def word_le_nat_alt word_less_nat_alt no_wrap_def
        unat_add_size split: if_splits)
  have "(q - fp_storage p) mod fp_block_stride p = 0"
    using b by (auto simp: pool_is_raw_block_start_def split: if_splits)
  then have o: "q - fp_storage p = of_nat i * fp_block_stride p"
    by (simp add: i_def) (metis add.right_neutral div_mult_mod_eq)
  have "unat (q - fp_storage p) < unat (fp_block_stride p) * unat (fp_block_count p)"
    using q s(2) by (simp add: unat_sub_size)
  then have "i < unat (fp_block_count p)"
    by (simp add: i_def unat_div) (metis less_mult_imp_div_less mult.commute)
  moreover have "q = pool_block p i" using o by (simp add: block_at_def algebra_simps)
  ultimately show "\<exists>i < unat (fp_block_count p). q = pool_block p i" by blast
next
  assume "\<exists>i < unat (fp_block_count p). q = pool_block p i"
  then show "pool_is_raw_block_start p q" using pool_is_raw_block_start_block [OF assms] by blast
qed

text \<open>The traversal succeeds exactly on a list of at most \<open>block_count\<close> block addresses that ends.\<close>

lemma collect_free_indices_iff:
  assumes "pool_shape p"
  shows "collect_free_indices m p node acc = Inr r \<longleftrightarrow>
     (\<exists>is. set is \<subseteq> {..<unat (fp_block_count p)} \<and> free_chain m node (map (pool_block p) is) \<and>
           (is = [] \<or> length acc + length is \<le> unat (fp_block_count p)) \<and> r = acc @ map of_nat is)"
  using assms
proof (induction m p node acc rule: collect_free_indices.induct)
  case (1 m p node acc)
  note sh = 1(2)
  let ?P = "\<lambda>node acc r is. set is \<subseteq> {..<unat (fp_block_count p)} \<and> free_chain m node (map (pool_block p) is) \<and>
     (is = [] \<or> length acc + length is \<le> unat (fp_block_count p)) \<and> r = acc @ map of_nat is"
  show ?case
  proof (cases "node = 0")
    case True
    then have "(\<exists>is. ?P node acc r is) \<longleftrightarrow> r = acc"
      by (auto simp: neq_Nil_conv intro!: exI [of _ "[]"]) (case_tac "is"; auto)
    then show ?thesis using True by (subst collect_free_indices.simps) auto
  next
    case False
    show ?thesis
    proof (cases "\<exists>i < unat (fp_block_count p). node = pool_block p i")
      case True
      then obtain i where i: "i < unat (fp_block_count p)" and nd: "node = pool_block p i" by blast
      have raw: "pool_is_raw_block_start p node" using True pool_is_raw_block_start_iff [OF sh] by blast
      have idx: "pool_raw_block_index p node = of_nat i" using pool_raw_block_index_block [OF sh i] nd by simp
      let ?acc = "acc @ [of_nat i]"
      have split: "(\<exists>is. ?P node acc r is) \<longleftrightarrow>
          Suc (length acc) \<le> unat (fp_block_count p) \<and> (\<exists>js. ?P (load64 m node) ?acc r js)"
      proof
        assume "\<exists>is. ?P node acc r is"
        then obtain "is" where P: "?P node acc r is" by blast
        then obtain j js where ij: "is = j # js" using False by (cases "is") auto
        have "pool_block p j = pool_block p i" using P nd ij by auto
        then have "j = i" using P i ij block_at_inj [OF pool_shapeD(1) [OF sh], of j i] by auto
        then have "?P (load64 m node) ?acc r js" using P ij nd by auto
        then show "Suc (length acc) \<le> unat (fp_block_count p) \<and> (\<exists>js. ?P (load64 m node) ?acc r js)"
          using P ij by auto
      next
        assume a: "Suc (length acc) \<le> unat (fp_block_count p) \<and> (\<exists>js. ?P (load64 m node) ?acc r js)"
        then obtain js where "?P (load64 m node) ?acc r js" by blast
        then have "?P node acc r (i # js)" using a i nd False by auto
        then show "\<exists>is. ?P node acc r is" by blast
      qed
      show ?thesis
      proof (cases "Suc (length acc) \<le> unat (fp_block_count p)")
        case True
        have "collect_free_indices m p node acc = collect_free_indices m p (load64 m node) ?acc"
          using False raw idx True by (subst collect_free_indices.simps) simp
        moreover have "collect_free_indices m p (load64 m node) ?acc = Inr r \<longleftrightarrow>
            (\<exists>is. ?P (load64 m node) ?acc r is)"
          using 1(1) [OF False _ refl] raw idx True sh by simp
        ultimately show ?thesis using split True by simp
      next
        case F: False
        then have "collect_free_indices m p node acc = Inl MemoryCorruptionError"
          using False raw by (subst collect_free_indices.simps) simp
        then show ?thesis using split F by simp
      qed
    next
      case no: False
      then have "collect_free_indices m p node acc = Inl MemoryCorruptionError"
        using False pool_is_raw_block_start_iff [OF sh, of node] by (subst collect_free_indices.simps) auto
      moreover have "\<not> (\<exists>is. ?P node acc r is)"
      proof
        assume "\<exists>is. ?P node acc r is"
        then obtain "is" where "?P node acc r is" by blast
        then show False using False no by (cases "is") auto
      qed
      ultimately show ?thesis by simp
    qed
  qed
qed

lemma collect_free_indices_error:
  "collect_free_indices m p node acc = Inl e \<Longrightarrow> e = MemoryCorruptionError"
proof (induction m p node acc rule: collect_free_indices.induct)
  case (1 m p node acc)
  then show ?case
    by (subst (asm) (2) collect_free_indices.simps) (auto simp: Let_def split: if_splits)
qed

section \<open>validate_integrity\<close>

lemma pool_validate_integrity_iff:
  assumes "pool_shape p" and "fp_diagnostic_state p = Some ds" and "length ds = unat (fp_block_count p)"
  shows "pool_validate_integrity m p = Inr () \<longleftrightarrow>
     (\<exists>F. free_blocks_ok m (fp_storage p) (fp_block_stride p) (unat (fp_block_count p)) (fp_free_head p) F \<and>
          unat (fp_free_blocks p) = length F \<and> free_indices_of ds = set F)"
    (is "?L \<longleftrightarrow> (\<exists>F. ?R F)")
proof
  have u: "unat ` set (map of_nat F :: size_t list) = set F" "distinct (map of_nat F :: size_t list) \<longleftrightarrow> distinct F"
    if "set F \<subseteq> {..<unat (fp_block_count p)}" for F
  proof -
    have un: "unat (of_nat i :: size_t) = i" if "i \<in> set F" for i
      using that \<open>set F \<subseteq> _\<close> unat_count_index by auto
    then show "unat ` set (map of_nat F :: size_t list) = set F" by (simp add: image_image)
    have "inj_on (of_nat :: nat \<Rightarrow> size_t) (set F)" by (rule inj_onI) (metis un)
    then show "distinct (map of_nat F :: size_t list) \<longleftrightarrow> distinct F" by (simp add: distinct_map)
  qed
  show "\<exists>F. ?R F" if L: ?L
  proof -
    obtain is' where c: "collect_free_indices m p (fp_free_head p) [] = Inr is'"
      and v: "validate_free_blocks ds is' (fp_free_blocks p) = Inr ()"
      using L assms(2) by (auto simp: pool_validate_integrity_def bind_result_eq_Inr)
    obtain F where F: "set F \<subseteq> {..<unat (fp_block_count p)}" "is' = map of_nat F"
      "free_chain m (fp_free_head p) (map (pool_block p) F)"
      using c collect_free_indices_iff [OF assms(1)] by auto
    then have "?R F" using v u [OF F(1)] by (auto simp: validate_free_blocks_iff free_blocks_ok_def)
    then show ?thesis ..
  qed
  show ?L if "\<exists>F. ?R F"
  proof -
    from that obtain F where F: "?R F" by blast
    then have sF: "set F \<subseteq> {..<unat (fp_block_count p)}" and d: "distinct F" by (auto simp: free_blocks_ok_def)
    have "length F \<le> unat (fp_block_count p)"
      using sF d card_mono [of "{..<unat (fp_block_count p)}" "set F"] by (simp add: distinct_card)
    then have "collect_free_indices m p (fp_free_head p) [] = Inr (map of_nat F)"
      using F sF unfolding collect_free_indices_iff [OF assms(1)]
      by (intro exI [of _ F]) (auto simp: free_blocks_ok_def)
    moreover have "validate_free_blocks ds (map of_nat F) (fp_free_blocks p) = Inr ()"
      using F u [OF sF] d by (simp add: validate_free_blocks_iff)
    ultimately show ?thesis using assms(2) by (simp add: pool_validate_integrity_def)
  qed
qed

lemma pool_validate_integrity_error:
  assumes "fp_diagnostic_state p = Some ds" and "pool_validate_integrity m p \<noteq> Inr ()"
  shows "pool_validate_integrity m p = Inl MemoryCorruptionError"
  using assms validate_free_blocks_error collect_free_indices_error
  by (cases "collect_free_indices m p (fp_free_head p) []") (auto simp: pool_validate_integrity_def)

lemma pool_validate_integrity_inv:
  assumes "pool_inv m p F" and "fp_diagnostic_state p \<noteq> None"
  shows "pool_validate_integrity m p = Inr ()"
proof -
  obtain ds where ds: "fp_diagnostic_state p = Some ds" using assms(2) by blast
  show ?thesis
    using pool_validate_integrity_iff [OF pool_invD(1) [OF assms(1)] ds pool_inv_diag(1) [OF assms(1) ds]]
      pool_inv_diag(2) [OF assms(1) ds] pool_invD(4,5) [OF assms(1)] by blast
qed

section \<open>Double frees\<close>

lemma mark_free_twice:
  assumes "pool_inv m p F" and "fp_diagnostic_state p = Some ds" and "i \<in> set F"
  shows "mark_free ds (of_nat i) = Inl DoubleFreeError"
proof -
  have i: "i < unat (fp_block_count p)" using pool_invD(3) [OF assms(1)] assms(3) by auto
  then show ?thesis
    using pool_inv_diag(1,3) [OF assms(1,2)] unat_count_index [OF i] assms(3) by (simp add: mark_free_def)
qed

lemma pool_deallocate_free_block:
  assumes "pool_inv m p F" and "fp_diagnostic_state p \<noteq> None" and "i \<in> set F"
  shows "pool_deallocate m p (pool_payload p i) =
     (if opt_guard_bytes (fp_options p) \<and> \<not> canaries_are_valid m (pool_payload p i) (fp_block_size p)
      then (Inl MemoryCorruptionError, (m, p))
      else (Inl DoubleFreeError,
            (if opt_poison_memory (fp_options p)
             then memset m (pool_payload p i) freed_pattern (fp_block_size p) else m, p)))"
proof -
  note sh = pool_invD(1) [OF assms(1)]
  have i: "i < unat (fp_block_count p)" using pool_invD(3) [OF assms(1)] assms(3) by auto
  obtain ds where ds: "fp_diagnostic_state p = Some ds" using assms(2) by blast
  have nf: "\<not> fp_fast_path p" using sh assms(2) by (auto simp: pool_shape_def)
  have raw: "pool_block p i + fp_payload_offset p = pool_payload p i"
    by (simp add: pool_payload_def payload_from_raw_block_def)
  show ?thesis
    using pool_payload_nonnull [OF sh i] pool_block_index_payload [OF sh i] mark_free_twice [OF assms(1) ds assms(3)]
      ds nf
    by (auto simp: pool_deallocate_def Let_def validate_and_prepare_freed_memory_def raw)
qed

text \<open>Block addresses are multiples of eight; the poison pattern and the front canary are not.\<close>

lemma pool_block_dvd_8:
  assumes "pool_shape p" and "i < unat (fp_block_count p)"
  shows "8 dvd unat (pool_block p i)"
proof -
  have al: "is_power_of_two (fp_alignment p)" "unat (fp_alignment p) dvd unat (fp_block_stride p)"
    "unat (fp_alignment p) dvd unat (fp_storage p)"
    using assms(1) by (auto simp: pool_shape_def layout_ok_def pool_layout_def)
  have "8 \<le> fp_alignment p" using assms(1) by (simp add: pool_shape_def free_node_alignment_def)
  then have "unat (8 :: size_t) dvd unat (fp_alignment p)"
    using is_power_of_two_dvd [OF power_of_two_8 al(1)] by simp
  then have "8 dvd unat (fp_storage p) + i * unat (fp_block_stride p)"
    using al by (simp add: dvd_add dvd_trans [of 8] dvd_mult)
  then show ?thesis using unat_block_at [OF pool_shapeD(1) [OF assms(1)], of i] assms(2) by simp
qed

lemma pool_link_dvd_8:
  assumes "pool_inv m p F" and "i \<in> set F"
  shows "8 dvd unat (load64 m (pool_block p i))"
proof -
  obtain A B where F: "F = A @ i # B" using split_list [OF assms(2)] by blast
  have chain: "free_chain m h (map (pool_block p) (A @ i # B)) \<Longrightarrow>
      free_chain m (load64 m (pool_block p i)) (map (pool_block p) B)" for h
    by (induction A arbitrary: h) auto
  then have "free_chain m (load64 m (pool_block p i)) (map (pool_block p) B)"
    using pool_invD(4) [OF assms(1)] F by (auto simp: free_blocks_ok_def)
  then show ?thesis
    using pool_block_dvd_8 [OF pool_invD(1) [OF assms(1)]] pool_invD(3) [OF assms(1)] F
    by (cases B) auto
qed

lemma free_chain_link:
  assumes "free_chain m h (map f F)" and "i \<in> set F"
  shows "load64 m (f i) = 0 \<or> (\<exists>j \<in> set F. load64 m (f i) = f j)"
  using assms
proof (induction F arbitrary: h)
  case (Cons a F)
  then show ?case by (cases F) auto
qed simp

text \<open>
  When the front canary and the free-list link of a block share their bytes, a block on the
  free list never has a valid front canary.
\<close>

lemma free_block_canary_invalid:
  assumes "pool_inv m p F" and "i \<in> set F" and "fp_payload_offset p = 8"
  shows "\<not> canaries_are_valid m (pool_payload p i) (fp_block_size p)"
proof
  assume "canaries_are_valid m (pool_payload p i) (fp_block_size p)"
  then have "load64 m (pool_block p i) = front_canary"
    using assms(3) by (simp add: canaries_are_valid_def guard_size_def pool_payload_def payload_from_raw_block_def)
  with pool_link_dvd_8 [OF assms(1,2)] show False by (simp add: front_canary_def)
qed

lemma load64_memset_freed:
  assumes "extent a 8 \<subseteq> extent b n"
  shows "load64 (memset m b freed_pattern n) a = 0xDDDDDDDDDDDDDDDD"
proof -
  have "load64 (memset m b freed_pattern n) a = load64 (\<lambda>_. freed_pattern) a"
    using assms by (intro load64_cong memset_inside) blast
  also have "\<dots> = 0xDDDDDDDDDDDDDDDD"
    by (simp add: load64_def freed_pattern_def word_rcat_def upt_rec)
  finally show ?thesis .
qed

lemma freed_link_breaks_list:
  assumes "pool_inv m p F" and "fp_diagnostic_state p \<noteq> None" and "i \<in> set F"
    and "load64 m' (pool_block p i) = 0xDDDDDDDDDDDDDDDD"
  shows "pool_validate_integrity m' p = Inl MemoryCorruptionError"
proof (rule ccontr)
  assume no: "pool_validate_integrity m' p \<noteq> Inl MemoryCorruptionError"
  note sh = pool_invD(1) [OF assms(1)]
  obtain ds where ds: "fp_diagnostic_state p = Some ds" using assms(2) by blast
  have "pool_validate_integrity m' p = Inr ()" using no pool_validate_integrity_error [OF ds] by blast
  then obtain G where G: "free_blocks_ok m' (fp_storage p) (fp_block_stride p) (unat (fp_block_count p))
      (fp_free_head p) G" "free_indices_of ds = set G"
    using pool_validate_integrity_iff [OF sh ds pool_inv_diag(1) [OF assms(1) ds]] by blast
  have "i \<in> set G" using G(2) pool_inv_diag(2) [OF assms(1) ds] assms(3) by simp
  then consider "load64 m' (pool_block p i) = 0" | j where "j \<in> set G" "load64 m' (pool_block p i) = pool_block p j"
    using free_chain_link [of m' "fp_free_head p" "pool_block p" G i] G(1) by (auto simp: free_blocks_ok_def)
  then show False
  proof cases
    case 1
    then show ?thesis using assms(4) by simp
  next
    case 2
    then have "8 dvd unat (pool_block p j)" using G(1) pool_block_dvd_8 [OF sh] by (auto simp: free_blocks_ok_def)
    with 2 assms(4) show ?thesis by simp
  qed
qed

lemma poison_covers_link:
  assumes "pool_inv m p F" and "i < unat (fp_block_count p)" and "\<not> opt_guard_bytes (fp_options p)"
  shows "load64 (memset m (pool_payload p i) freed_pattern (fp_block_size p)) (pool_block p i) = 0xDDDDDDDDDDDDDDDD"
proof (rule load64_memset_freed)
  note sh = pool_invD(1) [OF assms(1)]
  have "fp_payload_offset p = 0"
    using sh assms(3) by (simp add: pool_shape_def layout_ok_def pool_layout_def)
  then have "pool_payload p i = pool_block p i" by (simp add: pool_payload_def payload_from_raw_block_def)
  then show "extent (pool_block p i) 8 \<subseteq> extent (pool_payload p i) (fp_block_size p)"
    using pool_shapeD(4) [OF sh] by (simp add: extent_mono word_le_nat_alt)
qed

section \<open>Guard bytes\<close>

lemma pool_deallocate_overrun:
  assumes "pool_inv m p F" and "i < unat (fp_block_count p)" and "i \<notin> set F"
    and "opt_guard_bytes (fp_options p)"
    and "x \<in> guard_bytes_of (pool_payload p i) (fp_block_size p)" and "m' x \<noteq> m x"
  shows "pool_deallocate m' p (pool_payload p i) = (Inl MemoryCorruptionError, (m', p))"
proof -
  note sh = pool_invD(1) [OF assms(1)]
  have "\<not> canaries_are_valid m' (pool_payload p i) (fp_block_size p)"
    using assms(5,6) pool_inv_canaries [OF assms(1,4,2,3)] by (intro canaries_detect_change [of m _ _ x m'])
  moreover have "\<not> fp_fast_path p" using sh assms(4) by (simp add: pool_shape_def)
  moreover have "pool_block p i + fp_payload_offset p = pool_payload p i"
    by (simp add: pool_payload_def payload_from_raw_block_def)
  ultimately show ?thesis
    using pool_payload_nonnull [OF sh assms(2)] pool_block_index_payload [OF sh assms(2)] assms(4)
    by (simp add: pool_deallocate_def Let_def validate_and_prepare_freed_memory_def)
qed

section \<open>Poison patterns\<close>

lemma pool_allocate_poison:
  assumes "pool_inv m p (i # F)" and "opt_poison_memory (fp_options p)"
    and "pool_allocate m p = (Inr q, (m', p'))" and "x \<in> extent q (fp_block_size p)"
  shows "m' x = allocated_pattern"
proof -
  note sh = pool_invD(1) [OF assms(1)]
  have i: "i < unat (fp_block_count p)" using pool_invD(3) [OF assms(1)] by simp
  have q: "q = pool_payload p i" "m' = pool_alloc_mem p i m"
    using assms(3) pool_allocate_block [OF assms(1)] by auto
  have "opt_guard_bytes (fp_options p) \<Longrightarrow> x \<notin> guard_bytes_of (pool_payload p i) (fp_block_size p)"
    using guards_apart [OF guarded_payload(1) [OF sh i]] assms(4) q
    by (auto simp: guard_bytes_of_def guard_size_def)
  then show ?thesis
    using assms(2,4) q
    by (simp add: pool_alloc_mem_def prepare_allocated_memory_def Let_def pool_payload_def
        payload_from_raw_block_def write_canaries_other memset_inside)
qed

lemma pool_deallocate_poison:
  assumes "pool_inv m p F" and "i < unat (fp_block_count p)" and "i \<notin> set F"
    and "opt_poison_memory (fp_options p)"
    and "x \<in> extent (pool_payload p i) (fp_block_size p)" and "x \<notin> extent (pool_block p i) 8"
  shows "pool_free_mem p i m x = freed_pattern"
  using assms(4-6) by (simp add: pool_free_mem_def store64_other memset_inside)

end
