(* ===== verification/Fixed_Pool_Runs.thy ===== *)
theory Fixed_Pool_Runs
  imports Fixed_Pool_Diagnostics
begin

text \<open>
  Whole runs of a client of \<^verbatim>\<open>FixedSizeMemoryPool\<close>: the order in which blocks are handed out, the
  statistics, and what is true in every state a well-behaved client can reach.
\<close>

section \<open>Statistics\<close>

text \<open>
  The counters are \<^verbatim>\<open>size_t\<close>, so the two equations between totals hold modulo 2 to the 64; the
  current and the peak number of blocks are exact.
\<close>

definition stats_consistent :: "fixed_pool \<Rightarrow> bool" where
  "stats_consistent p \<longleftrightarrow>
     (let s = fp_statistics p in
        currently_allocated s = pool_in_use p \<and>
        allocation_requests s = successful_allocations s + failed_allocations s \<and>
        successful_allocations s = deallocation_requests s + currently_allocated s \<and>
        currently_allocated s \<le> peak_allocated s \<and> peak_allocated s \<le> fp_block_count p \<and>
        reserved_bytes s = fp_storage_size p)"

lemma pool_in_use_length:
  assumes "pool_inv m p F"
  shows "unat (pool_in_use p) = unat (fp_block_count p) - length F"
  using pool_invD(5) [OF assms] pool_inv_length [OF assms] by (simp add: pool_in_use_def unat_sub_size)

lemma pool_in_use_card:
  assumes "pool_inv m p F"
  shows "unat (pool_in_use p) = card (pool_live p F)"
proof -
  note sh = pool_invD(1) [OF assms]
  have "inj_on (pool_payload p) ({..<unat (fp_block_count p)} - set F)"
    using pool_payload_inj [OF sh] by (auto simp: inj_on_def)
  then have "card (pool_live p F) = card ({..<unat (fp_block_count p)} - set F)"
    by (simp add: pool_live_def card_image)
  also have "\<dots> = unat (fp_block_count p) - length F"
    using pool_invD(2,3) [OF assms] by (subst card_Diff_subset) (simp_all add: distinct_card)
  finally show ?thesis using pool_in_use_length [OF assms] by simp
qed

lemma stats_consistent_exhausted:
  assumes "pool_inv m p []" and "opt_collect_statistics (fp_options p)" and "stats_consistent p"
    and "pool_allocate m p = (r, (m', p'))"
  shows "stats_consistent p'"
  using assms(3,4) unfolding pool_allocate_exhausted [OF assms(1)]
  by (auto simp: stats_consistent_def assms(2) record_failed_allocation_def record_allocation_request_def
      pool_in_use_def Let_def)

lemma stats_consistent_allocate:
  assumes "pool_inv m p (i # F)" and "opt_collect_statistics (fp_options p)" and "stats_consistent p"
    and "pool_allocate m p = (r, (m', p'))"
  shows "stats_consistent p'"
proof -
  define s where "s = record_allocation_request (fp_statistics p) (fp_block_size p)"
  have s: "currently_allocated s = pool_in_use p" "currently_allocated s \<le> peak_allocated s"
      "peak_allocated s \<le> fp_block_count p" "reserved_bytes s = fp_storage_size p"
      "allocation_requests s = successful_allocations s + failed_allocations s + 1"
      "successful_allocations s = deallocation_requests s + currently_allocated s"
    using assms(3) by (auto simp: stats_consistent_def s_def record_allocation_request_def Let_def)
  have st: "fp_statistics p' = record_successful_allocation s" "fp_block_count p' = fp_block_count p"
      "fp_storage_size p' = fp_storage_size p"
    using assms(2,4) unfolding pool_allocate_block [OF assms(1)]
    by (auto simp: pool_alloc_stats_def s_def)
  have use: "pool_in_use p' = pool_in_use p + 1"
    using assms(4) unfolding pool_allocate_block [OF assms(1)] by (auto simp: pool_in_use_def)
  have "unat (pool_in_use p) + 1 \<le> unat (fp_block_count p)"
    using pool_in_use_length [OF assms(1)] pool_inv_length [OF assms(1)] by simp
  then have "unat (pool_in_use p + 1) = unat (pool_in_use p) + 1"
    using unat_lt_64 [of "fp_block_count p"] by (subst unat_add_size) (simp_all del: unat_lt_64)
  then have "pool_in_use p + 1 \<le> fp_block_count p"
    using \<open>_ \<le> unat (fp_block_count p)\<close> by (simp add: word_le_nat_alt)
  then show ?thesis
    using s by (auto simp: stats_consistent_def st use record_successful_allocation_def Let_def algebra_simps)
qed

lemma stats_consistent_freed:
  assumes "pool_inv m p F" and "i < unat (fp_block_count p)" and "i \<notin> set F"
    and "opt_collect_statistics (fp_options p)" and "stats_consistent p"
  shows "stats_consistent (pool_freed p i)"
proof -
  have "length (i # F) \<le> unat (fp_block_count p)"
    using pool_inv_length [OF pool_freed_inv [OF assms(1-3)]] same_configD(3) [OF same_config_freed] by simp
  then have "0 < unat (pool_in_use p)" using pool_in_use_length [OF assms(1)] by simp
  then have "pool_in_use p - 1 \<le> pool_in_use p" by (simp add: word_le_nat_alt unat_sub_size)
  then have "currently_allocated (fp_statistics p) - 1 \<le> peak_allocated (fp_statistics p)"
    using assms(5) by (auto simp: stats_consistent_def Let_def intro: order_trans)
  then show ?thesis
    using assms(4,5)
    by (auto simp: stats_consistent_def pool_freed_def record_deallocation_def pool_in_use_def Let_def algebra_simps)
qed

section \<open>Reachable states\<close>

lemma pool_run:
  assumes "client_run pool_alloc_op pool_free_op pool_poke pool_sz (m0, p0) s H"
    and "pool_inv m0 p0 F0" and "pool_live p0 F0 = {}"
  shows "\<exists>F. pool_inv (fst s) (snd s) F \<and> H = pool_live (snd s) F \<and> same_config p0 (snd s) \<and>
     (opt_collect_statistics (fp_options p0) \<longrightarrow> stats_consistent p0 \<longrightarrow> stats_consistent (snd s))"
  using assms
proof (induction rule: client_run.induct)
  case run_start
  then show ?case by (intro exI [of _ F0]) simp
next
  case (run_alloc s H q s')
  then obtain F where F: "pool_inv (fst s) (snd s) F" "H = pool_live (snd s) F" "same_config p0 (snd s)"
      "opt_collect_statistics (fp_options p0) \<longrightarrow> stats_consistent p0 \<longrightarrow> stats_consistent (snd s)" by blast
  obtain m p where s: "s = (m, p)" by (cases s)
  obtain m' p' where s': "s' = (m', p')" by (cases s')
  have al: "pool_allocate m p = (Inr q, (m', p'))" using run_alloc.hyps(2) by (simp add: pool_alloc_op_def s s')
  note inv = F(1) [unfolded s fst_conv snd_conv]
  have opt: "fp_options p = fp_options p0" using same_configD(8) [OF F(3)] s by simp
  show ?case
  proof (cases F)
    case Nil
    have st: "stats_consistent p \<Longrightarrow> opt_collect_statistics (fp_options p) \<Longrightarrow> stats_consistent p'"
      using stats_consistent_exhausted [OF inv [unfolded Nil] _ _ al] by blast
    have "q = 0" "m' = m" "\<exists>st. p' = p\<lparr>fp_statistics := st\<rparr>"
      using al unfolding pool_allocate_exhausted [OF inv [unfolded Nil]] by auto
    then show ?thesis
      using F st opt by (intro exI [of _ F]) (auto simp: s s' same_config_def pool_layout_def pool_live_def)
  next
    case (Cons i G)
    note st = pool_allocate_inv [OF inv [unfolded Cons] al]
    have i: "i < unat (fp_block_count p)" using pool_invD(3) [OF inv] Cons by simp
    have "q = pool_payload p i" "q \<noteq> 0"
      using st(1) pool_payload_nonnull [OF pool_invD(1) [OF inv] i] by auto
    moreover have "pool_live p' G = insert (pool_payload p i) (pool_live p F)"
      using pool_live_Cons(1) [OF inv [unfolded Cons]] pool_live_same_config [OF st(3)] Cons by simp
    ultimately show ?thesis
      using st(2) F same_config_trans [OF F(3) [unfolded s snd_conv] st(3)] opt
        stats_consistent_allocate [OF inv [unfolded Cons] _ _ al]
      by (intro exI [of _ G]) (auto simp: s s')
  qed
next
  case (run_alloc_throw s H e s')
  then obtain F where F: "pool_inv (fst s) (snd s) F" by blast
  have False
    using run_alloc_throw.hyps(2) F pool_allocate_exhausted [of "fst s" "snd s"]
      pool_allocate_block [of "fst s" "snd s"] by (cases F) (auto simp: pool_alloc_op_def)
  then show ?case ..
next
  case (run_free s H q r s')
  then obtain F where F: "pool_inv (fst s) (snd s) F" "H = pool_live (snd s) F" "same_config p0 (snd s)"
      "opt_collect_statistics (fp_options p0) \<longrightarrow> stats_consistent p0 \<longrightarrow> stats_consistent (snd s)" by blast
  obtain m p where s: "s = (m, p)" by (cases s)
  note inv = F(1) [unfolded s fst_conv snd_conv]
  have opt: "fp_options p = fp_options p0" using same_configD(8) [OF F(3)] s by simp
  obtain i where i: "i < unat (fp_block_count p)" "i \<notin> set F" and q: "q = pool_payload p i"
    using run_free.hyps(2) F(2) by (auto simp: s elim: pool_liveE)
  have s': "s' = (pool_free_mem p i m, pool_freed p i)"
    using run_free.hyps(3) pool_deallocate_live [OF inv i] by (simp add: pool_free_op_def s q)
  have "pool_live (pool_freed p i) (i # F) = H - {q}"
    using pool_live_freed [OF inv i] pool_live_same_config [OF same_config_freed] F(2) s q by simp
  then show ?case
    using pool_freed_inv [OF inv i] stats_consistent_freed [OF inv i] F opt
      same_config_trans [OF F(3) [unfolded s snd_conv] same_config_freed [of p i]]
    by (intro exI [of _ "i # F"]) (auto simp: s s')
next
  case (run_poke s H q x b)
  then obtain F where F: "pool_inv (fst s) (snd s) F" "H = pool_live (snd s) F" "same_config p0 (snd s)"
      "opt_collect_statistics (fp_options p0) \<longrightarrow> stats_consistent p0 \<longrightarrow> stats_consistent (snd s)" by blast
  obtain i where i: "i < unat (fp_block_count (snd s))" "i \<notin> set F" and q: "q = pool_payload (snd s) i"
    using run_poke.hyps(2) F(2) by (auto elim: pool_liveE)
  have "pool_inv ((fst s)(x := b)) (snd s) F"
    using run_poke.hyps(3) by (intro pool_inv_client_write [OF F(1) i]) (auto simp: pool_sz_def q)
  then show ?case using F by (intro exI [of _ F]) (simp add: pool_poke_def fun_upd_def)
qed

lemma created_pool:
  assumes "sys_ok h" and "fixed_pool_create bs count al opts m h = (Inr p, (m0, h0))"
  shows "pool_inv m0 p [0..<unat count]" and "pool_live p [0..<unat count] = {}" and "stats_consistent p"
    and "pool_ok (m0, p)" and "pool_live_of (m0, p) = {}"
proof -
  note c = fixed_pool_create_inv [OF assms]
  show inv: "pool_inv m0 p [0..<unat count]" by (rule c(1))
  show l: "pool_live p [0..<unat count] = {}" using c(2) by (auto simp: pool_live_def)
  show "pool_ok (m0, p)" "pool_live_of (m0, p) = {}"
    using inv l pool_live_of_eq [OF inv] by (auto simp: pool_ok_def)
  have "fp_free_blocks p = fp_block_count p \<and> fp_statistics p = zero_statistics\<lparr>reserved_bytes := fp_storage_size p\<rparr>"
    using assms(2) by (auto simp: fixed_pool_create_def Let_def split: sum.splits prod.splits)
  then show "stats_consistent p"
    by (simp add: stats_consistent_def pool_in_use_def zero_statistics_def)
qed

section \<open>Order of allocation\<close>

fun pool_allocate_many :: "nat \<Rightarrow> mem \<Rightarrow> fixed_pool \<Rightarrow> addr result list \<times> mem \<times> fixed_pool" where
  "pool_allocate_many 0 m p = ([], m, p)"
| "pool_allocate_many (Suc k) m p =
     (case pool_allocate m p of (r, (m', p')) \<Rightarrow>
        (case pool_allocate_many k m' p' of (rs, s) \<Rightarrow> (r # rs, s)))"

lemma pool_allocate_many_results:
  assumes "pool_inv m p F"
  shows "fst (pool_allocate_many k m p) =
     map (\<lambda>i. Inr (pool_payload p i)) (take k F) @ replicate (k - length F) (Inr 0)"
  using assms
proof (induction k arbitrary: m p F)
  case (Suc k)
  obtain r m' p' where al: "pool_allocate m p = (r, (m', p'))" by (metis prod_cases3)
  show ?case
  proof (cases F)
    case Nil
    have "r = Inr 0" "pool_inv m' p' F" "pool_payload p' = pool_payload p"
      using al Suc.prems unfolding pool_allocate_exhausted [OF Suc.prems [unfolded Nil]] by auto
    then show ?thesis using Suc.IH [of m' p' F] Nil al by (auto split: prod.splits)
  next
    case (Cons i G)
    note st = pool_allocate_inv [OF Suc.prems [unfolded Cons] al]
    show ?thesis
      using Suc.IH [OF st(2)] st(1) same_configD(10) [OF st(3)] Cons al by (auto split: prod.splits)
  qed
qed simp

section \<open>The fast path\<close>

text \<open>The flag set by the constructor only skips work: without options both paths do the same.\<close>

lemma pool_allocate_slow_path:
  assumes "pool_shape p" and "fp_fast_path p"
  shows "pool_allocate m (p\<lparr>fp_fast_path := False\<rparr>) =
     (case pool_allocate m p of (r, (m', p')) \<Rightarrow> (r, (m', p'\<lparr>fp_fast_path := False\<rparr>)))"
proof -
  have f: "\<not> opt_poison_memory (fp_options p)" "\<not> opt_guard_bytes (fp_options p)"
      "\<not> opt_collect_statistics (fp_options p)" "fp_diagnostic_state p = None" "fp_payload_offset p = 0"
    using assms by (auto simp: pool_shape_def layout_ok_def pool_layout_def)
  with assms(2) show ?thesis by (cases p) (simp add: pool_allocate_def Let_def payload_from_raw_block_def)
qed

lemma pool_deallocate_slow_path:
  assumes "pool_shape p" and "fp_fast_path p"
  shows "pool_deallocate m (p\<lparr>fp_fast_path := False\<rparr>) q =
     (case pool_deallocate m p q of (r, (m', p')) \<Rightarrow> (r, (m', p'\<lparr>fp_fast_path := False\<rparr>)))"
proof -
  have f: "\<not> opt_poison_memory (fp_options p)" "\<not> opt_guard_bytes (fp_options p)"
      "\<not> opt_collect_statistics (fp_options p)" "fp_diagnostic_state p = None"
    using assms by (auto simp: pool_shape_def)
  have "pool_block_index (p\<lparr>fp_fast_path := False\<rparr>) q = pool_block_index p q"
    by (simp add: pool_block_index_def pool_is_block_start_def pool_owns_def)
  with f assms(2) show ?thesis
    by (cases "pool_block_index p q"; cases p)
      (simp_all add: pool_deallocate_def Let_def raw_block_from_payload_def push_free_def)
qed

section \<open>Blocks inside the storage\<close>

lemma pool_payload_aligned:
  assumes "pool_shape p" and "i < unat (fp_block_count p)"
  shows "unat (fp_alignment p) dvd unat (pool_payload p i)"
proof -
  have "unat (fp_alignment p) dvd unat (fp_storage p)" "unat (fp_alignment p) dvd unat (fp_payload_offset p)"
    "unat (fp_alignment p) dvd unat (fp_block_stride p)"
    using assms(1) by (auto simp: pool_shape_def layout_ok_def pool_layout_def)
  then show ?thesis unfolding unat_pool_payload [OF assms] by (intro dvd_add dvd_mult)
qed

lemma pool_payload_in_storage:
  assumes "pool_shape p" and "i < unat (fp_block_count p)"
  shows "extent (pool_payload p i) (fp_block_size p) \<subseteq> extent (fp_storage p) (fp_storage_size p)"
proof -
  note s = pool_shapeD [OF assms(1)]
  have ub: "unat (pool_block p i) = unat (fp_storage p) + i * unat (fp_block_stride p)"
    using s(1) assms(2) by (simp add: unat_block_at)
  have "pool_block_extent p i \<subseteq> extent (fp_storage p) (fp_storage_size p)"
    unfolding pool_block_extent_def
  proof (rule extent_subsetI)
    show "no_wrap (pool_block p i) (fp_block_stride p)" using block_at_no_wrap [OF s(1) assms(2)] by simp
    show "no_wrap (fp_storage p) (fp_storage_size p)" by (rule s(5))
    show "unat (fp_storage p) \<le> unat (pool_block p i)" using ub by simp
    show "unat (pool_block p i) + unat (fp_block_stride p) \<le> unat (fp_storage p) + unat (fp_storage_size p)"
      using ub s(2) index_bound [OF assms(2), of "unat (fp_block_stride p)"] by (simp add: mult.commute)
  qed
  then show ?thesis using payload_in_block [OF assms] by blast
qed

section \<open>A concrete pool\<close>

text \<open>
  A pool of two 16-byte blocks with any combination of options, constructed on a system heap that
  places its requests at fixed addresses. It instantiates the hypotheses of the properties.
\<close>

definition bump_place :: "nat \<Rightarrow> size_t \<Rightarrow> size_t \<Rightarrow> addr" where
  "bump_place t n a = 4096 + 65536 * of_nat t"

abbreviation bump_heap :: sys_heap where
  "bump_heap \<equiv> empty_sys_heap bump_place"

definition demo_created :: "pool_options \<Rightarrow> (fixed_pool, mem \<times> sys_heap) outcome" where
  "demo_created opts = fixed_pool_create 16 2 8 opts (\<lambda>_. 0) bump_heap"

definition demo_pool :: "pool_options \<Rightarrow> fixed_pool" where
  "demo_pool opts = projr (fst (demo_created opts))"

definition demo_mem :: "pool_options \<Rightarrow> mem" where
  "demo_mem opts = fst (snd (demo_created opts))"

definition demo_heap :: "pool_options \<Rightarrow> sys_heap" where
  "demo_heap opts = snd (snd (demo_created opts))"

lemma demo_layout:
  "make_block_layout 16 2 8 g free_node_size free_node_alignment guard_size =
     Inr (if g then \<lparr>block_size = 16, block_count = 2, alignment = 8, payload_offset = 8, block_stride = 32,
                     storage_size = 64\<rparr>
          else \<lparr>block_size = 16, block_count = 2, alignment = 8, payload_offset = 0, block_stride = 16,
                storage_size = 32\<rparr>)"
  by (simp add: make_block_layout_def validate_alignment_def round_up_def checked_add_def checked_multiply_def
      size_max_def free_node_size_def free_node_alignment_def guard_size_def)

lemma demo_created:
  "fixed_pool_create 16 2 8 opts (\<lambda>_. 0) bump_heap = (Inr (demo_pool opts), (demo_mem opts, demo_heap opts))"
proof -
  have "\<not> isl (fst (demo_created opts))"
    by (cases "opt_guard_bytes opts")
      (simp_all add: demo_created_def fixed_pool_create_def demo_layout sys_new_def Let_def placeable_def
        bump_place_def empty_sys_heap_def no_wrap_def split: prod.splits)
  then show ?thesis
    by (cases "demo_created opts"; cases "fst (demo_created opts)")
      (auto simp: demo_pool_def demo_mem_def demo_heap_def demo_created_def)
qed

lemma demo_fields [simp]:
  "fp_options (demo_pool opts) = opts"
  "fp_block_count (demo_pool opts) = 2"
  "fp_block_size (demo_pool opts) = 16"
  "fp_diagnostic_state (demo_pool opts) = None \<longleftrightarrow> opt_diagnostics opts = DiagnosticsDisabled"
  "fp_storage (demo_pool opts) = 4096"
  "fp_payload_offset (demo_pool opts) = (if opt_guard_bytes opts then 8 else 0)"
  "fp_block_stride (demo_pool opts) = (if opt_guard_bytes opts then 32 else 16)"
  by (cases "opt_guard_bytes opts"; cases "opt_diagnostics opts";
      simp add: demo_pool_def demo_created_def fixed_pool_create_def demo_layout sys_new_def Let_def
        placeable_def bump_place_def empty_sys_heap_def no_wrap_def split: prod.split)+

lemma demo_inv: "pool_inv (demo_mem opts) (demo_pool opts) [0, 1]"
  using created_pool(1) [OF sys_ok_empty demo_created, of opts] by (simp add: upt_rec)

definition demo_next :: "pool_options \<Rightarrow> mem \<times> fixed_pool" where
  "demo_next opts = snd (pool_allocate (demo_mem opts) (demo_pool opts))"

lemma demo_next:
  shows "pool_allocate (demo_mem opts) (demo_pool opts) = (Inr (pool_payload (demo_pool opts) 0), demo_next opts)"
    and "pool_inv (fst (demo_next opts)) (snd (demo_next opts)) [1]"
    and "same_config (demo_pool opts) (snd (demo_next opts))"
proof -
  have al: "pool_allocate (demo_mem opts) (demo_pool opts) =
      (fst (pool_allocate (demo_mem opts) (demo_pool opts)), (fst (demo_next opts), snd (demo_next opts)))"
    by (simp add: demo_next_def)
  note st = pool_allocate_inv [OF demo_inv al]
  show "pool_allocate (demo_mem opts) (demo_pool opts) = (Inr (pool_payload (demo_pool opts) 0), demo_next opts)"
    using st(1) al by simp
  show "pool_inv (fst (demo_next opts)) (snd (demo_next opts)) [1]" by (rule st(2))
  show "same_config (demo_pool opts) (snd (demo_next opts))" by (rule st(3))
qed

lemma demo_payload [simp]:
  "pool_payload (demo_pool opts) i = 4096 + of_nat i * (if opt_guard_bytes opts then 32 else 16) +
     (if opt_guard_bytes opts then 8 else 0)"
  by (simp add: pool_payload_def payload_from_raw_block_def block_at_def)

definition plain_options :: pool_options where
  "plain_options = \<lparr>opt_diagnostics = DiagnosticsDisabled, opt_poison_memory = False, opt_guard_bytes = False,
     opt_collect_statistics = False, opt_leak_handler = False\<rparr>"

definition checked_options :: pool_options where
  "checked_options = \<lparr>opt_diagnostics = DiagnosticsEnabled, opt_poison_memory = True, opt_guard_bytes = True,
     opt_collect_statistics = True, opt_leak_handler = True\<rparr>"

end
