(* ===== verification/Object_Pool.thy ===== *)
theory Object_Pool
  imports Fixed_Pool_Runs
begin

text \<open>
  \<^verbatim>\<open>FixedSizeMemoryPool::create\<close> and \<^verbatim>\<open>destroy\<close>, \<^verbatim>\<open>include/memory_pool/object_pool.hpp\<close> and
  \<^verbatim>\<open>pool_ptr.hpp\<close>. The object type is given by its size, its alignment, a constructor that may
  write to memory and may throw, and a destructor. A \<^verbatim>\<open>PoolPtr\<close> is the pair of the object and the
  deleter, which remembers whether it has a pool.
\<close>

section \<open>Typed creation and destruction\<close>

record object_type =
  ot_size :: size_t
  ot_align :: size_t
  ot_construct :: "addr \<Rightarrow> mem \<Rightarrow> (unit, mem) outcome"
  ot_destroy :: "addr \<Rightarrow> mem \<Rightarrow> mem"

definition pool_create :: "object_type \<Rightarrow> mem \<Rightarrow> fixed_pool \<Rightarrow> (addr, mem \<times> fixed_pool) outcome" where
  "pool_create T m p =
     (if ot_size T > fp_block_size p then (Inl InvalidArgument, (m, p))
      else if ot_align T > fp_alignment p then (Inl InvalidArgument, (m, p))
      else case pool_allocate m p of
        (Inl e, s) \<Rightarrow> (Inl e, s)
      | (Inr memory, (m1, p1)) \<Rightarrow>
          if memory = nullptr then (Inl BadAlloc, (m1, p1))
          else case ot_construct T memory m1 of
            (Inr _, m2) \<Rightarrow> (Inr memory, (m2, p1))
          | (Inl e, m2) \<Rightarrow>
              (case pool_deallocate m2 p1 memory of
                 (Inl e', s) \<Rightarrow> (Inl e', s)
               | (Inr _, s) \<Rightarrow> (Inl e, s)))"

definition pool_destroy :: "object_type \<Rightarrow> mem \<Rightarrow> fixed_pool \<Rightarrow> addr \<Rightarrow> (unit, mem \<times> fixed_pool) outcome" where
  "pool_destroy T m p object =
     (if object = nullptr then (Inr (), (m, p))
      else case validate_allocated_pointer p object of
        Inl e \<Rightarrow> (Inl e, (m, p))
      | Inr _ \<Rightarrow> pool_deallocate (ot_destroy T object m) p object)"

section \<open>ObjectPool and PoolPtr\<close>

definition object_pool_create ::
  "object_type \<Rightarrow> size_t \<Rightarrow> pool_options \<Rightarrow> mem \<Rightarrow> sys_heap \<Rightarrow> (fixed_pool, mem \<times> sys_heap) outcome" where
  "object_pool_create T capacity options m h = fixed_pool_create (ot_size T) capacity (ot_align T) options m h"

text \<open>The deleter is \<^verbatim>\<open>noexcept\<close>: an exception that leaves it ends the program.\<close>

definition pool_deleter ::
  "object_type \<Rightarrow> bool \<Rightarrow> mem \<Rightarrow> fixed_pool \<Rightarrow> addr \<Rightarrow> (unit, mem \<times> fixed_pool) outcome" where
  "pool_deleter T has_pool m p object =
     (if object = nullptr then (Inr (), (m, p))
      else if \<not> has_pool then (Inl Terminate, (m, p))
      else case pool_destroy T m p object of
        (Inl e, s) \<Rightarrow> (Inl Terminate, s)
      | (Inr _, s) \<Rightarrow> (Inr (), s))"

definition make_unique ::
  "object_type \<Rightarrow> mem \<Rightarrow> fixed_pool \<Rightarrow> (addr \<times> bool, mem \<times> fixed_pool) outcome" where
  "make_unique T m p =
     (case pool_create T m p of
        (Inl e, s) \<Rightarrow> (Inl e, s)
      | (Inr object, s) \<Rightarrow> (Inr (object, True), s))"

section \<open>Facts\<close>

text \<open>Constructors and destructors touch only the bytes of their object.\<close>

definition type_well_behaved :: "object_type \<Rightarrow> bool" where
  "type_well_behaved T \<longleftrightarrow>
     (\<forall>a m x. x \<notin> extent a (ot_size T) \<longrightarrow> snd (ot_construct T a m) x = m x \<and> ot_destroy T a m x = m x)"

lemma constructed_inv:
  assumes "type_well_behaved T" and "ot_size T \<le> fp_block_size p"
    and "pool_inv m p F" and "i < unat (fp_block_count p)" and "i \<notin> set F"
  shows "pool_inv (snd (ot_construct T (pool_payload p i) m)) p F"
    and "pool_inv (ot_destroy T (pool_payload p i) m) p F"
proof -
  let ?a = "pool_payload p i"
  have out: "x \<notin> extent ?a (ot_size T)" if "x \<notin> extent ?a (fp_block_size p)" for x
    using that extent_mono [OF assms(2), of ?a] by blast
  have T: "snd (ot_construct T ?a m) x = m x" "ot_destroy T ?a m x = m x"
    if "x \<notin> extent ?a (ot_size T)" for x
    using that assms(1) by (simp_all add: type_well_behaved_def)
  show "pool_inv (snd (ot_construct T ?a m)) p F" "pool_inv (ot_destroy T ?a m) p F"
    by (rule pool_inv_client_write [OF assms(3-5)], rule T, rule out, assumption)+
qed

lemma pool_create_outcome:
  assumes "pool_inv m p (i # F)" and "type_well_behaved T"
    and "ot_size T \<le> fp_block_size p" and "ot_align T \<le> fp_alignment p"
    and "pool_create T m p = (r, (m', p'))"
  shows "same_config p p'"
    and "case fst (ot_construct T (pool_payload p i) (pool_alloc_mem p i m)) of
           Inr _ \<Rightarrow> r = Inr (pool_payload p i) \<and> pool_inv m' p' F
         | Inl e \<Rightarrow> r = Inl e \<and> pool_inv m' p' (i # F)"
proof -
  note sh = pool_invD(1) [OF assms(1)]
  have i: "i < unat (fp_block_count p)" "i \<notin> set F" using pool_invD(2,3) [OF assms(1)] by auto
  obtain p1 where al: "pool_allocate m p = (Inr (pool_payload p i), (pool_alloc_mem p i m, p1))"
    using pool_allocate_block [OF assms(1)] by auto
  note st = pool_allocate_inv [OF assms(1) al]
  note cfg = same_configD [OF st(3)]
  have i1: "i < unat (fp_block_count p1)" and pay: "pool_payload p1 i = pool_payload p i"
    and sz: "ot_size T \<le> fp_block_size p1"
    using i cfg assms(3) by simp_all
  obtain c m2 where con: "ot_construct T (pool_payload p i) (pool_alloc_mem p i m) = (c, m2)"
    by (cases "ot_construct T (pool_payload p i) (pool_alloc_mem p i m)")
  have inv2: "pool_inv m2 p1 F"
    using constructed_inv(1) [OF assms(2) sz st(2) i1 i(2)] con pay by simp
  have dl: "pool_deallocate m2 p1 (pool_payload p i) = (Inr (), (pool_free_mem p1 i m2, pool_freed p1 i))"
    using pool_deallocate_live [OF inv2 i1 i(2)] pay by simp
  have nn: "pool_payload p i \<noteq> 0" by (rule pool_payload_nonnull [OF sh i(1)])
  have res: "pool_create T m p = (case c of Inr _ \<Rightarrow> (Inr (pool_payload p i), (m2, p1))
      | Inl e \<Rightarrow> (Inl e, (pool_free_mem p1 i m2, pool_freed p1 i)))"
    using assms(3,4) nn by (cases c) (auto simp: pool_create_def al con dl)
  show "same_config p p'"
    using res assms(5) st(3) same_config_trans [OF st(3) same_config_freed] by (cases c) auto
  show "case fst (ot_construct T (pool_payload p i) (pool_alloc_mem p i m)) of
          Inr _ \<Rightarrow> r = Inr (pool_payload p i) \<and> pool_inv m' p' F
        | Inl e \<Rightarrow> r = Inl e \<and> pool_inv m' p' (i # F)"
    using res assms(5) inv2 pool_freed_inv [OF inv2 i1 i(2)] con by (cases c) auto
qed

lemma validate_allocated_live:
  assumes "pool_inv m p F" and "i < unat (fp_block_count p)" and "i \<notin> set F"
  shows "validate_allocated_pointer p (pool_payload p i) = Inr ()"
proof -
  have "diagnostic_is_allocated ds (of_nat i) = Inr True" if "fp_diagnostic_state p = Some ds" for ds
    using pool_inv_diag [OF assms(1) that] assms(2,3) unat_count_index [OF assms(2)]
    by (simp add: diagnostic_is_allocated_def)
  then show ?thesis
    using pool_block_index_payload [OF pool_invD(1) [OF assms(1)] assms(2)]
    by (cases "fp_diagnostic_state p") (auto simp: validate_allocated_pointer_def)
qed

lemma validate_allocated_free:
  assumes "pool_inv m p F" and "fp_diagnostic_state p \<noteq> None" and "i \<in> set F"
  shows "validate_allocated_pointer p (pool_payload p i) = Inl DoubleFreeError"
proof -
  have i: "i < unat (fp_block_count p)" using pool_invD(3) [OF assms(1)] assms(3) by auto
  obtain ds where ds: "fp_diagnostic_state p = Some ds" using assms(2) by blast
  have "diagnostic_is_allocated ds (of_nat i) = Inr False"
    using pool_inv_diag [OF assms(1) ds] assms(3) i unat_count_index [OF i]
    by (simp add: diagnostic_is_allocated_def)
  then show ?thesis
    using pool_block_index_payload [OF pool_invD(1) [OF assms(1)] i] ds
    by (auto simp: validate_allocated_pointer_def)
qed

lemma pool_destroy_live:
  assumes "pool_inv m p F" and "i < unat (fp_block_count p)" and "i \<notin> set F"
    and "type_well_behaved T" and "ot_size T \<le> fp_block_size p"
  shows "pool_destroy T m p (pool_payload p i) =
     (Inr (), (pool_free_mem p i (ot_destroy T (pool_payload p i) m), pool_freed p i))"
    and "pool_inv (pool_free_mem p i (ot_destroy T (pool_payload p i) m)) (pool_freed p i) (i # F)"
proof -
  note inv = constructed_inv(2) [OF assms(4,5,1-3)]
  show "pool_destroy T m p (pool_payload p i) =
     (Inr (), (pool_free_mem p i (ot_destroy T (pool_payload p i) m), pool_freed p i))"
    using pool_deallocate_live [OF inv assms(2,3)] validate_allocated_live [OF assms(1-3)]
      pool_payload_nonnull [OF pool_invD(1) [OF assms(1)] assms(2)]
    by (simp add: pool_destroy_def)
  show "pool_inv (pool_free_mem p i (ot_destroy T (pool_payload p i) m)) (pool_freed p i) (i # F)"
    by (rule pool_freed_inv [OF inv assms(2,3)])
qed

end
