(* ===== verification/Fixed_Pool_Properties.thy ===== *)
theory Fixed_Pool_Properties
  imports Object_Pool
begin

text \<open>
  The properties of the fixed pool and of the object pool, over every configuration the
  constructor accepts, with an instance of each on the pool of two blocks.
\<close>

section \<open>Safety of every run\<close>

text \<open>
  C1: take any pool that the constructor of \<^verbatim>\<open>FixedSizeMemoryPool\<close> returns, and any client
  that frees only what it holds and writes only inside the blocks it holds. In every state it can
  reach, each block it holds is non-null, aligned to the requested alignment (raised to that of a
  pointer), has at least the requested size, lies inside the pool's storage, overlaps no other
  block it holds, and can be returned without an exception.
\<close>

theorem pool_client_safety:
  assumes "sys_ok h" and "fixed_pool_create bs count al opts m h = (Inr p, (m0, h0))"
    and "client_run pool_alloc_op pool_free_op pool_poke pool_sz (m0, p) s H"
    and "q \<in> H"
  shows "q \<noteq> 0 \<and> unat (max al 8) dvd unat q \<and> bs \<le> pool_sz s \<and>
     extent q (pool_sz s) \<subseteq> extent (fp_storage p) (fp_storage_size p) \<and>
     (\<forall>r \<in> H. r \<noteq> q \<longrightarrow> extent q (pool_sz s) \<inter> extent r (pool_sz s) = {}) \<and>
     (\<exists>s'. pool_free_op q s = (Inr (), s'))"
proof -
  note c = created_pool [OF assms(1,2)] and c' = fixed_pool_create_inv [OF assms(1,2)]
  obtain F where F: "pool_inv (fst s) (snd s) F" "H = pool_live (snd s) F" "same_config p (snd s)"
    using pool_run [OF assms(3) c(1,2)] by blast
  note sh = pool_invD(1) [OF F(1)] and cfg = same_configD [OF F(3)]
  obtain i where i: "i < unat (fp_block_count (snd s))" and q: "q = pool_payload (snd s) i"
    using assms(4) F(2) by (auto elim: pool_liveE)
  have "extent q (pool_sz s) \<subseteq> extent (fp_storage p) (fp_storage_size p)"
    using pool_payload_in_storage [OF sh i] cfg by (simp add: q pool_sz_def)
  then show ?thesis
    using pool_payload_nonnull [OF sh i] pool_payload_aligned [OF sh i] cfg c'(3,4)
      fixed_pool.client_blocks_apart [OF assms(3) c(4,5) assms(4)]
      fixed_pool.client_free_succeeds [OF assms(3) c(4,5) assms(4)]
    by (auto simp: q pool_sz_def)
qed

lemma demo_run:
  "client_run pool_alloc_op pool_free_op pool_poke pool_sz (demo_mem opts, demo_pool opts) (demo_next opts)
     {pool_payload (demo_pool opts) 0}"
proof -
  have "pool_alloc_op (demo_mem opts, demo_pool opts) = (Inr (pool_payload (demo_pool opts) 0), demo_next opts)"
    using demo_next(1) [of opts] by (simp add: pool_alloc_op_def)
  from run_alloc [OF run_start [of pool_alloc_op pool_free_op pool_poke pool_sz] this]
  show ?thesis
    using pool_payload_nonnull [OF pool_invD(1) [OF demo_inv], of 0 opts] by (simp del: demo_payload)
qed

theorem pool_client_safety_witness:
  "4104 \<noteq> (0 :: addr) \<and> unat (max (8 :: size_t) 8) dvd unat (4104 :: addr) \<and>
   16 \<le> pool_sz (demo_next checked_options) \<and>
   extent 4104 (pool_sz (demo_next checked_options)) \<subseteq>
     extent (fp_storage (demo_pool checked_options)) (fp_storage_size (demo_pool checked_options)) \<and>
   (\<exists>s'. pool_free_op 4104 (demo_next checked_options) = (Inr (), s'))"
  using pool_client_safety [OF sys_ok_empty demo_created demo_run, of 4104 checked_options]
  by (simp add: checked_options_def)

text \<open>
  C2: in every reachable state, \<^verbatim>\<open>allocate\<close> never throws and never terminates; it
  returns null exactly when the client already holds \<^verbatim>\<open>block_count\<close> blocks, and otherwise a block
  that overlaps nothing the client holds.
\<close>

theorem pool_allocation_outcome:
  assumes "sys_ok h" and "fixed_pool_create bs count al opts m h = (Inr p, (m0, h0))"
    and "client_run pool_alloc_op pool_free_op pool_poke pool_sz (m0, p) s H"
  shows "\<exists>q s'. pool_alloc_op s = (Inr q, s') \<and> (q = 0 \<longleftrightarrow> card H = unat count) \<and>
     (q \<noteq> 0 \<longrightarrow> q \<notin> H \<and> (\<forall>r \<in> H. extent q (pool_sz s) \<inter> extent r (pool_sz s) = {}))"
proof -
  note c = created_pool [OF assms(1,2)] and c' = fixed_pool_create_inv [OF assms(1,2)]
  obtain F where F: "pool_inv (fst s) (snd s) F" "H = pool_live (snd s) F" "same_config p (snd s)"
    using pool_run [OF assms(3) c(1,2)] by blast
  have card: "card H = unat count - length F" "length F \<le> unat count" "0 < unat count"
    using pool_in_use_card [OF F(1)] pool_in_use_length [OF F(1)] pool_inv_length [OF F(1)] F(2)
      same_configD(3) [OF F(3)] c'(2) pool_shapeD(6) [OF pool_invD(1) [OF F(1)]] by auto
  obtain q s' where al: "pool_alloc_op s = (Inr q, s')" "q = 0 \<longleftrightarrow> F = []"
  proof (cases F)
    case Nil
    then show ?thesis using that pool_allocate_exhausted [of "fst s" "snd s"] F(1) by (auto simp: pool_alloc_op_def)
  next
    case (Cons i G)
    then have "i < unat (fp_block_count (snd s))" using pool_invD(3) [OF F(1)] by simp
    from pool_payload_nonnull [OF pool_invD(1) [OF F(1)] this] show ?thesis
      using that pool_allocate_block [OF F(1) [unfolded Cons]] Cons by (auto simp: pool_alloc_op_def)
  qed
  have "q = 0 \<longleftrightarrow> card H = unat count" using al(2) card by (cases F) auto
  then show ?thesis
    using al(1) fixed_pool.client_alloc_fresh [OF assms(3) c(4,5) al(1)] by blast
qed

theorem pool_allocation_outcome_witness:
  "\<exists>q s'. pool_alloc_op (demo_next plain_options) = (Inr q, s') \<and> q \<noteq> 0 \<and> q \<noteq> 4096 \<and>
     extent q (pool_sz (demo_next plain_options)) \<inter> extent 4096 (pool_sz (demo_next plain_options)) = {}"
  using pool_allocation_outcome [OF sys_ok_empty demo_created demo_run, of plain_options]
  by (auto simp: plain_options_def)

section \<open>Foreign pointers\<close>

text \<open>
  \<^verbatim>\<open>deallocate\<close> of a non-null address that is not the payload address of one of the
  pool's blocks (an interior pointer, a pointer into a guard, or any other address) throws
  \<^verbatim>\<open>InvalidPoolPointer\<close> and changes neither the memory nor the pool, in every mode.
\<close>

theorem pool_rejects_foreign:
  assumes "pool_inv m p F" and "q \<noteq> 0" and "q \<notin> pool_payload p ` {..<unat (fp_block_count p)}"
  shows "pool_deallocate m p q = (Inl InvalidPoolPointer, (m, p))"
  using pool_deallocate_foreign [OF pool_invD(1) [OF assms(1)] assms(2)] assms(3) by blast

lemma demo_indices: "{..<2 :: nat} = {0, 1}"
  by auto

theorem pool_rejects_foreign_witness:
  "pool_deallocate (demo_mem plain_options) (demo_pool plain_options) 4100 =
     (Inl InvalidPoolPointer, (demo_mem plain_options, demo_pool plain_options))"
  by (rule pool_rejects_foreign [OF demo_inv]) (simp_all add: plain_options_def demo_indices)

section \<open>Reuse\<close>

text \<open>
  C9: returning a live block and allocating again gives the same block back (LIFO reuse), and
  the pool returns to the same set of free blocks in the same order.
\<close>

theorem pool_lifo_reuse:
  assumes "pool_inv m p F" and "q \<in> pool_live p F" and "pool_deallocate m p q = (r, (m1, p1))"
  shows "r = Inr () \<and> (\<exists>m2 p2. pool_allocate m1 p1 = (Inr q, (m2, p2)) \<and> pool_inv m2 p2 F)"
proof -
  obtain i where i: "i < unat (fp_block_count p)" "i \<notin> set F" and q: "q = pool_payload p i"
    using assms(2) by (rule pool_liveE)
  have d: "r = Inr ()" "m1 = pool_free_mem p i m" "p1 = pool_freed p i"
    using assms(3) pool_deallocate_live [OF assms(1) i] q by auto
  note inv = pool_freed_inv [OF assms(1) i]
  have "pool_payload (pool_freed p i) i = q" using same_configD(10) [OF same_config_freed] q by metis
  then show ?thesis using pool_allocate_inv(1,2) [OF inv] d by (metis prod_cases3)
qed

lemma demo_next_live: "pool_payload (demo_pool opts) 0 \<in> pool_live (snd (demo_next opts)) [1]"
  using same_configD(3,10) [OF demo_next(3), of opts]
  by (simp add: pool_live_def demo_indices del: demo_payload)

theorem pool_lifo_reuse_witness:
  "\<exists>m2 p2. pool_allocate (fst (snd (pool_free_op 4104 (demo_next checked_options))))
       (snd (snd (pool_free_op 4104 (demo_next checked_options)))) = (Inr 4104, (m2, p2)) \<and> pool_inv m2 p2 [1]"
  using pool_lifo_reuse [OF demo_next(2) demo_next_live, of checked_options
      "fst (pool_free_op 4104 (demo_next checked_options))"
      "fst (snd (pool_free_op 4104 (demo_next checked_options)))"
      "snd (snd (pool_free_op 4104 (demo_next checked_options)))"]
  by (simp add: pool_free_op_def checked_options_def)

text \<open>
  A fresh pool hands out its blocks in address order, block zero first, and after
  \<^verbatim>\<open>block_count\<close> allocations every further call returns null.
\<close>

theorem pool_fills_in_order:
  assumes "sys_ok h" and "fixed_pool_create bs count al opts m h = (Inr p, (m0, h0))"
  shows "fst (pool_allocate_many (unat count + k) m0 p) =
     map (\<lambda>i. Inr (pool_payload p i)) [0..<unat count] @ replicate k (Inr 0)"
  using pool_allocate_many_results [OF created_pool(1) [OF assms], of "unat count + k"] by simp

theorem pool_fills_in_order_witness:
  "fst (pool_allocate_many (unat (2 :: size_t) + 1) (demo_mem plain_options) (demo_pool plain_options)) =
     [Inr 4096, Inr 4112, Inr 0]"
  using pool_fills_in_order [OF sys_ok_empty demo_created, of 1 plain_options]
  by (simp add: upt_rec plain_options_def)

section \<open>Diagnostics\<close>

text \<open>
  C3: \<^verbatim>\<open>validate_integrity\<close> is exact. On any memory contents it ends; it accepts when
  the list in memory is an acyclic enumeration, without repetition, of exactly the blocks that the
  state table marks free, of the length of the counter, and throws \<^verbatim>\<open>MemoryCorruptionError\<close>
  otherwise.
\<close>

theorem integrity_check_exact:
  assumes "pool_shape p" and "fp_diagnostic_state p = Some ds" and "length ds = unat (fp_block_count p)"
  shows "pool_validate_integrity m p =
     (if \<exists>F. free_blocks_ok m (fp_storage p) (fp_block_stride p) (unat (fp_block_count p)) (fp_free_head p) F \<and>
            unat (fp_free_blocks p) = length F \<and> free_indices_of ds = set F
      then Inr () else Inl MemoryCorruptionError)"
  using pool_validate_integrity_iff [OF assms] pool_validate_integrity_error [OF assms(2)] by auto

lemma replicate_2: "replicate 2 x = [x, x]"
  by (simp add: numeral_2_eq_2)

lemma demo_diagnostic_state:
  "fp_diagnostic_state (demo_pool checked_options) = Some [Free, Free]"
  by (simp add: demo_pool_def demo_created_def fixed_pool_create_def checked_options_def demo_layout sys_new_def Let_def
        placeable_def bump_place_def empty_sys_heap_def no_wrap_def diagnostic_state_create_def replicate_2
        split: prod.split)

theorem integrity_check_exact_witness:
  "pool_validate_integrity (demo_mem checked_options) (demo_pool checked_options) = Inr ()"
proof -
  let ?p = "demo_pool checked_options"
  have "free_blocks_ok (demo_mem checked_options) (fp_storage ?p) (fp_block_stride ?p) (unat (fp_block_count ?p))
      (fp_free_head ?p) [0, 1] \<and> unat (fp_free_blocks ?p) = length [0, 1 :: nat] \<and>
      free_indices_of [Free, Free] = set [0, 1]"
    using pool_invD(4,5) [OF demo_inv, of checked_options] pool_inv_diag(2) [OF demo_inv demo_diagnostic_state]
    by simp
  then show ?thesis
    using integrity_check_exact [OF pool_invD(1) [OF demo_inv] demo_diagnostic_state, of "demo_mem checked_options"]
      pool_inv_diag(1) [OF demo_inv demo_diagnostic_state] by (metis (no_types, lifting))
qed

text \<open>
  C4: in every state that a well-behaved client can reach, a pool in diagnostic mode passes
  its own integrity check.
\<close>

theorem integrity_always_holds:
  assumes "sys_ok h" and "fixed_pool_create bs count al opts m h = (Inr p, (m0, h0))"
    and "client_run pool_alloc_op pool_free_op pool_poke pool_sz (m0, p) s H"
    and "opt_diagnostics opts = DiagnosticsEnabled"
  shows "pool_validate_integrity (fst s) (snd s) = Inr ()"
proof -
  note c = created_pool [OF assms(1,2)]
  obtain F where F: "pool_inv (fst s) (snd s) F" "same_config p (snd s)"
    using pool_run [OF assms(3) c(1,2)] by blast
  have "fp_options (snd s) = opts" using same_configD(8) [OF F(2)] fixed_pool_create_inv(5) [OF assms(1,2)] by simp
  then have "fp_diagnostic_state (snd s) \<noteq> None" using pool_invD(1) [OF F(1)] assms(4) by (simp add: pool_shape_def)
  then show ?thesis by (rule pool_validate_integrity_inv [OF F(1)])
qed

theorem integrity_always_holds_witness:
  "pool_validate_integrity (fst (demo_next checked_options)) (snd (demo_next checked_options)) = Inr ()"
  by (rule integrity_always_holds [OF sys_ok_empty demo_created demo_run]) (simp add: checked_options_def)

text \<open>
  C6: with diagnostics and without guards or poison, returning a block that is already free
  throws \<^verbatim>\<open>DoubleFreeError\<close> and leaves the memory and the pool as they were.
\<close>

theorem double_free_rejected:
  assumes "pool_inv m p F" and "fp_diagnostic_state p \<noteq> None" and "i \<in> set F"
    and "\<not> opt_poison_memory (fp_options p)" and "\<not> opt_guard_bytes (fp_options p)"
  shows "pool_deallocate m p (pool_payload p i) = (Inl DoubleFreeError, (m, p))"
  using pool_deallocate_free_block [OF assms(1-3)] assms(4,5) by simp

definition diagnostic_options :: "bool \<Rightarrow> bool \<Rightarrow> pool_options" where
  "diagnostic_options poison guards =
     \<lparr>opt_diagnostics = DiagnosticsEnabled, opt_poison_memory = poison, opt_guard_bytes = guards,
      opt_collect_statistics = False, opt_leak_handler = False\<rparr>"

theorem double_free_rejected_witness:
  "pool_deallocate (demo_mem (diagnostic_options False False)) (demo_pool (diagnostic_options False False)) 4096 =
     (Inl DoubleFreeError, (demo_mem (diagnostic_options False False), demo_pool (diagnostic_options False False)))"
  using double_free_rejected [OF demo_inv, of "diagnostic_options False False" 0]
  by (simp add: diagnostic_options_def)

text \<open>
  C7: with diagnostics and poison but without guards, a double free is also reported as
  \<^verbatim>\<open>DoubleFreeError\<close>, but the poison pattern has already been written over the free-list link of the
  block: the link reads \<^verbatim>\<open>0xDDDDDDDDDDDDDDDD\<close> and the next \<^verbatim>\<open>validate_integrity\<close> reports corruption.
\<close>

theorem double_free_poison_corrupts:
  assumes "pool_inv m p F" and "fp_diagnostic_state p \<noteq> None" and "i \<in> set F"
    and "opt_poison_memory (fp_options p)" and "\<not> opt_guard_bytes (fp_options p)"
  shows "\<exists>m'. pool_deallocate m p (pool_payload p i) = (Inl DoubleFreeError, (m', p)) \<and>
     load64 m' (pool_block p i) = 0xDDDDDDDDDDDDDDDD \<and>
     pool_validate_integrity m p = Inr () \<and> pool_validate_integrity m' p = Inl MemoryCorruptionError"
proof -
  have i: "i < unat (fp_block_count p)" using pool_invD(3) [OF assms(1)] assms(3) by auto
  let ?m = "memset m (pool_payload p i) freed_pattern (fp_block_size p)"
  have "pool_deallocate m p (pool_payload p i) = (Inl DoubleFreeError, (?m, p))"
    using pool_deallocate_free_block [OF assms(1-3)] assms(4,5) by simp
  moreover note poison_covers_link [OF assms(1) i assms(5)]
  moreover from this have "pool_validate_integrity ?m p = Inl MemoryCorruptionError"
    by (rule freed_link_breaks_list [OF assms(1-3)])
  ultimately show ?thesis using pool_validate_integrity_inv [OF assms(1,2)] by blast
qed

theorem double_free_poison_corrupts_witness:
  "\<exists>m'. pool_deallocate (demo_mem (diagnostic_options True False)) (demo_pool (diagnostic_options True False)) 4096 =
       (Inl DoubleFreeError, (m', demo_pool (diagnostic_options True False))) \<and>
     load64 m' 4096 = 0xDDDDDDDDDDDDDDDD \<and>
     pool_validate_integrity (demo_mem (diagnostic_options True False)) (demo_pool (diagnostic_options True False)) = Inr () \<and>
     pool_validate_integrity m' (demo_pool (diagnostic_options True False)) = Inl MemoryCorruptionError"
  using double_free_poison_corrupts [OF demo_inv, of "diagnostic_options True False" 0]
  by (simp add: diagnostic_options_def block_at_def)

text \<open>
  C8: with diagnostics and guards, in a pool whose payload offset is eight (every alignment
  up to eight), the free-list link of a free block lies over its front canary. A double free is then
  reported as \<^verbatim>\<open>MemoryCorruptionError\<close>, never as \<^verbatim>\<open>DoubleFreeError\<close>, and changes nothing.
\<close>

theorem double_free_guard_report:
  assumes "pool_inv m p F" and "fp_diagnostic_state p \<noteq> None" and "i \<in> set F"
    and "opt_guard_bytes (fp_options p)" and "fp_payload_offset p = 8"
  shows "pool_deallocate m p (pool_payload p i) = (Inl MemoryCorruptionError, (m, p))"
  using pool_deallocate_free_block [OF assms(1-3)] free_block_canary_invalid [OF assms(1,3,5)] assms(4) by simp

theorem double_free_guard_report_witness:
  "pool_deallocate (demo_mem (diagnostic_options False True)) (demo_pool (diagnostic_options False True)) 4104 =
     (Inl MemoryCorruptionError, (demo_mem (diagnostic_options False True), demo_pool (diagnostic_options False True)))"
  using double_free_guard_report [OF demo_inv, of "diagnostic_options False True" 0]
  by (simp add: diagnostic_options_def)

text \<open>
  C5: in a guarded pool, if any of the eight bytes before or after a live block differs from
  what \<^verbatim>\<open>allocate\<close> left there, \<^verbatim>\<open>deallocate\<close> of that block throws \<^verbatim>\<open>MemoryCorruptionError\<close> and the block
  stays allocated: neither the memory nor the pool changes.
\<close>

theorem overrun_detected:
  assumes "pool_inv m p F" and "i < unat (fp_block_count p)" and "i \<notin> set F"
    and "opt_guard_bytes (fp_options p)"
    and "x \<in> extent (pool_payload p i - 8) 8 \<union> extent (pool_payload p i + fp_block_size p) 8"
    and "m' x \<noteq> m x"
  shows "pool_deallocate m' p (pool_payload p i) = (Inl MemoryCorruptionError, (m', p))"
  using assms(5,6) by (intro pool_deallocate_overrun [OF assms(1-4), of x])
    (simp_all add: guard_bytes_of_def guard_size_def)

theorem overrun_detected_witness:
  "pool_deallocate ((fst (demo_next checked_options))(4120 := fst (demo_next checked_options) 4120 + 1))
       (snd (demo_next checked_options)) 4104 =
     (Inl MemoryCorruptionError,
      ((fst (demo_next checked_options))(4120 := fst (demo_next checked_options) 4120 + 1), snd (demo_next checked_options)))"
  using overrun_detected [OF demo_next(2) [of checked_options], where i = 0 and x = 4120
      and m' = "(fst (demo_next checked_options))(4120 := fst (demo_next checked_options) 4120 + 1)"]
    same_configD [OF demo_next(3), of checked_options]
  by (simp add: checked_options_def extent_def)

text \<open>
  With \<^verbatim>\<open>poison_memory\<close> a new block reads \<^verbatim>\<open>0xCD\<close> in every payload byte, and a returned
  block reads \<^verbatim>\<open>0xDD\<close> in every payload byte that the free-list link does not occupy.
\<close>

theorem poison_contents:
  assumes "pool_inv m p (i # F)" and "opt_poison_memory (fp_options p)"
    and "pool_allocate m p = (r, (m1, p1))" and "pool_deallocate m1 p1 (pool_payload p i) = (r', (m2, p2))"
  shows "(\<forall>x \<in> extent (pool_payload p i) (fp_block_size p). m1 x = 0xCD) \<and>
     (\<forall>x \<in> extent (pool_payload p i) (fp_block_size p) - extent (pool_block p i) 8. m2 x = 0xDD)"
proof -
  note st = pool_allocate_inv [OF assms(1,3)]
  note cfg = same_configD [OF st(3)]
  have i: "i < unat (fp_block_count p1)" "i \<notin> set F" using pool_invD(2,3) [OF assms(1)] cfg by auto
  have "m2 = pool_free_mem p1 i m1"
    using assms(4) pool_deallocate_live [OF st(2) i] cfg by auto
  then have "m2 x = freed_pattern" if "x \<in> extent (pool_payload p i) (fp_block_size p) - extent (pool_block p i) 8" for x
    using that pool_deallocate_poison [OF st(2) i, of x] assms(2) cfg by auto
  then show ?thesis
    using pool_allocate_poison [OF assms(1,2) assms(3) [unfolded st(1)]]
    by (auto simp: allocated_pattern_def freed_pattern_def)
qed

theorem poison_contents_witness:
  "fst (demo_next checked_options) 4110 = 0xCD"
proof -
  obtain m1 p1 where n: "demo_next checked_options = (m1, p1)" by (cases "demo_next checked_options")
  obtain r' m2 p2 where d: "pool_deallocate m1 p1 (pool_payload (demo_pool checked_options) 0) = (r', (m2, p2))"
    by (metis prod_cases3)
  show ?thesis
    using poison_contents [OF demo_inv _ demo_next(1) [of checked_options, unfolded n] d] n
    by (simp add: checked_options_def extent_def)
qed

section \<open>Counters and leaks\<close>



text \<open>
  The destructor reports exactly the number of blocks the client still holds (and calls the
  leak handler only in diagnostic mode, with a handler, when there are any), and gives the storage
  back to the overload of \<^verbatim>\<open>operator new\<close> it came from: the heap ends with the allocations it had
  before the construction.
\<close>

theorem pool_destruction:
  assumes "sys_ok h" and "fixed_pool_create bs count al opts m h = (Inr p, (m0, h0))"
    and "client_run pool_alloc_op pool_free_op pool_poke pool_sz (m0, p) s H"
  shows "(case fixed_pool_destroy (snd s) h0 of (report, h1) \<Rightarrow>
     (report = (if opt_diagnostics opts = DiagnosticsEnabled \<and> opt_leak_handler opts \<and> H \<noteq> {}
                then Some (of_nat (card H)) else None)) \<and>
     sys_ok h1 \<and> sh_live h1 = sh_live h)"
proof -
  note c = created_pool [OF assms(1,2)] and c' = fixed_pool_create_inv [OF assms(1,2)]
  obtain F where F: "pool_inv (fst s) (snd s) F" "H = pool_live (snd s) F" "same_config p (snd s)"
    using pool_run [OF assms(3) c(1,2)] by blast
  note cfg = same_configD [OF F(3)]
  have fin: "finite H" by (simp add: F(2) pool_live_def)
  have "unat (pool_in_use (snd s)) = card H" using pool_in_use_card [OF F(1)] F(2) by simp
  then have use: "pool_in_use (snd s) = of_nat (card H)" by (metis of_nat_unat_size)
  have "fp_free_blocks (snd s) \<noteq> fp_block_count (snd s) \<longleftrightarrow> pool_in_use (snd s) \<noteq> 0"
    by (auto simp: pool_in_use_def)
  also have "\<dots> \<longleftrightarrow> H \<noteq> {}"
    using \<open>unat (pool_in_use (snd s)) = card H\<close> fin
    by (metis card_eq_0_iff unat_0 unat_eq_size)
  finally have rep: "fst (fixed_pool_destroy (snd s) h0) =
      (if opt_diagnostics opts = DiagnosticsEnabled \<and> opt_leak_handler opts \<and> H \<noteq> {}
       then Some (of_nat (card H)) else None)"
    using use cfg c'(5) pool_invD(1) [OF F(1)]
    by (simp add: fixed_pool_destroy_def pool_shape_def pool_in_use_def)
  have mem: "(fp_storage p, fp_storage_size p, Some (fp_alignment p)) \<in> set (sh_live h0)" using c'(7) by simp
  have "fp_storage p \<notin> fst ` set (sh_live h)"
    using c'(6) c'(7) by (auto simp: sys_ok_def)
  then have "filter (\<lambda>e. fst e \<noteq> fp_storage p) (sh_live h0) = sh_live h"
    using c'(7) by (simp add: filter_id_conv) force
  then show ?thesis
    using rep sys_delete_live [OF c'(6) mem] cfg by (simp add: fixed_pool_destroy_def)
qed

theorem pool_destruction_witness:
  "fst (fixed_pool_destroy (snd (demo_next checked_options)) (demo_heap checked_options)) = Some (of_nat (card {4104 :: addr}))"
  using pool_destruction [OF sys_ok_empty demo_created demo_run, of checked_options]
  by (simp add: checked_options_def split: prod.splits)

text \<open>
  C11: the fast path that the constructor selects for a pool without options is an
  optimisation only: \<^verbatim>\<open>allocate\<close> and \<^verbatim>\<open>deallocate\<close> give the same result, the same memory and the same pool
  (but for the flag) as the general path.
\<close>

theorem fast_path_equivalent:
  assumes "pool_shape p" and "fp_fast_path p"
  shows "pool_allocate m (p\<lparr>fp_fast_path := False\<rparr>) =
       (case pool_allocate m p of (r, (m', p')) \<Rightarrow> (r, (m', p'\<lparr>fp_fast_path := False\<rparr>))) \<and>
     pool_deallocate m (p\<lparr>fp_fast_path := False\<rparr>) q =
       (case pool_deallocate m p q of (r, (m', p')) \<Rightarrow> (r, (m', p'\<lparr>fp_fast_path := False\<rparr>)))"
  using pool_allocate_slow_path [OF assms] pool_deallocate_slow_path [OF assms] by blast

theorem fast_path_equivalent_witness:
  "fp_fast_path (demo_pool plain_options) \<and>
   fst (pool_allocate (demo_mem plain_options) ((demo_pool plain_options)\<lparr>fp_fast_path := False\<rparr>)) =
   fst (pool_allocate (demo_mem plain_options) (demo_pool plain_options))"
proof -
  have "fp_fast_path (demo_pool plain_options)"
    using pool_invD(1) [OF demo_inv, of plain_options] by (simp add: pool_shape_def plain_options_def)
  with fast_path_equivalent [OF pool_invD(1) [OF demo_inv] this, of "demo_mem plain_options"] show ?thesis
    by (auto split: prod.splits)
qed

section \<open>Typed objects\<close>

text \<open>
  \<^verbatim>\<open>create\<close> is exception safe. With a block available, for every type that fits and
  whose constructor writes only to its object: when the constructor returns, so does \<^verbatim>\<open>create\<close>, with the
  first free block; when it throws, \<^verbatim>\<open>create\<close> throws the same exception and the block is back on
  the free list, in the same order as before.
\<close>

theorem create_exception_safe:
  assumes "pool_inv m p (i # F)" and "type_well_behaved T"
    and "ot_size T \<le> fp_block_size p" and "ot_align T \<le> fp_alignment p"
    and "pool_create T m p = (r, (m', p'))"
  shows "case fst (ot_construct T (pool_payload p i) (fst (snd (pool_allocate m p)))) of
           Inr _ \<Rightarrow> r = Inr (pool_payload p i) \<and> pool_inv m' p' F
         | Inl e \<Rightarrow> r = Inl e \<and> pool_inv m' p' (i # F)"
  using pool_create_outcome(2) [OF assms] pool_allocate_block [OF assms(1)] by simp

definition throwing_type :: object_type where
  "throwing_type = \<lparr>ot_size = 16, ot_align = 8, ot_construct = (\<lambda>a m. (Inl UserException, m(a := 1))),
     ot_destroy = (\<lambda>a m. m)\<rparr>"

lemma throwing_type_well_behaved: "type_well_behaved throwing_type"
  by (auto simp: type_well_behaved_def throwing_type_def extent_def)

theorem create_exception_safe_witness:
  "\<exists>m' p'. pool_create throwing_type (demo_mem checked_options) (demo_pool checked_options) =
     (Inl UserException, (m', p')) \<and> pool_inv m' p' [0, 1]"
proof -
  obtain r m' p' where c: "pool_create throwing_type (demo_mem checked_options) (demo_pool checked_options) = (r, (m', p'))"
    by (metis prod_cases3)
  have "ot_align throwing_type \<le> fp_alignment (demo_pool checked_options)"
    using pool_invD(1) [OF demo_inv, of checked_options]
    by (simp add: pool_shape_def throwing_type_def free_node_alignment_def)
  with create_exception_safe [OF demo_inv throwing_type_well_behaved _ _ c] c show ?thesis
    by (simp add: throwing_type_def)
qed



end
