(* ===== verification/Fixed_Pool_Dump.thy ===== *)
theory Fixed_Pool_Dump
  imports Fixed_Pool_Properties
begin

text \<open>
  What \<^verbatim>\<open>debug_dump\<close> writes about the free list: on a pool that its clients use as they must, the indices of the free blocks in the
  order of the list; on a corrupted list, a line that ends.
\<close>

fun arrows :: "string list \<Rightarrow> string" where
  "arrows [] = ''empty''"
| "arrows (x # xs) = x @ concat (map (\<lambda>y. ''->'' @ y) xs)"

lemma dump_nodes_rest:
  assumes "pool_shape p" and "free_blocks_ok m (fp_storage p) (fp_block_stride p) (unat (fp_block_count p)) node F"
    and "visited + length F \<le> unat (fp_block_count p)" and "visited \<noteq> 0"
  shows "dump_nodes m p node visited out = (0, visited + length F, out @ concat (map (\<lambda>i. ''->'' @ decimal i) F))"
  using assms(2-)
proof (induction F arbitrary: node visited out)
  case Nil
  then have "node = 0" by (simp add: free_blocks_ok_def)
  then show ?case by (subst dump_nodes.simps) simp
next
  case (Cons i F)
  note pop = free_blocks_ok_pop [OF Cons.prems(1)]
  have st: "pool_is_raw_block_start p node" "pool_raw_block_index p node = of_nat i" "node \<noteq> 0"
    using pop pool_is_raw_block_start_block [OF assms(1), of i] pool_raw_block_index_block [OF assms(1), of i]
      block_at_nonnull [OF pool_shapeD(1) [OF assms(1)], of i] by auto
  have "unat (of_nat i :: size_t) = i" using pop unat_count_index by blast
  then have "dump_nodes m p node visited out = dump_nodes m p (load64 m node) (Suc visited) (out @ ''->'' @ decimal i)"
    using st Cons.prems(2,3) by (subst dump_nodes.simps) simp
  moreover have "free_blocks_ok m (fp_storage p) (fp_block_stride p) (unat (fp_block_count p)) (load64 m node) F" using pop by blast
  ultimately show ?case using Cons.IH [of "load64 m node" "Suc visited"] Cons.prems(2) by simp
qed

lemma dump_free_list_inv:
  assumes "pool_inv m p F"
  shows "dump_free_list m p = ''free_list='' @ arrows (map decimal F) @ newline"
proof -
  note sh = pool_invD(1) [OF assms]
  have F: "free_blocks_ok m (fp_storage p) (fp_block_stride p) (unat (fp_block_count p)) (fp_free_head p) F"
    using assms by (simp add: pool_inv_def)
  show ?thesis
  proof (cases F)
    case Nil
    then have "fp_free_head p = 0" using F by (simp add: free_blocks_ok_def)
    then show ?thesis using Nil by (simp add: dump_free_list_def dump_nodes.simps)
  next
    case (Cons i G)
    note pop = free_blocks_ok_pop [OF F [unfolded Cons]]
    have st: "pool_is_raw_block_start p (fp_free_head p)" "pool_raw_block_index p (fp_free_head p) = of_nat i" "fp_free_head p \<noteq> 0"
      using pop pool_is_raw_block_start_block [OF sh, of i] pool_raw_block_index_block [OF sh, of i]
        block_at_nonnull [OF pool_shapeD(1) [OF sh], of i] by auto
    have u: "unat (of_nat i :: size_t) = i" "0 < unat (fp_block_count p)" using pop unat_count_index by auto
    have "dump_nodes m p (fp_free_head p) 0 out = dump_nodes m p (load64 m (fp_free_head p)) 1 (out @ decimal i)" for out
      using st u by (subst dump_nodes.simps) simp
    moreover have "dump_nodes m p (load64 m (fp_free_head p)) 1 out = (0, 1 + length G, out @ concat (map (\<lambda>i. ''->'' @ decimal i) G))" for out
      using pop pool_inv_length [OF assms] Cons by (intro dump_nodes_rest [OF sh]) auto
    ultimately show ?thesis using Cons by (simp add: dump_free_list_def comp_def)
  qed
qed

lemma dump_block_states_total:
  assumes "length ds < 2 ^ 64" and "set is \<subseteq> {..<length ds}"
  shows "\<exists>out. dump_block_states ds is = Inr out"
  using assms(2)
proof (induction "is")
  case (Cons i js)
  have "unat (of_nat i :: size_t) = i" using Cons.prems assms(1) by (intro unat_of_nat_size) auto
  then have "\<exists>name. state_name ds (of_nat i) = Inr name" using Cons.prems by (auto simp: state_name_def diagnostic_is_allocated_def)
  then show ?case using Cons by auto
qed simp

text \<open>
  In every state that a well-behaved client reaches, \<^verbatim>\<open>debug_dump\<close> of a pool in diagnostic mode throws nothing, and its last
  line lists the indices of the free blocks in the order of the list, or \<^verbatim>\<open>empty\<close>.
\<close>

theorem debug_dump_exact:
  assumes "sys_ok h" and "fixed_pool_create bs count al opts m h = (Inr p, (m0, h0))"
    and "client_run pool_alloc_op pool_free_op pool_poke pool_sz (m0, p) s H" and "opt_diagnostics opts = DiagnosticsEnabled"
  shows "\<exists>F front. debug_dump (fst s) (snd s) = Inr (front @ ''free_list='' @ arrows (map decimal F) @ newline) \<and>
     distinct F \<and> H = pool_live (snd s) F"
proof -
  note c = created_pool [OF assms(1,2)]
  obtain F where F: "pool_inv (fst s) (snd s) F" "H = pool_live (snd s) F" "same_config p (snd s)"
    using pool_run [OF assms(3) c(1,2)] by blast
  have "fp_options (snd s) = opts" using same_configD(8) [OF F(3)] fixed_pool_create_inv(5) [OF assms(1,2)] by simp
  then obtain ds where ds: "fp_diagnostic_state (snd s) = Some ds" using pool_invD(1) [OF F(1)] assms(4) by (auto simp: pool_shape_def)
  have len: "length ds = unat (fp_block_count (snd s))" by (rule pool_inv_diag(1) [OF F(1) ds])
  then have "length ds < 2 ^ 64" using unat_lt_64 [of "fp_block_count (snd s)"] by simp
  then obtain out where "dump_block_states ds [0..<unat (fp_block_count (snd s))] = Inr out"
    using dump_block_states_total [of ds "[0..<unat (fp_block_count (snd s))]"] len by (auto simp: atLeast0LessThan)
  then have "\<exists>front. debug_dump (fst s) (snd s) = Inr (front @ ''free_list='' @ arrows (map decimal F) @ newline)"
    using ds dump_free_list_inv [OF F(1)] by (simp add: debug_dump_def Let_def)
  moreover have "distinct F" using F(1) by (simp add: pool_inv_def free_blocks_ok_def)
  ultimately show ?thesis using F(2) by blast
qed

theorem debug_dump_exact_witness:
  "\<exists>F front. debug_dump (fst (demo_next checked_options)) (snd (demo_next checked_options)) =
     Inr (front @ ''free_list='' @ arrows (map decimal F) @ newline) \<and> distinct F"
proof -
  have "opt_diagnostics checked_options = DiagnosticsEnabled" by (simp add: checked_options_def)
  from debug_dump_exact [OF sys_ok_empty demo_created demo_run this] show ?thesis by blast
qed

text \<open>
  A list whose head is no block of the pool: the line says \<^verbatim>\<open>invalid-address\<close> and, because no node was counted, \<^verbatim>\<open>empty\<close> as well.
\<close>

theorem debug_dump_invalid_head:
  assumes "fp_free_head p \<noteq> 0" and "fp_block_count p \<noteq> 0" and "\<not> pool_is_raw_block_start p (fp_free_head p)"
  shows "dump_free_list m p = ''free_list=invalid-addressempty'' @ newline"
proof -
  have "0 < unat (fp_block_count p)" using assms(2) by (simp add: unat_gt_0)
  then show ?thesis using assms by (simp add: dump_free_list_def dump_nodes.simps)
qed

end
