(* ===== verification/Memory_Chunk.thy ===== *)
theory Memory_Chunk
  imports Fixed_Pool_Runs
begin

text \<open>
  \<^verbatim>\<open>include/memory_pool/memory_chunk.hpp\<close> and \<^verbatim>\<open>src/memory_chunk.cpp\<close>: one backing allocation
  divided into equal blocks. The chunk refines a fixed pool in diagnostic mode without guards,
  poison or statistics (\<open>chunk_as_pool\<close>), so its invariant and its theorems are those of the pool.
\<close>

section \<open>The world of the chunk-based allocators\<close>

text \<open>
  The memory, the state of the memory provider, and the system allocator as far as it serves the
  containers that hold metadata: the environment decides of each such allocation whether it
  succeeds.
\<close>

record 'p world =
  w_mem :: mem
  w_prov :: 'p
  w_meta :: "nat \<Rightarrow> bool"
  w_tick :: nat

definition meta_alloc :: "'p world \<Rightarrow> bool \<times> 'p world" where
  "meta_alloc w = (w_meta w (w_tick w), w\<lparr>w_tick := Suc (w_tick w)\<rparr>)"

lemma meta_alloc_fields [simp]:
  "w_mem (snd (meta_alloc w)) = w_mem w" "w_prov (snd (meta_alloc w)) = w_prov w"
  by (simp_all add: meta_alloc_def)

section \<open>State and operations\<close>

record memory_chunk =
  mc_storage :: addr
  mc_free_head :: addr
  mc_states :: "byte list"
  mc_block_size :: size_t
  mc_block_count :: size_t
  mc_alignment :: size_t
  mc_block_stride :: size_t
  mc_storage_size :: size_t
  mc_free_blocks :: size_t

text \<open>The two metadata allocations are \<^verbatim>\<open>make_unique<Impl>\<close> and the vector of states.\<close>

definition chunk_create ::
  "'p provider option \<Rightarrow> size_t \<Rightarrow> size_t \<Rightarrow> size_t \<Rightarrow> 'p world \<Rightarrow> (memory_chunk, 'p world) outcome" where
  "chunk_create provider bs count al w =
     (case meta_alloc w of (ok_impl, w1) \<Rightarrow>
        if \<not> ok_impl then (Inl BadAlloc, w1)
        else case provider of
          None \<Rightarrow> (Inl InvalidArgument, w1)
        | Some P \<Rightarrow>
            (case make_block_layout bs count al False free_node_size free_node_alignment 0 of
               Inl e \<Rightarrow> (Inl e, w1)
             | Inr L \<Rightarrow>
                 (case meta_alloc w1 of (ok_states, w2) \<Rightarrow>
                    if \<not> ok_states then (Inl BadAlloc, w2)
                    else case prov_allocate P (storage_size L) (alignment L) (w_prov w2) of
                      (Inl e, p) \<Rightarrow> (Inl e, w2\<lparr>w_prov := p\<rparr>)
                    | (Inr st, p) \<Rightarrow>
                        (let (m, head) = init_free_list (unat (block_count L)) st (block_stride L) (w_mem w2) nullptr
                         in (Inr \<lparr>mc_storage = st, mc_free_head = head,
                                  mc_states = replicate (unat (block_count L)) 0,
                                  mc_block_size = block_size L, mc_block_count = block_count L,
                                  mc_alignment = alignment L, mc_block_stride = block_stride L,
                                  mc_storage_size = storage_size L, mc_free_blocks = block_count L\<rparr>,
                             w2\<lparr>w_mem := m, w_prov := p\<rparr>)))))"

definition chunk_destroy :: "'p provider \<Rightarrow> memory_chunk \<Rightarrow> 'p world \<Rightarrow> 'p world" where
  "chunk_destroy P c w =
     w\<lparr>w_prov := prov_deallocate P (mc_storage c) (mc_storage_size c) (mc_alignment c) (w_prov w)\<rparr>"

definition chunk_block_index :: "memory_chunk \<Rightarrow> addr \<Rightarrow> size_t" where
  "chunk_block_index c pointer = (pointer - mc_storage c) div mc_block_stride c"

definition chunk_allocate :: "mem \<Rightarrow> memory_chunk \<Rightarrow> (addr, memory_chunk) outcome" where
  "chunk_allocate m c =
     (if mc_free_head c = nullptr then (Inr nullptr, c)
      else let node = mc_free_head c;
               c1 = c\<lparr>mc_free_head := load64 m node, mc_free_blocks := mc_free_blocks c - 1\<rparr>;
               index = unat (chunk_block_index c1 node)
           in if index \<ge> length (mc_states c1) then (Inl UndefinedBehaviour, c1)
              else (Inr node, c1\<lparr>mc_states := (mc_states c1)[index := 1]\<rparr>))"

definition chunk_owns :: "memory_chunk \<Rightarrow> addr \<Rightarrow> bool" where
  "chunk_owns c pointer \<longleftrightarrow>
     (if pointer = nullptr then False
      else pointer \<ge> mc_storage c \<and> pointer - mc_storage c < mc_storage_size c)"

definition chunk_is_block_start :: "memory_chunk \<Rightarrow> addr \<Rightarrow> bool" where
  "chunk_is_block_start c pointer \<longleftrightarrow>
     (if \<not> chunk_owns c pointer then False
      else (pointer - mc_storage c) mod mc_block_stride c = 0)"

definition chunk_deallocate :: "mem \<Rightarrow> memory_chunk \<Rightarrow> addr \<Rightarrow> (unit, mem \<times> memory_chunk) outcome" where
  "chunk_deallocate m c pointer =
     (if pointer = nullptr then (Inr (), (m, c))
      else if \<not> chunk_is_block_start c pointer then (Inl InvalidPoolPointer, (m, c))
      else let index = unat (chunk_block_index c pointer)
           in if index \<ge> length (mc_states c) then (Inl UndefinedBehaviour, (m, c))
              else if mc_states c ! index = 0 then (Inl DoubleFreeError, (m, c))
              else let c1 = c\<lparr>mc_states := (mc_states c)[index := 0]\<rparr>;
                       (m', head) = push_free m (mc_free_head c1) pointer
                   in (Inr (), (m', c1\<lparr>mc_free_head := head, mc_free_blocks := mc_free_blocks c1 + 1\<rparr>)))"

definition chunk_empty :: "memory_chunk \<Rightarrow> bool" where
  "chunk_empty c \<longleftrightarrow> mc_free_blocks c = mc_block_count c"

definition chunk_in_use :: "memory_chunk \<Rightarrow> size_t" where
  "chunk_in_use c = mc_block_count c - mc_free_blocks c"

section \<open>Refinement of the fixed pool\<close>

definition tracking_options :: pool_options where
  "tracking_options =
     \<lparr>opt_diagnostics = DiagnosticsEnabled, opt_poison_memory = False, opt_guard_bytes = False,
      opt_collect_statistics = False, opt_leak_handler = False\<rparr>"

definition block_state_of :: "byte \<Rightarrow> block_state" where
  "block_state_of b = (if b = 0 then Free else Allocated)"

definition chunk_as_pool :: "memory_chunk \<Rightarrow> fixed_pool" where
  "chunk_as_pool c =
     \<lparr>fp_storage = mc_storage c, fp_free_head = mc_free_head c, fp_block_size = mc_block_size c,
      fp_block_count = mc_block_count c, fp_alignment = mc_alignment c, fp_payload_offset = 0,
      fp_block_stride = mc_block_stride c, fp_storage_size = mc_storage_size c,
      fp_free_blocks = mc_free_blocks c, fp_options = tracking_options, fp_fast_path = False,
      fp_statistics = zero_statistics, fp_diagnostic_state = Some (map block_state_of (mc_states c))\<rparr>"

lemma chunk_as_pool_simps [simp]:
  "fp_storage (chunk_as_pool c) = mc_storage c" "fp_free_head (chunk_as_pool c) = mc_free_head c"
  "fp_block_size (chunk_as_pool c) = mc_block_size c" "fp_block_count (chunk_as_pool c) = mc_block_count c"
  "fp_alignment (chunk_as_pool c) = mc_alignment c" "fp_payload_offset (chunk_as_pool c) = 0"
  "fp_block_stride (chunk_as_pool c) = mc_block_stride c" "fp_storage_size (chunk_as_pool c) = mc_storage_size c"
  "fp_free_blocks (chunk_as_pool c) = mc_free_blocks c" "fp_options (chunk_as_pool c) = tracking_options"
  "fp_diagnostic_state (chunk_as_pool c) = Some (map block_state_of (mc_states c))"
  by (simp_all add: chunk_as_pool_def)

definition chunk_inv :: "mem \<Rightarrow> memory_chunk \<Rightarrow> nat list \<Rightarrow> bool" where
  "chunk_inv m c F \<longleftrightarrow> pool_inv m (chunk_as_pool c) F"

abbreviation chunk_block :: "memory_chunk \<Rightarrow> nat \<Rightarrow> addr" where
  "chunk_block c i \<equiv> block_at (mc_storage c) (mc_block_stride c) i"

definition chunk_live :: "memory_chunk \<Rightarrow> nat list \<Rightarrow> addr set" where
  "chunk_live c F = chunk_block c ` ({..<unat (mc_block_count c)} - set F)"

definition chunk_extent :: "memory_chunk \<Rightarrow> addr set" where
  "chunk_extent c = extent (mc_storage c) (mc_storage_size c)"

lemma pool_payload_chunk [simp]: "pool_payload (chunk_as_pool c) i = chunk_block c i"
  by (simp add: pool_payload_def payload_from_raw_block_def)

lemma chunk_live_pool: "chunk_live c F = pool_live (chunk_as_pool c) F"
  by (simp add: chunk_live_def pool_live_def)

lemma chunk_inv_states:
  assumes "chunk_inv m c F"
  shows "length (mc_states c) = unat (mc_block_count c)"
    and "i < unat (mc_block_count c) \<Longrightarrow> mc_states c ! i = 0 \<longleftrightarrow> i \<in> set F"
proof -
  note d = pool_inv_diag [OF assms [unfolded chunk_inv_def] chunk_as_pool_simps(11)]
  show len: "length (mc_states c) = unat (mc_block_count c)" using d(1) by simp
  assume i: "i < unat (mc_block_count c)"
  show "mc_states c ! i = 0 \<longleftrightarrow> i \<in> set F"
    using d(3) [of i] i len by (auto simp: block_state_of_def split: if_splits)
qed

lemma chunk_owns_iff:
  assumes "chunk_inv m c F"
  shows "chunk_owns c q \<longleftrightarrow> q \<in> chunk_extent c"
proof -
  note s = pool_shapeD [OF pool_invD(1) [OF assms [unfolded chunk_inv_def]]]
  have nw: "no_wrap (mc_storage c) (mc_storage_size c)" using s(5) by simp
  have "0 < unat (mc_storage c)" using region_okD(1) [OF s(1)] by simp
  then show ?thesis
    using nw by (auto simp: chunk_owns_def chunk_extent_def extent_def word_le_nat_alt word_less_nat_alt
        unat_sub_if' no_wrap_def)
qed

lemma chunk_is_block_start_iff:
  assumes "chunk_inv m c F"
  shows "chunk_is_block_start c q \<longleftrightarrow> (\<exists>i < unat (mc_block_count c). q = chunk_block c i)"
proof -
  note sh = pool_invD(1) [OF assms [unfolded chunk_inv_def]]
  have "chunk_owns c q \<longleftrightarrow> q \<noteq> 0 \<and> q \<ge> mc_storage c \<and> q < mc_storage c + mc_storage_size c"
    using chunk_owns_iff [OF assms, of q] pool_owns_iff [OF sh, of q]
    by (auto simp: pool_owns_def chunk_extent_def chunk_owns_def)
  then have "chunk_is_block_start c q \<longleftrightarrow> pool_is_raw_block_start (chunk_as_pool c) q"
    by (simp only: chunk_is_block_start_def pool_is_raw_block_start_def chunk_as_pool_simps) argo
  then show ?thesis using pool_is_raw_block_start_iff [OF sh] by simp
qed

lemma chunk_block_index_block:
  assumes "chunk_inv m c F" and "i < unat (mc_block_count c)"
  shows "unat (chunk_block_index c (chunk_block c i)) = i"
  using pool_raw_block_index_block [OF pool_invD(1) [OF assms(1) [unfolded chunk_inv_def]], of i] assms(2)
    unat_count_index [OF assms(2)]
  by (simp add: chunk_block_index_def pool_raw_block_index_def)

lemma map_block_state_update:
  "map block_state_of (xs[i := b]) = (map block_state_of xs)[i := block_state_of b]"
  by (simp add: map_update)

text \<open>\<^verbatim>\<open>allocate\<close> of a chunk is \<^verbatim>\<open>allocate\<close> of the pool it refines.\<close>

lemma chunk_allocate_exhausted: "chunk_inv m c [] \<Longrightarrow> chunk_allocate m c = (Inr 0, c)"
  using pool_invD(4) [of m "chunk_as_pool c" "[]"]
  by (auto simp: chunk_inv_def chunk_allocate_def free_blocks_ok_def)

lemma chunk_allocate_block:
  assumes "chunk_inv m c (i # F)"
  shows "\<exists>c'. chunk_allocate m c = (Inr (chunk_block c i), c') \<and>
     pool_allocate m (chunk_as_pool c) = (Inr (chunk_block c i), (m, chunk_as_pool c'))"
proof -
  note inv = assms [unfolded chunk_inv_def]
  have i: "i < unat (mc_block_count c)" using pool_invD(3) [OF inv] by simp
  have head: "mc_free_head c = chunk_block c i" using pool_invD(4) [OF inv] by (simp add: free_blocks_ok_def)
  have nn: "chunk_block c i \<noteq> 0" using block_at_nonnull [OF pool_shapeD(1) [OF pool_invD(1) [OF inv]], of i] i by simp
  let ?c = "c\<lparr>mc_free_head := load64 m (chunk_block c i), mc_free_blocks := mc_free_blocks c - 1,
      mc_states := (mc_states c)[i := 1]\<rparr>"
  have "chunk_allocate m c = (Inr (chunk_block c i), ?c)"
    using head nn chunk_block_index_block [OF assms i] chunk_inv_states(1) [OF assms] i
    by (simp add: chunk_allocate_def Let_def chunk_block_index_def)
  moreover have "pool_alloc_mem (chunk_as_pool c) i m = m"
    by (simp add: pool_alloc_mem_def tracking_options_def)
  moreover have "pool_alloc_stats (chunk_as_pool c) = zero_statistics"
    by (simp add: pool_alloc_stats_def tracking_options_def chunk_as_pool_def)
  moreover have "(chunk_as_pool c)\<lparr>fp_free_head := load64 m (chunk_block c i), fp_free_blocks := mc_free_blocks c - 1,
      fp_diagnostic_state := Some ((map block_state_of (mc_states c))[i := Allocated]),
      fp_statistics := zero_statistics\<rparr> = chunk_as_pool ?c"
    by (simp add: chunk_as_pool_def map_block_state_update block_state_of_def)
  ultimately show ?thesis
    using pool_allocate_block [OF inv] by (intro exI [of _ ?c]) simp
qed

definition chunk_same_config :: "memory_chunk \<Rightarrow> memory_chunk \<Rightarrow> bool" where
  "chunk_same_config c c' \<longleftrightarrow>
     mc_storage c' = mc_storage c \<and> mc_block_size c' = mc_block_size c \<and>
     mc_block_count c' = mc_block_count c \<and> mc_alignment c' = mc_alignment c \<and>
     mc_block_stride c' = mc_block_stride c \<and> mc_storage_size c' = mc_storage_size c"

lemma chunk_same_config_refl [simp]: "chunk_same_config c c"
  by (simp add: chunk_same_config_def)

lemma chunk_same_config_trans: "chunk_same_config a b \<Longrightarrow> chunk_same_config b c \<Longrightarrow> chunk_same_config a c"
  by (simp add: chunk_same_config_def)

lemma chunk_same_config_pool:
  "same_config (chunk_as_pool c) (chunk_as_pool c') \<Longrightarrow> chunk_same_config c c'"
  by (simp add: same_config_def chunk_same_config_def pool_layout_def)

lemma chunk_allocate_inv:
  assumes "chunk_inv m c (i # F)" and "chunk_allocate m c = (r, c')"
  shows "r = Inr (chunk_block c i)" and "chunk_inv m c' F" and "chunk_same_config c c'"
proof -
  have al: "r = Inr (chunk_block c i)" "pool_allocate m (chunk_as_pool c) = (Inr (chunk_block c i), (m, chunk_as_pool c'))"
    using chunk_allocate_block [OF assms(1)] assms(2) by auto
  note st = pool_allocate_inv [OF assms(1) [unfolded chunk_inv_def] al(2)]
  show "r = Inr (chunk_block c i)" by (rule al(1))
  show "chunk_inv m c' F" unfolding chunk_inv_def by (rule st(2))
  show "chunk_same_config c c'" by (rule chunk_same_config_pool [OF st(3)])
qed

lemma chunk_deallocate_null [simp]: "chunk_deallocate m c 0 = (Inr (), (m, c))"
  by (simp add: chunk_deallocate_def)

lemma chunk_deallocate_foreign:
  assumes "chunk_inv m c F" and "q \<noteq> 0" and "\<And>i. i < unat (mc_block_count c) \<Longrightarrow> q \<noteq> chunk_block c i"
  shows "chunk_deallocate m c q = (Inl InvalidPoolPointer, (m, c))"
  using chunk_is_block_start_iff [OF assms(1), of q] assms(2,3) by (auto simp: chunk_deallocate_def)

lemma chunk_deallocate_free:
  assumes "chunk_inv m c F" and "i \<in> set F"
  shows "chunk_deallocate m c (chunk_block c i) = (Inl DoubleFreeError, (m, c))"
proof -
  note inv = assms(1) [unfolded chunk_inv_def]
  have i: "i < unat (mc_block_count c)" using pool_invD(3) [OF inv] assms(2) by auto
  have nn: "chunk_block c i \<noteq> 0" using block_at_nonnull [OF pool_shapeD(1) [OF pool_invD(1) [OF inv]], of i] i by simp
  have "chunk_is_block_start c (chunk_block c i)" using chunk_is_block_start_iff [OF assms(1)] i by blast
  then show ?thesis
    using nn chunk_block_index_block [OF assms(1) i] chunk_inv_states [OF assms(1)] i assms(2)
    by (simp add: chunk_deallocate_def Let_def)
qed

lemma chunk_deallocate_live:
  assumes "chunk_inv m c F" and "i < unat (mc_block_count c)" and "i \<notin> set F"
    and "chunk_deallocate m c (chunk_block c i) = (r, (m', c'))"
  shows "r = Inr ()" and "chunk_inv m' c' (i # F)" and "chunk_same_config c c'"
    and "m' = store64 m (chunk_block c i) (mc_free_head c)"
proof -
  note inv = assms(1) [unfolded chunk_inv_def]
  let ?p = "chunk_as_pool c"
  have i: "i < unat (fp_block_count ?p)" using assms(2) by simp
  have nn: "chunk_block c i \<noteq> 0" using block_at_nonnull [OF pool_shapeD(1) [OF pool_invD(1) [OF inv]], of i] i by simp
  have bs: "chunk_is_block_start c (chunk_block c i)" using chunk_is_block_start_iff [OF assms(1)] assms(2) by blast
  let ?c = "c\<lparr>mc_states := (mc_states c)[i := 0], mc_free_head := chunk_block c i, mc_free_blocks := mc_free_blocks c + 1\<rparr>"
  have cd: "chunk_deallocate m c (chunk_block c i) = (Inr (), (store64 m (chunk_block c i) (mc_free_head c), ?c))"
    using nn bs chunk_block_index_block [OF assms(1,2)] chunk_inv_states [OF assms(1)] assms(2,3)
    by (simp add: chunk_deallocate_def Let_def push_free_def)
  have fr: "pool_free_mem ?p i m = store64 m (chunk_block c i) (mc_free_head c)"
    by (simp add: pool_free_mem_def tracking_options_def)
  have fp: "pool_freed ?p i = chunk_as_pool ?c"
    by (simp add: pool_freed_def chunk_as_pool_def map_block_state_update block_state_of_def tracking_options_def)
  show "r = Inr ()" "m' = store64 m (chunk_block c i) (mc_free_head c)" using cd assms(4) by auto
  have c': "c' = ?c" using cd assms(4) by auto
  show "chunk_inv m' c' (i # F)"
    using pool_freed_inv [OF inv i assms(3)] cd assms(4) fr fp by (auto simp: chunk_inv_def)
  show "chunk_same_config c c'" by (simp add: c' chunk_same_config_def)
qed

lemma chunk_freed_pool:
  assumes "chunk_inv m c F" and "i < unat (mc_block_count c)" and "i \<notin> set F"
    and "chunk_deallocate m c (chunk_block c i) = (r, (m', c'))"
  shows "pool_freed (chunk_as_pool c) i = chunk_as_pool c'"
proof -
  note inv = assms(1) [unfolded chunk_inv_def]
  have nn: "chunk_block c i \<noteq> 0"
    using block_at_nonnull [OF pool_shapeD(1) [OF pool_invD(1) [OF inv]], of i] assms(2) by simp
  have bs: "chunk_is_block_start c (chunk_block c i)" using chunk_is_block_start_iff [OF assms(1)] assms(2) by blast
  have "c' = c\<lparr>mc_states := (mc_states c)[i := 0], mc_free_head := chunk_block c i, mc_free_blocks := mc_free_blocks c + 1\<rparr>"
    using nn bs chunk_block_index_block [OF assms(1,2)] chunk_inv_states [OF assms(1)] assms(2-4)
    by (auto simp: chunk_deallocate_def Let_def push_free_def)
  then show ?thesis
    by (simp add: pool_freed_def chunk_as_pool_def map_block_state_update block_state_of_def tracking_options_def)
qed

section \<open>Extents and frames\<close>

lemma chunk_block_extent:
  assumes "chunk_inv m c F" and "i < unat (mc_block_count c)"
  shows "extent (chunk_block c i) (mc_block_size c) \<subseteq> chunk_extent c"
    and "chunk_block c i \<in> chunk_extent c"
    and "extent (chunk_block c i) 8 \<subseteq> extent (chunk_block c i) (mc_block_size c)"
    and "unat (mc_alignment c) dvd unat (chunk_block c i)"
    and "chunk_block c i \<noteq> 0"
proof -
  note sh = pool_invD(1) [OF assms(1) [unfolded chunk_inv_def]]
  have i: "i < unat (fp_block_count (chunk_as_pool c))" using assms(2) by simp
  show sub: "extent (chunk_block c i) (mc_block_size c) \<subseteq> chunk_extent c"
    using pool_payload_in_storage [OF sh i] by (simp add: chunk_extent_def)
  have 8: "8 \<le> unat (mc_block_size c)" using pool_shapeD(4) [OF sh] by simp
  then show "extent (chunk_block c i) 8 \<subseteq> extent (chunk_block c i) (mc_block_size c)"
    by (simp add: extent_mono word_le_nat_alt)
  have "mc_block_size c \<noteq> 0" using 8 by auto
  then show "chunk_block c i \<in> chunk_extent c" using sub extent_self by blast
  show "unat (mc_alignment c) dvd unat (chunk_block c i)" using pool_payload_aligned [OF sh i] by simp
  show "chunk_block c i \<noteq> 0" using pool_payload_nonnull [OF sh i] by simp
qed

lemma chunk_live_apart:
  assumes "chunk_inv m c F" and "q \<in> chunk_live c F" and "r \<in> chunk_live c F" and "q \<noteq> r"
  shows "extent q (mc_block_size c) \<inter> extent r (mc_block_size c) = {}"
  using fixed_pool.live_apart [of "(m, chunk_as_pool c)" q r] assms pool_live_of_eq [OF assms(1) [unfolded chunk_inv_def]]
  by (auto simp: chunk_live_pool pool_ok_def pool_sz_def chunk_inv_def)

lemma chunk_inv_frame:
  assumes "chunk_inv m c F" and "\<And>x. x \<in> chunk_extent c \<Longrightarrow> m' x = m x"
  shows "chunk_inv m' c F"
proof -
  note inv = assms(1) [unfolded chunk_inv_def]
  have "free_blocks_ok m' (mc_storage c) (mc_block_stride c) (unat (mc_block_count c)) (mc_free_head c) F"
  proof (rule free_blocks_ok_cong)
    show "free_blocks_ok m (mc_storage c) (mc_block_stride c) (unat (mc_block_count c)) (mc_free_head c) F"
      using pool_invD(4) [OF inv] by simp
    fix i x assume "i \<in> set F" and x: "x \<in> extent (chunk_block c i) 8"
    then have "i < unat (mc_block_count c)" using pool_invD(3) [OF inv] by auto
    then show "m' x = m x" using chunk_block_extent(1,3) [OF assms(1)] x assms(2) by blast
  qed
  then show ?thesis using inv by (auto simp: chunk_inv_def pool_inv_def tracking_options_def)
qed

lemma chunk_inv_client_write:
  assumes "chunk_inv m c F" and "q \<in> chunk_live c F"
    and "\<And>x. x \<notin> extent q (mc_block_size c) \<Longrightarrow> m' x = m x"
  shows "chunk_inv m' c F"
proof -
  obtain i where i: "i < unat (mc_block_count c)" "i \<notin> set F" "q = chunk_block c i"
    using assms(2) by (auto simp: chunk_live_def)
  show ?thesis unfolding chunk_inv_def
    by (rule pool_inv_client_write [OF assms(1) [unfolded chunk_inv_def], of i]) (use i assms(3) in auto)
qed

lemma chunk_empty_iff:
  assumes "chunk_inv m c F"
  shows "chunk_empty c \<longleftrightarrow> chunk_live c F = {}"
proof -
  note inv = assms [unfolded chunk_inv_def]
  have "chunk_empty c \<longleftrightarrow> pool_in_use (chunk_as_pool c) = 0"
    by (auto simp: chunk_empty_def pool_in_use_def)
  also have "\<dots> \<longleftrightarrow> unat (pool_in_use (chunk_as_pool c)) = 0" by (simp add: unat_0_iff)
  also have "\<dots> \<longleftrightarrow> chunk_live c F = {}"
    using pool_in_use_card [OF inv] by (simp add: chunk_live_pool card_eq_0_iff pool_live_def)
  finally show ?thesis .
qed

section \<open>Construction\<close>

lemma meta_alloc_world:
  assumes "meta_alloc w = (b, w')"
  shows "w_mem w' = w_mem w" and "w_prov w' = w_prov w"
  using assms by (auto simp: meta_alloc_def)

lemma chunk_create_cases:
  assumes "chunk_create (Some P) bs count al w = (r, w')"
  obtains e where "r = Inl e" and "w_mem w' = w_mem w"
      and "w_prov w' = w_prov w \<and> e \<in> {BadAlloc, InvalidArgument, LengthError} \<or>
        (\<exists>n a. prov_allocate P n a (w_prov w) = (Inl e, w_prov w'))"
  | L st c head where "r = Inr c"
      and "make_block_layout bs count al False free_node_size free_node_alignment 0 = Inr L"
      and "prov_allocate P (storage_size L) (alignment L) (w_prov w) = (Inr st, w_prov w')"
      and "init_free_list (unat (block_count L)) st (block_stride L) (w_mem w) 0 = (w_mem w', head)"
      and "c = \<lparr>mc_storage = st, mc_free_head = head, mc_states = replicate (unat (block_count L)) 0,
         mc_block_size = block_size L, mc_block_count = block_count L, mc_alignment = alignment L,
         mc_block_stride = block_stride L, mc_storage_size = storage_size L, mc_free_blocks = block_count L\<rparr>"
proof -
  obtain b1 w1 where m1: "meta_alloc w = (b1, w1)" by (cases "meta_alloc w")
  obtain b2 w2 where m2: "meta_alloc w1 = (b2, w2)" by (cases "meta_alloc w1")
  note f = meta_alloc_world [OF m1] meta_alloc_world [OF m2]
  have le: "make_block_layout bs count al False free_node_size free_node_alignment 0 = Inl e \<Longrightarrow>
      e = InvalidArgument \<or> e = LengthError" for e
    using make_block_layout_eq [of free_node_alignment bs count al False free_node_size 0] power_of_two_8
    by (auto simp: free_node_alignment_def Let_def split: if_splits)
  note cr = assms [unfolded chunk_create_def m1 prod.case option.case m2]
  show ?thesis
  proof (cases "make_block_layout bs count al False free_node_size free_node_alignment 0")
    case (Inl e)
    then have "r = Inl (if b1 then e else BadAlloc)" "w' = w1" using cr by (auto split: if_splits)
    then show ?thesis using that(1) [of "if b1 then e else BadAlloc"] f le [OF Inl] by auto
  next
    case L: (Inr L)
    obtain q p where pa: "prov_allocate P (storage_size L) (alignment L) (w_prov w) = (q, p)"
      by (cases "prov_allocate P (storage_size L) (alignment L) (w_prov w)")
    consider (no) "r = Inl BadAlloc" "w' = w1 \<or> w' = w2" | (yes) b1 b2 using cr L m2 by (auto split: if_splits)
    then show ?thesis
    proof cases
      case no
      then show ?thesis using that(1) [of BadAlloc] f by auto
    next
      case yes
      show ?thesis
      proof (cases q)
        case (Inl e)
        have "r = Inl e" "w' = w2\<lparr>w_prov := p\<rparr>" using cr L m2 f yes pa Inl by auto
        then show ?thesis using that(1) [of e] f pa Inl by auto
      next
        case (Inr st)
        obtain m head where i: "init_free_list (unat (block_count L)) st (block_stride L) (w_mem w) 0 = (m, head)"
          by (cases "init_free_list (unat (block_count L)) st (block_stride L) (w_mem w) 0")
        have "w' = w2\<lparr>w_mem := m, w_prov := p\<rparr>" using cr L m2 f yes pa Inr i by auto
        then show ?thesis using that(2) [OF _ L] cr L m2 f yes pa Inr i by auto
      qed
    qed
  qed
qed

definition chunk_grant :: "memory_chunk \<Rightarrow> grant" where
  "chunk_grant c = (mc_storage c, mc_storage_size c, mc_alignment c)"

lemma chunk_grant_simps [simp]:
  "fst (chunk_grant c) = mc_storage c" "fst (snd (chunk_grant c)) = mc_storage_size c"
  by (simp_all add: chunk_grant_def)

lemma chunk_grant_cong: "chunk_same_config c c' \<Longrightarrow> chunk_grant c' = chunk_grant c"
  by (simp add: chunk_same_config_def chunk_grant_def)

lemma chunk_extent_cong: "chunk_same_config c c' \<Longrightarrow> chunk_extent c' = chunk_extent c"
  by (simp add: chunk_same_config_def chunk_extent_def)

text \<open>The block size depends only on the requested size and alignment.\<close>

definition rounded_block_size :: "size_t \<Rightarrow> size_t \<Rightarrow> size_t" where
  "rounded_block_size bs al = of_nat (round_up_nat (max (unat bs) 8) (unat (max al 8)))"

lemma unguarded_block_size:
  assumes "make_block_layout bs count al False free_node_size free_node_alignment 0 = Inr L"
  shows "block_size L = rounded_block_size bs al"
  using assms make_block_layout_eq [OF power_of_two_8, of bs count al False 8 0]
  by (auto simp: free_node_size_def free_node_alignment_def rounded_block_size_def Let_def layout_of_nat_def
      reference_layout_def split: if_splits)

text \<open>A free list laid out in fresh storage is the initial state of a chunk.\<close>

lemma fresh_chunk_inv:
  assumes L: "make_block_layout bs count al False free_node_size free_node_alignment 0 = Inr L"
    and st: "st \<noteq> 0" "unat (alignment L) dvd unat st" "no_wrap st (storage_size L)"
    and init: "init_free_list (unat (block_count L)) st (block_stride L) m 0 = (m', head)"
    and c: "c = \<lparr>mc_storage = st, mc_free_head = head, mc_states = replicate (unat (block_count L)) 0,
         mc_block_size = block_size L, mc_block_count = block_count L, mc_alignment = alignment L,
         mc_block_stride = block_stride L, mc_storage_size = storage_size L, mc_free_blocks = block_count L\<rparr>"
  shows "chunk_inv m' c [0..<unat count]" and "\<And>x. x \<notin> chunk_extent c \<Longrightarrow> m' x = m x"
proof -
  note L' = L [unfolded free_node_size_def free_node_alignment_def]
  note l = make_block_layout_ok [OF L' power_of_two_8]
  have lo: "8 \<le> unat (block_size L)" "8 \<le> unat (block_stride L)" "block_stride L = block_size L"
    "unat (storage_size L) = unat (block_stride L) * unat count"
    using l(1,2) by (auto simp: layout_ok_def word_le_nat_alt)
  have reg: "region_ok st (block_stride L) (unat count)"
    using st lo by (simp add: region_ok_def no_wrap_def mult.commute)
  have fb: "free_blocks_ok m' st (block_stride L) (unat count) head [0..<unat count]"
    and out: "\<And>x. x \<notin> (\<Union>i<unat count. extent (block_at st (block_stride L) i) 8) \<Longrightarrow> m' x = m x"
    using init_free_list_ok [OF reg, of m 0 "[]" "unat count"] init l(2)
    by (auto simp: free_blocks_ok_def)
  have lay: "pool_layout (chunk_as_pool c) = L"
    using l(1) by (simp add: pool_layout_def c layout_ok_def)
  have "layout_ok False free_node_size guard_size L"
    using l(1) by (simp add: layout_ok_def free_node_size_def)
  then have shape: "pool_shape (chunk_as_pool c)"
    unfolding pool_shape_def lay using l(2,4) reg st(2)
    by (simp add: c tracking_options_def free_node_alignment_def chunk_as_pool_def)
  have free: "free_indices_of (map block_state_of (replicate (unat count) 0)) = {0..<unat count}"
    by (auto simp: free_indices_of_def block_state_of_def)
  show inv: "chunk_inv m' c [0..<unat count]"
    unfolding chunk_inv_def pool_inv_def using shape fb l(2) free
    by (simp add: c tracking_options_def)
  show "m' x = m x" if "x \<notin> chunk_extent c" for x
  proof (rule out)
    have "extent (block_at st (block_stride L) i) 8 \<subseteq> chunk_extent c" if "i < unat count" for i
      using chunk_block_extent(1,3) [OF inv, of i] that l(2) by (simp add: c)
    then show "x \<notin> (\<Union>i<unat count. extent (block_at st (block_stride L) i) 8)" using \<open>x \<notin> chunk_extent c\<close> by blast
  qed
qed

context memory_provider begin

lemma chunk_create_Inr:
  assumes "ok (w_prov w)" and "chunk_create (Some P) bs count al w = (Inr c, w')"
  shows "chunk_inv (w_mem w') c [0..<unat count]" and "mc_block_count c = count"
    and "mc_block_size c = rounded_block_size bs al" and "bs \<le> mc_block_size c" and "mc_alignment c = max al 8"
    and "ok (w_prov w')" and "chunk_grant c \<in> live (w_prov w')"
    and "{g \<in> live (w_prov w'). fst g \<noteq> mc_storage c} = live (w_prov w)"
    and "\<And>g. g \<in> live (w_prov w) \<Longrightarrow> chunk_extent c \<inter> grant_extent g = {}"
    and "\<And>x. x \<notin> chunk_extent c \<Longrightarrow> w_mem w' x = w_mem w x"
proof -
  obtain L st head where
    L: "make_block_layout bs count al False free_node_size free_node_alignment 0 = Inr L"
    and pa: "prov_allocate P (storage_size L) (alignment L) (w_prov w) = (Inr st, w_prov w')"
    and init: "init_free_list (unat (block_count L)) st (block_stride L) (w_mem w) 0 = (w_mem w', head)"
    and c: "c = \<lparr>mc_storage = st, mc_free_head = head, mc_states = replicate (unat (block_count L)) 0,
         mc_block_size = block_size L, mc_block_count = block_count L, mc_alignment = alignment L,
         mc_block_stride = block_stride L, mc_storage_size = storage_size L, mc_free_blocks = block_count L\<rparr>"
    using assms(2) by (rule chunk_create_cases) auto
  note l = make_block_layout_ok [OF L [unfolded free_node_size_def free_node_alignment_def] power_of_two_8]
  have "unat (storage_size L) \<noteq> 0" "is_power_of_two (alignment L)"
    using l(1) by (auto simp: layout_ok_def word_le_nat_alt unat_0_iff)
  then have nz: "storage_size L \<noteq> 0" by auto
  note s = allocate_Inr [OF assms(1) nz \<open>is_power_of_two (alignment L)\<close> pa]
  note f = fresh_chunk_inv [OF L _ _ _ init c]
  show "chunk_inv (w_mem w') c [0..<unat count]" using f(1) s by blast
  show "w_mem w' x = w_mem w x" if "x \<notin> chunk_extent c" for x using f(2) s that by blast
  show "mc_block_count c = count" "bs \<le> mc_block_size c" "mc_alignment c = max al 8"
    "mc_block_size c = rounded_block_size bs al"
    using l unguarded_block_size [OF L] by (simp_all add: c)
  show "ok (w_prov w')" "chunk_grant c \<in> live (w_prov w')"
    "{g \<in> live (w_prov w'). fst g \<noteq> mc_storage c} = live (w_prov w)"
    using s by (simp_all add: c chunk_grant_def)
  show "chunk_extent c \<inter> grant_extent g = {}" if "g \<in> live (w_prov w)" for g
    using s that by (simp add: c chunk_extent_def)
qed

lemma chunk_create_Inl:
  assumes "ok (w_prov w)" and "chunk_create (Some P) bs count al w = (Inl e, w')"
  shows "e \<noteq> UndefinedBehaviour" and "e \<noteq> Terminate" and "ok (w_prov w')" and "live (w_prov w') = live (w_prov w)"
    and "w_mem w' = w_mem w"
proof -
  have m: "w_mem w' = w_mem w"
    and d: "w_prov w' = w_prov w \<and> e \<in> {BadAlloc, InvalidArgument, LengthError} \<or>
        (\<exists>n a. prov_allocate P n a (w_prov w) = (Inl e, w_prov w'))"
    using assms(2) by (auto elim!: chunk_create_cases)
  show "w_mem w' = w_mem w" by (rule m)
  show "e \<noteq> UndefinedBehaviour" "e \<noteq> Terminate" "ok (w_prov w')" "live (w_prov w') = live (w_prov w)"
    using d allocate_Inl [OF assms(1)] assms(1) by auto
qed

lemma chunk_destroy_ok:
  assumes "ok (w_prov w)" and "chunk_grant c \<in> live (w_prov w)"
  shows "ok (w_prov (chunk_destroy P c w))"
    and "live (w_prov (chunk_destroy P c w)) = {g \<in> live (w_prov w). fst g \<noteq> mc_storage c}"
    and "w_mem (chunk_destroy P c w) = w_mem w"
  using deallocate [OF assms(1) assms(2) [unfolded chunk_grant_def]] by (simp_all add: chunk_destroy_def)

end

end
