(* ===== verification/Chunk_Manager.thy ===== *)
theory Chunk_Manager
  imports Memory_Chunk
begin

text \<open>
  \<^verbatim>\<open>include/memory_pool/chunk_policies.hpp\<close>, \<^verbatim>\<open>chunk_manager.hpp\<close> and \<^verbatim>\<open>src/chunk_manager.cpp\<close>: the owner
  of a growing vector of chunks over a memory provider. A pointer to a chunk is its position in the
  vector.
\<close>

section \<open>Policies and state\<close>

datatype growth_mode = GrowthFixed | GrowthGeometric

record growth_policy =
  gp_mode :: growth_mode
  gp_factor :: size_t
  gp_maximum_blocks_per_chunk :: size_t

record chunk_manager_options =
  cmo_block_size :: size_t
  cmo_initial_blocks :: size_t
  cmo_alignment :: size_t
  cmo_growth :: growth_policy
  cmo_spare_empty_chunks :: size_t

record chunk_manager =
  cm_options :: chunk_manager_options
  cm_chunks :: "memory_chunk list"
  cm_block_size :: size_t
  cm_alignment :: size_t
  cm_next_growth_blocks :: size_t

section \<open>Operations\<close>

definition calculate_next_growth :: "chunk_manager_options \<Rightarrow> size_t \<Rightarrow> size_t" where
  "calculate_next_growth options current_blocks =
     (if gp_mode (cmo_growth options) = GrowthFixed then cmo_initial_blocks options
      else let maximum = gp_maximum_blocks_per_chunk (cmo_growth options);
               factor = gp_factor (cmo_growth options)
           in if maximum \<noteq> 0 \<and> current_blocks \<ge> maximum then maximum
              else if current_blocks > size_max div factor
                   then (if maximum \<noteq> 0 then maximum else size_max)
              else let next = current_blocks * factor
                   in if maximum \<noteq> 0 then min next maximum else next)"

text \<open>
  \<^verbatim>\<open>grow\<close> constructs the chunk before it touches the vector; when the vector cannot take the new
  element the chunk is destroyed again. The result is the position of the new chunk.
\<close>

definition manager_grow ::
  "'p provider \<Rightarrow> chunk_manager \<Rightarrow> 'p world \<Rightarrow> (nat, chunk_manager \<times> 'p world) outcome" where
  "manager_grow P cm w =
     (let new_chunk_blocks = cm_next_growth_blocks cm in
      case meta_alloc w of (ok_chunk, w1) \<Rightarrow>
        if \<not> ok_chunk then (Inl BadAlloc, (cm, w1))
        else case chunk_create (Some P) (cmo_block_size (cm_options cm)) new_chunk_blocks
                    (cmo_alignment (cm_options cm)) w1 of
          (Inl e, w2) \<Rightarrow> (Inl e, (cm, w2))
        | (Inr new_chunk, w2) \<Rightarrow>
            (case meta_alloc w2 of (ok_push, w3) \<Rightarrow>
               if \<not> ok_push then (Inl BadAlloc, (cm, chunk_destroy P new_chunk w3))
               else (Inr (length (cm_chunks cm)),
                     (cm\<lparr>cm_chunks := cm_chunks cm @ [new_chunk],
                         cm_next_growth_blocks := calculate_next_growth (cm_options cm) new_chunk_blocks\<rparr>,
                      w3))))"

definition manager_create ::
  "'p provider \<Rightarrow> chunk_manager_options \<Rightarrow> 'p world \<Rightarrow> (chunk_manager, 'p world) outcome" where
  "manager_create P options w =
     (if cmo_initial_blocks options = 0 then (Inl InvalidArgument, w)
      else if gp_mode (cmo_growth options) = GrowthGeometric \<and> gp_factor (cmo_growth options) < 2
        then (Inl InvalidArgument, w)
      else if gp_maximum_blocks_per_chunk (cmo_growth options) \<noteq> 0 \<and>
              gp_maximum_blocks_per_chunk (cmo_growth options) < cmo_initial_blocks options
        then (Inl InvalidArgument, w)
      else case manager_grow P \<lparr>cm_options = options, cm_chunks = [], cm_block_size = 0, cm_alignment = 0,
                               cm_next_growth_blocks = cmo_initial_blocks options\<rparr> w of
        (Inl e, (_, w')) \<Rightarrow> (Inl e, w')
      | (Inr k, (cm, w')) \<Rightarrow>
          (let initial_chunk = cm_chunks cm ! k
           in (Inr (cm\<lparr>cm_block_size := mc_block_size initial_chunk,
                       cm_alignment := mc_alignment initial_chunk\<rparr>), w')))"

definition manager_destroy :: "'p provider \<Rightarrow> chunk_manager \<Rightarrow> 'p world \<Rightarrow> 'p world" where
  "manager_destroy P cm w = fold (chunk_destroy P) (cm_chunks cm) w"

text \<open>The scan of \<^verbatim>\<open>try_allocate\<close> over the vector.\<close>

fun allocate_first :: "mem \<Rightarrow> memory_chunk list \<Rightarrow> (addr, memory_chunk list) outcome" where
  "allocate_first m [] = (Inr nullptr, [])"
| "allocate_first m (c # cs) =
     (if mc_free_blocks c \<noteq> 0
      then (case chunk_allocate m c of (r, c') \<Rightarrow> (r, c' # cs))
      else (case allocate_first m cs of (r, cs') \<Rightarrow> (r, c # cs')))"

definition manager_try_allocate :: "mem \<Rightarrow> chunk_manager \<Rightarrow> (addr, chunk_manager) outcome" where
  "manager_try_allocate m cm =
     (case allocate_first m (cm_chunks cm) of (r, cs) \<Rightarrow> (r, cm\<lparr>cm_chunks := cs\<rparr>))"

fun find_chunk_in :: "memory_chunk list \<Rightarrow> addr \<Rightarrow> nat option" where
  "find_chunk_in [] pointer = None"
| "find_chunk_in (c # cs) pointer =
     (if chunk_owns c pointer then Some 0 else map_option Suc (find_chunk_in cs pointer))"

definition manager_find_chunk :: "chunk_manager \<Rightarrow> addr \<Rightarrow> nat option" where
  "manager_find_chunk cm pointer = find_chunk_in (cm_chunks cm) pointer"

definition remove_nth :: "nat \<Rightarrow> 'a list \<Rightarrow> 'a list" where
  "remove_nth k xs = take k xs @ drop (Suc k) xs"

definition reclaim_if_allowed ::
  "'p provider \<Rightarrow> chunk_manager \<Rightarrow> 'p world \<Rightarrow> nat \<Rightarrow> chunk_manager \<times> 'p world" where
  "reclaim_if_allowed P cm w k =
     (let chunk = cm_chunks cm ! k in
      if \<not> chunk_empty chunk then (cm, w)
      else let empty_chunks = length (filter chunk_empty (cm_chunks cm))
           in if empty_chunks \<le> unat (cmo_spare_empty_chunks (cm_options cm)) then (cm, w)
              else (cm\<lparr>cm_chunks := remove_nth k (cm_chunks cm)\<rparr>, chunk_destroy P chunk w))"

definition manager_deallocate ::
  "'p provider \<Rightarrow> chunk_manager \<Rightarrow> 'p world \<Rightarrow> addr \<Rightarrow> (unit, chunk_manager \<times> 'p world) outcome" where
  "manager_deallocate P cm w pointer =
     (if pointer = nullptr then (Inr (), (cm, w))
      else case manager_find_chunk cm pointer of
        None \<Rightarrow> (Inl InvalidPoolPointer, (cm, w))
      | Some k \<Rightarrow>
          (case chunk_deallocate (w_mem w) (cm_chunks cm ! k) pointer of
             (Inl e, (m, c)) \<Rightarrow> (Inl e, (cm\<lparr>cm_chunks := (cm_chunks cm)[k := c]\<rparr>, w\<lparr>w_mem := m\<rparr>))
           | (Inr _, (m, c)) \<Rightarrow>
               (Inr (), reclaim_if_allowed P (cm\<lparr>cm_chunks := (cm_chunks cm)[k := c]\<rparr>) (w\<lparr>w_mem := m\<rparr>) k)))"

definition manager_capacity :: "chunk_manager \<Rightarrow> size_t" where
  "manager_capacity cm = fold (\<lambda>c total. total + mc_block_count c) (cm_chunks cm) 0"

definition manager_available :: "chunk_manager \<Rightarrow> size_t" where
  "manager_available cm = fold (\<lambda>c total. total + mc_free_blocks c) (cm_chunks cm) 0"

definition manager_in_use :: "chunk_manager \<Rightarrow> size_t" where
  "manager_in_use cm = manager_capacity cm - manager_available cm"

section \<open>Growth\<close>

definition options_ok :: "chunk_manager_options \<Rightarrow> bool" where
  "options_ok options \<longleftrightarrow>
     cmo_initial_blocks options \<noteq> 0 \<and>
     (gp_mode (cmo_growth options) = GrowthGeometric \<longrightarrow> 2 \<le> gp_factor (cmo_growth options)) \<and>
     (gp_maximum_blocks_per_chunk (cmo_growth options) \<noteq> 0 \<longrightarrow>
        cmo_initial_blocks options \<le> gp_maximum_blocks_per_chunk (cmo_growth options))"

text \<open>The next size on unbounded numbers: multiply, cap, saturate.\<close>

definition next_growth_nat :: "chunk_manager_options \<Rightarrow> nat \<Rightarrow> nat" where
  "next_growth_nat options current =
     (if gp_mode (cmo_growth options) = GrowthFixed then unat (cmo_initial_blocks options)
      else let cap = (if gp_maximum_blocks_per_chunk (cmo_growth options) = 0 then 2 ^ 64 - 1
                      else unat (gp_maximum_blocks_per_chunk (cmo_growth options)))
           in min (current * unat (gp_factor (cmo_growth options))) cap)"

lemma calculate_next_growth_nat:
  assumes "options_ok options"
  shows "unat (calculate_next_growth options current) = next_growth_nat options (unat current)"
proof (cases "gp_mode (cmo_growth options)")
  case GrowthFixed
  then show ?thesis by (simp add: calculate_next_growth_def next_growth_nat_def)
next
  case GrowthGeometric
  define f where "f = gp_factor (cmo_growth options)"
  define mx where "mx = gp_maximum_blocks_per_chunk (cmo_growth options)"
  have f2: "2 \<le> f" using assms GrowthGeometric by (simp add: options_ok_def f_def)
  then have f0: "f \<noteq> 0" and f1: "1 \<le> unat f" by (auto simp: word_le_nat_alt)
  note ov = mult_overflow_guard [OF f0, of current]
  define pr where "pr = unat current * unat f"
  have ge: "unat current \<le> pr" using f1 by (simp add: pr_def)
  have calc: "calculate_next_growth options current =
      (if mx \<noteq> 0 \<and> mx \<le> current then mx
       else if size_max div f < current then (if mx \<noteq> 0 then mx else size_max)
       else if mx \<noteq> 0 then min (current * f) mx else current * f)"
    using GrowthGeometric by (simp add: calculate_next_growth_def Let_def f_def mx_def)
  have nat: "next_growth_nat options (unat current) =
      min pr (if mx = 0 then 18446744073709551615 else unat mx)"
    using GrowthGeometric by (simp add: next_growth_nat_def Let_def f_def mx_def pr_def)
  show ?thesis
  proof (cases "size_max div f < current")
    case True
    then have "18446744073709551616 \<le> pr" using ov by (simp add: pr_def)
    then show ?thesis unfolding calc nat using True unat_le_64 [of mx] by (auto simp: min_def simp del: unat_le_64)
  next
    case False
    then have lt: "unat current * unat f < 18446744073709551616" using ov by simp
    then have u: "unat (current * f) = pr" unfolding pr_def by (rule unat_mult_size)
    show ?thesis
      unfolding calc nat using False lt [folded pr_def] u ge
      by (auto simp: min_def word_le_nat_alt)
  qed
qed

lemma calculate_next_growth_pos:
  assumes "options_ok options" and "current \<noteq> 0"
  shows "calculate_next_growth options current \<noteq> 0"
proof -
  have "0 < unat current" using assms(2) by (simp add: unat_gt_0)
  moreover have "gp_mode (cmo_growth options) = GrowthGeometric \<Longrightarrow> 0 < unat (gp_factor (cmo_growth options))"
    using assms(1) by (auto simp: options_ok_def word_le_nat_alt)
  ultimately have "0 < next_growth_nat options (unat current)"
    using assms(1) by (cases "gp_mode (cmo_growth options)")
      (auto simp: next_growth_nat_def Let_def options_ok_def unat_gt_0)
  then show ?thesis using calculate_next_growth_nat [OF assms(1), of current] by auto
qed

section \<open>The invariant\<close>

text \<open>
  \<open>Fs\<close> gives the free list of each chunk. The chunks are distinct live grants of the provider, so
  by the provider's contract they do not overlap.
\<close>

definition chunk_set ::
  "('p \<Rightarrow> grant set) \<Rightarrow> ('p \<Rightarrow> bool) \<Rightarrow> 'p world \<Rightarrow> memory_chunk list \<Rightarrow> nat list list \<Rightarrow> size_t \<Rightarrow> size_t \<Rightarrow> bool" where
  "chunk_set live ok w cs Fs bs al \<longleftrightarrow>
     ok (w_prov w) \<and> list_all2 (chunk_inv (w_mem w)) cs Fs \<and> distinct (map mc_storage cs) \<and>
     (\<forall>c \<in> set cs. chunk_grant c \<in> live (w_prov w) \<and> mc_block_size c = bs \<and> mc_alignment c = al)"

definition chunks_live :: "memory_chunk list \<Rightarrow> nat list list \<Rightarrow> addr set" where
  "chunks_live cs Fs = (\<Union>k < length cs. chunk_live (cs ! k) (Fs ! k))"

definition manager_inv ::
  "('p \<Rightarrow> grant set) \<Rightarrow> ('p \<Rightarrow> bool) \<Rightarrow> 'p world \<Rightarrow> chunk_manager \<Rightarrow> nat list list \<Rightarrow> bool" where
  "manager_inv live ok w cm Fs \<longleftrightarrow>
     chunk_set live ok w (cm_chunks cm) Fs (cm_block_size cm) (cm_alignment cm) \<and>
     options_ok (cm_options cm) \<and> cm_next_growth_blocks cm \<noteq> 0 \<and>
     cm_block_size cm = rounded_block_size (cmo_block_size (cm_options cm)) (cmo_alignment (cm_options cm)) \<and>
     cmo_block_size (cm_options cm) \<le> cm_block_size cm \<and> 8 \<le> unat (cm_block_size cm) \<and>
     cm_alignment cm = max (cmo_alignment (cm_options cm)) 8 \<and> is_power_of_two (cm_alignment cm)"

lemma chunk_setD:
  assumes "chunk_set live ok w cs Fs bs al"
  shows "ok (w_prov w)" "length Fs = length cs" "distinct (map mc_storage cs)"
    "\<And>k. k < length cs \<Longrightarrow> chunk_inv (w_mem w) (cs ! k) (Fs ! k)"
    "\<And>c. c \<in> set cs \<Longrightarrow> chunk_grant c \<in> live (w_prov w)"
    "\<And>k. k < length cs \<Longrightarrow> mc_block_size (cs ! k) = bs" "\<And>k. k < length cs \<Longrightarrow> mc_alignment (cs ! k) = al"
  using assms by (auto simp: chunk_set_def list_all2_conv_all_nth)

lemma manager_inv_chunks:
  "manager_inv live ok w cm Fs \<Longrightarrow> chunk_set live ok w (cm_chunks cm) Fs (cm_block_size cm) (cm_alignment cm)"
  unfolding manager_inv_def by blast

lemma manager_inv_update:
  assumes "manager_inv live ok w cm Fs"
    and "chunk_set live ok w' (cm_chunks cm') Fs' (cm_block_size cm) (cm_alignment cm)"
    and "cm_options cm' = cm_options cm" and "cm_block_size cm' = cm_block_size cm"
    and "cm_alignment cm' = cm_alignment cm" and "cm_next_growth_blocks cm' \<noteq> 0"
  shows "manager_inv live ok w' cm' Fs'"
  using assms unfolding manager_inv_def by metis

lemma manager_invD:
  assumes "manager_inv live ok w cm Fs"
  shows "options_ok (cm_options cm)" "cm_next_growth_blocks cm \<noteq> 0"
    "cm_block_size cm = rounded_block_size (cmo_block_size (cm_options cm)) (cmo_alignment (cm_options cm))"
    "cmo_block_size (cm_options cm) \<le> cm_block_size cm" "8 \<le> unat (cm_block_size cm)"
    "cm_alignment cm = max (cmo_alignment (cm_options cm)) 8" "is_power_of_two (cm_alignment cm)"
  using assms unfolding manager_inv_def by blast+

lemma chunks_live_iff: "q \<in> chunks_live cs Fs \<longleftrightarrow> (\<exists>k < length cs. q \<in> chunk_live (cs ! k) (Fs ! k))"
  by (auto simp: chunks_live_def)

lemma find_chunk_in_Some:
  "find_chunk_in cs q = Some k \<longleftrightarrow> k < length cs \<and> chunk_owns (cs ! k) q \<and> (\<forall>j < k. \<not> chunk_owns (cs ! j) q)"
proof (induction cs arbitrary: k)
  case (Cons c cs)
  then show ?case by (cases k) (auto simp: All_less_Suc2)
qed simp

lemma find_chunk_in_None: "find_chunk_in cs q = None \<longleftrightarrow> (\<forall>c \<in> set cs. \<not> chunk_owns c q)"
  by (induction cs) auto

lemma map_storage_update:
  assumes "k < length cs" and "chunk_same_config (cs ! k) c'"
  shows "map mc_storage (cs[k := c']) = map mc_storage cs"
proof -
  have "map mc_storage (cs[k := c']) = (map mc_storage cs)[k := mc_storage c']" by (simp add: map_update)
  also have "\<dots> = map mc_storage cs"
    using assms by (simp add: chunk_same_config_def) (metis list_update_id nth_map)
  finally show ?thesis .
qed

lemma chunk_set_update:
  assumes "chunk_set live ok w cs Fs bs al" and "k < length cs" and "chunk_same_config (cs ! k) c'"
    and "chunk_inv m' c' F'" and "\<And>j. j < length cs \<Longrightarrow> j \<noteq> k \<Longrightarrow> chunk_inv m' (cs ! j) (Fs ! j)"
  shows "chunk_set live ok (w\<lparr>w_mem := m'\<rparr>) (cs[k := c']) (Fs[k := F']) bs al"
proof -
  note d = chunk_setD [OF assms(1)]
  have "list_all2 (chunk_inv m') (cs[k := c']) (Fs[k := F'])"
    using assms(2,4,5) d(2) by (auto simp: list_all2_conv_all_nth nth_list_update)
  moreover have "chunk_grant c \<in> live (w_prov w) \<and> mc_block_size c = bs \<and> mc_alignment c = al"
    if "c \<in> set (cs[k := c'])" for c
  proof -
    from that have "c = c' \<or> c \<in> set cs" using set_update_subset_insert [of cs k c'] by blast
    then show ?thesis
      using assms(1-3) chunk_grant_cong [OF assms(3)] nth_mem [OF assms(2)]
      by (auto simp: chunk_set_def chunk_same_config_def)
  qed
  ultimately show ?thesis
    using map_storage_update [OF assms(2,3)] d(1,3) by (auto simp: chunk_set_def)
qed

lemma chunks_live_update:
  assumes "k < length cs" and "length Fs = length cs" and "chunk_same_config (cs ! k) c'"
  shows "chunks_live (cs[k := c']) (Fs[k := F']) =
     chunk_live (cs ! k) F' \<union> (\<Union>j \<in> {..<length cs} - {k}. chunk_live (cs ! j) (Fs ! j))"
proof -
  have "chunk_live c' F' = chunk_live (cs ! k) F'"
    using assms(3) by (simp add: chunk_live_def chunk_same_config_def)
  then show ?thesis
    using assms(1,2) by (auto simp: chunks_live_def nth_list_update split: if_splits)
qed

lemma chunks_live_split:
  assumes "k < length cs"
  shows "chunks_live cs Fs = chunk_live (cs ! k) (Fs ! k) \<union> (\<Union>j \<in> {..<length cs} - {k}. chunk_live (cs ! j) (Fs ! j))"
  using assms by (auto simp: chunks_live_def)

lemma length_remove_nth: "k < length xs \<Longrightarrow> length (remove_nth k xs) = length xs - 1"
  by (simp add: remove_nth_def)

lemma nth_remove_nth:
  "k < length xs \<Longrightarrow> j < length xs - 1 \<Longrightarrow> remove_nth k xs ! j = xs ! (if j < k then j else Suc j)"
  by (auto simp: remove_nth_def nth_append)

lemma mset_remove_nth: "k < length xs \<Longrightarrow> set (remove_nth k xs) \<subseteq> set xs"
  by (auto simp: remove_nth_def dest: in_set_takeD in_set_dropD)

lemma map_remove_nth: "map f (remove_nth k xs) = remove_nth k (map f xs)"
  by (simp add: remove_nth_def take_map drop_map)

lemma distinct_remove_nth:
  assumes "distinct xs" and "k < length xs"
  shows "distinct (remove_nth k xs)" and "xs ! k \<notin> set (remove_nth k xs)"
proof -
  have "distinct (take k xs @ xs ! k # drop (Suc k) xs)" using assms by (simp add: id_take_nth_drop [symmetric])
  then show "distinct (remove_nth k xs)" "xs ! k \<notin> set (remove_nth k xs)" by (auto simp: remove_nth_def)
qed

lemma chunks_live_remove_nth:
  assumes "k < length cs" and "length Fs = length cs" and "chunk_live (cs ! k) (Fs ! k) = {}"
  shows "chunks_live (remove_nth k cs) (remove_nth k Fs) = chunks_live cs Fs"
proof
  show "chunks_live (remove_nth k cs) (remove_nth k Fs) \<subseteq> chunks_live cs Fs"
  proof
    fix q assume "q \<in> chunks_live (remove_nth k cs) (remove_nth k Fs)"
    then obtain i where i: "i < length cs - 1" "q \<in> chunk_live (remove_nth k cs ! i) (remove_nth k Fs ! i)"
      using assms(1) by (auto simp: chunks_live_iff length_remove_nth)
    let ?j = "if i < k then i else Suc i"
    have "?j < length cs" using i(1) by auto
    moreover have "q \<in> chunk_live (cs ! ?j) (Fs ! ?j)"
      using i assms(1,2) by (simp add: nth_remove_nth del: if_split_asm)
    ultimately show "q \<in> chunks_live cs Fs" unfolding chunks_live_iff by blast
  qed
  show "chunks_live cs Fs \<subseteq> chunks_live (remove_nth k cs) (remove_nth k Fs)"
  proof
    fix q assume "q \<in> chunks_live cs Fs"
    then obtain j where j: "j < length cs" "q \<in> chunk_live (cs ! j) (Fs ! j)" by (auto simp: chunks_live_iff)
    then have "j \<noteq> k" using assms(3) by auto
    define i where "i = (if j < k then j else j - 1)"
    have "i < length cs - 1" "(if i < k then i else Suc i) = j" using j \<open>j \<noteq> k\<close> assms(1) by (auto simp: i_def)
    then show "q \<in> chunks_live (remove_nth k cs) (remove_nth k Fs)"
      using j assms(1,2) by (auto simp: chunks_live_iff length_remove_nth nth_remove_nth intro!: exI [of _ i])
  qed
qed

section \<open>Allocation from existing chunks\<close>

lemma chunk_free_blocks_0: "chunk_inv m c F \<Longrightarrow> mc_free_blocks c = 0 \<longleftrightarrow> F = []"
  using pool_invD(5) [of m "chunk_as_pool c" F] by (auto simp: chunk_inv_def unat_0_iff)

text \<open>The scan takes a block from the first chunk that has one.\<close>

lemma allocate_first_spec:
  assumes "list_all2 (chunk_inv m) cs Fs"
  shows "(list_all (\<lambda>F. F = []) Fs \<and> allocate_first m cs = (Inr 0, cs)) \<or>
     (\<exists>k i G c'. k < length cs \<and> Fs ! k = i # G \<and> (\<forall>j < k. Fs ! j = []) \<and>
        allocate_first m cs = (Inr (chunk_block (cs ! k) i), cs[k := c']) \<and>
        chunk_inv m c' G \<and> chunk_same_config (cs ! k) c')"
  using assms
proof (induction cs Fs rule: list_all2_induct)
  case (Cons c cs F Fs)
  show ?case
  proof (cases F)
    case Nil
    then have step: "allocate_first m (c # cs) = (case allocate_first m cs of (r, cs') \<Rightarrow> (r, c # cs'))"
      using chunk_free_blocks_0 [OF Cons.hyps(1)] by simp
    from Cons.IH show ?thesis
    proof (elim disjE exE conjE)
      assume "list_all (\<lambda>F. F = []) Fs" and "allocate_first m cs = (Inr 0, cs)"
      then show ?thesis using step Nil by simp
    next
      fix k i G c'
      assume "k < length cs" "Fs ! k = i # G" "\<forall>j < k. Fs ! j = []"
        "allocate_first m cs = (Inr (chunk_block (cs ! k) i), cs[k := c'])"
        "chunk_inv m c' G" "chunk_same_config (cs ! k) c'"
      then show ?thesis
        using step Nil by (intro disjI2 exI [of _ "Suc k"] exI [of _ i] exI [of _ G] exI [of _ c'])
          (auto simp: less_Suc_eq_0_disj)
    qed
  next
    case (Cons i G)
    obtain r c' where al: "chunk_allocate m c = (r, c')" by (cases "chunk_allocate m c")
    note st = chunk_allocate_inv [OF Cons.hyps(1) [unfolded Cons] al]
    then show ?thesis
      using al chunk_free_blocks_0 [OF Cons.hyps(1)] Cons
      by (intro disjI2 exI [of _ "0 :: nat"] exI [of _ i] exI [of _ G] exI [of _ c']) auto
  qed
qed simp

lemma chunk_live_pop:
  assumes "chunk_inv m c (i # F)"
  shows "chunk_live c F = insert (chunk_block c i) (chunk_live c (i # F))"
    and "chunk_block c i \<notin> chunk_live c (i # F)" and "i < unat (mc_block_count c)"
proof -
  show "chunk_live c F = insert (chunk_block c i) (chunk_live c (i # F))"
    and "chunk_block c i \<notin> chunk_live c (i # F)"
    using pool_live_Cons [OF assms [unfolded chunk_inv_def]] by (simp_all add: chunk_live_pool)
  show "i < unat (mc_block_count c)" using pool_invD(3) [OF assms [unfolded chunk_inv_def]] by simp
qed

lemma chunk_live_in_extent:
  assumes "chunk_inv m c F" and "q \<in> chunk_live c F"
  shows "extent q (mc_block_size c) \<subseteq> chunk_extent c" and "q \<in> chunk_extent c" and "q \<noteq> 0"
    and "unat (mc_alignment c) dvd unat q"
  using assms chunk_block_extent [OF assms(1)] by (auto simp: chunk_live_def)

context memory_provider begin

lemma chunk_set_disjoint:
  assumes "chunk_set live ok w cs Fs bs al" and "j < length cs" and "k < length cs" and "j \<noteq> k"
  shows "chunk_extent (cs ! j) \<inter> chunk_extent (cs ! k) = {}"
proof -
  note d = chunk_setD [OF assms(1)]
  have "mc_storage (cs ! j) \<noteq> mc_storage (cs ! k)"
    using d(3) assms(2-4) by (simp add: distinct_conv_nth)
  then show ?thesis
    using live_disjoint [OF d(1) d(5) d(5), of "cs ! j" "cs ! k"] assms(2,3) by (simp add: chunk_extent_def)
qed

lemma chunks_live_apart:
  assumes "chunk_set live ok w cs Fs bs al" and "q \<in> chunks_live cs Fs" and "r \<in> chunks_live cs Fs" and "q \<noteq> r"
  shows "extent q bs \<inter> extent r bs = {}"
proof -
  note d = chunk_setD [OF assms(1)]
  obtain j k where j: "j < length cs" "q \<in> chunk_live (cs ! j) (Fs ! j)"
    and k: "k < length cs" "r \<in> chunk_live (cs ! k) (Fs ! k)"
    using assms(2,3) by (auto simp: chunks_live_iff)
  show ?thesis
  proof (cases "j = k")
    case True
    then show ?thesis using chunk_live_apart [OF d(4) [OF j(1)] j(2), of r] k assms(4) d(6) [OF j(1)] by simp
  next
    case False
    then show ?thesis
      using chunk_set_disjoint [OF assms(1) j(1) k(1)] chunk_live_in_extent(1) [OF d(4) [OF j(1)] j(2)]
        chunk_live_in_extent(1) [OF d(4) [OF k(1)] k(2)] d(6) [OF j(1)] d(6) [OF k(1)] by auto
  qed
qed

lemma find_chunk_of_live:
  assumes "chunk_set live ok w cs Fs bs al" and "k < length cs" and "q \<in> chunk_extent (cs ! k)"
  shows "find_chunk_in cs q = Some k"
proof -
  note d = chunk_setD [OF assms(1)]
  have "\<not> chunk_owns (cs ! j) q" if "j < k" for j
    using chunk_set_disjoint [OF assms(1), of j k] that assms(2,3) chunk_owns_iff [OF d(4), of j q] by auto
  then show ?thesis
    using assms(2,3) chunk_owns_iff [OF d(4) [OF assms(2)]] by (simp add: find_chunk_in_Some)
qed

text \<open>
  The frame: a write inside one chunk keeps the invariants of the others.
\<close>

lemma chunk_set_frame:
  assumes "chunk_set live ok w cs Fs bs al" and "k < length cs" and "j < length cs" and "j \<noteq> k"
    and "\<And>x. x \<notin> chunk_extent (cs ! k) \<Longrightarrow> m' x = w_mem w x"
  shows "chunk_inv m' (cs ! j) (Fs ! j)"
  using chunk_inv_frame [OF chunk_setD(4) [OF assms(1,3)]] assms(5) chunk_set_disjoint [OF assms(1,3,2,4)] by blast

lemma chunk_set_client_write:
  assumes "chunk_set live ok w cs Fs bs al" and "q \<in> chunks_live cs Fs" and "x \<in> extent q bs"
  shows "chunk_set live ok (w\<lparr>w_mem := (w_mem w)(x := b)\<rparr>) cs Fs bs al"
proof -
  note d = chunk_setD [OF assms(1)]
  obtain k where k: "k < length cs" "q \<in> chunk_live (cs ! k) (Fs ! k)" using assms(2) by (auto simp: chunks_live_iff)
  have x: "x \<in> extent q (mc_block_size (cs ! k))" using assms(3) d(6) [OF k(1)] by simp
  have "chunk_inv ((w_mem w)(x := b)) (cs ! k) (Fs ! k)"
    by (rule chunk_inv_client_write [OF d(4) [OF k(1)] k(2)]) (use x in auto)
  moreover have "chunk_inv ((w_mem w)(x := b)) (cs ! j) (Fs ! j)" if "j < length cs" "j \<noteq> k" for j
    using that chunk_live_in_extent(1) [OF d(4) [OF k(1)] k(2)] x
    by (intro chunk_set_frame [OF assms(1) k(1)]) auto
  ultimately have "chunk_set live ok (w\<lparr>w_mem := (w_mem w)(x := b)\<rparr>) (cs[k := cs ! k]) (Fs[k := Fs ! k]) bs al"
    by (intro chunk_set_update [OF assms(1) k(1)]) auto
  then show ?thesis by simp
qed

lemma manager_take_block:
  assumes "manager_inv live ok w cm Fs" and "k < length (cm_chunks cm)" and "Fs ! k = i # G"
    and "chunk_inv (w_mem w) c' G" and "chunk_same_config (cm_chunks cm ! k) c'"
  defines "cm' \<equiv> cm\<lparr>cm_chunks := (cm_chunks cm)[k := c']\<rparr>" and "q \<equiv> chunk_block (cm_chunks cm ! k) i"
  shows "manager_inv live ok w cm' (Fs[k := G])" and "q \<noteq> 0" and "q \<notin> chunks_live (cm_chunks cm) Fs"
    and "chunks_live (cm_chunks cm') (Fs[k := G]) = insert q (chunks_live (cm_chunks cm) Fs)"
    and "map mc_storage (cm_chunks cm') = map mc_storage (cm_chunks cm)"
proof -
  note cs = manager_inv_chunks [OF assms(1)]
  note d = chunk_setD [OF cs]
  have inv: "chunk_inv (w_mem w) (cm_chunks cm ! k) (i # G)" using d(4) [OF assms(2)] assms(3) by simp
  note lp = chunk_live_pop [OF inv]
  have "chunk_set live ok (w\<lparr>w_mem := w_mem w\<rparr>) ((cm_chunks cm)[k := c']) (Fs[k := G])
      (cm_block_size cm) (cm_alignment cm)"
    using d(4) by (intro chunk_set_update [OF cs assms(2,5,4)])
  then show "manager_inv live ok w cm' (Fs[k := G])"
    using manager_invD(2) [OF assms(1)] by (intro manager_inv_update [OF assms(1)]) (simp_all add: cm'_def)
  show "chunks_live (cm_chunks cm') (Fs[k := G]) = insert q (chunks_live (cm_chunks cm) Fs)"
    using chunks_live_update [OF assms(2) d(2) assms(5), of G] chunks_live_split [OF assms(2), of Fs] lp(1) assms(3)
    by (simp add: cm'_def q_def)
  show "q \<notin> chunks_live (cm_chunks cm) Fs"
  proof
    assume "q \<in> chunks_live (cm_chunks cm) Fs"
    then obtain j where j: "j < length (cm_chunks cm)" "q \<in> chunk_live (cm_chunks cm ! j) (Fs ! j)"
      by (auto simp: chunks_live_iff)
    then have "j \<noteq> k" using lp(2) assms(3) by (auto simp: q_def)
    then show False
      using chunk_set_disjoint [OF cs j(1) assms(2)] chunk_live_in_extent(2) [OF d(4) [OF j(1)] j(2)]
        chunk_block_extent(2) [OF inv lp(3)] by (auto simp: q_def)
  qed
  show "q \<noteq> 0" unfolding q_def by (rule chunk_block_extent(5) [OF inv lp(3)])
  show "map mc_storage (cm_chunks cm') = map mc_storage (cm_chunks cm)"
    using map_storage_update [OF assms(2,5)] by (simp add: cm'_def)
qed

lemma manager_try_allocate_inv:
  assumes "manager_inv live ok w cm Fs" and "manager_try_allocate (w_mem w) cm = (r, cm')"
  shows "(r = Inr 0 \<and> cm' = cm \<and> list_all (\<lambda>F. F = []) Fs) \<or>
     (\<exists>q Fs'. r = Inr q \<and> q \<noteq> 0 \<and> q \<notin> chunks_live (cm_chunks cm) Fs \<and> manager_inv live ok w cm' Fs' \<and>
        cm_options cm' = cm_options cm \<and> cm_block_size cm' = cm_block_size cm \<and>
        cm_alignment cm' = cm_alignment cm \<and> map mc_storage (cm_chunks cm') = map mc_storage (cm_chunks cm) \<and>
        chunks_live (cm_chunks cm') Fs' = insert q (chunks_live (cm_chunks cm) Fs))"
proof -
  from allocate_first_spec [of "w_mem w" "cm_chunks cm" Fs] manager_inv_chunks [OF assms(1)]
  consider (none) "list_all (\<lambda>F. F = []) Fs" "allocate_first (w_mem w) (cm_chunks cm) = (Inr 0, cm_chunks cm)"
    | (one) k i G c' where "k < length (cm_chunks cm)" "Fs ! k = i # G"
      "allocate_first (w_mem w) (cm_chunks cm) = (Inr (chunk_block (cm_chunks cm ! k) i), (cm_chunks cm)[k := c'])"
      "chunk_inv (w_mem w) c' G" "chunk_same_config (cm_chunks cm ! k) c'"
    by (auto simp: chunk_set_def)
  then show ?thesis
  proof cases
    case none
    then show ?thesis using assms(2) by (simp add: manager_try_allocate_def)
  next
    case (one k i G c')
    have res: "r = Inr (chunk_block (cm_chunks cm ! k) i)" "cm' = cm\<lparr>cm_chunks := (cm_chunks cm)[k := c']\<rparr>"
      using assms(2) one(3) by (auto simp: manager_try_allocate_def)
    show ?thesis using manager_take_block [OF assms(1) one(1,2,4,5)] res by auto
  qed
qed

end

end
