(* ===== verification/Chunk_Manager_Correct.thy ===== *)
theory Chunk_Manager_Correct
  imports Chunk_Manager
begin

text \<open>
  Every operation of \<^verbatim>\<open>ChunkManager\<close> keeps its invariant, over any memory provider that keeps the
  provider contract. The lemmas live in the locale \<open>memory_provider\<close>.
\<close>

lemma chunk_set_remove_nth:
  assumes "chunk_set live ok w cs Fs bs al" and "k < length cs" and "ok (w_prov w')" and "w_mem w' = w_mem w"
    and "live (w_prov w') = {g \<in> live (w_prov w). fst g \<noteq> mc_storage (cs ! k)}"
  shows "chunk_set live ok w' (remove_nth k cs) (remove_nth k Fs) bs al"
proof -
  note d = chunk_setD [OF assms(1)]
  have "list_all2 (chunk_inv (w_mem w')) (remove_nth k cs) (remove_nth k Fs)"
    using assms(2,4) d(2,4) by (auto simp: list_all2_conv_all_nth length_remove_nth nth_remove_nth)
  moreover have "distinct (map mc_storage (remove_nth k cs))"
    using distinct_remove_nth(1) [OF d(3)] assms(2) by (simp add: map_remove_nth)
  moreover have "chunk_grant c \<in> live (w_prov w') \<and> mc_block_size c = bs \<and> mc_alignment c = al"
    if c: "c \<in> set (remove_nth k cs)" for c
  proof -
    have "c \<in> set cs" using mset_remove_nth [OF assms(2)] c by blast
    moreover have "mc_storage c \<noteq> mc_storage (cs ! k)"
      using distinct_remove_nth(2) [OF d(3), of k] assms(2) imageI [OF c, of mc_storage]
      by (simp add: map_remove_nth [symmetric]) metis
    ultimately show ?thesis using assms(1,5) by (auto simp: chunk_set_def)
  qed
  ultimately show ?thesis using assms(3) by (simp add: chunk_set_def)
qed

lemma chunk_set_append:
  assumes "chunk_set live ok w cs Fs bs al" and "ok (w_prov w')" and "chunk_inv (w_mem w') c F"
    and "mc_block_size c = bs" and "mc_alignment c = al" and "chunk_grant c \<in> live (w_prov w')"
    and "live (w_prov w) \<subseteq> live (w_prov w')" and "\<And>g. g \<in> live (w_prov w) \<Longrightarrow> fst g \<noteq> mc_storage c"
    and "\<And>k. k < length cs \<Longrightarrow> chunk_inv (w_mem w') (cs ! k) (Fs ! k)"
  shows "chunk_set live ok w' (cs @ [c]) (Fs @ [F]) bs al"
proof -
  note d = chunk_setD [OF assms(1)]
  have "mc_storage c \<notin> set (map mc_storage cs)"
  proof
    assume "mc_storage c \<in> set (map mc_storage cs)"
    then obtain c1 where "c1 \<in> set cs" "mc_storage c1 = mc_storage c" by auto
    then show False using assms(8) [OF d(5)] by simp
  qed
  moreover have "list_all2 (chunk_inv (w_mem w')) cs Fs"
    using assms(9) d(2) by (auto simp: list_all2_conv_all_nth)
  ultimately show ?thesis
    using assms(2-7) d(3) assms(1) by (auto simp: chunk_set_def list_all2_appendI)
qed

lemma chunks_live_append:
  assumes "length Fs = length cs"
  shows "chunks_live (cs @ [c]) (Fs @ [F]) = chunks_live cs Fs \<union> chunk_live c F"
  using assms by (auto simp: chunks_live_def nth_append lessThan_Suc)

text \<open>The grants of the provider that are not chunks of the manager.\<close>

definition manager_rest :: "('p \<Rightarrow> grant set) \<Rightarrow> chunk_manager \<Rightarrow> 'p world \<Rightarrow> grant set" where
  "manager_rest live cm w = {g \<in> live (w_prov w). fst g \<notin> mc_storage ` set (cm_chunks cm)}"

lemma set_remove_nth_storage:
  assumes "distinct (map mc_storage cs)" and "k < length cs"
  shows "mc_storage ` set (remove_nth k cs) = mc_storage ` set cs - {mc_storage (cs ! k)}"
proof -
  have "set (map mc_storage cs) = insert (map mc_storage cs ! k) (set (remove_nth k (map mc_storage cs)))"
    using assms(2) by (subst id_take_nth_drop [of k]) (auto simp: remove_nth_def)
  then show ?thesis
    using distinct_remove_nth(2) [OF assms(1), of k] assms(2) by (auto simp: map_remove_nth [symmetric])
qed

context memory_provider begin

lemma chunk_set_world:
  assumes "chunk_set live ok w cs Fs bs al" and "w_mem w' = w_mem w" and "ok (w_prov w')"
    and "live (w_prov w') = live (w_prov w)"
  shows "chunk_set live ok w' cs Fs bs al"
  using assms by (simp add: chunk_set_def)

lemma manager_inv_world:
  assumes "manager_inv live ok w cm Fs" and "w_mem w' = w_mem w" and "ok (w_prov w')"
    and "live (w_prov w') = live (w_prov w)"
  shows "manager_inv live ok w' cm Fs"
  using chunk_set_world [OF manager_inv_chunks [OF assms(1)] assms(2-4)] manager_invD(2) [OF assms(1)]
  by (intro manager_inv_update [OF assms(1)]) simp_all

section \<open>Growth\<close>

lemma manager_grow_inv:
  assumes "manager_inv live ok w cm Fs" and "manager_grow P cm w = (r, (cm', w'))"
  shows "(\<exists>e. r = Inl e \<and> e \<noteq> UndefinedBehaviour \<and> e \<noteq> Terminate \<and> cm' = cm \<and> manager_inv live ok w' cm Fs \<and>
       live (w_prov w') = live (w_prov w) \<and> (\<forall>g \<in> live (w_prov w). \<forall>x \<in> grant_extent g. w_mem w' x = w_mem w x)) \<or>
     (\<exists>c. r = Inr (length (cm_chunks cm)) \<and> cm_chunks cm' = cm_chunks cm @ [c] \<and>
       manager_inv live ok w' cm' (Fs @ [[0..<unat (cm_next_growth_blocks cm)]]) \<and>
       mc_block_count c = cm_next_growth_blocks cm \<and>
       cm_options cm' = cm_options cm \<and> cm_block_size cm' = cm_block_size cm \<and> cm_alignment cm' = cm_alignment cm \<and>
       cm_next_growth_blocks cm' = calculate_next_growth (cm_options cm) (cm_next_growth_blocks cm) \<and>
       {g \<in> live (w_prov w'). fst g \<noteq> mc_storage c} = live (w_prov w) \<and>
       manager_rest live cm' w' = manager_rest live cm w \<and>
       chunk_grant c \<in> live (w_prov w') \<and> (\<forall>g \<in> live (w_prov w). chunk_extent c \<inter> grant_extent g = {}) \<and>
       (\<forall>g \<in> live (w_prov w). \<forall>x \<in> grant_extent g. w_mem w' x = w_mem w x))"
proof -
  note cs = manager_inv_chunks [OF assms(1)]
  note d = chunk_setD [OF cs] and inv = manager_invD [OF assms(1)]
  obtain b1 w1 where m1: "meta_alloc w = (b1, w1)" by (cases "meta_alloc w")
  obtain q w2 where c: "chunk_create (Some P) (cmo_block_size (cm_options cm)) (cm_next_growth_blocks cm)
      (cmo_alignment (cm_options cm)) w1 = (q, w2)"
    by (cases "chunk_create (Some P) (cmo_block_size (cm_options cm)) (cm_next_growth_blocks cm)
      (cmo_alignment (cm_options cm)) w1")
  obtain b2 w3 where m2: "meta_alloc w2 = (b2, w3)" by (cases "meta_alloc w2")
  note f = meta_alloc_world [OF m1] meta_alloc_world [OF m2]
  have ok1: "ok (w_prov w1)" using d(1) f by simp
  show ?thesis
  proof (cases "b1 \<and> (\<exists>c. q = Inr c)")
    case False
    then consider "\<not> b1" | e where "b1" "q = Inl e" by (cases q) auto
    then show ?thesis
    proof cases
      case 1
      then have "r = Inl BadAlloc" "cm' = cm" "w' = w1" using assms(2) m1 by (auto simp: manager_grow_def Let_def)
      then show ?thesis using manager_inv_world [OF assms(1), of w1] f d(1) by simp
    next
      case 2
      have "r = Inl e" "cm' = cm" "w' = w2" using assms(2) m1 c 2 by (auto simp: manager_grow_def Let_def)
      then show ?thesis
        using chunk_create_Inl [OF ok1 c [unfolded 2(2)]] manager_inv_world [OF assms(1), of w2] f by simp
    qed
  next
    case True
    then obtain c0 where b1: b1 and q: "q = Inr c0" by blast
    note k = chunk_create_Inr [OF ok1 c [unfolded q]]
    have frame: "w_mem w2 x = w_mem w x" if "g \<in> live (w_prov w)" "x \<in> grant_extent g" for g x
      using k(9) [of g] k(10) [of x] that f by auto
    show ?thesis
    proof (cases b2)
      case False
      have r: "r = Inl BadAlloc" "cm' = cm" "w' = chunk_destroy P c0 w3"
        using assms(2) m1 c b1 q m2 False by (auto simp: manager_grow_def Let_def)
      note ds = chunk_destroy_ok [of w3 c0]
      have ok': "ok (w_prov w')" "live (w_prov w') = live (w_prov w)" "w_mem w' = w_mem w2"
        using ds k(6-8) f r(3) by simp_all
      have "chunk_set live ok w' (cm_chunks cm) Fs (cm_block_size cm) (cm_alignment cm)"
      proof -
        have "chunk_inv (w_mem w') (cm_chunks cm ! j) (Fs ! j)" if "j < length (cm_chunks cm)" for j
          using chunk_inv_frame [OF d(4) [OF that]] frame [OF d(5) [OF nth_mem [OF that]]] ok'(3)
          by (simp add: chunk_extent_def)
        then show ?thesis using cs ok' d(2) by (auto simp: chunk_set_def list_all2_conv_all_nth)
      qed
      then have "manager_inv live ok w' cm Fs"
        using inv(2) by (intro manager_inv_update [OF assms(1)]) simp_all
      then show ?thesis using r ok' frame by simp
    next
      case b2: True
      let ?cm = "cm\<lparr>cm_chunks := cm_chunks cm @ [c0],
        cm_next_growth_blocks := calculate_next_growth (cm_options cm) (cm_next_growth_blocks cm)\<rparr>"
      have r: "r = Inr (length (cm_chunks cm))" "cm' = ?cm" "w' = w3"
        using assms(2) m1 c b1 q m2 b2 by (auto simp: manager_grow_def Let_def)
      have "chunk_set live ok w3 (cm_chunks cm @ [c0]) (Fs @ [[0..<unat (cm_next_growth_blocks cm)]])
          (cm_block_size cm) (cm_alignment cm)"
      proof (rule chunk_set_append [OF cs])
        show "ok (w_prov w3)" "chunk_inv (w_mem w3) c0 [0..<unat (cm_next_growth_blocks cm)]"
          "mc_block_size c0 = cm_block_size cm" "mc_alignment c0 = cm_alignment cm"
          "chunk_grant c0 \<in> live (w_prov w3)"
          using k f inv(3,6) by simp_all
        show "live (w_prov w) \<subseteq> live (w_prov w3)" "g \<in> live (w_prov w) \<Longrightarrow> fst g \<noteq> mc_storage c0" for g
          using k(8) f by auto
        show "chunk_inv (w_mem w3) (cm_chunks cm ! j) (Fs ! j)" if "j < length (cm_chunks cm)" for j
          using chunk_inv_frame [OF d(4) [OF that]] frame [OF d(5) [OF nth_mem [OF that]]] f
          by (simp add: chunk_extent_def)
      qed
      then have "manager_inv live ok w3 ?cm (Fs @ [[0..<unat (cm_next_growth_blocks cm)]])"
        using calculate_next_growth_pos [OF inv(1,2)] by (intro manager_inv_update [OF assms(1)]) simp_all
      moreover have "manager_rest live ?cm w3 = manager_rest live cm w"
        using k(8) f by (auto simp: manager_rest_def)
      ultimately show ?thesis using r k f frame by (intro disjI2 exI [of _ c0]) simp
    qed
  qed
qed

section \<open>Deallocation and reclamation\<close>

lemma reclaim_inv:
  assumes "manager_inv live ok w cm Fs" and "k < length (cm_chunks cm)"
    and "reclaim_if_allowed P cm w k = (cm', w')"
  shows "\<exists>Fs'. manager_inv live ok w' cm' Fs' \<and> chunks_live (cm_chunks cm') Fs' = chunks_live (cm_chunks cm) Fs \<and>
     cm_options cm' = cm_options cm \<and> cm_block_size cm' = cm_block_size cm \<and> cm_alignment cm' = cm_alignment cm \<and>
     w_mem w' = w_mem w \<and> mc_storage ` set (cm_chunks cm') \<subseteq> mc_storage ` set (cm_chunks cm) \<and>
     manager_rest live cm' w' = manager_rest live cm w \<and>
     (if chunk_empty (cm_chunks cm ! k) \<and>
         unat (cmo_spare_empty_chunks (cm_options cm)) < length (filter chunk_empty (cm_chunks cm))
      then cm_chunks cm' = remove_nth k (cm_chunks cm) \<and>
        live (w_prov w') = {g \<in> live (w_prov w). fst g \<noteq> mc_storage (cm_chunks cm ! k)}
      else cm' = cm \<and> w_prov w' = w_prov w)"
proof (cases "chunk_empty (cm_chunks cm ! k) \<and>
    unat (cmo_spare_empty_chunks (cm_options cm)) < length (filter chunk_empty (cm_chunks cm))")
  case False
  then have "cm' = cm" "w' = w" using assms(3) by (auto simp: reclaim_if_allowed_def Let_def split: if_splits)
  then show ?thesis using False assms(1) by (auto simp: manager_rest_def)
next
  case True
  note cs = manager_inv_chunks [OF assms(1)]
  note d = chunk_setD [OF cs]
  let ?c = "cm_chunks cm ! k"
  have r: "cm' = cm\<lparr>cm_chunks := remove_nth k (cm_chunks cm)\<rparr>" "w' = chunk_destroy P ?c w"
    using assms(3) True by (auto simp: reclaim_if_allowed_def Let_def)
  have g: "chunk_grant ?c \<in> live (w_prov w)" using d(5) assms(2) by simp
  note ds = chunk_destroy_ok [OF d(1) g]
  have "chunk_set live ok w' (remove_nth k (cm_chunks cm)) (remove_nth k Fs) (cm_block_size cm) (cm_alignment cm)"
    using ds r(2) by (intro chunk_set_remove_nth [OF cs assms(2)]) simp_all
  then have "manager_inv live ok w' cm' (remove_nth k Fs)"
    using manager_invD(2) [OF assms(1)] r by (intro manager_inv_update [OF assms(1)]) simp_all
  moreover have "chunk_live ?c (Fs ! k) = {}" using chunk_empty_iff [OF d(4) [OF assms(2)]] True by simp
  then have "chunks_live (cm_chunks cm') (remove_nth k Fs) = chunks_live (cm_chunks cm) Fs"
    using chunks_live_remove_nth [OF assms(2) d(2)] r by simp
  moreover have "mc_storage ` set (cm_chunks cm') = mc_storage ` set (cm_chunks cm) - {mc_storage ?c}"
    using set_remove_nth_storage [OF d(3) assms(2)] r by simp
  moreover from this have "manager_rest live cm' w' = manager_rest live cm w"
    using ds(2) r(2) assms(2) by (auto simp: manager_rest_def)
  ultimately show ?thesis using r ds True by (intro exI [of _ "remove_nth k Fs"]) auto
qed

lemma manager_deallocate_live:
  assumes "manager_inv live ok w cm Fs" and "q \<in> chunks_live (cm_chunks cm) Fs"
    and "manager_deallocate P cm w q = (r, (cm', w'))"
  shows "r = Inr () \<and> (\<exists>Fs'. manager_inv live ok w' cm' Fs' \<and>
     chunks_live (cm_chunks cm') Fs' = chunks_live (cm_chunks cm) Fs - {q} \<and>
     cm_options cm' = cm_options cm \<and> cm_block_size cm' = cm_block_size cm \<and> cm_alignment cm' = cm_alignment cm \<and>
     mc_storage ` set (cm_chunks cm') \<subseteq> mc_storage ` set (cm_chunks cm) \<and>
     manager_rest live cm' w' = manager_rest live cm w \<and>
     (\<forall>x. (\<forall>c \<in> set (cm_chunks cm). x \<notin> chunk_extent c) \<longrightarrow> w_mem w' x = w_mem w x))"
proof -
  note cs = manager_inv_chunks [OF assms(1)]
  note d = chunk_setD [OF cs]
  obtain k where k: "k < length (cm_chunks cm)" "q \<in> chunk_live (cm_chunks cm ! k) (Fs ! k)"
    using assms(2) by (auto simp: chunks_live_iff)
  let ?c = "cm_chunks cm ! k"
  note inv = d(4) [OF k(1)]
  note le = chunk_live_in_extent [OF inv k(2)]
  obtain i where i: "i < unat (mc_block_count ?c)" "i \<notin> set (Fs ! k)" and q: "q = chunk_block ?c i"
    using k(2) by (auto simp: chunk_live_def)
  have fnd: "manager_find_chunk cm q = Some k"
    unfolding manager_find_chunk_def by (rule find_chunk_of_live [OF cs k(1) le(2)])
  obtain r0 m c where cd: "chunk_deallocate (w_mem w) ?c q = (r0, (m, c))" by (metis prod_cases3)
  note st = chunk_deallocate_live [OF inv i cd [unfolded q]]
  let ?cm = "cm\<lparr>cm_chunks := (cm_chunks cm)[k := c]\<rparr>" and ?w = "w\<lparr>w_mem := m\<rparr>"
  have frame: "m x = w_mem w x" if "x \<notin> chunk_extent ?c" for x
  proof -
    have "x \<notin> extent (chunk_block ?c i) 8" using that chunk_block_extent(1,3) [OF inv i(1)] by blast
    then show ?thesis using st(4) by (simp add: store64_other)
  qed
  have "chunk_set live ok ?w (cm_chunks ?cm) (Fs[k := i # Fs ! k]) (cm_block_size cm) (cm_alignment cm)"
    using chunk_set_update [OF cs k(1) st(3,2)] chunk_set_frame [OF cs k(1) _ _ frame] by simp
  then have mi: "manager_inv live ok ?w ?cm (Fs[k := i # Fs ! k])"
    using manager_invD(2) [OF assms(1)] by (intro manager_inv_update [OF assms(1)]) simp_all
  have rc: "r = Inr ()" "reclaim_if_allowed P ?cm ?w k = (cm', w')"
    using assms(3) fnd cd st(1) le(3) by (auto simp: manager_deallocate_def)
  have "k < length (cm_chunks ?cm)" using k(1) by simp
  from reclaim_inv [OF mi this rc(2)] obtain Fs' where Fs':
    "manager_inv live ok w' cm' Fs'" "chunks_live (cm_chunks cm') Fs' = chunks_live (cm_chunks ?cm) (Fs[k := i # Fs ! k])"
    "cm_options cm' = cm_options cm" "cm_block_size cm' = cm_block_size cm" "cm_alignment cm' = cm_alignment cm"
    "w_mem w' = m" "mc_storage ` set (cm_chunks cm') \<subseteq> mc_storage ` set (cm_chunks ?cm)"
    "manager_rest live cm' w' = manager_rest live ?cm ?w"
    by auto
  have "chunk_live ?c (i # Fs ! k) = chunk_live ?c (Fs ! k) - {q}"
    using pool_live_freed [OF inv [unfolded chunk_inv_def], of i] i q by (simp add: chunk_live_pool)
  moreover have "q \<notin> chunk_live (cm_chunks cm ! j) (Fs ! j)" if "j < length (cm_chunks cm)" "j \<noteq> k" for j
    using chunk_set_disjoint [OF cs that(1) k(1) that(2)] le(2) chunk_live_in_extent(2) [OF d(4) [OF that(1)]] by blast
  ultimately have "chunks_live (cm_chunks ?cm) (Fs[k := i # Fs ! k]) = chunks_live (cm_chunks cm) Fs - {q}"
    using chunks_live_update [OF k(1) d(2) st(3)] chunks_live_split [OF k(1), of Fs] by auto
  moreover have "mc_storage ` set (cm_chunks ?cm) = mc_storage ` set (cm_chunks cm)"
    using map_storage_update [OF k(1) st(3)] by (metis chunk_manager.select_convs(2) chunk_manager.update_convs(2)
        chunk_manager.surjective list.set_map)
  moreover from this have "manager_rest live ?cm ?w = manager_rest live cm w" by (simp add: manager_rest_def)
  ultimately show ?thesis
    using rc(1) Fs' frame nth_mem [OF k(1)] by (intro conjI exI [of _ Fs']) auto
qed

lemma manager_deallocate_rejects:
  assumes "manager_inv live ok w cm Fs" and "q \<noteq> 0" and "q \<notin> chunks_live (cm_chunks cm) Fs"
    and "manager_deallocate P cm w q = (r, (cm', w'))"
  shows "(r = Inl InvalidPoolPointer \<or> r = Inl DoubleFreeError) \<and> cm' = cm \<and> w' = w"
proof -
  note cs = manager_inv_chunks [OF assms(1)]
  note d = chunk_setD [OF cs]
  show ?thesis
  proof (cases "manager_find_chunk cm q")
    case None
    then show ?thesis using assms(2,4) by (auto simp: manager_deallocate_def)
  next
    case (Some k)
    then have k: "k < length (cm_chunks cm)" by (simp add: manager_find_chunk_def find_chunk_in_Some)
    let ?c = "cm_chunks cm ! k"
    note inv = d(4) [OF k]
    have "chunk_deallocate (w_mem w) ?c q = (Inl InvalidPoolPointer, (w_mem w, ?c)) \<or>
        chunk_deallocate (w_mem w) ?c q = (Inl DoubleFreeError, (w_mem w, ?c))"
    proof (cases "\<exists>i < unat (mc_block_count ?c). q = chunk_block ?c i")
      case True
      then obtain i where i: "i < unat (mc_block_count ?c)" "q = chunk_block ?c i" by blast
      then have "i \<in> set (Fs ! k)" using assms(3) k by (auto simp: chunks_live_iff chunk_live_def)
      then show ?thesis using chunk_deallocate_free [OF inv] i by simp
    next
      case False
      then show ?thesis using chunk_deallocate_foreign [OF inv assms(2)] by blast
    qed
    moreover have "cm\<lparr>cm_chunks := (cm_chunks cm)[k := ?c]\<rparr> = cm" "w\<lparr>w_mem := w_mem w\<rparr> = w" by simp_all
    ultimately show ?thesis using assms(2,4) Some by (auto simp: manager_deallocate_def)
  qed
qed

section \<open>Construction and destruction\<close>

lemma manager_create_outcome:
  assumes "ok (w_prov w)" and "manager_create P options w = (r, w')"
  shows "(\<forall>g \<in> live (w_prov w). \<forall>x \<in> grant_extent g. w_mem w' x = w_mem w x) \<and>
     (case r of
       Inl e \<Rightarrow> e \<noteq> UndefinedBehaviour \<and> e \<noteq> Terminate \<and> ok (w_prov w') \<and> live (w_prov w') = live (w_prov w)
     | Inr cm \<Rightarrow> manager_inv live ok w' cm [[0..<unat (cmo_initial_blocks options)]] \<and>
         chunks_live (cm_chunks cm) [[0..<unat (cmo_initial_blocks options)]] = {} \<and>
         cm_options cm = options \<and> length (cm_chunks cm) = 1 \<and> manager_rest live cm w' = live (w_prov w))"
proof -
  let ?cm0 = "\<lparr>cm_options = options, cm_chunks = [], cm_block_size = 0, cm_alignment = 0,
     cm_next_growth_blocks = cmo_initial_blocks options\<rparr>"
  show ?thesis
  proof (cases "options_ok options")
    case False
    then have "r = Inl InvalidArgument" "w' = w"
      using assms(2) by (auto simp: manager_create_def options_ok_def not_le split: if_splits growth_mode.splits)
    then show ?thesis using assms(1) by simp
  next
    case opts: True
    then have cr: "manager_create P options w = (case manager_grow P ?cm0 w of
        (Inl e, (_, w')) \<Rightarrow> (Inl e, w')
      | (Inr k, (cm, w')) \<Rightarrow> (Inr (cm\<lparr>cm_block_size := mc_block_size (cm_chunks cm ! k),
           cm_alignment := mc_alignment (cm_chunks cm ! k)\<rparr>), w'))"
      by (auto simp: manager_create_def options_ok_def not_le Let_def split: prod.splits sum.splits)
    obtain b1 w1 where m1: "meta_alloc w = (b1, w1)" by (cases "meta_alloc w")
    obtain q w2 where c: "chunk_create (Some P) (cmo_block_size options) (cmo_initial_blocks options)
        (cmo_alignment options) w1 = (q, w2)"
      by (cases "chunk_create (Some P) (cmo_block_size options) (cmo_initial_blocks options)
        (cmo_alignment options) w1")
    obtain b2 w3 where m2: "meta_alloc w2 = (b2, w3)" by (cases "meta_alloc w2")
    note f = meta_alloc_world [OF m1] meta_alloc_world [OF m2]
    have ok1: "ok (w_prov w1)" using assms(1) f by simp
    consider (nometa) "\<not> b1" | (err) e where b1 "q = Inl e" | (push) c0 where b1 "q = Inr c0" "\<not> b2"
      | (fine) c0 where b1 "q = Inr c0" b2 by (cases q) auto
    then show ?thesis
    proof cases
      case nometa
      then have "r = Inl BadAlloc" "w' = w1" using assms(2) m1 cr by (auto simp: manager_grow_def Let_def)
      then show ?thesis using f assms(1) by simp
    next
      case err
      then have "r = Inl e" "w' = w2" using assms(2) m1 c cr by (auto simp: manager_grow_def Let_def)
      then show ?thesis using chunk_create_Inl [OF ok1 c [unfolded err(2)]] f by simp
    next
      case push
      note k = chunk_create_Inr [OF ok1 c [unfolded push(2)]]
      have frame: "w_mem w2 x = w_mem w x" if "g \<in> live (w_prov w)" "x \<in> grant_extent g" for g x
        using k(9) [of g] k(10) [of x] that f by auto
      have r: "r = Inl BadAlloc" "w' = chunk_destroy P c0 w3"
        using assms(2) m1 c m2 push cr by (auto simp: manager_grow_def Let_def)
      then show ?thesis using chunk_destroy_ok [of w3 c0] k(6-8) f frame by auto
    next
      case fine
      note k = chunk_create_Inr [OF ok1 c [unfolded fine(2)]]
      have frame: "w_mem w2 x = w_mem w x" if "g \<in> live (w_prov w)" "x \<in> grant_extent g" for g x
        using k(9) [of g] k(10) [of x] that f by auto
      let ?cm = "\<lparr>cm_options = options, cm_chunks = [c0], cm_block_size = mc_block_size c0,
        cm_alignment = mc_alignment c0,
        cm_next_growth_blocks = calculate_next_growth options (cmo_initial_blocks options)\<rparr>"
      have r: "r = Inr ?cm" "w' = w3" using assms(2) m1 c m2 fine cr by (auto simp: manager_grow_def Let_def)
      have i0: "cmo_initial_blocks options \<noteq> 0" using opts by (simp add: options_ok_def)
      have sh: "8 \<le> unat (mc_block_size c0)" "is_power_of_two (mc_alignment c0)"
        using pool_shapeD(4) [OF pool_invD(1) [OF k(1) [unfolded chunk_inv_def]]]
          pool_invD(1) [OF k(1) [unfolded chunk_inv_def]]
        by (auto simp: pool_shape_def layout_ok_def pool_layout_def)
      have "chunk_set live ok w3 [c0] [[0..<unat (cmo_initial_blocks options)]] (mc_block_size c0) (mc_alignment c0)"
        using k f by (simp add: chunk_set_def)
      then have "manager_inv live ok w3 ?cm [[0..<unat (cmo_initial_blocks options)]]"
        using opts calculate_next_growth_pos [OF opts i0] k(3-5) sh by (simp add: manager_inv_def)
      moreover have "chunks_live [c0] [[0..<unat (cmo_initial_blocks options)]] = {}"
        using k(2) by (auto simp: chunks_live_def chunk_live_def)
      moreover have "manager_rest live ?cm w3 = live (w_prov w)" using k(8) f by (simp add: manager_rest_def)
      ultimately show ?thesis using r frame f by auto
    qed
  qed
qed

lemma destroy_chunks:
  assumes "ok (w_prov w)" and "\<And>c. c \<in> set cs \<Longrightarrow> chunk_grant c \<in> live (w_prov w)" and "distinct (map mc_storage cs)"
  shows "ok (w_prov (fold (chunk_destroy P) cs w)) \<and> w_mem (fold (chunk_destroy P) cs w) = w_mem w \<and>
     live (w_prov (fold (chunk_destroy P) cs w)) = {g \<in> live (w_prov w). fst g \<notin> mc_storage ` set cs}"
  using assms
proof (induction cs arbitrary: w)
  case (Cons c cs)
  note ds = chunk_destroy_ok [OF Cons.prems(1), of c]
  have g: "chunk_grant c \<in> live (w_prov w)" using Cons.prems(2) by simp
  have "chunk_grant c1 \<in> live (w_prov (chunk_destroy P c w))" if "c1 \<in> set cs" for c1
  proof -
    have "mc_storage c1 \<noteq> mc_storage c" using Cons.prems(3) imageI [OF that, of mc_storage] by auto
    then show ?thesis using ds(2) [OF g] Cons.prems(2) [of c1] that by simp
  qed
  then have "ok (w_prov (fold (chunk_destroy P) cs (chunk_destroy P c w))) \<and>
      w_mem (fold (chunk_destroy P) cs (chunk_destroy P c w)) = w_mem (chunk_destroy P c w) \<and>
      live (w_prov (fold (chunk_destroy P) cs (chunk_destroy P c w))) =
        {g \<in> live (w_prov (chunk_destroy P c w)). fst g \<notin> mc_storage ` set cs}"
    using ds(1) [OF g] Cons.prems(3) by (intro Cons.IH) auto
  then show ?case using ds [OF g] by auto
qed simp

lemma manager_destroy_inv:
  assumes "manager_inv live ok w cm Fs"
  shows "ok (w_prov (manager_destroy P cm w))" and "live (w_prov (manager_destroy P cm w)) = manager_rest live cm w"
  using destroy_chunks [of w "cm_chunks cm"] chunk_setD [OF manager_inv_chunks [OF assms]]
  by (simp_all add: manager_destroy_def manager_rest_def)

end

end
