(* ===== verification/Chunk_Pool.thy ===== *)
theory Chunk_Pool
  imports Chunk_Manager_Correct
begin

text \<open>
  \<^verbatim>\<open>include/memory_pool/exhaustion_policies.hpp\<close> and \<^verbatim>\<open>chunk_pool.hpp\<close>: the chunk pool, parameterised by
  what it does when every chunk is full. The four policy classes are the constructors of one type;
  the fallback policy carries its set of heap blocks, as a list without repetition.
\<close>

section \<open>Policies\<close>

datatype exhaustion_policy =
    ReturnNullOnExhaustion
  | ThrowOnExhaustion
  | GrowOnExhaustion
  | HeapFallbackOnExhaustion "addr list"

fun fallback_list :: "exhaustion_policy \<Rightarrow> addr list" where
  "fallback_list (HeapFallbackOnExhaustion fs) = fs"
| "fallback_list _ = []"

definition fallback_allocations :: "exhaustion_policy \<Rightarrow> size_t" where
  "fallback_allocations policy = of_nat (length (fallback_list policy))"

fun on_exhaustion ::
  "'p provider \<Rightarrow> exhaustion_policy \<Rightarrow> chunk_manager \<Rightarrow> 'p world \<Rightarrow>
   (addr, exhaustion_policy \<times> chunk_manager \<times> 'p world) outcome" where
  "on_exhaustion P ReturnNullOnExhaustion cm w = (Inr nullptr, (ReturnNullOnExhaustion, cm, w))"
| "on_exhaustion P ThrowOnExhaustion cm w = (Inl BadAlloc, (ThrowOnExhaustion, cm, w))"
| "on_exhaustion P GrowOnExhaustion cm w =
     (case manager_grow P cm w of
        (Inl e, (cm', w')) \<Rightarrow> (Inl e, (GrowOnExhaustion, cm', w'))
      | (Inr k, (cm', w')) \<Rightarrow>
          (case chunk_allocate (w_mem w') (cm_chunks cm' ! k) of
             (r, c) \<Rightarrow> (r, (GrowOnExhaustion, cm'\<lparr>cm_chunks := (cm_chunks cm')[k := c]\<rparr>, w'))))"
| "on_exhaustion P (HeapFallbackOnExhaustion fs) cm w =
     (case prov_allocate P (cm_block_size cm) (cm_alignment cm) (w_prov w) of
        (Inl e, p) \<Rightarrow> (Inl e, (HeapFallbackOnExhaustion fs, cm, w\<lparr>w_prov := p\<rparr>))
      | (Inr pointer, p) \<Rightarrow>
          (case meta_alloc (w\<lparr>w_prov := p\<rparr>) of (inserted, w1) \<Rightarrow>
             if inserted
             then (Inr pointer, (HeapFallbackOnExhaustion (pointer # fs), cm, w1))
             else (Inl BadAlloc,
                   (HeapFallbackOnExhaustion fs, cm,
                    w1\<lparr>w_prov := prov_deallocate P pointer (cm_block_size cm) (cm_alignment cm) (w_prov w1)\<rparr>))))"

definition policy_owns :: "exhaustion_policy \<Rightarrow> addr \<Rightarrow> bool" where
  "policy_owns policy pointer \<longleftrightarrow> pointer \<in> set (fallback_list policy)"

fun try_deallocate ::
  "'p provider \<Rightarrow> exhaustion_policy \<Rightarrow> chunk_manager \<Rightarrow> 'p world \<Rightarrow> addr \<Rightarrow>
   bool \<times> exhaustion_policy \<times> 'p world" where
  "try_deallocate P (HeapFallbackOnExhaustion fs) cm w pointer =
     (if pointer \<notin> set fs then (False, HeapFallbackOnExhaustion fs, w)
      else (True, HeapFallbackOnExhaustion (removeAll pointer fs),
            w\<lparr>w_prov := prov_deallocate P pointer (cm_block_size cm) (cm_alignment cm) (w_prov w)\<rparr>))"
| "try_deallocate P policy cm w pointer = (False, policy, w)"

definition release_all :: "'p provider \<Rightarrow> exhaustion_policy \<Rightarrow> chunk_manager \<Rightarrow> 'p world \<Rightarrow> 'p world" where
  "release_all P policy cm w =
     w\<lparr>w_prov := fold (\<lambda>pointer. prov_deallocate P pointer (cm_block_size cm) (cm_alignment cm))
                   (fallback_list policy) (w_prov w)\<rparr>"

section \<open>The pool\<close>

record chunk_pool =
  cp_manager :: chunk_manager
  cp_policy :: exhaustion_policy

definition chunk_pool_create ::
  "'p provider \<Rightarrow> chunk_manager_options \<Rightarrow> exhaustion_policy \<Rightarrow> 'p world \<Rightarrow> (chunk_pool, 'p world) outcome" where
  "chunk_pool_create P options policy w =
     (case manager_create P options w of
        (Inl e, w') \<Rightarrow> (Inl e, w')
      | (Inr cm, w') \<Rightarrow> (Inr \<lparr>cp_manager = cm, cp_policy = policy\<rparr>, w'))"

definition chunk_pool_destroy :: "'p provider \<Rightarrow> chunk_pool \<Rightarrow> 'p world \<Rightarrow> 'p world" where
  "chunk_pool_destroy P cp w =
     manager_destroy P (cp_manager cp) (release_all P (cp_policy cp) (cp_manager cp) w)"

definition chunk_pool_allocate ::
  "'p provider \<Rightarrow> 'p world \<times> chunk_pool \<Rightarrow> (addr, 'p world \<times> chunk_pool) outcome" where
  "chunk_pool_allocate P s =
     (case s of (w, cp) \<Rightarrow>
        case manager_try_allocate (w_mem w) (cp_manager cp) of
          (Inl e, cm) \<Rightarrow> (Inl e, (w, cp\<lparr>cp_manager := cm\<rparr>))
        | (Inr pointer, cm) \<Rightarrow>
            if pointer \<noteq> nullptr then (Inr pointer, (w, cp\<lparr>cp_manager := cm\<rparr>))
            else (case on_exhaustion P (cp_policy cp) cm w of
                    (r, (policy, cm', w')) \<Rightarrow> (r, (w', \<lparr>cp_manager = cm', cp_policy = policy\<rparr>))))"

definition chunk_pool_deallocate ::
  "'p provider \<Rightarrow> addr \<Rightarrow> 'p world \<times> chunk_pool \<Rightarrow> (unit, 'p world \<times> chunk_pool) outcome" where
  "chunk_pool_deallocate P pointer s =
     (case s of (w, cp) \<Rightarrow>
        if pointer = nullptr then (Inr (), s)
        else if manager_find_chunk (cp_manager cp) pointer \<noteq> None
          then (case manager_deallocate P (cp_manager cp) w pointer of
                  (r, (cm, w')) \<Rightarrow> (r, (w', cp\<lparr>cp_manager := cm\<rparr>)))
        else (case try_deallocate P (cp_policy cp) (cp_manager cp) w pointer of
                (done, policy, w') \<Rightarrow>
                  if \<not> done then (Inl InvalidPoolPointer, (w', cp\<lparr>cp_policy := policy\<rparr>))
                  else (Inr (), (w', cp\<lparr>cp_policy := policy\<rparr>))))"

definition chunk_pool_owns :: "chunk_pool \<Rightarrow> addr \<Rightarrow> bool" where
  "chunk_pool_owns cp pointer \<longleftrightarrow>
     manager_find_chunk (cp_manager cp) pointer \<noteq> None \<or> policy_owns (cp_policy cp) pointer"

section \<open>The invariant\<close>

text \<open>\<open>L\<close> is the set of grants that the provider made to others.\<close>

definition chunk_pool_inv ::
  "('p \<Rightarrow> grant set) \<Rightarrow> ('p \<Rightarrow> bool) \<Rightarrow> grant set \<Rightarrow> 'p world \<times> chunk_pool \<Rightarrow> nat list list \<Rightarrow> bool" where
  "chunk_pool_inv live ok L s Fs \<longleftrightarrow>
     (case s of (w, cp) \<Rightarrow>
        manager_inv live ok w (cp_manager cp) Fs \<and>
        distinct (fallback_list (cp_policy cp)) \<and>
        (\<forall>q \<in> set (fallback_list (cp_policy cp)).
           (q, cm_block_size (cp_manager cp), cm_alignment (cp_manager cp)) \<in> manager_rest live (cp_manager cp) w \<and>
           unat (cm_alignment (cp_manager cp)) dvd unat q) \<and>
        {g \<in> manager_rest live (cp_manager cp) w. fst g \<notin> set (fallback_list (cp_policy cp))} = L)"

definition chunk_pool_blocks :: "chunk_pool \<Rightarrow> nat list list \<Rightarrow> addr set" where
  "chunk_pool_blocks cp Fs = chunks_live (cm_chunks (cp_manager cp)) Fs \<union> set (fallback_list (cp_policy cp))"

definition chunk_pool_sz :: "'p world \<times> chunk_pool \<Rightarrow> size_t" where
  "chunk_pool_sz s = cm_block_size (cp_manager (snd s))"

definition chunk_pool_poke :: "addr \<Rightarrow> byte \<Rightarrow> 'p world \<times> chunk_pool \<Rightarrow> 'p world \<times> chunk_pool" where
  "chunk_pool_poke x b s = ((fst s)\<lparr>w_mem := (w_mem (fst s))(x := b)\<rparr>, snd s)"

definition chunk_pool_ok ::
  "('p \<Rightarrow> grant set) \<Rightarrow> ('p \<Rightarrow> bool) \<Rightarrow> grant set \<Rightarrow> 'p world \<times> chunk_pool \<Rightarrow> bool" where
  "chunk_pool_ok live ok L s \<longleftrightarrow> (\<exists>Fs. chunk_pool_inv live ok L s Fs)"

definition chunk_pool_live ::
  "('p \<Rightarrow> grant set) \<Rightarrow> ('p \<Rightarrow> bool) \<Rightarrow> grant set \<Rightarrow> 'p world \<times> chunk_pool \<Rightarrow> addr set" where
  "chunk_pool_live live ok L s = {q. \<exists>Fs. chunk_pool_inv live ok L s Fs \<and> q \<in> chunk_pool_blocks (snd s) Fs}"

lemma chunk_set_unique:
  assumes "chunk_set live ok w cs Fs bs al" and "chunk_set live ok w cs Gs bs al"
  shows "Fs = Gs"
proof (rule nth_equalityI)
  note d = chunk_setD [OF assms(1)] and e = chunk_setD [OF assms(2)]
  show "length Fs = length Gs" using d(2) e(2) by simp
  show "Fs ! k = Gs ! k" if "k < length Fs" for k
  proof -
    have k: "k < length cs" using that d(2) by simp
    show ?thesis by (rule pool_inv_unique [OF d(4) [OF k, unfolded chunk_inv_def] e(4) [OF k, unfolded chunk_inv_def]])
  qed
qed

lemma chunk_pool_invD:
  assumes "chunk_pool_inv live ok L (w, cp) Fs"
  shows "manager_inv live ok w (cp_manager cp) Fs" and "distinct (fallback_list (cp_policy cp))"
    and "\<And>q. q \<in> set (fallback_list (cp_policy cp)) \<Longrightarrow>
      (q, cm_block_size (cp_manager cp), cm_alignment (cp_manager cp)) \<in> manager_rest live (cp_manager cp) w \<and>
      unat (cm_alignment (cp_manager cp)) dvd unat q"
    and "{g \<in> manager_rest live (cp_manager cp) w. fst g \<notin> set (fallback_list (cp_policy cp))} = L"
  using assms unfolding chunk_pool_inv_def prod.case by blast+

lemma chunk_pool_live_eq:
  assumes "chunk_pool_inv live ok L (w, cp) Fs"
  shows "chunk_pool_live live ok L (w, cp) = chunk_pool_blocks cp Fs"
proof -
  have "Gs = Fs" if "chunk_pool_inv live ok L (w, cp) Gs" for Gs
    using chunk_set_unique [OF manager_inv_chunks [OF chunk_pool_invD(1) [OF that]]
        manager_inv_chunks [OF chunk_pool_invD(1) [OF assms]]] .
  then show ?thesis unfolding chunk_pool_live_def snd_conv using assms by blast
qed

lemma manager_rest_cong:
  assumes "map mc_storage (cm_chunks cm') = map mc_storage (cm_chunks cm)"
  shows "manager_rest live cm' w = manager_rest live cm w"
  using arg_cong [OF assms, of set] by (simp add: manager_rest_def)

lemma chunk_pool_inv_manager:
  assumes "chunk_pool_inv live ok L (w, cp) Fs" and "manager_inv live ok w' cm' Fs'"
    and "cm_block_size cm' = cm_block_size (cp_manager cp)" and "cm_alignment cm' = cm_alignment (cp_manager cp)"
    and "manager_rest live cm' w' = manager_rest live (cp_manager cp) w"
  shows "chunk_pool_inv live ok L (w', \<lparr>cp_manager = cm', cp_policy = cp_policy cp\<rparr>) Fs'"
  using chunk_pool_invD [OF assms(1)] assms(2-) unfolding chunk_pool_inv_def by auto

context memory_provider begin

lemma on_exhaustion_grow:
  assumes inv: "chunk_pool_inv live ok L (w, cp) Fs" and pol: "cp_policy cp = GrowOnExhaustion"
    and "on_exhaustion P GrowOnExhaustion (cp_manager cp) w = (r, (policy, cm', w'))"
  shows "\<exists>Fs'. chunk_pool_inv live ok L (w', \<lparr>cp_manager = cm', cp_policy = policy\<rparr>) Fs' \<and>
     cm_block_size cm' = cm_block_size (cp_manager cp) \<and>
     (case r of Inl e \<Rightarrow> e \<noteq> UndefinedBehaviour \<and> e \<noteq> Terminate \<and> cm' = cp_manager cp \<and> Fs' = Fs
      | Inr q \<Rightarrow> q \<noteq> 0 \<and> q \<notin> chunks_live (cm_chunks (cp_manager cp)) Fs \<and>
          chunks_live (cm_chunks cm') Fs' = insert q (chunks_live (cm_chunks (cp_manager cp)) Fs))"
proof -
  let ?cm = "cp_manager cp"
  note mi = chunk_pool_invD(1) [OF inv]
  obtain g cm1 w1 where gr: "manager_grow P ?cm w = (g, (cm1, w1))" by (metis prod_cases3)
  from manager_grow_inv [OF mi gr] show ?thesis
  proof (elim disjE exE conjE)
    fix e
    assume e: "g = Inl e" "e \<noteq> UndefinedBehaviour" "e \<noteq> Terminate" "cm1 = ?cm" "manager_inv live ok w1 ?cm Fs"
      "live (w_prov w1) = live (w_prov w)"
    have "r = Inl e" "policy = GrowOnExhaustion" "cm' = ?cm" "w' = w1" using assms(3) gr e by auto
    moreover have "manager_rest live ?cm w1 = manager_rest live ?cm w" using e(6) by (simp add: manager_rest_def)
    ultimately show ?thesis
      using chunk_pool_inv_manager [OF inv e(5)] e pol by (intro exI [of _ Fs]) simp
  next
    fix c
    let ?n = "unat (cm_next_growth_blocks ?cm)"
    assume c: "g = Inr (length (cm_chunks ?cm))" "cm_chunks cm1 = cm_chunks ?cm @ [c]"
      "manager_inv live ok w1 cm1 (Fs @ [[0..<?n]])" "mc_block_count c = cm_next_growth_blocks ?cm"
      "cm_block_size cm1 = cm_block_size ?cm" "cm_alignment cm1 = cm_alignment ?cm"
      "manager_rest live cm1 w1 = manager_rest live ?cm w"
    let ?k = "length (cm_chunks ?cm)"
    have len: "length Fs = ?k" using chunk_setD(2) [OF manager_inv_chunks [OF mi]] .
    have k: "?k < length (cm_chunks cm1)" "cm_chunks cm1 ! ?k = c" using c(2) by simp_all
    have "0 < ?n" using manager_invD(2) [OF mi] by (simp add: unat_gt_0)
    then have Fk: "(Fs @ [[0..<?n]]) ! ?k = 0 # [1..<?n]" using len by (simp add: upt_conv_Cons nth_append)
    have ci: "chunk_inv (w_mem w1) c (0 # [1..<?n])"
      using chunk_setD(4) [OF manager_inv_chunks [OF c(3)] k(1)] k(2) Fk by simp
    obtain a c' where al: "chunk_allocate (w_mem w1) c = (a, c')" by (cases "chunk_allocate (w_mem w1) c")
    note ca = chunk_allocate_inv [OF ci al]
    note tk = manager_take_block [OF c(3) k(1) Fk ca(2) ca(3) [folded k(2)]]
    have res: "r = Inr (chunk_block c 0)" "policy = GrowOnExhaustion" "w' = w1"
      "cm' = cm1\<lparr>cm_chunks := (cm_chunks cm1)[?k := c']\<rparr>"
      using assms(3) gr c(1) k al ca(1) by auto
    have l0: "chunks_live (cm_chunks cm1) (Fs @ [[0..<?n]]) = chunks_live (cm_chunks ?cm) Fs"
      using chunks_live_append [OF len, of c "[0..<?n]"] c(2,4) by (auto simp: chunk_live_def)
    have "chunk_pool_inv live ok L (w1, \<lparr>cp_manager = cm', cp_policy = cp_policy cp\<rparr>) ((Fs @ [[0..<?n]])[?k := [1..<?n]])"
      using tk(1) c(5-7) manager_rest_cong [OF tk(5), of live w1] res(4)
      by (intro chunk_pool_inv_manager [OF inv]) simp_all
    then show ?thesis
      using tk(2-4) l0 res c(5) pol k(2) by (intro exI [of _ "(Fs @ [[0..<?n]])[?k := [1..<?n]]"]) simp
  qed
qed

lemma on_exhaustion_fallback:
  assumes inv: "chunk_pool_inv live ok L (w, cp) Fs" and pol: "cp_policy cp = HeapFallbackOnExhaustion fs"
    and "on_exhaustion P (HeapFallbackOnExhaustion fs) (cp_manager cp) w = (r, (policy, cm', w'))"
  shows "chunk_pool_inv live ok L (w', \<lparr>cp_manager = cm', cp_policy = policy\<rparr>) Fs" and "cm' = cp_manager cp"
    and "case r of Inl e \<Rightarrow> e \<noteq> UndefinedBehaviour \<and> e \<noteq> Terminate \<and> policy = cp_policy cp
      | Inr q \<Rightarrow> q \<noteq> 0 \<and> q \<notin> chunk_pool_blocks cp Fs \<and> policy = HeapFallbackOnExhaustion (q # fs)"
proof -
  let ?cm = "cp_manager cp"
  note mi = chunk_pool_invD(1) [OF inv]
  note d = chunk_setD [OF manager_inv_chunks [OF mi]]
  have bs: "cm_block_size ?cm \<noteq> 0" using manager_invD(5) [OF mi] by auto
  note p2 = manager_invD(7) [OF mi]
  obtain a p where pa: "prov_allocate P (cm_block_size ?cm) (cm_alignment ?cm) (w_prov w) = (a, p)"
    by (cases "prov_allocate P (cm_block_size ?cm) (cm_alignment ?cm) (w_prov w)")
  obtain b w1 where ma: "meta_alloc (w\<lparr>w_prov := p\<rparr>) = (b, w1)" by (cases "meta_alloc (w\<lparr>w_prov := p\<rparr>)")
  note f = meta_alloc_world [OF ma]
  have same: "chunk_pool_inv live ok L (w2, cp) Fs" if "w_mem w2 = w_mem w" "ok (w_prov w2)" "live (w_prov w2) = live (w_prov w)" for w2
  proof -
    have "manager_rest live ?cm w2 = manager_rest live ?cm w" using that by (simp add: manager_rest_def)
    from chunk_pool_inv_manager [OF inv manager_inv_world [OF mi that] refl refl this] show ?thesis by (cases cp) simp
  qed
  have "chunk_pool_inv live ok L (w', \<lparr>cp_manager = cm', cp_policy = policy\<rparr>) Fs \<and> cm' = cp_manager cp \<and>
    (case r of Inl e \<Rightarrow> e \<noteq> UndefinedBehaviour \<and> e \<noteq> Terminate \<and> policy = cp_policy cp
      | Inr q \<Rightarrow> q \<noteq> 0 \<and> q \<notin> chunk_pool_blocks cp Fs \<and> policy = HeapFallbackOnExhaustion (q # fs))"
  proof (cases a)
    case (Inl e)
    note al = allocate_Inl [OF d(1) pa [unfolded Inl]]
    have "r = Inl e" "policy = HeapFallbackOnExhaustion fs" "cm' = ?cm" "w' = w\<lparr>w_prov := p\<rparr>" using assms(3) pa Inl by auto
    then show ?thesis using same [of w'] al pol by (cases cp) simp
  next
    case (Inr q)
    note al = allocate_Inr [OF d(1) bs p2 pa [unfolded Inr]]
    have fresh: "g \<in> live (w_prov w) \<Longrightarrow> fst g \<noteq> q" for g using al by auto
    show ?thesis
    proof (cases b)
      case False
      have res: "r = Inl BadAlloc" "policy = HeapFallbackOnExhaustion fs" "cm' = ?cm"
        "w' = w1\<lparr>w_prov := prov_deallocate P q (cm_block_size ?cm) (cm_alignment ?cm) p\<rparr>"
        using assms(3) pa Inr ma False f by auto
      note rt = allocate_deallocate [OF d(1) bs p2 pa [unfolded Inr]]
      show ?thesis using same [of w'] rt res pol f by (cases cp) simp
    next
      case True
      have res: "r = Inr q" "policy = HeapFallbackOnExhaustion (q # fs)" "cm' = ?cm" "w' = w1"
        using assms(3) pa Inr ma True by auto
      have w1: "w_mem w1 = w_mem w" "w_prov w1 = p" using f by simp_all
      have lv: "{g \<in> live p. fst g \<noteq> q} = live (w_prov w)" "(q, cm_block_size ?cm, cm_alignment ?cm) \<in> live p"
        "ok p" "unat (cm_alignment ?cm) dvd unat q" "q \<noteq> 0" using al by auto
      have cs: "chunk_set live ok w1 (cm_chunks ?cm) Fs (cm_block_size ?cm) (cm_alignment ?cm)"
        using manager_inv_chunks [OF mi] lv w1 by (auto simp: chunk_set_def)
      then have mi1: "manager_inv live ok w1 ?cm Fs"
        using manager_invD(2) [OF mi] by (intro manager_inv_update [OF mi]) simp_all
      have qs: "q \<notin> mc_storage ` set (cm_chunks ?cm)" "q \<notin> set fs"
      proof -
        show "q \<notin> mc_storage ` set (cm_chunks ?cm)"
        proof
          assume "q \<in> mc_storage ` set (cm_chunks ?cm)"
          then obtain c where "c \<in> set (cm_chunks ?cm)" "q = mc_storage c" by blast
          then show False using fresh [OF d(5) [of c]] by simp
        qed
        show "q \<notin> set fs"
          using chunk_pool_invD(3) [OF inv, of q] pol fresh [of "(q, cm_block_size ?cm, cm_alignment ?cm)"]
          by (auto simp: manager_rest_def)
      qed
      have rest: "{g \<in> manager_rest live ?cm w1. fst g \<noteq> q} = manager_rest live ?cm w"
        using lv(1) w1 by (auto simp: manager_rest_def)
      have rin: "(q, cm_block_size ?cm, cm_alignment ?cm) \<in> manager_rest live ?cm w1"
        using lv(2) w1 qs(1) by (simp add: manager_rest_def)
      note fp = chunk_pool_invD(2,3) [OF inv] and L = chunk_pool_invD(4) [OF inv]
      have "{g \<in> manager_rest live ?cm w1. fst g \<notin> set (q # fs)} = L"
        unfolding L [symmetric] rest [symmetric] using pol by auto
      moreover have "(q', cm_block_size ?cm, cm_alignment ?cm) \<in> manager_rest live ?cm w1 \<and>
          unat (cm_alignment ?cm) dvd unat q'" if "q' \<in> set (q # fs)" for q'
        using that rin lv(4) fp(2) [of q'] pol rest by auto
      ultimately have "chunk_pool_inv live ok L (w1, \<lparr>cp_manager = ?cm, cp_policy = HeapFallbackOnExhaustion (q # fs)\<rparr>) Fs"
        using mi1 fp(1) pol qs(2) unfolding chunk_pool_inv_def by auto
      moreover have "q \<notin> chunks_live (cm_chunks ?cm) Fs"
      proof
        assume "q \<in> chunks_live (cm_chunks ?cm) Fs"
        then obtain k where k: "k < length (cm_chunks ?cm)" "q \<in> chunk_live (cm_chunks ?cm ! k) (Fs ! k)"
          by (auto simp: chunks_live_iff)
        note g = d(5) [OF nth_mem [OF k(1)]]
        have "q \<in> grant_extent (chunk_grant (cm_chunks ?cm ! k))"
          using chunk_live_in_extent(2) [OF d(4) [OF k(1)] k(2)] by (simp add: chunk_extent_def)
        moreover have "q \<in> extent q (cm_block_size ?cm)" using extent_self [OF bs] .
        ultimately show False using al g by blast
      qed
      ultimately show ?thesis using res lv qs pol by (simp add: chunk_pool_blocks_def)
    qed
  qed
  then show "chunk_pool_inv live ok L (w', \<lparr>cp_manager = cm', cp_policy = policy\<rparr>) Fs" and "cm' = cp_manager cp"
    and "case r of Inl e \<Rightarrow> e \<noteq> UndefinedBehaviour \<and> e \<noteq> Terminate \<and> policy = cp_policy cp
      | Inr q \<Rightarrow> q \<noteq> 0 \<and> q \<notin> chunk_pool_blocks cp Fs \<and> policy = HeapFallbackOnExhaustion (q # fs)"
    by blast+
qed

end

end
