(* ===== verification/Chunk_Pool_Correct.thy ===== *)
theory Chunk_Pool_Correct
  imports Chunk_Pool Block_Source
begin

text \<open>
  The chunk pool under every exhaustion policy, over every provider that keeps its contract, is a
  block source; destruction gives the provider back everything the pool took.
\<close>

context memory_provider begin

lemma chunk_pool_allocate_inv:
  assumes inv: "chunk_pool_inv live ok L (w, cp) Fs" and "chunk_pool_allocate P (w, cp) = (r, (w', cp'))"
  shows "\<exists>Fs'. chunk_pool_inv live ok L (w', cp') Fs' \<and> chunk_pool_sz (w', cp') = chunk_pool_sz (w, cp) \<and>
     (case r of
        Inl e \<Rightarrow> e \<noteq> UndefinedBehaviour \<and> e \<noteq> Terminate \<and> cp' = cp \<and> Fs' = Fs
      | Inr q \<Rightarrow> if q = 0 then cp' = cp \<and> Fs' = Fs \<and> cp_policy cp = ReturnNullOnExhaustion \<and> list_all (\<lambda>F. F = []) Fs
          else q \<notin> chunk_pool_blocks cp Fs \<and> chunk_pool_blocks cp' Fs' = insert q (chunk_pool_blocks cp Fs))"
proof -
  let ?cm = "cp_manager cp"
  note mi = chunk_pool_invD(1) [OF inv]
  obtain a cm1 where ta: "manager_try_allocate (w_mem w) ?cm = (a, cm1)" by (cases "manager_try_allocate (w_mem w) ?cm")
  from manager_try_allocate_inv [OF mi ta] show ?thesis
  proof (elim disjE exE conjE)
    fix q Fs'
    assume t: "a = Inr q" "q \<noteq> 0" "q \<notin> chunks_live (cm_chunks ?cm) Fs" "manager_inv live ok w cm1 Fs'"
      "cm_block_size cm1 = cm_block_size ?cm" "cm_alignment cm1 = cm_alignment ?cm"
      "map mc_storage (cm_chunks cm1) = map mc_storage (cm_chunks ?cm)"
      "chunks_live (cm_chunks cm1) Fs' = insert q (chunks_live (cm_chunks ?cm) Fs)"
    have res: "r = Inr q" "w' = w" "cp' = \<lparr>cp_manager = cm1, cp_policy = cp_policy cp\<rparr>"
      using assms(2) ta t(1,2) by (auto simp: chunk_pool_allocate_def)
    have inv': "chunk_pool_inv live ok L (w, cp') Fs'"
      unfolding res by (rule chunk_pool_inv_manager [OF inv t(4,5,6) manager_rest_cong [OF t(7)]])
    have "q \<notin> set (fallback_list (cp_policy cp))"
    proof
      assume "q \<in> set (fallback_list (cp_policy cp))"
      then have g: "(q, cm_block_size ?cm, cm_alignment ?cm) \<in> live (w_prov w)" "q \<notin> mc_storage ` set (cm_chunks ?cm)"
        using chunk_pool_invD(3) [OF inv] by (auto simp: manager_rest_def)
      note cs1 = manager_inv_chunks [OF t(4)]
      note d1 = chunk_setD [OF cs1]
      obtain k where k: "k < length (cm_chunks cm1)" "q \<in> chunk_live (cm_chunks cm1 ! k) (Fs' ! k)"
        using chunks_live_iff [of q "cm_chunks cm1" Fs'] t(8) by blast
      let ?c = "cm_chunks cm1 ! k"
      have gc: "chunk_grant ?c \<in> live (w_prov w)" using d1(5) k(1) by simp
      have "mc_storage ?c \<in> mc_storage ` set (cm_chunks ?cm)"
        using arg_cong [OF t(7), of set] nth_mem [OF k(1)] by auto
      then have "fst (chunk_grant ?c) \<noteq> fst (q, cm_block_size ?cm, cm_alignment ?cm)" using g(2) by auto
      from live_disjoint [OF d1(1) gc g(1) this]
      have "chunk_extent ?c \<inter> extent q (cm_block_size ?cm) = {}" by (simp add: chunk_extent_def)
      moreover have "q \<in> extent q (cm_block_size ?cm)" using live_wf [OF d1(1) g(1)] by (intro extent_self) simp
      ultimately show False using chunk_live_in_extent(2) [OF d1(4) [OF k(1)] k(2)] by blast
    qed
    then show ?thesis
      using inv' res t by (intro exI [of _ Fs']) (auto simp: chunk_pool_sz_def chunk_pool_blocks_def)
  next
    assume t: "a = Inr 0" "cm1 = ?cm" "list_all (\<lambda>F. F = []) Fs"
    obtain r1 policy cm' w1 where ex: "on_exhaustion P (cp_policy cp) ?cm w = (r1, (policy, cm', w1))" by (metis prod_cases4)
    have res: "r = r1" "w' = w1" "cp' = \<lparr>cp_manager = cm', cp_policy = policy\<rparr>"
      using assms(2) ta t ex by (auto simp: chunk_pool_allocate_def)
    show ?thesis
    proof (cases "cp_policy cp")
      case ReturnNullOnExhaustion
      then have "r = Inr 0" "w' = w" "cp' = cp" using ex res by auto
      then show ?thesis using inv t ReturnNullOnExhaustion by auto
    next
      case ThrowOnExhaustion
      then have "r = Inl BadAlloc" "w' = w" "cp' = cp" using ex res by auto
      then show ?thesis using inv by auto
    next
      case GrowOnExhaustion
      have p: "policy = GrowOnExhaustion" using ex GrowOnExhaustion by (auto split: prod.splits sum.splits)
      from on_exhaustion_grow [OF inv GrowOnExhaustion ex [unfolded GrowOnExhaustion]] res p GrowOnExhaustion
      show ?thesis
        by (cases r) (auto simp: chunk_pool_sz_def chunk_pool_blocks_def intro: chunk_pool.equality)
    next
      case (HeapFallbackOnExhaustion fs)
      note fb = on_exhaustion_fallback [OF inv HeapFallbackOnExhaustion ex [unfolded HeapFallbackOnExhaustion]]
      show ?thesis
        using fb res HeapFallbackOnExhaustion
        by (intro exI [of _ Fs]) (cases r; auto simp: chunk_pool_sz_def chunk_pool_blocks_def)
    qed
  qed
qed

lemma find_chunk_fallback:
  assumes inv: "chunk_pool_inv live ok L (w, cp) Fs" and "q \<in> set (fallback_list (cp_policy cp))"
  shows "manager_find_chunk (cp_manager cp) q = None"
    and "\<And>x. x \<in> extent q (cm_block_size (cp_manager cp)) \<Longrightarrow> \<forall>c \<in> set (cm_chunks (cp_manager cp)). x \<notin> chunk_extent c"
proof -
  let ?cm = "cp_manager cp"
  note cs = manager_inv_chunks [OF chunk_pool_invD(1) [OF inv]]
  note d = chunk_setD [OF cs]
  have g: "(q, cm_block_size ?cm, cm_alignment ?cm) \<in> live (w_prov w)" "q \<notin> mc_storage ` set (cm_chunks ?cm)"
    using chunk_pool_invD(3) [OF inv assms(2)] by (auto simp: manager_rest_def)
  have apart: "extent q (cm_block_size ?cm) \<inter> chunk_extent c = {}" if "c \<in> set (cm_chunks ?cm)" for c
  proof -
    have "fst (q, cm_block_size ?cm, cm_alignment ?cm) \<noteq> fst (chunk_grant c)" using g(2) that by auto
    from live_disjoint [OF d(1) g(1) d(5) [OF that] this] show ?thesis by (simp add: chunk_extent_def)
  qed
  then show "\<And>x. x \<in> extent q (cm_block_size ?cm) \<Longrightarrow> \<forall>c \<in> set (cm_chunks ?cm). x \<notin> chunk_extent c" by blast
  have "q \<in> extent q (cm_block_size ?cm)" using live_wf [OF d(1) g(1)] by (intro extent_self) simp
  then have "\<not> chunk_owns c q" if "c \<in> set (cm_chunks ?cm)" for c
    using apart [OF that] that d(4) chunk_owns_iff by (metis disjoint_iff in_set_conv_nth)
  then show "manager_find_chunk ?cm q = None" by (simp add: manager_find_chunk_def find_chunk_in_None)
qed

lemma chunk_pool_deallocate_live:
  assumes inv: "chunk_pool_inv live ok L (w, cp) Fs" and q: "q \<in> chunk_pool_blocks cp Fs"
    and "chunk_pool_deallocate P q (w, cp) = (r, (w', cp'))"
  shows "r = Inr () \<and> chunk_pool_sz (w', cp') = chunk_pool_sz (w, cp) \<and>
     (\<exists>Fs'. chunk_pool_inv live ok L (w', cp') Fs' \<and> chunk_pool_blocks cp' Fs' = chunk_pool_blocks cp Fs - {q})"
proof -
  let ?cm = "cp_manager cp"
  note mi = chunk_pool_invD(1) [OF inv]
  note cs = manager_inv_chunks [OF mi]
  note d = chunk_setD [OF cs]
  show ?thesis
  proof (cases "q \<in> set (fallback_list (cp_policy cp))")
    case False
    then have ql: "q \<in> chunks_live (cm_chunks ?cm) Fs" using q by (simp add: chunk_pool_blocks_def)
    then obtain k where k: "k < length (cm_chunks ?cm)" "q \<in> chunk_live (cm_chunks ?cm ! k) (Fs ! k)"
      by (auto simp: chunks_live_iff)
    note le = chunk_live_in_extent [OF d(4) [OF k(1)] k(2)]
    have fnd: "manager_find_chunk ?cm q \<noteq> None"
      using find_chunk_of_live [OF cs k(1) le(2)] by (simp add: manager_find_chunk_def)
    obtain r1 cm1 w1 where md: "manager_deallocate P ?cm w q = (r1, (cm1, w1))" by (metis prod_cases3)
    have res: "r = r1" "w' = w1" "cp' = \<lparr>cp_manager = cm1, cp_policy = cp_policy cp\<rparr>"
      using assms(3) fnd le(3) md by (auto simp: chunk_pool_deallocate_def)
    from manager_deallocate_live [OF mi ql md] obtain Fs' where m: "r1 = Inr ()" "manager_inv live ok w1 cm1 Fs'"
      "chunks_live (cm_chunks cm1) Fs' = chunks_live (cm_chunks ?cm) Fs - {q}"
      "cm_block_size cm1 = cm_block_size ?cm" "cm_alignment cm1 = cm_alignment ?cm"
      "manager_rest live cm1 w1 = manager_rest live ?cm w" by auto
    have "chunk_pool_inv live ok L (w', cp') Fs'"
      unfolding res by (rule chunk_pool_inv_manager [OF inv m(2,4,5,6)])
    then show ?thesis using m res False by (auto simp: chunk_pool_sz_def chunk_pool_blocks_def)
  next
    case True
    then obtain fs where pol: "cp_policy cp = HeapFallbackOnExhaustion fs" and qf: "q \<in> set fs"
      by (cases "cp_policy cp") auto
    have g: "(q, cm_block_size ?cm, cm_alignment ?cm) \<in> live (w_prov w)" "q \<notin> mc_storage ` set (cm_chunks ?cm)"
      using chunk_pool_invD(3) [OF inv True] by (auto simp: manager_rest_def)
    let ?w = "w\<lparr>w_prov := prov_deallocate P q (cm_block_size ?cm) (cm_alignment ?cm) (w_prov w)\<rparr>"
    have q0: "q \<noteq> 0" using live_wf [OF d(1) g(1)] by simp
    have res: "r = Inr ()" "w' = ?w" "cp' = cp\<lparr>cp_policy := HeapFallbackOnExhaustion (removeAll q fs)\<rparr>"
      using assms(3) find_chunk_fallback(1) [OF inv True] q0 pol qf by (auto simp: chunk_pool_deallocate_def)
    note dl = deallocate [OF d(1) g(1)]
    have "chunk_grant c \<in> live (w_prov ?w)" if "c \<in> set (cm_chunks ?cm)" for c
      using d(5) [OF that] dl g(2) that by auto
    then have "chunk_set live ok ?w (cm_chunks ?cm) Fs (cm_block_size ?cm) (cm_alignment ?cm)"
      using cs dl by (auto simp: chunk_set_def)
    then have mi1: "manager_inv live ok ?w ?cm Fs"
      using manager_invD(2) [OF mi] by (intro manager_inv_update [OF mi]) simp_all
    have rest: "manager_rest live ?cm ?w = {g \<in> manager_rest live ?cm w. fst g \<noteq> q}"
      using dl by (auto simp: manager_rest_def)
    note fp = chunk_pool_invD(2,3) [OF inv] and L = chunk_pool_invD(4) [OF inv]
    have "{g \<in> manager_rest live ?cm ?w. fst g \<notin> set (removeAll q fs)} = L"
      unfolding L [symmetric] rest using pol qf by auto
    moreover have "(q', cm_block_size ?cm, cm_alignment ?cm) \<in> manager_rest live ?cm ?w \<and>
          unat (cm_alignment ?cm) dvd unat q'" if "q' \<in> set (removeAll q fs)" for q'
      using that fp(2) [of q'] pol rest by auto
    ultimately have "chunk_pool_inv live ok L (?w, cp') Fs"
      using mi1 fp(1) pol res unfolding chunk_pool_inv_def by (auto simp: distinct_removeAll)
    moreover have "q \<notin> chunks_live (cm_chunks ?cm) Fs"
    proof
      assume "q \<in> chunks_live (cm_chunks ?cm) Fs"
      then obtain k where k: "k < length (cm_chunks ?cm)" "q \<in> chunk_live (cm_chunks ?cm ! k) (Fs ! k)"
        by (auto simp: chunks_live_iff)
      then show False
        using find_chunk_of_live [OF cs k(1) chunk_live_in_extent(2) [OF d(4) [OF k(1)] k(2)]]
          find_chunk_fallback(1) [OF inv True] by (simp add: manager_find_chunk_def)
    qed
    ultimately show ?thesis
      using res pol by (intro conjI exI [of _ Fs]) (auto simp: chunk_pool_sz_def chunk_pool_blocks_def)
  qed
qed

lemma chunk_pool_deallocate_rejects:
  assumes inv: "chunk_pool_inv live ok L (w, cp) Fs" and "q \<noteq> 0" and q: "q \<notin> chunk_pool_blocks cp Fs"
  shows "chunk_pool_deallocate P q (w, cp) = (Inl InvalidPoolPointer, (w, cp)) \<or>
     chunk_pool_deallocate P q (w, cp) = (Inl DoubleFreeError, (w, cp))"
proof (cases "manager_find_chunk (cp_manager cp) q")
  case None
  have "try_deallocate P (cp_policy cp) (cp_manager cp) w q = (False, cp_policy cp, w)"
    using q by (cases "cp_policy cp") (auto simp: chunk_pool_blocks_def)
  then show ?thesis using None assms(2) by (simp add: chunk_pool_deallocate_def)
next
  case (Some k)
  obtain r cm1 w1 where md: "manager_deallocate P (cp_manager cp) w q = (r, (cm1, w1))" by (metis prod_cases3)
  have "q \<notin> chunks_live (cm_chunks (cp_manager cp)) Fs" using q by (simp add: chunk_pool_blocks_def)
  from manager_deallocate_rejects [OF chunk_pool_invD(1) [OF inv] assms(2) this md]
  show ?thesis using Some assms(2) md by (auto simp: chunk_pool_deallocate_def)
qed

lemma chunk_pool_client_write:
  assumes inv: "chunk_pool_inv live ok L (w, cp) Fs" and q: "q \<in> chunk_pool_blocks cp Fs"
    and x: "x \<in> extent q (cm_block_size (cp_manager cp))"
  shows "chunk_pool_inv live ok L (w\<lparr>w_mem := (w_mem w)(x := b)\<rparr>, cp) Fs"
proof -
  let ?cm = "cp_manager cp" and ?w = "w\<lparr>w_mem := (w_mem w)(x := b)\<rparr>"
  note mi = chunk_pool_invD(1) [OF inv]
  note cs = manager_inv_chunks [OF mi]
  note d = chunk_setD [OF cs]
  have "chunk_set live ok ?w (cm_chunks ?cm) Fs (cm_block_size ?cm) (cm_alignment ?cm)"
  proof (cases "q \<in> chunks_live (cm_chunks ?cm) Fs")
    case True
    then show ?thesis by (rule chunk_set_client_write [OF cs _ x])
  next
    case False
    then have "\<forall>c \<in> set (cm_chunks ?cm). x \<notin> chunk_extent c"
      using q x find_chunk_fallback(2) [OF inv] by (auto simp: chunk_pool_blocks_def)
    then have "chunk_inv (w_mem ?w) (cm_chunks ?cm ! k) (Fs ! k)" if "k < length (cm_chunks ?cm)" for k
      using nth_mem [OF that] by (intro chunk_inv_frame [OF d(4) [OF that]]) auto
    then show ?thesis using cs d(2) by (auto simp: chunk_set_def list_all2_conv_all_nth)
  qed
  then have "manager_inv live ok ?w ?cm Fs" using manager_invD(2) [OF mi] by (intro manager_inv_update [OF mi]) simp_all
  moreover have "manager_rest live ?cm ?w = manager_rest live ?cm w" by (simp add: manager_rest_def)
  ultimately have "chunk_pool_inv live ok L (?w, \<lparr>cp_manager = ?cm, cp_policy = cp_policy cp\<rparr>) Fs"
    by (intro chunk_pool_inv_manager [OF inv]) simp_all
  then show ?thesis by (cases cp) simp
qed

lemma chunk_pool_blocks_apart:
  assumes inv: "chunk_pool_inv live ok L (w, cp) Fs" and "q \<in> chunk_pool_blocks cp Fs" and "r \<in> chunk_pool_blocks cp Fs"
    and "q \<noteq> r"
  shows "extent q (cm_block_size (cp_manager cp)) \<inter> extent r (cm_block_size (cp_manager cp)) = {}"
proof -
  let ?cm = "cp_manager cp"
  note cs = manager_inv_chunks [OF chunk_pool_invD(1) [OF inv]]
  note d = chunk_setD [OF cs]
  have cf: "extent a (cm_block_size ?cm) \<inter> extent b (cm_block_size ?cm) = {}"
    if a: "a \<in> chunks_live (cm_chunks ?cm) Fs" and b: "b \<in> set (fallback_list (cp_policy cp))" for a b
  proof -
    obtain k where k: "k < length (cm_chunks ?cm)" "a \<in> chunk_live (cm_chunks ?cm ! k) (Fs ! k)"
      using a by (auto simp: chunks_live_iff)
    have "extent a (cm_block_size ?cm) \<subseteq> chunk_extent (cm_chunks ?cm ! k)"
      using chunk_live_in_extent(1) [OF d(4) [OF k(1)] k(2)] d(6) [OF k(1)] by simp
    then show ?thesis using find_chunk_fallback(2) [OF inv b] nth_mem [OF k(1)] by blast
  qed
  have ff: "extent q (cm_block_size ?cm) \<inter> extent r (cm_block_size ?cm) = {}"
    if "q \<in> set (fallback_list (cp_policy cp))" "r \<in> set (fallback_list (cp_policy cp))"
  proof -
    have "(q, cm_block_size ?cm, cm_alignment ?cm) \<in> live (w_prov w)" "(r, cm_block_size ?cm, cm_alignment ?cm) \<in> live (w_prov w)"
      using chunk_pool_invD(3) [OF inv] that by (auto simp: manager_rest_def)
    from live_disjoint [OF d(1) this] assms(4) show ?thesis by simp
  qed
  show ?thesis
    using assms(2,3) chunks_live_apart [OF cs _ _ assms(4)] cf [of q r] cf [of r q] ff
    by (auto simp: chunk_pool_blocks_def Int_commute)
qed

lemma chunk_pool_block_facts:
  assumes inv: "chunk_pool_inv live ok L (w, cp) Fs" and "q \<in> chunk_pool_blocks cp Fs"
  shows "q \<noteq> 0" and "unat (cm_alignment (cp_manager cp)) dvd unat q"
proof -
  let ?cm = "cp_manager cp"
  note d = chunk_setD [OF manager_inv_chunks [OF chunk_pool_invD(1) [OF inv]]]
  have "q \<noteq> 0 \<and> unat (cm_alignment ?cm) dvd unat q"
  proof (cases "q \<in> set (fallback_list (cp_policy cp))")
    case True
    then have "(q, cm_block_size ?cm, cm_alignment ?cm) \<in> live (w_prov w)" "unat (cm_alignment ?cm) dvd unat q"
      using chunk_pool_invD(3) [OF inv] by (auto simp: manager_rest_def)
    then show ?thesis using live_wf [OF d(1)] by blast
  next
    case False
    then obtain k where k: "k < length (cm_chunks ?cm)" "q \<in> chunk_live (cm_chunks ?cm ! k) (Fs ! k)"
      using assms(2) by (auto simp: chunk_pool_blocks_def chunks_live_iff)
    then show ?thesis using chunk_live_in_extent(3,4) [OF d(4) [OF k(1)] k(2)] d(7) [OF k(1)] by simp
  qed
  then show "q \<noteq> 0" and "unat (cm_alignment ?cm) dvd unat q" by blast+
qed

end

section \<open>The pool as a block source\<close>

sublocale memory_provider \<subseteq> pooled: block_source "chunk_pool_allocate P" "chunk_pool_deallocate P" chunk_pool_poke
  chunk_pool_sz "chunk_pool_ok live ok L" "chunk_pool_live live ok L" for L
proof
  fix s s' :: "'p world \<times> chunk_pool" and q
  assume okk: "chunk_pool_ok live ok L s" and a: "chunk_pool_allocate P s = (Inr q, s')" and q: "q \<noteq> 0"
  obtain w cp w' cp' where s: "s = (w, cp)" "s' = (w', cp')" by (cases s; cases s')
  obtain Fs where inv: "chunk_pool_inv live ok L (w, cp) Fs" using okk s by (auto simp: chunk_pool_ok_def)
  from chunk_pool_allocate_inv [OF inv a [unfolded s]] q obtain Fs' where
    "chunk_pool_inv live ok L (w', cp') Fs'" "chunk_pool_sz (w', cp') = chunk_pool_sz (w, cp)"
    "q \<notin> chunk_pool_blocks cp Fs" "chunk_pool_blocks cp' Fs' = insert q (chunk_pool_blocks cp Fs)" by auto
  then show "chunk_pool_ok live ok L s' \<and> q \<notin> chunk_pool_live live ok L s \<and>
      chunk_pool_live live ok L s' = insert q (chunk_pool_live live ok L s) \<and> chunk_pool_sz s' = chunk_pool_sz s"
    unfolding s using chunk_pool_live_eq inv by (metis chunk_pool_ok_def)
next
  fix s s' :: "'p world \<times> chunk_pool"
  assume okk: "chunk_pool_ok live ok L s" and a: "chunk_pool_allocate P s = (Inr 0, s')"
  obtain w cp w' cp' where s: "s = (w, cp)" "s' = (w', cp')" by (cases s; cases s')
  obtain Fs where inv: "chunk_pool_inv live ok L (w, cp) Fs" using okk s by (auto simp: chunk_pool_ok_def)
  from chunk_pool_allocate_inv [OF inv a [unfolded s]] have
    "chunk_pool_inv live ok L (w', cp) Fs" "chunk_pool_sz (w', cp') = chunk_pool_sz (w, cp)" "cp' = cp" by auto
  then show "chunk_pool_ok live ok L s' \<and> chunk_pool_live live ok L s' = chunk_pool_live live ok L s \<and>
      chunk_pool_sz s' = chunk_pool_sz s"
    unfolding s using chunk_pool_live_eq inv by (metis chunk_pool_ok_def)
next
  fix s s' :: "'p world \<times> chunk_pool" and e
  assume okk: "chunk_pool_ok live ok L s" and a: "chunk_pool_allocate P s = (Inl e, s')"
  obtain w cp w' cp' where s: "s = (w, cp)" "s' = (w', cp')" by (cases s; cases s')
  obtain Fs where inv: "chunk_pool_inv live ok L (w, cp) Fs" using okk s by (auto simp: chunk_pool_ok_def)
  from chunk_pool_allocate_inv [OF inv a [unfolded s]] have
    "chunk_pool_inv live ok L (w', cp) Fs" "chunk_pool_sz (w', cp') = chunk_pool_sz (w, cp)" "cp' = cp"
    "e \<noteq> UndefinedBehaviour" "e \<noteq> Terminate" by auto
  then show "e \<noteq> UndefinedBehaviour \<and> e \<noteq> Terminate \<and> chunk_pool_ok live ok L s' \<and>
      chunk_pool_live live ok L s' = chunk_pool_live live ok L s \<and> chunk_pool_sz s' = chunk_pool_sz s"
    unfolding s using chunk_pool_live_eq inv by (metis chunk_pool_ok_def)
next
  fix s :: "'p world \<times> chunk_pool" and q
  assume okk: "chunk_pool_ok live ok L s" and q: "q \<in> chunk_pool_live live ok L s"
  obtain w cp where s: "s = (w, cp)" by (cases s)
  obtain Fs where inv: "chunk_pool_inv live ok L (w, cp) Fs" using okk s by (auto simp: chunk_pool_ok_def)
  have qb: "q \<in> chunk_pool_blocks cp Fs" using q chunk_pool_live_eq [OF inv] s by simp
  obtain r w' cp' where de: "chunk_pool_deallocate P q (w, cp) = (r, (w', cp'))" by (metis prod_cases3)
  from chunk_pool_deallocate_live [OF inv qb de] obtain Fs' where
    "r = Inr ()" "chunk_pool_sz (w', cp') = chunk_pool_sz (w, cp)" "chunk_pool_inv live ok L (w', cp') Fs'"
    "chunk_pool_blocks cp' Fs' = chunk_pool_blocks cp Fs - {q}" by auto
  then show "\<exists>s'. chunk_pool_deallocate P q s = (Inr (), s') \<and> chunk_pool_ok live ok L s' \<and>
      chunk_pool_live live ok L s' = chunk_pool_live live ok L s - {q} \<and> chunk_pool_sz s' = chunk_pool_sz s"
    unfolding s using de chunk_pool_live_eq inv by (metis chunk_pool_ok_def)
next
  fix s :: "'p world \<times> chunk_pool" and q x b
  assume okk: "chunk_pool_ok live ok L s" and q: "q \<in> chunk_pool_live live ok L s" and x: "x \<in> extent q (chunk_pool_sz s)"
  obtain w cp where s: "s = (w, cp)" by (cases s)
  obtain Fs where inv: "chunk_pool_inv live ok L (w, cp) Fs" using okk s by (auto simp: chunk_pool_ok_def)
  have qb: "q \<in> chunk_pool_blocks cp Fs" using q chunk_pool_live_eq [OF inv] s by simp
  have "x \<in> extent q (cm_block_size (cp_manager cp))" using x s by (simp add: chunk_pool_sz_def)
  note wr = chunk_pool_client_write [OF inv qb this, of b]
  have pk: "chunk_pool_poke x b s = (w\<lparr>w_mem := (w_mem w)(x := b)\<rparr>, cp)" by (simp add: chunk_pool_poke_def s)
  show "chunk_pool_ok live ok L (chunk_pool_poke x b s) \<and>
      chunk_pool_live live ok L (chunk_pool_poke x b s) = chunk_pool_live live ok L s \<and>
      chunk_pool_sz (chunk_pool_poke x b s) = chunk_pool_sz s"
    unfolding pk unfolding s using chunk_pool_live_eq [OF wr] chunk_pool_live_eq [OF inv] wr
    by (auto simp: chunk_pool_ok_def chunk_pool_sz_def)
next
  fix s :: "'p world \<times> chunk_pool" and q
  assume okk: "chunk_pool_ok live ok L s" and q: "q \<in> chunk_pool_live live ok L s"
  obtain w cp where s: "s = (w, cp)" by (cases s)
  obtain Fs where inv: "chunk_pool_inv live ok L (w, cp) Fs" using okk s by (auto simp: chunk_pool_ok_def)
  show "q \<noteq> 0" using chunk_pool_block_facts(1) [OF inv] q chunk_pool_live_eq [OF inv] s by simp
next
  fix s :: "'p world \<times> chunk_pool" and q r
  assume okk: "chunk_pool_ok live ok L s" and q: "q \<in> chunk_pool_live live ok L s" "r \<in> chunk_pool_live live ok L s" "q \<noteq> r"
  obtain w cp where s: "s = (w, cp)" by (cases s)
  obtain Fs where inv: "chunk_pool_inv live ok L (w, cp) Fs" using okk s by (auto simp: chunk_pool_ok_def)
  show "extent q (chunk_pool_sz s) \<inter> extent r (chunk_pool_sz s) = {}"
    using chunk_pool_blocks_apart [OF inv] q chunk_pool_live_eq [OF inv] s by (simp add: chunk_pool_sz_def)
qed

end
