(* ===== verification/Chunk_Pool_Runs.thy ===== *)
theory Chunk_Pool_Runs
  imports Chunk_Pool_Correct
begin

text \<open>
  Whole runs of a client of a chunk pool, the bound on spare chunks, and destruction, over every provider
  that keeps the contract \<open>memory_provider\<close>.
\<close>

section \<open>What no operation changes\<close>

lemma manager_grow_options: "manager_grow P cm w = (r, (cm', w')) \<Longrightarrow> cm_options cm' = cm_options cm"
  by (auto simp: manager_grow_def Let_def split: prod.splits sum.splits if_splits)

lemma manager_deallocate_options: "manager_deallocate P cm w q = (r, (cm', w')) \<Longrightarrow> cm_options cm' = cm_options cm"
  by (auto simp: manager_deallocate_def reclaim_if_allowed_def Let_def split: prod.splits sum.splits if_splits option.splits)

lemma on_exhaustion_options:
  "on_exhaustion P policy cm w = (r, (policy', cm', w')) \<Longrightarrow> cm_options cm' = cm_options cm"
  by (cases policy) (auto split: prod.splits sum.splits if_splits dest: manager_grow_options)

lemma chunk_pool_allocate_options:
  assumes "chunk_pool_allocate P (w, cp) = (r, (w', cp'))"
  shows "cm_options (cp_manager cp') = cm_options (cp_manager cp)"
proof -
  obtain a cm1 where ta: "manager_try_allocate (w_mem w) (cp_manager cp) = (a, cm1)"
    by (cases "manager_try_allocate (w_mem w) (cp_manager cp)")
  then have o: "cm_options cm1 = cm_options (cp_manager cp)" by (auto simp: manager_try_allocate_def split: prod.splits)
  obtain r1 policy cm2 w2 where ex: "on_exhaustion P (cp_policy cp) cm1 w = (r1, (policy, cm2, w2))" by (metis prod_cases4)
  from assms ta ex have "cp_manager cp' = cm1 \<or> cp_manager cp' = cm2"
    by (cases a) (auto simp: chunk_pool_allocate_def split: if_splits)
  then show ?thesis using o on_exhaustion_options [OF ex] by auto
qed

lemma chunk_pool_deallocate_options:
  assumes "chunk_pool_deallocate P q (w, cp) = (r, (w', cp'))"
  shows "cm_options (cp_manager cp') = cm_options (cp_manager cp)"
proof -
  obtain r1 cm1 w1 where md: "manager_deallocate P (cp_manager cp) w q = (r1, (cm1, w1))" by (metis prod_cases3)
  from assms md have "cp_manager cp' = cp_manager cp \<or> cp_manager cp' = cm1"
    by (auto simp: chunk_pool_deallocate_def split: if_splits prod.splits)
  then show ?thesis using manager_deallocate_options [OF md] by auto
qed

section \<open>Empty chunks\<close>

definition empty_chunks :: "memory_chunk list \<Rightarrow> nat" where
  "empty_chunks cs = length (filter chunk_empty cs)"

lemma empty_chunks_update:
  assumes "k < length cs"
  shows "empty_chunks (cs[k := c]) + (if chunk_empty (cs ! k) then 1 else 0) =
     empty_chunks cs + (if chunk_empty c then 1 else 0)"
proof -
  have "empty_chunks cs = empty_chunks (take k cs @ cs ! k # drop (Suc k) cs)"
    by (simp only: id_take_nth_drop [OF assms, symmetric])
  then have "empty_chunks cs = empty_chunks (take k cs) + (if chunk_empty (cs ! k) then 1 else 0) + empty_chunks (drop (Suc k) cs)"
    by (simp add: empty_chunks_def)
  moreover have "empty_chunks (cs[k := c]) = empty_chunks (take k cs) + (if chunk_empty c then 1 else 0) + empty_chunks (drop (Suc k) cs)"
    using assms by (simp add: upd_conv_take_nth_drop empty_chunks_def)
  ultimately show ?thesis by simp
qed

lemma empty_chunks_remove_nth:
  assumes "k < length cs" and "chunk_empty (cs ! k)"
  shows "empty_chunks (remove_nth k cs) = empty_chunks cs - 1"
proof -
  have "empty_chunks cs = empty_chunks (take k cs @ cs ! k # drop (Suc k) cs)"
    by (simp only: id_take_nth_drop [OF assms(1), symmetric])
  with assms(2) show ?thesis by (simp add: empty_chunks_def remove_nth_def)
qed

lemma nonempty_chunk:
  assumes "chunk_inv m c F" and "q \<in> chunk_live c F"
  shows "\<not> chunk_empty c"
  using chunk_empty_iff [OF assms(1)] assms(2) by blast

lemma full_chunk_nonempty:
  assumes "chunk_inv m c []"
  shows "\<not> chunk_empty c"
proof -
  have "0 < unat (mc_block_count c)" using pool_shapeD(6) [OF pool_invD(1) [OF assms [unfolded chunk_inv_def]]] by simp
  then have "chunk_block c 0 \<in> chunk_live c []" by (auto simp: chunk_live_def)
  then show ?thesis using nonempty_chunk [OF assms] by blast
qed

text \<open>
  The pool keeps at most the configured number of spare empty chunks, and never more than one when
  that number is zero or one.
\<close>

definition spares_bounded :: "chunk_manager \<Rightarrow> bool" where
  "spares_bounded cm \<longleftrightarrow> empty_chunks (cm_chunks cm) \<le> max 1 (unat (cmo_spare_empty_chunks (cm_options cm)))"

lemma spares_bounded_try_allocate:
  assumes "list_all2 (chunk_inv m) (cm_chunks cm) Fs" and "spares_bounded cm"
    and "manager_try_allocate m cm = (r, cm')"
  shows "spares_bounded cm'"
  using allocate_first_spec [OF assms(1)]
proof (elim disjE exE conjE)
  assume "allocate_first m (cm_chunks cm) = (Inr 0, cm_chunks cm)"
  then show ?thesis using assms(2,3) by (simp add: manager_try_allocate_def)
next
  fix k i G c'
  assume k: "k < length (cm_chunks cm)" "Fs ! k = i # G"
    "allocate_first m (cm_chunks cm) = (Inr (chunk_block (cm_chunks cm ! k) i), (cm_chunks cm)[k := c'])"
    "chunk_inv m c' G" "chunk_same_config (cm_chunks cm ! k) c'"
  have inv: "chunk_inv m (cm_chunks cm ! k) (i # G)" using assms(1) k(1,2) by (auto simp: list_all2_conv_all_nth)
  have "chunk_block (cm_chunks cm ! k) i \<in> chunk_live c' G"
    using chunk_live_pop(1) [OF inv] k(5) by (auto simp: chunk_live_def chunk_same_config_def)
  then have "\<not> chunk_empty c'" by (rule nonempty_chunk [OF k(4)])
  then have "empty_chunks ((cm_chunks cm)[k := c']) \<le> empty_chunks (cm_chunks cm)"
    using empty_chunks_update [OF k(1), of c'] by (auto split: if_splits)
  then show ?thesis using assms(2,3) k(3) by (auto simp: manager_try_allocate_def spares_bounded_def)
qed

context memory_provider begin

lemma spares_bounded_allocate:
  assumes inv: "chunk_pool_inv live ok L (w, cp) Fs" and sb: "spares_bounded (cp_manager cp)"
    and "chunk_pool_allocate P (w, cp) = (r, (w', cp'))"
  shows "spares_bounded (cp_manager cp')"
proof -
  let ?cm = "cp_manager cp"
  note mi = chunk_pool_invD(1) [OF inv]
  note cs = manager_inv_chunks [OF mi]
  note d = chunk_setD [OF cs]
  obtain a cm1 where ta: "manager_try_allocate (w_mem w) ?cm = (a, cm1)" by (cases "manager_try_allocate (w_mem w) ?cm")
  have sb1: "spares_bounded cm1" using spares_bounded_try_allocate [OF _ sb ta, of Fs] cs by (simp add: chunk_set_def)
  show ?thesis
  proof (cases "a = Inr 0")
    case False
    then have "cp_manager cp' = cm1" using assms(3) ta by (cases a) (auto simp: chunk_pool_allocate_def)
    then show ?thesis using sb1 by simp
  next
    case True
    then have cm1: "cm1 = ?cm" and full: "list_all (\<lambda>F. F = []) Fs"
      using manager_try_allocate_inv [OF mi ta] by auto
    obtain r1 policy cm2 w2 where ex: "on_exhaustion P (cp_policy cp) ?cm w = (r1, (policy, cm2, w2))" by (metis prod_cases4)
    have cp': "cp_manager cp' = cm2" using assms(3) ta True cm1 ex by (auto simp: chunk_pool_allocate_def)
    show ?thesis
    proof (cases "cp_policy cp = GrowOnExhaustion")
      case False
      then have "cm2 = ?cm" using ex by (cases "cp_policy cp") (auto split: prod.splits sum.splits if_splits)
      then show ?thesis using sb cp' by simp
    next
      case grow: True
      have e0: "empty_chunks (cm_chunks ?cm) = 0"
      proof -
        have "\<not> chunk_empty c" if c: "c \<in> set (cm_chunks ?cm)" for c
        proof -
          obtain k where "k < length (cm_chunks ?cm)" "c = cm_chunks ?cm ! k" using c by (auto simp: in_set_conv_nth)
          then show ?thesis using full_chunk_nonempty d(2) d(4) [of k] full by (simp add: list_all_length)
        qed
        then show ?thesis by (simp add: empty_chunks_def)
      qed
      obtain g cm3 w3 where gr: "manager_grow P ?cm w = (g, (cm3, w3))" by (metis prod_cases3)
      from manager_grow_inv [OF mi gr] show ?thesis
      proof (elim disjE exE conjE)
        fix e assume "g = Inl e" "cm3 = ?cm"
        then show ?thesis using ex gr grow cp' sb by auto
      next
        fix c
        let ?n = "unat (cm_next_growth_blocks ?cm)" and ?k = "length (cm_chunks ?cm)"
        assume c: "g = Inr ?k" "cm_chunks cm3 = cm_chunks ?cm @ [c]" "cm_options cm3 = cm_options ?cm"
        obtain b c' where al: "chunk_allocate (w_mem w3) c = (b, c')" by (cases "chunk_allocate (w_mem w3) c")
        have "cm_chunks cm2 = cm_chunks ?cm @ [c']" "cm_options cm2 = cm_options ?cm"
          using ex gr grow c al by auto
        then show ?thesis using cp' e0 by (simp add: spares_bounded_def empty_chunks_def)
      qed
    qed
  qed
qed

lemma spares_bounded_deallocate:
  assumes inv: "chunk_pool_inv live ok L (w, cp) Fs" and sb: "spares_bounded (cp_manager cp)"
    and q: "q \<in> chunk_pool_blocks cp Fs" and "chunk_pool_deallocate P q (w, cp) = (r, (w', cp'))"
  shows "spares_bounded (cp_manager cp')"
proof (cases "manager_find_chunk (cp_manager cp) q")
  case None
  have "cp_manager cp' = cp_manager cp"
    using assms(4) None by (auto simp: chunk_pool_deallocate_def split: if_splits prod.splits)
  then show ?thesis using sb by simp
next
  case (Some k)
  let ?cm = "cp_manager cp"
  note mi = chunk_pool_invD(1) [OF inv]
  note cs = manager_inv_chunks [OF mi]
  note d = chunk_setD [OF cs]
  have q0: "q \<noteq> 0" by (rule chunk_pool_block_facts(1) [OF inv q])
  have k: "k < length (cm_chunks ?cm)" "chunk_owns (cm_chunks ?cm ! k) q"
    using Some by (simp_all add: manager_find_chunk_def find_chunk_in_Some)
  let ?c = "cm_chunks ?cm ! k"
  have "q \<notin> set (fallback_list (cp_policy cp))" using find_chunk_fallback(1) [OF inv, of q] Some by auto
  then obtain j where j: "j < length (cm_chunks ?cm)" "q \<in> chunk_live (cm_chunks ?cm ! j) (Fs ! j)"
    using q by (auto simp: chunk_pool_blocks_def chunks_live_iff)
  have "find_chunk_in (cm_chunks ?cm) q = Some j"
    by (rule find_chunk_of_live [OF cs j(1) chunk_live_in_extent(2) [OF d(4) [OF j(1)] j(2)]])
  then have "j = k" using Some by (simp add: manager_find_chunk_def)
  then have ne: "\<not> chunk_empty ?c" using nonempty_chunk [OF d(4) [OF k(1)]] j(2) by simp
  obtain r1 m c where cd: "chunk_deallocate (w_mem w) ?c q = (r1, (m, c))" by (metis prod_cases3)
  obtain cm1 w1 where md: "manager_deallocate P ?cm w q = (r, (cm1, w1))" and cp': "cp_manager cp' = cm1"
    using assms(4) Some q0 by (auto simp: chunk_pool_deallocate_def split: prod.splits)
  let ?cmn = "?cm\<lparr>cm_chunks := (cm_chunks ?cm)[k := c]\<rparr>"
  have up: "empty_chunks ((cm_chunks ?cm)[k := c]) = empty_chunks (cm_chunks ?cm) + (if chunk_empty c then 1 else 0)"
    using empty_chunks_update [OF k(1), of c] ne by (simp only: if_False add_0_right)
  have "r1 = Inr ()"
    using chunk_deallocate_live(1) [OF d(4) [OF k(1)]] j(2) \<open>j = k\<close> cd by (auto simp: chunk_live_def)
  then have rc: "(cm1, w1) = reclaim_if_allowed P ?cmn (w\<lparr>w_mem := m\<rparr>) k"
    using md Some q0 cd by (auto simp: manager_deallocate_def)
  have "cm_options cm1 = cm_options ?cm \<and>
      empty_chunks (cm_chunks cm1) \<le> max (empty_chunks (cm_chunks ?cm)) (unat (cmo_spare_empty_chunks (cm_options ?cm)))"
    using rc up k(1) empty_chunks_remove_nth [of k "(cm_chunks ?cm)[k := c]"]
    by (auto simp: reclaim_if_allowed_def Let_def empty_chunks_def [symmetric] split: if_splits)
  then show ?thesis using sb cp' by (auto simp: spares_bounded_def)
qed

section \<open>Whole runs\<close>

lemma chunk_pool_created:
  assumes "ok (w_prov w)" and "chunk_pool_create P options policy w = (Inr cp, w0)" and "fallback_list policy = []"
  defines "Fs \<equiv> [[0..<unat (cmo_initial_blocks options)]]"
  shows "chunk_pool_inv live ok (live (w_prov w)) (w0, cp) Fs" and "chunk_pool_blocks cp Fs = {}"
    and "cm_options (cp_manager cp) = options" and "spares_bounded (cp_manager cp)" and "cp_policy cp = policy"
proof -
  obtain cm where mc: "manager_create P options w = (Inr cm, w0)" and cp: "cp = \<lparr>cp_manager = cm, cp_policy = policy\<rparr>"
    using assms(2) by (auto simp: chunk_pool_create_def split: prod.splits sum.splits)
  note m = manager_create_outcome [OF assms(1) mc, unfolded sum.case]
  show "chunk_pool_inv live ok (live (w_prov w)) (w0, cp) Fs"
    using m assms(3) by (simp add: chunk_pool_inv_def cp Fs_def)
  show "chunk_pool_blocks cp Fs = {}" "cm_options (cp_manager cp) = options" "cp_policy cp = policy"
    using m assms(3) by (simp_all add: chunk_pool_blocks_def cp Fs_def)
  obtain c where "cm_chunks cm = [c]" using m by (metis length_0_conv length_Suc_conv One_nat_def)
  then show "spares_bounded (cp_manager cp)" by (simp add: spares_bounded_def empty_chunks_def cp)
qed

lemma chunk_pool_create_outcome:
  assumes "ok (w_prov w)" and "chunk_pool_create P options policy w = (r, w0)"
  shows "\<And>g x. g \<in> live (w_prov w) \<Longrightarrow> x \<in> grant_extent g \<Longrightarrow> w_mem w0 x = w_mem w x"
    and "\<And>e. r = Inl e \<Longrightarrow> e \<noteq> UndefinedBehaviour \<and> e \<noteq> Terminate \<and> ok (w_prov w0) \<and> live (w_prov w0) = live (w_prov w)"
proof -
  obtain m w1 where mc: "manager_create P options w = (m, w1)" by (cases "manager_create P options w")
  have w1: "w0 = w1" and r: "r = (case m of Inl e \<Rightarrow> Inl e | Inr cm \<Rightarrow> Inr \<lparr>cp_manager = cm, cp_policy = policy\<rparr>)"
    using assms(2) mc by (cases m; simp add: chunk_pool_create_def)+
  note o = manager_create_outcome [OF assms(1) mc]
  show "w_mem w0 x = w_mem w x" if "g \<in> live (w_prov w)" "x \<in> grant_extent g" for g x
    using conjunct1 [OF o] that w1 by blast
  show "e \<noteq> UndefinedBehaviour \<and> e \<noteq> Terminate \<and> ok (w_prov w0) \<and> live (w_prov w0) = live (w_prov w)" if "r = Inl e" for e
    using conjunct2 [OF o] that r w1 by (cases m) auto
qed

lemma chunk_pool_run:
  assumes "client_run (chunk_pool_allocate P) (chunk_pool_deallocate P) chunk_pool_poke chunk_pool_sz (w0, cp0) s H"
    and "chunk_pool_inv live ok L (w0, cp0) F0" and "chunk_pool_blocks cp0 F0 = {}" and "spares_bounded (cp_manager cp0)"
  shows "\<exists>Fs. chunk_pool_inv live ok L s Fs \<and> H = chunk_pool_blocks (snd s) Fs \<and>
     cm_options (cp_manager (snd s)) = cm_options (cp_manager cp0) \<and> spares_bounded (cp_manager (snd s))"
  using assms
proof (induction rule: client_run.induct)
  case run_start
  then show ?case by (intro exI [of _ F0]) simp
next
  case (run_alloc s H q s')
  then obtain Fs where F: "chunk_pool_inv live ok L s Fs" "H = chunk_pool_blocks (snd s) Fs"
    "cm_options (cp_manager (snd s)) = cm_options (cp_manager cp0)" "spares_bounded (cp_manager (snd s))" by blast
  obtain w cp w' cp' where s: "s = (w, cp)" "s' = (w', cp')" by (cases s; cases s')
  note al = run_alloc.hyps(2) [unfolded s]
  from chunk_pool_allocate_inv [OF F(1) [unfolded s] al] chunk_pool_allocate_options [OF al]
    spares_bounded_allocate [OF F(1) [unfolded s] F(4) [unfolded s snd_conv] al]
  show ?case using F(2,3) s by (cases "q = 0") auto
next
  case (run_alloc_throw s H e s')
  then obtain Fs where F: "chunk_pool_inv live ok L s Fs" "H = chunk_pool_blocks (snd s) Fs"
    "cm_options (cp_manager (snd s)) = cm_options (cp_manager cp0)" "spares_bounded (cp_manager (snd s))" by blast
  obtain w cp w' cp' where s: "s = (w, cp)" "s' = (w', cp')" by (cases s; cases s')
  from chunk_pool_allocate_inv [OF F(1) [unfolded s] run_alloc_throw.hyps(2) [unfolded s]]
  show ?case using F s by auto
next
  case (run_free s H q r s')
  then obtain Fs where F: "chunk_pool_inv live ok L s Fs" "H = chunk_pool_blocks (snd s) Fs"
    "cm_options (cp_manager (snd s)) = cm_options (cp_manager cp0)" "spares_bounded (cp_manager (snd s))" by blast
  obtain w cp w' cp' where s: "s = (w, cp)" "s' = (w', cp')" by (cases s; cases s')
  note fr = run_free.hyps(3) [unfolded s]
  have qb: "q \<in> chunk_pool_blocks cp Fs" using run_free.hyps(2) F(2) s by simp
  from chunk_pool_deallocate_live [OF F(1) [unfolded s] qb fr] chunk_pool_deallocate_options [OF fr]
    spares_bounded_deallocate [OF F(1) [unfolded s] F(4) [unfolded s snd_conv] qb fr]
  show ?case using F(2,3) s by auto
next
  case (run_poke s H q x b)
  then obtain Fs where F: "chunk_pool_inv live ok L s Fs" "H = chunk_pool_blocks (snd s) Fs"
    "cm_options (cp_manager (snd s)) = cm_options (cp_manager cp0)" "spares_bounded (cp_manager (snd s))" by blast
  obtain w cp where s: "s = (w, cp)" by (cases s)
  have "chunk_pool_inv live ok L (w\<lparr>w_mem := (w_mem w)(x := b)\<rparr>, cp) Fs"
    using run_poke.hyps(2,3) F s by (intro chunk_pool_client_write [of L w cp Fs q]) (auto simp: chunk_pool_sz_def)
  then show ?case using F s by (intro exI [of _ Fs]) (simp add: chunk_pool_poke_def)
qed

lemma chunk_pool_destroy_inv:
  assumes inv: "chunk_pool_inv live ok L (w, cp) Fs"
  shows "ok (w_prov (chunk_pool_destroy P cp w))" and "live (w_prov (chunk_pool_destroy P cp w)) = L"
proof -
  let ?cm = "cp_manager cp" and ?fs = "fallback_list (cp_policy cp)"
  note mi = chunk_pool_invD(1) [OF inv]
  note cs = manager_inv_chunks [OF mi]
  note d = chunk_setD [OF cs]
  let ?gs = "map (\<lambda>q. (q, cm_block_size ?cm, cm_alignment ?cm)) ?fs"
  let ?w = "release_all P (cp_policy cp) ?cm w"
  have "fold (\<lambda>(q, n, a). prov_deallocate P q n a) ?gs p =
      fold (\<lambda>q. prov_deallocate P q (cm_block_size ?cm) (cm_alignment ?cm)) ?fs p" for p
    by (induction ?fs arbitrary: p) (simp_all add: fold_map comp_def)
  moreover have "set ?gs \<subseteq> live (w_prov w)" using chunk_pool_invD(3) [OF inv] by (auto simp: manager_rest_def)
  moreover have "distinct (map fst ?gs)" using chunk_pool_invD(2) [OF inv] by (simp add: comp_def)
  ultimately have rel: "ok (w_prov ?w)" "live (w_prov ?w) = {g \<in> live (w_prov w). fst g \<notin> set ?fs}" "w_mem ?w = w_mem w"
    using release_list [OF d(1), of ?gs] by (simp_all add: release_all_def image_image)
  have "chunk_grant c \<in> live (w_prov ?w)" if "c \<in> set (cm_chunks ?cm)" for c
    using d(5) [OF that] rel(2) chunk_pool_invD(3) [OF inv] that by (auto simp: manager_rest_def)
  then have "chunk_set live ok ?w (cm_chunks ?cm) Fs (cm_block_size ?cm) (cm_alignment ?cm)"
    using cs rel by (auto simp: chunk_set_def)
  then have "manager_inv live ok ?w ?cm Fs" using manager_invD(2) [OF mi] by (intro manager_inv_update [OF mi]) simp_all
  note ds = manager_destroy_inv [OF this]
  show "ok (w_prov (chunk_pool_destroy P cp w))" using ds(1) by (simp add: chunk_pool_destroy_def)
  have "manager_rest live ?cm ?w = {g \<in> manager_rest live ?cm w. fst g \<notin> set ?fs}"
    using rel(2) by (auto simp: manager_rest_def)
  then show "live (w_prov (chunk_pool_destroy P cp w)) = L"
    using ds(2) chunk_pool_invD(4) [OF inv] by (simp add: chunk_pool_destroy_def)
qed

section \<open>Frames\<close>

text \<open>The pool never writes into storage that the provider granted to others.\<close>

lemma chunk_pool_rest_live:
  assumes "chunk_pool_inv live ok L (w, cp) Fs" and "g \<in> L"
  shows "g \<in> live (w_prov w)" and "fst g \<notin> mc_storage ` set (cm_chunks (cp_manager cp))"
  using chunk_pool_invD(4) [OF assms(1)] assms(2) by (auto simp: manager_rest_def)

lemma chunk_pool_allocate_frame:
  assumes inv: "chunk_pool_inv live ok L (w, cp) Fs" and "chunk_pool_allocate P (w, cp) = (r, (w', cp'))"
    and "g \<in> L" and "x \<in> grant_extent g"
  shows "w_mem w' x = w_mem w x"
proof -
  let ?cm = "cp_manager cp"
  note mi = chunk_pool_invD(1) [OF inv]
  obtain a cm1 where ta: "manager_try_allocate (w_mem w) ?cm = (a, cm1)" by (cases "manager_try_allocate (w_mem w) ?cm")
  show ?thesis
  proof (cases "a = Inr 0")
    case False
    then have "w' = w" using assms(2) ta by (cases a) (auto simp: chunk_pool_allocate_def)
    then show ?thesis by simp
  next
    case True
    then have cm1: "cm1 = ?cm" using manager_try_allocate_inv [OF mi ta] by auto
    obtain r1 policy cm2 w2 where ex: "on_exhaustion P (cp_policy cp) ?cm w = (r1, (policy, cm2, w2))" by (metis prod_cases4)
    have w': "w' = w2" using assms(2) ta True cm1 ex by (auto simp: chunk_pool_allocate_def)
    obtain h cm3 w3 where gr: "manager_grow P ?cm w = (h, (cm3, w3))" by (metis prod_cases3)
    have fr: "w_mem w3 x = w_mem w x"
      using manager_grow_inv [OF mi gr] chunk_pool_rest_live(1) [OF inv assms(3)] assms(4) by blast
    show ?thesis
      using ex w' fr gr
      by (cases "cp_policy cp") (auto simp: meta_alloc_def split: prod.splits sum.splits if_splits)
  qed
qed

lemma chunk_pool_deallocate_frame:
  assumes inv: "chunk_pool_inv live ok L (w, cp) Fs" and q: "q \<in> chunk_pool_blocks cp Fs"
    and "chunk_pool_deallocate P q (w, cp) = (r, (w', cp'))" and "g \<in> L" and "x \<in> grant_extent g"
  shows "w_mem w' x = w_mem w x"
proof -
  let ?cm = "cp_manager cp"
  note mi = chunk_pool_invD(1) [OF inv]
  note cs = manager_inv_chunks [OF mi]
  note d = chunk_setD [OF cs]
  note gl = chunk_pool_rest_live [OF inv assms(4)]
  have out: "x \<notin> chunk_extent c" if c: "c \<in> set (cm_chunks ?cm)" for c
  proof -
    have "fst g \<noteq> fst (chunk_grant c)" using gl(2) imageI [OF c, of mc_storage] by auto
    from live_disjoint [OF d(1) gl(1) d(5) [OF c] this] assms(5) show ?thesis by (auto simp: chunk_extent_def)
  qed
  show ?thesis
  proof (cases "q \<in> chunks_live (cm_chunks ?cm) Fs")
    case True
    then obtain k where k: "k < length (cm_chunks ?cm)" "q \<in> chunk_live (cm_chunks ?cm ! k) (Fs ! k)"
      by (auto simp: chunks_live_iff)
    note le = chunk_live_in_extent [OF d(4) [OF k(1)] k(2)]
    have fnd: "manager_find_chunk ?cm q \<noteq> None"
      using find_chunk_of_live [OF cs k(1) le(2)] by (simp add: manager_find_chunk_def)
    obtain r1 cm1 w1 where md: "manager_deallocate P ?cm w q = (r1, (cm1, w1))" by (metis prod_cases3)
    have "w' = w1" using assms(3) fnd le(3) md by (auto simp: chunk_pool_deallocate_def)
    then show ?thesis using manager_deallocate_live [OF mi True md] out by blast
  next
    case False
    then have "q \<in> set (fallback_list (cp_policy cp))" using q by (simp add: chunk_pool_blocks_def)
    then have "manager_find_chunk ?cm q = None" by (rule find_chunk_fallback(1) [OF inv])
    then show ?thesis
      using assms(3) by (cases "cp_policy cp") (auto simp: chunk_pool_deallocate_def split: if_splits)
  qed
qed

end

end
