(* ===== verification/Chunk_Growth.thy ===== *)
theory Chunk_Growth
  imports Chunk_Pool
begin

text \<open>
  The sizes of the chunks along the life of a chunk manager: the number of blocks of every chunk, and the number planned for the next one,
  follow one sequence, also when chunks in between have been reclaimed.
\<close>

text \<open>The \<open>n\<close>-th chunk a manager makes, on unbounded numbers.\<close>

definition planned_blocks :: "chunk_manager_options \<Rightarrow> nat \<Rightarrow> nat" where
  "planned_blocks options n =
     (if gp_mode (cmo_growth options) = GrowthFixed then unat (cmo_initial_blocks options)
      else min (unat (cmo_initial_blocks options) * unat (gp_factor (cmo_growth options)) ^ n)
             (if gp_maximum_blocks_per_chunk (cmo_growth options) = 0 then 2 ^ 64 - 1
              else unat (gp_maximum_blocks_per_chunk (cmo_growth options))))"

text \<open>\<open>n\<close> chunks have been made, and the ones that remain are the \<open>ks\<close>-th, in the order in which they were made.\<close>

definition chunks_grown :: "chunk_manager_options \<Rightarrow> nat \<Rightarrow> nat list \<Rightarrow> chunk_manager \<Rightarrow> bool" where
  "chunks_grown options n ks cm \<longleftrightarrow>
     cm_options cm = options \<and> unat (cm_next_growth_blocks cm) = planned_blocks options n \<and>
     sorted_wrt (<) ks \<and> set ks \<subseteq> {..<n} \<and> map (\<lambda>c. unat (mc_block_count c)) (cm_chunks cm) = map (planned_blocks options) ks"

fun grow_times :: "'p provider \<Rightarrow> nat \<Rightarrow> chunk_manager \<Rightarrow> 'p world \<Rightarrow> (unit, chunk_manager \<times> 'p world) outcome" where
  "grow_times P 0 cm w = (Inr (), (cm, w))"
| "grow_times P (Suc n) cm w =
     (case manager_grow P cm w of (Inl e, s) \<Rightarrow> (Inl e, s) | (Inr _, (cm', w')) \<Rightarrow> grow_times P n cm' w')"

section \<open>The sequence\<close>

lemma min_mult_cap: "1 \<le> f \<Longrightarrow> min (min a c * f) c = min (a * f) (c :: nat)"
proof (cases "a \<le> c")
  case False
  assume "1 \<le> f"
  then have 1: "c \<le> c * f" by simp
  also have "c * f \<le> a * f" using False by (intro mult_le_mono1) simp
  finally have 2: "c \<le> a * f" .
  have "min a c = c" using False by simp
  with 1 2 show ?thesis by (simp only: min.absorb2)
qed simp

lemma planned_blocks_0: "options_ok options \<Longrightarrow> planned_blocks options 0 = unat (cmo_initial_blocks options)"
  by (auto simp: planned_blocks_def options_ok_def word_le_nat_alt)

lemma planned_blocks_Suc:
  assumes "options_ok options" and "unat b = planned_blocks options n"
  shows "unat (calculate_next_growth options b) = planned_blocks options (Suc n)"
proof (cases "gp_mode (cmo_growth options)")
  case GrowthFixed
  then show ?thesis by (simp add: calculate_next_growth_def planned_blocks_def)
next
  case GrowthGeometric
  let ?f = "unat (gp_factor (cmo_growth options))"
  let ?c = "if gp_maximum_blocks_per_chunk (cmo_growth options) = 0 then 2 ^ 64 - 1 else unat (gp_maximum_blocks_per_chunk (cmo_growth options))"
  have f: "1 \<le> ?f" using assms(1) GrowthGeometric by (auto simp: options_ok_def word_le_nat_alt)
  have "unat (calculate_next_growth options b) = min (planned_blocks options n * ?f) ?c"
    using calculate_next_growth_nat [OF assms(1), of b] GrowthGeometric assms(2) by (simp add: next_growth_nat_def Let_def)
  also have "\<dots> = min (unat (cmo_initial_blocks options) * ?f ^ n * ?f) ?c"
    using min_mult_cap [OF f] GrowthGeometric by (simp add: planned_blocks_def)
  finally show ?thesis using GrowthGeometric by (simp add: planned_blocks_def mult.assoc mult.commute [of ?f])
qed

section \<open>Operations\<close>

lemma chunk_create_count: "chunk_create provider bs count al w = (Inr c, w') \<Longrightarrow> mc_block_count c = count"
  by (auto simp: chunk_create_def Let_def free_node_alignment_def dest: make_block_layout_ok(2) [OF _ power_of_two_8]
      split: prod.splits option.splits sum.splits if_splits)

lemma chunk_operation_count:
  "chunk_allocate m c = (r, c') \<Longrightarrow> mc_block_count c' = mc_block_count c"
  "chunk_deallocate m c q = (r', (m', c')) \<Longrightarrow> mc_block_count c' = mc_block_count c"
  by (auto simp: chunk_allocate_def chunk_deallocate_def Let_def split: prod.splits if_splits)

lemma allocate_first_counts: "allocate_first m cs = (r, cs') \<Longrightarrow> map mc_block_count cs' = map mc_block_count cs"
  by (induction cs arbitrary: cs' r) (auto simp: chunk_operation_count(1) split: if_splits prod.splits)

lemma counts_unat: "map mc_block_count cs' = map mc_block_count cs \<Longrightarrow>
   map (\<lambda>c. unat (mc_block_count c)) cs' = map (\<lambda>c. unat (mc_block_count c)) cs"
  by (drule arg_cong [where f = "map unat"]) (simp add: comp_def)

lemma counts_update:
  "mc_block_count c = mc_block_count (cs ! k) \<Longrightarrow> map mc_block_count (cs[k := c]) = map mc_block_count cs"
  by (cases "k < length cs") (simp_all add: map_update list_update_same_conv list_update_beyond)

lemma chunks_grown_cong:
  assumes "chunks_grown options n ks cm" and "map mc_block_count (cm_chunks cm') = map mc_block_count (cm_chunks cm)"
    and "cm_options cm' = cm_options cm" and "cm_next_growth_blocks cm' = cm_next_growth_blocks cm"
  shows "chunks_grown options n ks cm'"
  using assms(1,3,4) counts_unat [OF assms(2)] by (simp add: chunks_grown_def)

lemma sorted_append_last: "sorted_wrt (<) ks \<Longrightarrow> set ks \<subseteq> {..<n} \<Longrightarrow> sorted_wrt (<) (ks @ [n :: nat])"
  by (auto simp: sorted_wrt_append)

lemma manager_grow_grown:
  assumes "chunks_grown options n ks cm" and "options_ok options" and "manager_grow P cm w = (r, (cm', w'))"
  shows "case r of Inl _ \<Rightarrow> cm' = cm
     | Inr k \<Rightarrow> chunks_grown options (Suc n) (ks @ [n]) cm' \<and> k = length (cm_chunks cm) \<and> length (cm_chunks cm') = Suc k"
proof (cases r)
  case (Inl e)
  then show ?thesis using assms(3) by (auto simp: manager_grow_def Let_def split: prod.splits sum.splits if_splits)
next
  case (Inr k)
  then obtain c w1 w2 where c: "chunk_create (Some P) (cmo_block_size (cm_options cm)) (cm_next_growth_blocks cm) (cmo_alignment (cm_options cm)) w1 = (Inr c, w2)"
      "cm' = cm\<lparr>cm_chunks := cm_chunks cm @ [c], cm_next_growth_blocks := calculate_next_growth (cm_options cm) (cm_next_growth_blocks cm)\<rparr>"
      "k = length (cm_chunks cm)"
    using assms(3) by (auto simp: manager_grow_def Let_def split: prod.splits sum.splits if_splits)
  have g: "cm_options cm = options" "unat (cm_next_growth_blocks cm) = planned_blocks options n" "sorted_wrt (<) ks" "set ks \<subseteq> {..<n}"
      "map (\<lambda>c. unat (mc_block_count c)) (cm_chunks cm) = map (planned_blocks options) ks"
    using assms(1) by (simp_all add: chunks_grown_def)
  have "chunks_grown options (Suc n) (ks @ [n]) cm'"
    unfolding chunks_grown_def c(2) using g planned_blocks_Suc [OF assms(2) g(2)] chunk_create_count [OF c(1)] sorted_append_last [OF g(3,4)]
    by (auto simp: less_Suc_eq)
  then show ?thesis using Inr c by simp
qed

lemma manager_create_grown:
  assumes "manager_create P options w = (Inr cm, w')"
  shows "options_ok options" and "chunks_grown options 1 [0] cm"
proof -
  let ?cm = "\<lparr>cm_options = options, cm_chunks = [], cm_block_size = 0, cm_alignment = 0, cm_next_growth_blocks = cmo_initial_blocks options\<rparr>"
  show ok: "options_ok options" using assms by (auto simp: manager_create_def options_ok_def not_less split: if_splits)
  obtain r cm1 w1 where gr: "manager_grow P ?cm w = (r, (cm1, w1))" by (metis prod_cases3)
  have g0: "chunks_grown options 0 [] ?cm" using planned_blocks_0 [OF ok] by (simp add: chunks_grown_def)
  obtain k where k: "r = Inr k" "cm = cm1\<lparr>cm_block_size := mc_block_size (cm_chunks cm1 ! k), cm_alignment := mc_alignment (cm_chunks cm1 ! k)\<rparr>"
    using assms gr by (auto simp: manager_create_def Let_def split: if_splits sum.splits)
  have "chunks_grown options 1 [0] cm1" using manager_grow_grown [OF g0 ok gr] k(1) by simp
  then show "chunks_grown options 1 [0] cm" by (rule chunks_grown_cong) (simp_all add: k(2))
qed

lemma grow_times_grown:
  assumes "chunks_grown options n [0..<n] cm" and "options_ok options" and "grow_times P j cm w = (Inr (), (cm', w'))"
  shows "chunks_grown options (n + j) [0..<n + j] cm'"
  using assms(1,3)
proof (induction j arbitrary: n cm w)
  case (Suc j)
  obtain k cm1 w1 where gr: "manager_grow P cm w = (Inr k, (cm1, w1))" "grow_times P j cm1 w1 = (Inr (), (cm', w'))"
    using Suc.prems(2) by (auto split: prod.splits sum.splits)
  have "chunks_grown options (Suc n) [0..<Suc n] cm1" using manager_grow_grown [OF Suc.prems(1) assms(2) gr(1)] by simp
  from Suc.IH [OF this gr(2)] show ?case by simp
qed simp

section \<open>Runs\<close>

lemma sorted_remove: "sorted_wrt (<) ks \<Longrightarrow> sorted_wrt (<) (remove_nth k ks)" and set_remove: "set (remove_nth k ks) \<subseteq> set ks"
  for ks :: "nat list"
proof -
  show "sorted_wrt (<) (remove_nth k ks)" if "sorted_wrt (<) ks"
  proof -
    have "sorted_wrt (<) (take k ks @ drop k ks)" using that by simp
    then have "sorted_wrt (<) (take k ks @ drop 1 (drop k ks))"
      by (auto simp: sorted_wrt_append sorted_wrt_drop dest: in_set_dropD simp del: append_take_drop_id drop_drop)
    then show ?thesis by (simp add: remove_nth_def)
  qed
  show "set (remove_nth k ks) \<subseteq> set ks" by (auto simp: remove_nth_def dest: in_set_takeD in_set_dropD)
qed

lemma reclaim_grown:
  assumes "chunks_grown options n ks cm" and "reclaim_if_allowed P cm w k = (cm', w')"
  shows "\<exists>ks'. chunks_grown options n ks' cm'"
proof (cases "cm' = cm")
  case False
  then have cm': "cm' = cm\<lparr>cm_chunks := remove_nth k (cm_chunks cm)\<rparr>"
    using assms(2) by (auto simp: reclaim_if_allowed_def Let_def split: if_splits)
  have "map (\<lambda>c. unat (mc_block_count c)) (remove_nth k (cm_chunks cm)) = map (planned_blocks options) (remove_nth k ks)"
    using assms(1) by (simp add: chunks_grown_def remove_nth_def take_map [symmetric] drop_map [symmetric])
  then have "chunks_grown options n (remove_nth k ks) cm'"
    using assms(1) sorted_remove [of ks k] set_remove [of k ks] cm' by (auto simp: chunks_grown_def)
  then show ?thesis by blast
qed (use assms(1) in blast)

lemma manager_deallocate_grown:
  assumes "chunks_grown options n ks cm" and "manager_deallocate P cm w q = (r, (cm', w'))"
  shows "\<exists>ks'. chunks_grown options n ks' cm'"
proof (cases "q = 0 \<or> manager_find_chunk cm q = None")
  case True
  then show ?thesis using assms by (auto simp: manager_deallocate_def split: if_splits)
next
  case False
  then obtain k where k: "q \<noteq> 0" "manager_find_chunk cm q = Some k" by auto
  obtain y m c where d: "chunk_deallocate (w_mem w) (cm_chunks cm ! k) q = (y, (m, c))" by (metis prod_cases3)
  have g: "chunks_grown options n ks (cm\<lparr>cm_chunks := (cm_chunks cm)[k := c]\<rparr>)"
    by (rule chunks_grown_cong [OF assms(1)]) (simp_all add: counts_update chunk_operation_count(2) [OF d])
  show ?thesis
  proof (cases y)
    case (Inl e)
    then show ?thesis using assms(2) k d g by (auto simp: manager_deallocate_def)
  next
    case (Inr u)
    then have "reclaim_if_allowed P (cm\<lparr>cm_chunks := (cm_chunks cm)[k := c]\<rparr>) (w\<lparr>w_mem := m\<rparr>) k = (cm', w')"
      using assms(2) k d by (simp add: manager_deallocate_def)
    from reclaim_grown [OF g this] show ?thesis .
  qed
qed

lemma on_exhaustion_grown:
  assumes g: "chunks_grown options n ks cm" and ok: "options_ok options" and op: "on_exhaustion P policy cm w = (r, (policy', cm', w'))"
  shows "\<exists>n' ks'. chunks_grown options n' ks' cm'"
proof (cases policy)
  case GrowOnExhaustion
  obtain y cm1 w1 where gr: "manager_grow P cm w = (y, (cm1, w1))" by (metis prod_cases3)
  note mg = manager_grow_grown [OF g ok gr]
  show ?thesis
  proof (cases y)
    case (Inl e)
    then show ?thesis using op gr mg g GrowOnExhaustion by auto
  next
    case (Inr k)
    obtain z c where al: "chunk_allocate (w_mem w1) (cm_chunks cm1 ! k) = (z, c)" by (cases "chunk_allocate (w_mem w1) (cm_chunks cm1 ! k)")
    have "cm' = cm1\<lparr>cm_chunks := (cm_chunks cm1)[k := c]\<rparr>" using op gr Inr al GrowOnExhaustion by auto
    moreover have "chunks_grown options (Suc n) (ks @ [n]) cm1" using mg Inr by simp
    then have "chunks_grown options (Suc n) (ks @ [n]) (cm1\<lparr>cm_chunks := (cm_chunks cm1)[k := c]\<rparr>)"
      by (rule chunks_grown_cong) (simp_all add: counts_update chunk_operation_count(1) [OF al])
    ultimately have "chunks_grown options (Suc n) (ks @ [n]) cm'" by simp
    then show ?thesis by blast
  qed
qed (use op g in \<open>auto split: prod.splits sum.splits if_splits\<close>)

lemma chunk_pool_allocate_grown:
  assumes g: "chunks_grown options n ks (cp_manager cp)" and ok: "options_ok options" and op: "chunk_pool_allocate P (w, cp) = (r, (w', cp'))"
  shows "\<exists>n' ks'. chunks_grown options n' ks' (cp_manager cp')"
proof -
  obtain y cs where af: "allocate_first (w_mem w) (cm_chunks (cp_manager cp)) = (y, cs)"
    by (cases "allocate_first (w_mem w) (cm_chunks (cp_manager cp))")
  let ?cm = "(cp_manager cp)\<lparr>cm_chunks := cs\<rparr>"
  have g1: "chunks_grown options n ks ?cm" by (rule chunks_grown_cong [OF g]) (simp_all add: allocate_first_counts [OF af])
  obtain z policy cm2 w2 where oe: "on_exhaustion P (cp_policy cp) ?cm w = (z, (policy, cm2, w2))" by (metis prod_cases4)
  from on_exhaustion_grown [OF g1 ok oe] obtain n' ks' where g2: "chunks_grown options n' ks' cm2" by blast
  have "cp_manager cp' = ?cm \<or> cp_manager cp' = cm2"
    using op af oe by (cases y) (auto simp: chunk_pool_allocate_def manager_try_allocate_def split: if_splits)
  with g1 g2 show ?thesis by metis
qed

lemma chunk_pool_deallocate_grown:
  assumes g: "chunks_grown options n ks (cp_manager cp)" and op: "chunk_pool_deallocate P q (w, cp) = (r, (w', cp'))"
  shows "\<exists>ks'. chunks_grown options n ks' (cp_manager cp')"
proof (cases "q \<noteq> 0 \<and> manager_find_chunk (cp_manager cp) q \<noteq> None")
  case True
  obtain y cm w1 where d: "manager_deallocate P (cp_manager cp) w q = (y, (cm, w1))" by (metis prod_cases3)
  have "cp' = cp\<lparr>cp_manager := cm\<rparr>" using op d True by (auto simp: chunk_pool_deallocate_def)
  then show ?thesis using manager_deallocate_grown [OF g d] by simp
next
  case False
  then have "cp_manager cp' = cp_manager cp" using op by (auto simp: chunk_pool_deallocate_def split: if_splits prod.splits)
  then show ?thesis using g by auto
qed

lemma chunk_pool_run_grown:
  assumes "client_run (chunk_pool_allocate P) (chunk_pool_deallocate P) chunk_pool_poke chunk_pool_sz s0 s H"
    and "chunks_grown options n0 ks0 (cp_manager (snd s0))" and ok: "options_ok options"
  shows "\<exists>n ks. chunks_grown options n ks (cp_manager (snd s))"
  using assms(1)
proof (induction rule: client_run.induct)
  case run_start
  then show ?case using assms(2) by blast
next
  case (run_alloc s H q s')
  then show ?case using chunk_pool_allocate_grown [OF _ ok, of _ _ "snd s" P "fst s" "Inr q" "fst s'" "snd s'"] by auto
next
  case (run_alloc_throw s H e s')
  then show ?case using chunk_pool_allocate_grown [OF _ ok, of _ _ "snd s" P "fst s" "Inl e" "fst s'" "snd s'"] by auto
next
  case (run_free s H q r s')
  then show ?case using chunk_pool_deallocate_grown [of options _ _ "snd s" P q "fst s" r "fst s'" "snd s'"] by (simp; metis)
next
  case (run_poke s H q x b)
  then show ?case by (simp add: chunk_pool_poke_def)
qed

end
