(* ===== verification/Chunk_Pool_Properties.thy ===== *)
theory Chunk_Pool_Properties
  imports Chunk_Pool_Runs Chunk_Growth
begin

text \<open>
  The properties of the chunk, the chunk manager and the chunk pools. They hold for every memory
  provider that keeps the contract \<open>memory_provider\<close>; the instances use \<^verbatim>\<open>NewDeleteMemoryProvider\<close>.
\<close>

section \<open>A concrete pool\<close>

definition demo_world :: "sys_heap world" where
  "demo_world = \<lparr>w_mem = (\<lambda>_. 0), w_prov = bump_heap, w_meta = (\<lambda>_. True), w_tick = 0\<rparr>"

definition demo_chunk_options :: chunk_manager_options where
  "demo_chunk_options =
     \<lparr>cmo_block_size = 16, cmo_initial_blocks = 1, cmo_alignment = 8,
      cmo_growth = \<lparr>gp_mode = GrowthGeometric, gp_factor = 2, gp_maximum_blocks_per_chunk = 0\<rparr>,
      cmo_spare_empty_chunks = 1\<rparr>"

definition demo_chunk_pool :: "exhaustion_policy \<Rightarrow> chunk_pool" where
  "demo_chunk_pool policy = projr (fst (chunk_pool_create new_delete_provider demo_chunk_options policy demo_world))"

definition demo_chunk_world :: "exhaustion_policy \<Rightarrow> sys_heap world" where
  "demo_chunk_world policy = snd (chunk_pool_create new_delete_provider demo_chunk_options policy demo_world)"

lemma demo_chunk_layout:
  "make_block_layout 16 1 8 False free_node_size free_node_alignment 0 =
     Inr \<lparr>block_size = 16, block_count = 1, alignment = 8, payload_offset = 0, block_stride = 16, storage_size = 16\<rparr>"
  by (simp add: make_block_layout_def validate_alignment_def round_up_def checked_multiply_def
      size_max_def free_node_size_def free_node_alignment_def)

lemma demo_chunk_created:
  "chunk_pool_create new_delete_provider demo_chunk_options policy demo_world =
     (Inr (demo_chunk_pool policy), demo_chunk_world policy)"
proof -
  have "\<not> isl (fst (chunk_pool_create new_delete_provider demo_chunk_options policy demo_world))"
    by (simp add: chunk_pool_create_def manager_create_def demo_chunk_options_def manager_grow_def meta_alloc_def
        demo_world_def chunk_create_def demo_chunk_layout new_delete_provider_def new_delete_allocate_def
        is_power_of_two_def needs_extended_alignment_def default_new_alignment_def sys_new_def Let_def
        placeable_def bump_place_def empty_sys_heap_def no_wrap_def max_1_id split: prod.splits)
  then show ?thesis
    by (cases "chunk_pool_create new_delete_provider demo_chunk_options policy demo_world")
      (auto simp: demo_chunk_pool_def demo_chunk_world_def)
qed

lemma demo_world_ok: "sys_ok (w_prov demo_world)"
  by (simp add: demo_world_def)

definition demo_chunk_next :: "exhaustion_policy \<Rightarrow> sys_heap world \<times> chunk_pool" where
  "demo_chunk_next policy = snd (chunk_pool_allocate new_delete_provider (demo_chunk_world policy, demo_chunk_pool policy))"

definition demo_block :: "exhaustion_policy \<Rightarrow> addr" where
  "demo_block policy = projr (fst (chunk_pool_allocate new_delete_provider (demo_chunk_world policy, demo_chunk_pool policy)))"

lemma demo_chunk_next:
  assumes "fallback_list policy = []"
  shows "chunk_pool_allocate new_delete_provider (demo_chunk_world policy, demo_chunk_pool policy) =
       (Inr (demo_block policy), demo_chunk_next policy)"
    and "demo_block policy \<noteq> 0"
    and "chunk_pool_inv new_delete_live sys_ok (new_delete_live bump_heap) (demo_chunk_next policy) [[]]"
    and "cp_policy (snd (demo_chunk_next policy)) = policy"
proof -
  let ?w = "demo_chunk_world policy" and ?cp = "demo_chunk_pool policy"
  note c = new_delete.chunk_pool_created [OF demo_world_ok demo_chunk_created assms]
  have inv: "chunk_pool_inv new_delete_live sys_ok (new_delete_live bump_heap) (?w, ?cp) [[0]]"
    using c(1) by (simp add: demo_chunk_options_def demo_world_def)
  note mi = chunk_pool_invD(1) [OF inv]
  note d = chunk_setD [OF manager_inv_chunks [OF mi]]
  obtain c0 where c0: "cm_chunks (cp_manager ?cp) = [c0]" using d(2) by (cases "cm_chunks (cp_manager ?cp)") auto
  have ci: "chunk_inv (w_mem ?w) c0 [0]" using d(4) [of 0] c0 by simp
  have fb: "mc_free_blocks c0 \<noteq> 0" using chunk_free_blocks_0 [OF ci] by simp
  obtain a c' where al: "chunk_allocate (w_mem ?w) c0 = (a, c')" by (cases "chunk_allocate (w_mem ?w) c0")
  note ca = chunk_allocate_inv [OF ci al]
  have "0 < length (cm_chunks (cp_manager ?cp))" "[[0 :: nat]] ! 0 = 0 # []" "chunk_same_config (cm_chunks (cp_manager ?cp) ! 0) c'"
    using c0 ca(3) by simp_all
  note tk = new_delete.manager_take_block [OF mi this(1,2) ca(2) this(3)]
  have nn: "chunk_block c0 0 \<noteq> 0" using tk(2) c0 by simp
  have res: "chunk_pool_allocate new_delete_provider (?w, ?cp) =
      (Inr (chunk_block c0 0), (?w, ?cp\<lparr>cp_manager := (cp_manager ?cp)\<lparr>cm_chunks := [c']\<rparr>\<rparr>))"
    using fb al ca(1) nn c0 by (simp add: chunk_pool_allocate_def manager_try_allocate_def)
  show "chunk_pool_allocate new_delete_provider (?w, ?cp) = (Inr (demo_block policy), demo_chunk_next policy)"
    by (simp add: demo_block_def demo_chunk_next_def res)
  show "demo_block policy \<noteq> 0" using nn by (simp add: demo_block_def res)
  show "cp_policy (snd (demo_chunk_next policy)) = policy" using c(5) by (simp add: demo_chunk_next_def res)
  have "chunk_pool_inv new_delete_live sys_ok (new_delete_live bump_heap)
      (?w, \<lparr>cp_manager = (cp_manager ?cp)\<lparr>cm_chunks := [c']\<rparr>, cp_policy = cp_policy ?cp\<rparr>) [[]]"
    using tk(1) manager_rest_cong [OF tk(5), of new_delete_live ?w] c0
    by (intro chunk_pool_inv_manager [OF inv]) simp_all
  then show "chunk_pool_inv new_delete_live sys_ok (new_delete_live bump_heap) (demo_chunk_next policy) [[]]"
    by (simp add: demo_chunk_next_def res) (cases ?cp, simp)
qed

lemma demo_chunk_run:
  assumes "fallback_list policy = []"
  shows "client_run (chunk_pool_allocate new_delete_provider) (chunk_pool_deallocate new_delete_provider) chunk_pool_poke
     chunk_pool_sz (demo_chunk_world policy, demo_chunk_pool policy) (demo_chunk_next policy) {demo_block policy}"
  using run_alloc [OF run_start [of "chunk_pool_allocate new_delete_provider" "chunk_pool_deallocate new_delete_provider"
      chunk_pool_poke chunk_pool_sz] demo_chunk_next(1) [OF assms]] demo_chunk_next(2) [OF assms]
  by simp

section \<open>Safety of every run\<close>

text \<open>
  C15: for every provider that keeps its contract, every option set, every exhaustion
  policy and every pattern of metadata allocation failures: in every state a well-behaved client can
  reach, each block it holds (from a chunk or from the heap fallback) is non-null, aligned, at least
  as big as requested, overlaps no other block it holds, and can be returned without an exception.
\<close>

theorem chunk_pool_client_safety:
  assumes "memory_provider P live ok" and "ok (w_prov w)"
    and "chunk_pool_create P options policy w = (Inr cp, w0)" and "fallback_list policy = []"
    and "client_run (chunk_pool_allocate P) (chunk_pool_deallocate P) chunk_pool_poke chunk_pool_sz (w0, cp) s H"
    and "q \<in> H"
  shows "q \<noteq> 0 \<and> unat (max (cmo_alignment options) 8) dvd unat q \<and> cmo_block_size options \<le> chunk_pool_sz s \<and>
     (\<forall>r \<in> H. r \<noteq> q \<longrightarrow> extent q (chunk_pool_sz s) \<inter> extent r (chunk_pool_sz s) = {}) \<and>
     (\<exists>s'. chunk_pool_deallocate P q s = (Inr (), s'))"
proof -
  note c = memory_provider.chunk_pool_created [OF assms(1-4)]
  obtain Fs where F: "chunk_pool_inv live ok (live (w_prov w)) s Fs" "H = chunk_pool_blocks (snd s) Fs"
      "cm_options (cp_manager (snd s)) = options"
    using memory_provider.chunk_pool_run [OF assms(1,5) c(1,2,4)] c(3) by blast
  obtain w1 cp1 where s: "s = (w1, cp1)" by (cases s)
  note inv = F(1) [unfolded s]
  note mi = manager_invD [OF chunk_pool_invD(1) [OF inv]]
  have qb: "q \<in> chunk_pool_blocks cp1 Fs" using assms(6) F(2) s by simp
  obtain r w2 cp2 where d: "chunk_pool_deallocate P q (w1, cp1) = (r, (w2, cp2))" by (metis prod_cases3)
  have "r = Inr ()" using memory_provider.chunk_pool_deallocate_live [OF assms(1) inv qb d] by blast
  then show ?thesis
    using memory_provider.chunk_pool_block_facts [OF assms(1) inv qb] mi(4,6) F(2,3) d
      memory_provider.chunk_pool_blocks_apart [OF assms(1) inv qb]
    by (auto simp: s chunk_pool_sz_def)
qed

theorem chunk_pool_client_safety_witness:
  "\<exists>q s'. q \<noteq> 0 \<and> unat (max (8 :: size_t) 8) dvd unat q \<and>
     chunk_pool_deallocate new_delete_provider q (demo_chunk_next GrowOnExhaustion) = (Inr (), s')"
  using chunk_pool_client_safety [OF new_delete.memory_provider_axioms demo_world_ok demo_chunk_created _ demo_chunk_run,
      of GrowOnExhaustion "demo_block GrowOnExhaustion"]
  by (auto simp: demo_chunk_options_def)

text \<open>
  C16: whatever the client did (including holding on to blocks), destruction of the pool
  returns every chunk and every fallback block to the provider with the size and alignment it was
  requested with: afterwards the provider's grants are exactly those from before the construction.
\<close>

theorem chunk_pool_no_leak:
  assumes "memory_provider P live ok" and "ok (w_prov w)"
    and "chunk_pool_create P options policy w = (Inr cp, w0)" and "fallback_list policy = []"
    and "client_run (chunk_pool_allocate P) (chunk_pool_deallocate P) chunk_pool_poke chunk_pool_sz (w0, cp) (w1, cp1) H"
  shows "ok (w_prov (chunk_pool_destroy P cp1 w1)) \<and> live (w_prov (chunk_pool_destroy P cp1 w1)) = live (w_prov w)"
proof -
  note c = memory_provider.chunk_pool_created [OF assms(1-4)]
  obtain Fs where "chunk_pool_inv live ok (live (w_prov w)) (w1, cp1) Fs"
    using memory_provider.chunk_pool_run [OF assms(1,5) c(1,2,4)] by blast
  from memory_provider.chunk_pool_destroy_inv [OF assms(1) this] show ?thesis by blast
qed

theorem chunk_pool_no_leak_witness:
  "\<exists>w1 cp1. demo_chunk_next GrowOnExhaustion = (w1, cp1) \<and>
     new_delete_live (w_prov (chunk_pool_destroy new_delete_provider cp1 w1)) = {}"
proof -
  obtain w1 cp1 where n: "demo_chunk_next GrowOnExhaustion = (w1, cp1)" by (cases "demo_chunk_next GrowOnExhaustion")
  have "new_delete_live (w_prov demo_world) = {}"
    by (simp add: demo_world_def new_delete_live_def empty_sys_heap_def)
  then show ?thesis
    using chunk_pool_no_leak [OF new_delete.memory_provider_axioms demo_world_ok demo_chunk_created _
        demo_chunk_run [of GrowOnExhaustion, unfolded n]] n by simp
qed

lemma grow_on_exhaustion:
  assumes "memory_provider P live ok" and "chunk_pool_inv live ok L (w, cp) Fs" and "cp_policy cp = GrowOnExhaustion"
    and "on_exhaustion P GrowOnExhaustion (cp_manager cp) w = (r, (policy, cm', w'))"
  shows "policy = GrowOnExhaustion \<and>
     (case r of
        Inl e \<Rightarrow> cm' = cp_manager cp \<and> live (w_prov w') = live (w_prov w)
      | Inr q \<Rightarrow> q \<noteq> 0 \<and> (\<exists>c. cm_chunks cm' = cm_chunks (cp_manager cp) @ [c] \<and>
          mc_block_count c = cm_next_growth_blocks (cp_manager cp) \<and> q = mc_storage c))"
proof -
  let ?cm = "cp_manager cp"
  note mi = chunk_pool_invD(1) [OF assms(2)] and ex = assms(4)
  obtain g cm1 w1 where gr: "manager_grow P ?cm w = (g, (cm1, w1))" by (metis prod_cases3)
  have pol: "policy = GrowOnExhaustion" using ex by (auto split: prod.splits sum.splits)
  note og = memory_provider.on_exhaustion_grow [OF assms(1,2,3) ex]
  from memory_provider.manager_grow_inv [OF assms(1) mi gr] show ?thesis
  proof (elim disjE exE conjE)
    fix e assume e: "g = Inl e" "cm1 = ?cm" "live (w_prov w1) = live (w_prov w)"
    have "r = Inl e" "cm' = ?cm" "w' = w1" using ex gr e by auto
    then show ?thesis using e pol by simp
  next
    fix c
    let ?n = "unat (cm_next_growth_blocks ?cm)" and ?k = "length (cm_chunks ?cm)"
    assume c: "g = Inr ?k" "cm_chunks cm1 = cm_chunks ?cm @ [c]" "manager_inv live ok w1 cm1 (Fs @ [[0..<?n]])"
      "mc_block_count c = cm_next_growth_blocks ?cm"
    have "0 < ?n" using manager_invD(2) [OF mi] by (simp add: unat_gt_0)
    moreover have "length Fs = ?k" using chunk_setD(2) [OF manager_inv_chunks [OF mi]] .
    ultimately have ci: "chunk_inv (w_mem w1) c (0 # [1..<?n])"
      using chunk_setD(4) [OF manager_inv_chunks [OF c(3)], of ?k] c(2) by (simp add: nth_append upt_conv_Cons)
    obtain b c' where al: "chunk_allocate (w_mem w1) c = (b, c')" by (cases "chunk_allocate (w_mem w1) c")
    note ca = chunk_allocate_inv [OF ci al]
    have "r = Inr (chunk_block c 0)" "cm_chunks cm' = cm_chunks ?cm @ [c']"
      using ex gr c al ca(1) by auto
    then show ?thesis using og pol ca(3) c(4) by (auto simp: chunk_same_config_def block_at_def)
  qed
qed

text \<open>
  C17: when every chunk is full, the four policies do what they promise. \<^verbatim>\<open>NullableChunkPool\<close>
  returns null and \<^verbatim>\<open>ThrowingChunkPool\<close> throws \<^verbatim>\<open>bad_alloc\<close>, both without any change;
  \<^verbatim>\<open>GrowingChunkPool\<close> adds exactly one chunk, of the planned size, and returns a new block, or throws
  with the pool and the provider's grants as before; \<^verbatim>\<open>HeapFallbackChunkPool\<close> records one new heap
  block, or throws with the pool and the provider's grants as before, also when recording fails.
\<close>

theorem chunk_pool_exhaustion:
  assumes "memory_provider P live ok" and "chunk_pool_inv live ok L (w, cp) Fs" and "list_all (\<lambda>F. F = []) Fs"
    and "chunk_pool_allocate P (w, cp) = (r, (w', cp'))"
  shows "case cp_policy cp of
       ReturnNullOnExhaustion \<Rightarrow> r = Inr 0 \<and> w' = w \<and> cp' = cp
     | ThrowOnExhaustion \<Rightarrow> r = Inl BadAlloc \<and> w' = w \<and> cp' = cp
     | GrowOnExhaustion \<Rightarrow>
         (case r of
            Inl e \<Rightarrow> cp' = cp \<and> live (w_prov w') = live (w_prov w)
          | Inr q \<Rightarrow> q \<noteq> 0 \<and> (\<exists>c. cm_chunks (cp_manager cp') = cm_chunks (cp_manager cp) @ [c] \<and>
              mc_block_count c = cm_next_growth_blocks (cp_manager cp) \<and> q = mc_storage c))
     | HeapFallbackOnExhaustion fs \<Rightarrow>
         cp_manager cp' = cp_manager cp \<and>
         (case r of
            Inl e \<Rightarrow> cp' = cp \<and> live (w_prov w') = live (w_prov w)
          | Inr q \<Rightarrow> q \<noteq> 0 \<and> cp_policy cp' = HeapFallbackOnExhaustion (q # fs))"
proof -
  let ?cm = "cp_manager cp"
  note mi = chunk_pool_invD(1) [OF assms(2)]
  have "manager_try_allocate (w_mem w) ?cm = (Inr 0, ?cm)"
  proof -
    obtain a cm1 where ta: "manager_try_allocate (w_mem w) ?cm = (a, cm1)" by (cases "manager_try_allocate (w_mem w) ?cm")
    have "allocate_first (w_mem w) (cm_chunks ?cm) = (Inr 0, cm_chunks ?cm)"
      using allocate_first_spec [of "w_mem w" "cm_chunks ?cm" Fs] manager_inv_chunks [OF mi] assms(3)
      by (auto simp: chunk_set_def list_all_length list_all2_lengthD)
    then show ?thesis by (simp add: manager_try_allocate_def)
  qed
  then obtain policy cm' where ex: "on_exhaustion P (cp_policy cp) ?cm w = (r, (policy, cm', w'))"
    and cp': "cp' = \<lparr>cp_manager = cm', cp_policy = policy\<rparr>"
    using assms(4) by (auto simp: chunk_pool_allocate_def split: prod.splits)
  show ?thesis
  proof (cases "cp_policy cp")
    case GrowOnExhaustion
    then show ?thesis
      using grow_on_exhaustion [OF assms(1,2) _ ex [unfolded GrowOnExhaustion]] cp' by (cases r; cases cp) auto
  next
    case (HeapFallbackOnExhaustion fs)
    note fb = memory_provider.on_exhaustion_fallback [OF assms(1,2) HeapFallbackOnExhaustion ex [unfolded HeapFallbackOnExhaustion]]
    have inv': "chunk_pool_inv live ok L (w', cp') Fs" using fb(1) cp' by simp
    have "live (w_prov w') = live (w_prov w)" if "cp' = cp" "r = Inl e" for e
    proof -
      have ok: "ok (w_prov w)" using chunk_setD(1) [OF manager_inv_chunks [OF mi]] .
      have bs: "cm_block_size ?cm \<noteq> 0" using manager_invD(5) [OF mi] by auto
      note pl = memory_provider.allocate_Inl [OF assms(1) ok] and
        rt = memory_provider.allocate_deallocate [OF assms(1) ok bs manager_invD(7) [OF mi]]
      show ?thesis
        using ex that(2) HeapFallbackOnExhaustion pl rt
        by (auto simp: meta_alloc_def split: prod.splits sum.splits if_splits)
    qed
    then show ?thesis using fb(2,3) cp' HeapFallbackOnExhaustion by (cases r; cases cp) auto
  qed (use ex cp' in auto)
qed

theorem chunk_pool_exhaustion_witness:
  "\<exists>w cp. demo_chunk_next ThrowOnExhaustion = (w, cp) \<and>
     chunk_pool_allocate new_delete_provider (w, cp) = (Inl BadAlloc, (w, cp))"
proof -
  obtain w cp where n: "demo_chunk_next ThrowOnExhaustion = (w, cp)" by (cases "demo_chunk_next ThrowOnExhaustion")
  obtain r w' cp' where al: "chunk_pool_allocate new_delete_provider (w, cp) = (r, (w', cp'))" by (metis prod_cases3)
  have "chunk_pool_inv new_delete_live sys_ok (new_delete_live bump_heap) (w, cp) [[]]" "cp_policy cp = ThrowOnExhaustion"
    using demo_chunk_next(3,4) [of ThrowOnExhaustion] n by simp_all
  with chunk_pool_exhaustion [OF new_delete.memory_provider_axioms this(1) _ al] show ?thesis using n al by simp
qed

text \<open>
  Returning any non-null pointer that the client does not hold (a foreign pointer, an
  interior pointer, or a block already returned) throws \<^verbatim>\<open>InvalidPoolPointer\<close> or \<^verbatim>\<open>DoubleFreeError\<close> and
  changes nothing: no chunk is reclaimed and the memory is as before.
\<close>

theorem chunk_pool_rejects_foreign:
  assumes "memory_provider P live ok" and "ok (w_prov w)"
    and "chunk_pool_create P options policy w = (Inr cp, w0)" and "fallback_list policy = []"
    and "client_run (chunk_pool_allocate P) (chunk_pool_deallocate P) chunk_pool_poke chunk_pool_sz (w0, cp) s H"
    and "q \<noteq> 0" and "q \<notin> H"
  shows "chunk_pool_deallocate P q s = (Inl InvalidPoolPointer, s) \<or>
     chunk_pool_deallocate P q s = (Inl DoubleFreeError, s)"
proof -
  note c = memory_provider.chunk_pool_created [OF assms(1-4)]
  obtain Fs where F: "chunk_pool_inv live ok (live (w_prov w)) s Fs" "H = chunk_pool_blocks (snd s) Fs"
    using memory_provider.chunk_pool_run [OF assms(1,5) c(1,2,4)] by blast
  obtain w1 cp1 where s: "s = (w1, cp1)" by (cases s)
  show ?thesis
    using memory_provider.chunk_pool_deallocate_rejects [OF assms(1) F(1) [unfolded s] assms(6)] assms(7) F(2)
    by (simp add: s)
qed

theorem chunk_pool_rejects_foreign_witness:
  "\<exists>q e. q \<noteq> demo_block GrowOnExhaustion \<and>
     chunk_pool_deallocate new_delete_provider q (demo_chunk_next GrowOnExhaustion) = (Inl e, demo_chunk_next GrowOnExhaustion)"
proof -
  define q where "q = (if demo_block GrowOnExhaustion = 1 then 2 else (1 :: addr))"
  have "q \<noteq> 0" "q \<notin> {demo_block GrowOnExhaustion}" by (auto simp: q_def)
  from chunk_pool_rejects_foreign [OF new_delete.memory_provider_axioms demo_world_ok demo_chunk_created _ demo_chunk_run this]
  have "\<exists>e. chunk_pool_deallocate new_delete_provider q (demo_chunk_next GrowOnExhaustion) = (Inl e, demo_chunk_next GrowOnExhaustion)"
    by auto
  with \<open>q \<notin> _\<close> show ?thesis by auto
qed

section \<open>Reclamation and growth\<close>

text \<open>
  C18: reclamation keeps the number of completely free chunks bounded: in every reachable
  state a chunk pool holds at most \<^verbatim>\<open>spare_empty_chunks\<close> of them (one, when that option is zero: the
  initial chunk).
\<close>

theorem spare_chunks_bounded:
  assumes "memory_provider P live ok" and "ok (w_prov w)"
    and "chunk_pool_create P options policy w = (Inr cp, w0)" and "fallback_list policy = []"
    and "client_run (chunk_pool_allocate P) (chunk_pool_deallocate P) chunk_pool_poke chunk_pool_sz (w0, cp) s H"
  shows "length (filter chunk_empty (cm_chunks (cp_manager (snd s)))) \<le> max 1 (unat (cmo_spare_empty_chunks options))"
proof -
  note c = memory_provider.chunk_pool_created [OF assms(1-4)]
  show ?thesis
    using memory_provider.chunk_pool_run [OF assms(1,5) c(1,2,4)] c(3)
    by (auto simp: spares_bounded_def empty_chunks_def)
qed

theorem spare_chunks_bounded_witness:
  "length (filter chunk_empty (cm_chunks (cp_manager (snd (demo_chunk_next GrowOnExhaustion))))) \<le> max 1 (unat (1 :: size_t))"
  using spare_chunks_bounded [OF new_delete.memory_provider_axioms demo_world_ok demo_chunk_created _ demo_chunk_run, of GrowOnExhaustion]
  by (simp add: demo_chunk_options_def)








section \<open>The chunk as a fixed pool\<close>

lemma chunk_refines_allocate:
  assumes "chunk_inv m c F"
  shows "case chunk_allocate m c of (r, c') \<Rightarrow>
       pool_allocate m (chunk_as_pool c) = (r, (m, chunk_as_pool c')) \<and> (\<exists>F'. chunk_inv m c' F')"
proof -
  note inv = assms [unfolded chunk_inv_def]
  show ?thesis
  proof (cases F)
    case Nil
    have "fp_statistics (chunk_as_pool c) = zero_statistics" by (simp add: chunk_as_pool_def)
    then show ?thesis
      using chunk_allocate_exhausted [of m c] pool_allocate_exhausted [OF inv [unfolded Nil]] assms Nil
      by (auto simp: tracking_options_def chunk_as_pool_def)
  next
    case (Cons i G)
    then show ?thesis using chunk_allocate_block [OF assms [unfolded Cons]] chunk_allocate_inv(2) [OF assms [unfolded Cons]] by auto
  qed
qed

lemma chunk_refines_deallocate:
  assumes "chunk_inv m c F"
  shows "case chunk_deallocate m c q of (r, (m', c')) \<Rightarrow>
       pool_deallocate m (chunk_as_pool c) q = (r, (m', chunk_as_pool c')) \<and> (\<exists>F'. chunk_inv m' c' F')"
proof -
  note inv = assms [unfolded chunk_inv_def]
  consider "q = 0" | "q \<noteq> 0" "\<And>i. i < unat (mc_block_count c) \<Longrightarrow> q \<noteq> chunk_block c i"
    | i where "i < unat (mc_block_count c)" "q = chunk_block c i" by blast
  then show ?thesis
  proof cases
    case 1
    then show ?thesis using assms by auto
  next
    case 2
    then show ?thesis
      using chunk_deallocate_foreign [OF assms 2] pool_deallocate_foreign [OF pool_invD(1) [OF inv] 2(1), of m] assms by auto
  next
    case (3 i)
    show ?thesis
    proof (cases "i \<in> set F")
      case True
      then show ?thesis
        using chunk_deallocate_free [OF assms True] pool_deallocate_free_block [OF inv _ True] assms 3
        by (auto simp: tracking_options_def)
    next
      case False
      obtain r m' c' where cd: "chunk_deallocate m c (chunk_block c i) = (r, (m', c'))" by (metis prod_cases3)
      note st = chunk_deallocate_live [OF assms 3(1) False cd]
      have "pool_deallocate m (chunk_as_pool c) (chunk_block c i) =
          (Inr (), (pool_free_mem (chunk_as_pool c) i m, pool_freed (chunk_as_pool c) i))"
        using pool_deallocate_live [OF inv _ False] 3(1) by simp
      moreover have "pool_free_mem (chunk_as_pool c) i m = m'" using st(4) by (simp add: pool_free_mem_def tracking_options_def)
      ultimately show ?thesis using cd st 3(2) chunk_freed_pool [OF assms 3(1) False cd] by auto
    qed
  qed
qed

text \<open>
  C20: \<^verbatim>\<open>MemoryChunk\<close> refines \<^verbatim>\<open>FixedSizeMemoryPool\<close> in diagnostic mode: under the
  correspondence that reads its state bytes as block states, \<^verbatim>\<open>allocate\<close> and \<^verbatim>\<open>deallocate\<close> (of any pointer,
  with the same exceptions) give the same result, the same memory and corresponding states.
\<close>

theorem chunk_refines_pool:
  assumes "chunk_inv m c F"
  shows "(case chunk_allocate m c of (r, c') \<Rightarrow>
       pool_allocate m (chunk_as_pool c) = (r, (m, chunk_as_pool c')) \<and> (\<exists>F'. chunk_inv m c' F')) \<and>
     (case chunk_deallocate m c q of (r, (m', c')) \<Rightarrow>
       pool_deallocate m (chunk_as_pool c) q = (r, (m', chunk_as_pool c')) \<and> (\<exists>F'. chunk_inv m' c' F'))"
  by (rule conjI [OF chunk_refines_allocate [OF assms] chunk_refines_deallocate [OF assms]])

theorem chunk_refines_pool_witness:
  "\<exists>c. fst (pool_deallocate (w_mem (demo_chunk_world GrowOnExhaustion)) (chunk_as_pool c) 5) =
       fst (chunk_deallocate (w_mem (demo_chunk_world GrowOnExhaustion)) c 5) \<and>
     cm_chunks (cp_manager (demo_chunk_pool GrowOnExhaustion)) = [c]"
proof -
  note c = new_delete.chunk_pool_created [OF demo_world_ok demo_chunk_created, of GrowOnExhaustion]
  note d = chunk_setD [OF manager_inv_chunks [OF chunk_pool_invD(1) [OF c(1)]]]
  obtain c0 where c0: "cm_chunks (cp_manager (demo_chunk_pool GrowOnExhaustion)) = [c0]"
    using d(2) by (cases "cm_chunks (cp_manager (demo_chunk_pool GrowOnExhaustion))") auto
  have "\<exists>F. chunk_inv (w_mem (demo_chunk_world GrowOnExhaustion)) c0 F" using d(4) [of 0] c0 by auto
  then obtain F where "chunk_inv (w_mem (demo_chunk_world GrowOnExhaustion)) c0 F" by blast
  from chunk_refines_pool [OF this, of 5] c0 show ?thesis by (auto split: prod.splits)
qed

end
