(* ===== verification/Size_Class_Selector.thy ===== *)
theory Size_Class_Selector
  imports Pool_Prelude
begin

text \<open>
  \<^verbatim>\<open>include/memory_pool/size_class_selector.hpp\<close> and \<^verbatim>\<open>src/size_class_selector.cpp\<close>: the map from a
  request to the smallest power-of-two size class that can serve it. The selector is its list of
  classes; \<^verbatim>\<open>std::lower_bound\<close> is the binary search of the standard library.
\<close>

section \<open>Operations\<close>

type_synonym size_class_selector = "size_t list"

definition pointer_size :: size_t where
  "pointer_size = 8"

fun check_size_classes :: "size_t \<Rightarrow> size_t list \<Rightarrow> unit result" where
  "check_size_classes previous [] = Inr ()"
| "check_size_classes previous (class_size # rest) =
     (if \<not> is_power_of_two class_size \<or> class_size < pointer_size then Inl InvalidArgument
      else if class_size \<le> previous then Inl InvalidArgument
      else check_size_classes class_size rest)"

definition selector_create :: "size_t list \<Rightarrow> size_class_selector result" where
  "selector_create size_classes =
     (if size_classes = [] then Inl InvalidArgument
      else bind_result (check_size_classes 0 size_classes) (\<lambda>_. Inr size_classes))"

definition default_size_classes :: "size_t list" where
  "default_size_classes = [8, 16, 32, 64, 128, 256, 512, 1024, 2048, 4096]"

function lower_bound :: "size_t list \<Rightarrow> size_t \<Rightarrow> nat \<Rightarrow> nat \<Rightarrow> nat" where
  "lower_bound xs v first count =
     (if count = 0 then first
      else let step = count div 2; it = first + step
           in if xs ! it < v then lower_bound xs v (Suc it) (count - (step + 1))
              else lower_bound xs v first step)"
  by pat_completeness auto
termination
  by (relation "measure (\<lambda>(xs, v, first, count). count)") auto

declare lower_bound.simps [simp del]

definition selector_select :: "size_class_selector \<Rightarrow> size_t \<Rightarrow> size_t \<Rightarrow> nat option result" where
  "selector_select size_classes sz al =
     (if \<not> is_power_of_two al then Inl InvalidArgument
      else let normalized_size = max sz 1;
               required_class = max normalized_size al;
               selected = lower_bound size_classes required_class 0 (length size_classes)
           in if selected = length size_classes then Inr None else Inr (Some selected))"

definition selector_class_size :: "size_class_selector \<Rightarrow> nat \<Rightarrow> size_t result" where
  "selector_class_size size_classes index =
     (if index \<ge> length size_classes then Inl OutOfRange else Inr (size_classes ! index))"

definition maximum_size_class :: "size_class_selector \<Rightarrow> size_t" where
  "maximum_size_class size_classes = last size_classes"

section \<open>Facts\<close>

text \<open>On a sorted list the binary search finds the first element that is not smaller.\<close>

lemma lower_bound_spec:
  assumes "sorted xs" and "first + count \<le> length xs"
    and "\<And>i. i < first \<Longrightarrow> xs ! i < v" and "\<And>i. first + count \<le> i \<Longrightarrow> i < length xs \<Longrightarrow> \<not> xs ! i < v"
  shows "lower_bound xs v first count \<le> length xs \<and>
     (\<forall>i < lower_bound xs v first count. xs ! i < v) \<and>
     (\<forall>i < length xs. lower_bound xs v first count \<le> i \<longrightarrow> v \<le> xs ! i)"
  using assms
proof (induction xs v first count rule: lower_bound.induct)
  case (1 xs v first count)
  show ?case
  proof (cases "count = 0")
    case True
    then have "lower_bound xs v first count = first" by (subst lower_bound.simps) simp
    then show ?thesis using True 1(4-6) by (auto simp: not_less)
  next
    case False
    define step where "step = count div 2"
    define it where "it = first + step"
    have lt: "step < count" "it < length xs" using False 1(4) by (auto simp: step_def it_def)
    have mono: "xs ! i \<le> xs ! j" if "i \<le> j" "j < length xs" for i j using 1(3) that by (rule sorted_nth_mono)
    show ?thesis
    proof (cases "xs ! it < v")
      case True
      have "lower_bound xs v first count = lower_bound xs v (Suc it) (count - (step + 1))"
        using False True by (subst lower_bound.simps) (simp add: Let_def step_def it_def)
      moreover have "xs ! i < v" if "i < Suc it" for i using mono [of i it] lt(2) that True by auto
      ultimately show ?thesis
        using 1(1) [OF False step_def it_def True 1(3)] 1(4-6) lt by (simp add: it_def)
    next
      case ge: False
      have eq: "lower_bound xs v first count = lower_bound xs v first step"
        using False ge by (subst lower_bound.simps) (simp add: Let_def step_def it_def)
      have hi: "\<not> xs ! i < v" if "first + step \<le> i" "i < length xs" for i
        using mono [of it i] that ge by (auto simp: it_def)
      have le: "first + step \<le> length xs" using lt(2) by (simp add: it_def)
      show ?thesis unfolding eq
        by (rule 1(2) [OF False step_def it_def ge 1(3) le]) (rule 1(5), assumption, rule hi, assumption+)
    qed
  qed
qed

definition valid_selector :: "size_class_selector \<Rightarrow> bool" where
  "valid_selector cs \<longleftrightarrow> cs \<noteq> [] \<and> sorted cs \<and> distinct cs \<and> (\<forall>c \<in> set cs. is_power_of_two c \<and> 8 \<le> c)"

lemma check_size_classes_iff:
  "check_size_classes p cs = Inr () \<longleftrightarrow>
     sorted (p # cs) \<and> distinct (p # cs) \<and> (\<forall>c \<in> set cs. is_power_of_two c \<and> 8 \<le> c)"
proof (induction cs arbitrary: p)
  case (Cons c cs)
  then show ?case by (auto simp: pointer_size_def not_less not_le)
qed simp

lemma check_size_classes_cases: "check_size_classes p cs = Inr () \<or> check_size_classes p cs = Inl InvalidArgument"
  by (induction cs arbitrary: p) auto

lemma selector_create_iff:
  "selector_create cs = (if valid_selector cs then Inr cs else Inl InvalidArgument)"
proof -
  have "check_size_classes 0 cs = Inr () \<longleftrightarrow> sorted cs \<and> distinct cs \<and> (\<forall>c \<in> set cs. is_power_of_two c \<and> 8 \<le> c)"
    unfolding check_size_classes_iff by (auto simp: is_power_of_two_def)
  then show ?thesis
    using check_size_classes_cases [of 0 cs] by (auto simp: selector_create_def valid_selector_def)
qed

lemma selector_select_spec:
  fixes sz :: size_t
  assumes "valid_selector cs" and "is_power_of_two al"
  defines "v \<equiv> max (max sz 1) al"
  shows "selector_select cs sz al = Inr None \<and> (\<forall>c \<in> set cs. c < v) \<or>
     (\<exists>i < length cs. selector_select cs sz al = Inr (Some i) \<and> v \<le> cs ! i \<and> (\<forall>j < i. cs ! j < v))"
proof -
  let ?k = "lower_bound cs v 0 (length cs)"
  have "?k \<le> length cs \<and> (\<forall>i < ?k. cs ! i < v) \<and> (\<forall>i < length cs. ?k \<le> i \<longrightarrow> v \<le> cs ! i)"
    using assms(1) by (intro lower_bound_spec) (auto simp: valid_selector_def)
  moreover have "selector_select cs sz al = (if ?k = length cs then Inr None else Inr (Some ?k))"
    using assms(2) by (simp add: selector_select_def Let_def v_def)
  ultimately show ?thesis
    by (cases "?k = length cs") (auto simp: all_set_conv_all_nth)
qed

lemma selector_select_Some:
  assumes "valid_selector cs" and "selector_select cs sz al = Inr (Some i)"
  shows "i < length cs" and "max sz 1 \<le> cs ! i" and "al \<le> cs ! i" and "is_power_of_two al"
    and "unat al dvd unat (cs ! i)"
proof -
  show p: "is_power_of_two al" using assms(2) by (auto simp: selector_select_def split: if_splits)
  then show i: "i < length cs" and "max sz 1 \<le> cs ! i" and al: "al \<le> cs ! i"
    using selector_select_spec [OF assms(1) p, of sz] assms(2) by auto
  have "is_power_of_two (cs ! i)" using assms(1) i by (auto simp: valid_selector_def)
  then show "unat al dvd unat (cs ! i)" using is_power_of_two_dvd [OF p _ al] by simp
qed

section \<open>Properties\<close>

text \<open>
  The constructor accepts exactly the non-empty, strictly increasing lists of powers of two
  that can hold a pointer, and throws \<^verbatim>\<open>invalid_argument\<close> on every other list.
\<close>

theorem selector_validates:
  "selector_create cs =
     (if cs \<noteq> [] \<and> sorted cs \<and> distinct cs \<and> list_all (\<lambda>c. (\<exists>k. unat c = 2 ^ k) \<and> 8 \<le> unat c) cs
      then Inr cs else Inl InvalidArgument)"
  by (simp add: selector_create_iff valid_selector_def list_all_iff is_power_of_two_iff word_le_nat_alt)

text \<open>
  C24: \<^verbatim>\<open>select\<close> returns the smallest class that is at least as big as the request and
  as its alignment (a multiple of the alignment, therefore), returns nothing exactly when no class
  is big enough, and rejects exactly the alignments that are not powers of two.
\<close>

theorem selector_smallest_class:
  assumes "selector_create classes = Inr cs"
  shows "(if \<not> is_power_of_two al then selector_select cs sz al = Inl InvalidArgument
      else if list_all (\<lambda>c. c < max sz 1 \<or> c < al) cs then selector_select cs sz al = Inr None
      else \<exists>i < length cs. selector_select cs sz al = Inr (Some i) \<and> max sz 1 \<le> cs ! i \<and>
             unat al dvd unat (cs ! i) \<and> list_all (\<lambda>c. c < max sz 1 \<or> c < al) (take i cs))"
proof -
  have v: "valid_selector cs" using assms by (auto simp: selector_create_iff split: if_splits)
  have lt: "c < max (max sz 1) al \<longleftrightarrow> c < max sz 1 \<or> c < al" for c :: size_t by (auto simp: less_max_iff_disj)
  show ?thesis
  proof (cases "is_power_of_two al")
    case True
    from selector_select_spec [OF v True, of sz] show ?thesis
    proof (elim disjE exE conjE)
      assume "selector_select cs sz al = Inr None" and "\<forall>c \<in> set cs. c < max (max sz 1) al"
      then show ?thesis using True by (simp add: list_all_iff lt)
    next
      fix i assume i: "i < length cs" "selector_select cs sz al = Inr (Some i)" "max (max sz 1) al \<le> cs ! i"
        "\<forall>j < i. cs ! j < max (max sz 1) al"
      have "\<not> (cs ! i < max sz 1 \<or> cs ! i < al)" using i(3) by (simp add: not_less)
      then have "\<not> list_all (\<lambda>c. c < max sz 1 \<or> c < al) cs" using i(1) by (auto simp: list_all_length)
      moreover have "list_all (\<lambda>c. c < max sz 1 \<or> c < al) (take i cs)"
        using i(1,4) by (simp add: list_all_length lt)
      ultimately show ?thesis
        using True i(1,2) selector_select_Some(2,5) [OF v i(2)] by auto
    qed
  qed (simp add: selector_select_def)
qed

theorem selector_smallest_class_witness:
  "\<exists>i < length default_size_classes. selector_select default_size_classes 24 16 = Inr (Some i) \<and>
     max 24 1 \<le> default_size_classes ! i \<and> unat (16 :: size_t) dvd unat (default_size_classes ! i)"
proof -
  have p: "is_power_of_two 16" by (rule is_power_of_twoI [of _ 4]) simp
  have "selector_create default_size_classes = Inr default_size_classes"
    by (simp add: selector_create_def default_size_classes_def is_power_of_two_def pointer_size_def)
  from selector_smallest_class [OF this, of 16 24] p show ?thesis by (auto simp: default_size_classes_def)
qed

end
