(* ===== verification/Sized_Source.thy ===== *)
theory Sized_Source
  imports Byte_Memory
begin

text \<open>
  The contract of an allocator that serves requests of any size and alignment and takes a block back
  together with the size and alignment it was requested with. \<open>holds s H\<close> says that the allocator is
  in a good state in which the client holds the requests \<open>H\<close>. The locale is interpreted on
  \<^verbatim>\<open>SegregatedAllocator\<close> and on the allocators built on it.
\<close>

type_synonym request = "addr \<times> size_t \<times> size_t"

inductive sized_run ::
  "(size_t \<Rightarrow> size_t \<Rightarrow> 's \<Rightarrow> (addr, 's) outcome) \<Rightarrow> (addr \<Rightarrow> size_t \<Rightarrow> size_t \<Rightarrow> 's \<Rightarrow> (unit, 's) outcome) \<Rightarrow>
   (addr \<Rightarrow> byte \<Rightarrow> 's \<Rightarrow> 's) \<Rightarrow> 's \<Rightarrow> 's \<Rightarrow> request set \<Rightarrow> bool"
  for alloc free poke s0 where
  sized_start: "sized_run alloc free poke s0 s0 {}"
| sized_alloc: "sized_run alloc free poke s0 s H \<Longrightarrow> alloc n a s = (Inr q, s') \<Longrightarrow>
    sized_run alloc free poke s0 s' (insert (q, n, a) H)"
| sized_alloc_throw: "sized_run alloc free poke s0 s H \<Longrightarrow> alloc n a s = (Inl e, s') \<Longrightarrow>
    sized_run alloc free poke s0 s' H"
| sized_free: "sized_run alloc free poke s0 s H \<Longrightarrow> (q, n, a) \<in> H \<Longrightarrow> free q n a s = (r, s') \<Longrightarrow>
    sized_run alloc free poke s0 s' (H - {(q, n, a)})"
| sized_poke: "sized_run alloc free poke s0 s H \<Longrightarrow> (q, n, a) \<in> H \<Longrightarrow> x \<in> extent q n \<Longrightarrow>
    sized_run alloc free poke s0 (poke x b s) H"

locale sized_source =
  fixes alloc :: "size_t \<Rightarrow> size_t \<Rightarrow> 's \<Rightarrow> (addr, 's) outcome"
    and free :: "addr \<Rightarrow> size_t \<Rightarrow> size_t \<Rightarrow> 's \<Rightarrow> (unit, 's) outcome"
    and poke :: "addr \<Rightarrow> byte \<Rightarrow> 's \<Rightarrow> 's"
    and holds :: "'s \<Rightarrow> request set \<Rightarrow> bool"
  assumes alloc_fresh:
      "holds s H \<Longrightarrow> alloc n a s = (Inr q, s') \<Longrightarrow>
         holds s' (insert (q, n, a) H) \<and> q \<noteq> 0 \<and> unat a dvd unat q \<and> q \<notin> fst ` H"
    and alloc_throws:
      "holds s H \<Longrightarrow> alloc n a s = (Inl e, s') \<Longrightarrow> e \<noteq> UndefinedBehaviour \<and> e \<noteq> Terminate \<and> holds s' H"
    and free_accepts:
      "holds s H \<Longrightarrow> (q, n, a) \<in> H \<Longrightarrow> \<exists>s'. free q n a s = (Inr (), s') \<and> holds s' (H - {(q, n, a)})"
    and poke_keeps: "holds s H \<Longrightarrow> (q, n, a) \<in> H \<Longrightarrow> x \<in> extent q n \<Longrightarrow> holds (poke x b s) H"
    and holds_apart:
      "holds s H \<Longrightarrow> (q, n, a) \<in> H \<Longrightarrow> (q', n', a') \<in> H \<Longrightarrow> (q, n, a) \<noteq> (q', n', a') \<Longrightarrow>
         q \<noteq> q' \<and> extent q n \<inter> extent q' n' = {}"
begin

lemma sized_run_holds:
  assumes "sized_run alloc free poke s0 s H" and "holds s0 {}"
  shows "holds s H"
  using assms
proof (induction rule: sized_run.induct)
  case (sized_alloc s H n a q s')
  then show ?case using alloc_fresh [of s H n a q s'] by blast
next
  case (sized_alloc_throw s H n a e s')
  then show ?case using alloc_throws [of s H n a e s'] by blast
next
  case (sized_free s H q n a r s')
  then show ?case using free_accepts [of s H q n a] by auto
next
  case (sized_poke s H q n a x b)
  then show ?case using poke_keeps [of s H q n a x b] by blast
qed simp

lemma sized_run_apart:
  assumes "sized_run alloc free poke s0 s H" and "holds s0 {}"
    and "(q, n, a) \<in> H" and "(q', n', a') \<in> H" and "(q, n, a) \<noteq> (q', n', a')"
  shows "extent q n \<inter> extent q' n' = {}"
  using holds_apart [OF sized_run_holds [OF assms(1,2)] assms(3-5)] by blast

lemma sized_run_free:
  assumes "sized_run alloc free poke s0 s H" and "holds s0 {}" and "(q, n, a) \<in> H"
  shows "\<exists>s'. free q n a s = (Inr (), s')"
  using free_accepts [OF sized_run_holds [OF assms(1,2)] assms(3)] by blast

end

end
