(* ===== verification/Segregated_Allocator.thy ===== *)
theory Segregated_Allocator
  imports Chunk_Pool_Runs Size_Class_Selector Sized_Source
begin

text \<open>
  \<^verbatim>\<open>include/memory_pool/segregated_allocator.hpp\<close>, \<^verbatim>\<open>segregated_allocator_options.hpp\<close>,
  \<^verbatim>\<open>segregated_allocator_statistics.hpp\<close> and \<^verbatim>\<open>src/segregated_allocator.cpp\<close>: one growing chunk pool per
  size class, a direct provider allocation for every other request, and the statistics.
\<close>

section \<open>State\<close>

record size_class_statistics =
  scs_class_size :: size_t
  scs_allocation_requests :: size_t
  scs_successful_allocations :: size_t
  scs_deallocations :: size_t
  scs_currently_allocated :: size_t
  scs_peak_allocated :: size_t
  scs_requested_bytes :: size_t
  scs_served_bytes :: size_t
  scs_internal_fragmentation_bytes :: size_t

record segregated_statistics =
  sgs_size_classes :: "size_class_statistics list"
  sgs_allocation_requests :: size_t
  sgs_successful_allocations :: size_t
  sgs_deallocations :: size_t
  sgs_failed_allocations :: size_t
  sgs_fallback_allocations :: size_t
  sgs_fallback_deallocations :: size_t
  sgs_current_fallback_allocations :: size_t
  sgs_peak_fallback_allocations :: size_t
  sgs_fallback_requested_bytes :: size_t

record segregated_options =
  sgo_size_classes :: "size_t list"
  sgo_initial_blocks_per_class :: size_t
  sgo_growth :: growth_policy
  sgo_spare_empty_chunks :: size_t

text \<open>The map of fallback allocations is an association list from the address to size and alignment.\<close>

record segregated =
  sa_selector :: size_class_selector
  sa_pools :: "chunk_pool list"
  sa_fallback :: "(addr \<times> size_t \<times> size_t) list"
  sa_statistics :: segregated_statistics

definition zero_class_statistics :: "size_t \<Rightarrow> size_class_statistics" where
  "zero_class_statistics class_size =
     \<lparr>scs_class_size = class_size, scs_allocation_requests = 0, scs_successful_allocations = 0,
      scs_deallocations = 0, scs_currently_allocated = 0, scs_peak_allocated = 0,
      scs_requested_bytes = 0, scs_served_bytes = 0, scs_internal_fragmentation_bytes = 0\<rparr>"

definition zero_segregated_statistics :: "size_t list \<Rightarrow> segregated_statistics" where
  "zero_segregated_statistics classes =
     \<lparr>sgs_size_classes = map zero_class_statistics classes, sgs_allocation_requests = 0,
      sgs_successful_allocations = 0, sgs_deallocations = 0, sgs_failed_allocations = 0,
      sgs_fallback_allocations = 0, sgs_fallback_deallocations = 0, sgs_current_fallback_allocations = 0,
      sgs_peak_fallback_allocations = 0, sgs_fallback_requested_bytes = 0\<rparr>"

definition normalize_size :: "size_t \<Rightarrow> size_t" where
  "normalize_size sz = max sz 1"

section \<open>Construction and destruction\<close>

definition class_options :: "segregated_options \<Rightarrow> size_t \<Rightarrow> chunk_manager_options" where
  "class_options options class_size =
     \<lparr>cmo_block_size = class_size, cmo_initial_blocks = sgo_initial_blocks_per_class options,
      cmo_alignment = class_size, cmo_growth = sgo_growth options,
      cmo_spare_empty_chunks = sgo_spare_empty_chunks options\<rparr>"

definition destroy_pools :: "'p provider \<Rightarrow> chunk_pool list \<Rightarrow> 'p world \<Rightarrow> 'p world" where
  "destroy_pools P pools w = fold (chunk_pool_destroy P) pools w"

text \<open>The loop of the constructor; an exception destroys the pools made so far.\<close>

fun create_pools ::
  "'p provider \<Rightarrow> segregated_options \<Rightarrow> size_t list \<Rightarrow> chunk_pool list \<Rightarrow> 'p world \<Rightarrow>
   (chunk_pool list, 'p world) outcome" where
  "create_pools P options [] pools w = (Inr pools, w)"
| "create_pools P options (class_size # rest) pools w =
     (case meta_alloc w of (ok_pool, w1) \<Rightarrow>
        if \<not> ok_pool then (Inl BadAlloc, destroy_pools P pools w1)
        else case chunk_pool_create P (class_options options class_size) GrowOnExhaustion w1 of
          (Inl e, w2) \<Rightarrow> (Inl e, destroy_pools P pools w2)
        | (Inr cp, w2) \<Rightarrow> create_pools P options rest (pools @ [cp]) w2)"

definition segregated_create ::
  "'p provider \<Rightarrow> segregated_options \<Rightarrow> 'p world \<Rightarrow> (segregated, 'p world) outcome" where
  "segregated_create P options w =
     (case meta_alloc w of (ok_impl, w1) \<Rightarrow>
        if \<not> ok_impl then (Inl BadAlloc, w1)
        else case selector_create (sgo_size_classes options) of
          Inl e \<Rightarrow> (Inl e, w1)
        | Inr selector \<Rightarrow>
            if sgo_initial_blocks_per_class options = 0 then (Inl InvalidArgument, w1)
            else case meta_alloc w1 of (ok_pools, w2) \<Rightarrow>
              if \<not> ok_pools then (Inl BadAlloc, w2)
              else case meta_alloc w2 of (ok_stats, w3) \<Rightarrow>
                if \<not> ok_stats then (Inl BadAlloc, w3)
                else case create_pools P options selector [] w3 of
                  (Inl e, w4) \<Rightarrow> (Inl e, w4)
                | (Inr pools, w4) \<Rightarrow>
                    (Inr \<lparr>sa_selector = selector, sa_pools = pools, sa_fallback = [],
                          sa_statistics = zero_segregated_statistics selector\<rparr>, w4))"

definition release_fallback :: "'p provider \<Rightarrow> (addr \<times> size_t \<times> size_t) list \<Rightarrow> 'p world \<Rightarrow> 'p world" where
  "release_fallback P fs w =
     w\<lparr>w_prov := fold (\<lambda>(pointer, sz, al). prov_deallocate P pointer sz al) fs (w_prov w)\<rparr>"

definition segregated_destroy :: "'p provider \<Rightarrow> segregated \<Rightarrow> 'p world \<Rightarrow> 'p world" where
  "segregated_destroy P sa w = destroy_pools P (sa_pools sa) (release_fallback P (sa_fallback sa) w)"

section \<open>Ownership\<close>

fun owning_pool :: "chunk_pool list \<Rightarrow> addr \<Rightarrow> nat option" where
  "owning_pool [] pointer = None"
| "owning_pool (cp # cps) pointer =
     (if chunk_pool_owns cp pointer then Some 0 else map_option Suc (owning_pool cps pointer))"

definition owning_class :: "segregated \<Rightarrow> addr \<Rightarrow> nat option" where
  "owning_class sa pointer = owning_pool (sa_pools sa) pointer"

definition segregated_owns :: "segregated \<Rightarrow> addr \<Rightarrow> bool" where
  "segregated_owns sa pointer \<longleftrightarrow>
     owning_class sa pointer \<noteq> None \<or> map_of (sa_fallback sa) pointer \<noteq> None"

definition owning_size_class :: "segregated \<Rightarrow> addr \<Rightarrow> size_t option result" where
  "owning_size_class sa pointer =
     (case owning_class sa pointer of
        None \<Rightarrow> Inr None
      | Some i \<Rightarrow> bind_result (selector_class_size (sa_selector sa) i) (\<lambda>c. Inr (Some c)))"

section \<open>Statistics\<close>

definition update_class :: "nat \<Rightarrow> (size_class_statistics \<Rightarrow> size_class_statistics) \<Rightarrow> segregated \<Rightarrow> segregated" where
  "update_class i f sa =
     sa\<lparr>sa_statistics := (sa_statistics sa)\<lparr>sgs_size_classes :=
       (sgs_size_classes (sa_statistics sa))[i := f (sgs_size_classes (sa_statistics sa) ! i)]\<rparr>\<rparr>"

definition update_totals :: "(segregated_statistics \<Rightarrow> segregated_statistics) \<Rightarrow> segregated \<Rightarrow> segregated" where
  "update_totals f sa = sa\<lparr>sa_statistics := f (sa_statistics sa)\<rparr>"

definition count_class_request :: "size_class_statistics \<Rightarrow> size_class_statistics" where
  "count_class_request c = c\<lparr>scs_allocation_requests := scs_allocation_requests c + 1\<rparr>"

definition count_class_allocation :: "size_t \<Rightarrow> size_class_statistics \<Rightarrow> size_class_statistics" where
  "count_class_allocation requested_size c =
     c\<lparr>scs_successful_allocations := scs_successful_allocations c + 1,
       scs_currently_allocated := scs_currently_allocated c + 1,
       scs_peak_allocated := max (scs_peak_allocated c) (scs_currently_allocated c + 1),
       scs_requested_bytes := scs_requested_bytes c + requested_size,
       scs_served_bytes := scs_served_bytes c + scs_class_size c,
       scs_internal_fragmentation_bytes :=
         scs_internal_fragmentation_bytes c + (scs_class_size c - requested_size)\<rparr>"

definition count_class_deallocation :: "size_class_statistics \<Rightarrow> size_class_statistics" where
  "count_class_deallocation c =
     c\<lparr>scs_deallocations := scs_deallocations c + 1, scs_currently_allocated := scs_currently_allocated c - 1\<rparr>"

definition count_request :: "segregated_statistics \<Rightarrow> segregated_statistics" where
  "count_request s = s\<lparr>sgs_allocation_requests := sgs_allocation_requests s + 1\<rparr>"

definition count_success :: "segregated_statistics \<Rightarrow> segregated_statistics" where
  "count_success s = s\<lparr>sgs_successful_allocations := sgs_successful_allocations s + 1\<rparr>"

definition count_failure :: "segregated_statistics \<Rightarrow> segregated_statistics" where
  "count_failure s = s\<lparr>sgs_failed_allocations := sgs_failed_allocations s + 1\<rparr>"

definition count_deallocation :: "segregated_statistics \<Rightarrow> segregated_statistics" where
  "count_deallocation s = s\<lparr>sgs_deallocations := sgs_deallocations s + 1\<rparr>"

definition count_fallback_allocation :: "size_t \<Rightarrow> segregated_statistics \<Rightarrow> segregated_statistics" where
  "count_fallback_allocation requested_size s =
     s\<lparr>sgs_successful_allocations := sgs_successful_allocations s + 1,
       sgs_fallback_allocations := sgs_fallback_allocations s + 1,
       sgs_current_fallback_allocations := sgs_current_fallback_allocations s + 1,
       sgs_peak_fallback_allocations := max (sgs_peak_fallback_allocations s) (sgs_current_fallback_allocations s + 1),
       sgs_fallback_requested_bytes := sgs_fallback_requested_bytes s + requested_size\<rparr>"

definition count_fallback_deallocation :: "segregated_statistics \<Rightarrow> segregated_statistics" where
  "count_fallback_deallocation s =
     s\<lparr>sgs_deallocations := sgs_deallocations s + 1,
       sgs_fallback_deallocations := sgs_fallback_deallocations s + 1,
       sgs_current_fallback_allocations := sgs_current_fallback_allocations s - 1\<rparr>"

section \<open>Allocation and deallocation\<close>

text \<open>
  The two branches of \<^verbatim>\<open>allocate\<close> inside its \<^verbatim>\<open>try\<close> block. \<^verbatim>\<open>emplace\<close> may fail to allocate its node, and
  does not insert when the address is already a key; both hand the storage back.
\<close>

definition allocate_pooled ::
  "'p provider \<Rightarrow> nat \<Rightarrow> size_t \<Rightarrow> 'p world \<times> segregated \<Rightarrow> (addr, 'p world \<times> segregated) outcome" where
  "allocate_pooled P index requested_size s =
     (case s of (w, sa) \<Rightarrow>
        let sa1 = update_class index count_class_request sa in
        case chunk_pool_allocate P (w, sa_pools sa1 ! index) of
          (Inl e, (w', cp)) \<Rightarrow> (Inl e, (w', sa1\<lparr>sa_pools := (sa_pools sa1)[index := cp]\<rparr>))
        | (Inr pointer, (w', cp)) \<Rightarrow>
            (Inr pointer,
             (w', update_totals count_success
                    (update_class index (count_class_allocation requested_size)
                       (sa1\<lparr>sa_pools := (sa_pools sa1)[index := cp]\<rparr>)))))"

definition allocate_fallback ::
  "'p provider \<Rightarrow> size_t \<Rightarrow> size_t \<Rightarrow> 'p world \<times> segregated \<Rightarrow> (addr, 'p world \<times> segregated) outcome" where
  "allocate_fallback P requested_size al s =
     (case s of (w, sa) \<Rightarrow>
        case prov_allocate P requested_size al (w_prov w) of
          (Inl e, p) \<Rightarrow> (Inl e, (w\<lparr>w_prov := p\<rparr>, sa))
        | (Inr pointer, p) \<Rightarrow>
            (case meta_alloc (w\<lparr>w_prov := p\<rparr>) of (ok_node, w1) \<Rightarrow>
               let undo = w1\<lparr>w_prov := prov_deallocate P pointer requested_size al (w_prov w1)\<rparr> in
               if \<not> ok_node then (Inl BadAlloc, (undo, sa))
               else if map_of (sa_fallback sa) pointer \<noteq> None then (Inl LogicError, (undo, sa))
               else (Inr pointer,
                     (w1, update_totals (count_fallback_allocation requested_size)
                            (sa\<lparr>sa_fallback := (pointer, requested_size, al) # sa_fallback sa\<rparr>)))))"

definition segregated_allocate ::
  "'p provider \<Rightarrow> size_t \<Rightarrow> size_t \<Rightarrow> 'p world \<times> segregated \<Rightarrow> (addr, 'p world \<times> segregated) outcome" where
  "segregated_allocate P sz al s =
     (case s of (w, sa) \<Rightarrow>
        let sa0 = update_totals count_request sa;
            requested_size = normalize_size sz;
            attempt = (case selector_select (sa_selector sa0) requested_size al of
                         Inl e \<Rightarrow> (Inl e, (w, sa0))
                       | Inr (Some index) \<Rightarrow> allocate_pooled P index requested_size (w, sa0)
                       | Inr None \<Rightarrow> allocate_fallback P requested_size al (w, sa0))
        in case attempt of
             (Inl e, (w', sa')) \<Rightarrow> (Inl e, (w', update_totals count_failure sa'))
           | (Inr pointer, s') \<Rightarrow> (Inr pointer, s'))"

definition segregated_deallocate ::
  "'p provider \<Rightarrow> addr \<Rightarrow> 'p world \<times> segregated \<Rightarrow> (unit, 'p world \<times> segregated) outcome" where
  "segregated_deallocate P pointer s =
     (case s of (w, sa) \<Rightarrow>
        if pointer = nullptr then (Inr (), s)
        else case owning_class sa pointer of
          Some owner \<Rightarrow>
            (case chunk_pool_deallocate P pointer (w, sa_pools sa ! owner) of
               (Inl e, (w', cp)) \<Rightarrow> (Inl e, (w', sa\<lparr>sa_pools := (sa_pools sa)[owner := cp]\<rparr>))
             | (Inr _, (w', cp)) \<Rightarrow>
                 (Inr (), (w', update_totals count_deallocation
                                 (update_class owner count_class_deallocation
                                    (sa\<lparr>sa_pools := (sa_pools sa)[owner := cp]\<rparr>)))))
        | None \<Rightarrow>
            (case map_of (sa_fallback sa) pointer of
               None \<Rightarrow> (Inl InvalidPoolPointer, s)
             | Some (sz, al) \<Rightarrow>
                 (Inr (), (w\<lparr>w_prov := prov_deallocate P pointer sz al (w_prov w)\<rparr>,
                           update_totals count_fallback_deallocation
                             (sa\<lparr>sa_fallback := filter (\<lambda>e. fst e \<noteq> pointer) (sa_fallback sa)\<rparr>)))))"

definition segregated_deallocate_sized ::
  "'p provider \<Rightarrow> addr \<Rightarrow> size_t \<Rightarrow> size_t \<Rightarrow> 'p world \<times> segregated \<Rightarrow> (unit, 'p world \<times> segregated) outcome" where
  "segregated_deallocate_sized P pointer sz al s =
     (case s of (w, sa) \<Rightarrow>
        if pointer = nullptr then (Inr (), s)
        else case owning_class sa pointer of
          Some owner \<Rightarrow>
            (case selector_select (sa_selector sa) sz al of
               Inl e \<Rightarrow> (Inl e, s)
             | Inr supplied_class \<Rightarrow>
                 if supplied_class \<noteq> Some owner then (Inl AllocationMismatchError, s)
                 else segregated_deallocate P pointer s)
        | None \<Rightarrow>
            (case map_of (sa_fallback sa) pointer of
               None \<Rightarrow> (Inl InvalidPoolPointer, s)
             | Some (fallback_size, fallback_alignment) \<Rightarrow>
                 if fallback_size \<noteq> normalize_size sz \<or> fallback_alignment \<noteq> al
                 then (Inl AllocationMismatchError, s)
                 else segregated_deallocate P pointer s))"

end
