(* ===== verification/Segregated_Correct.thy ===== *)
theory Segregated_Correct
  imports Segregated_Allocator
begin

text \<open>
  The segregated allocator keeps its pools, its direct allocations and the storage of everybody else
  apart. The first part is about several growing pools that share one provider; the second adds the map of
  direct allocations and shows that the allocator is a \<open>sized_source\<close>.
\<close>

section \<open>Several pools over one provider\<close>

definition pool_storages :: "chunk_pool \<Rightarrow> addr set" where
  "pool_storages cp = mc_storage ` set (cm_chunks (cp_manager cp))"

definition all_storages :: "chunk_pool list \<Rightarrow> addr set" where
  "all_storages ps = (\<Union>cp \<in> set ps. pool_storages cp)"

definition pool_blocks :: "chunk_pool \<Rightarrow> nat list list \<Rightarrow> addr set" where
  "pool_blocks cp Fs = chunks_live (cm_chunks (cp_manager cp)) Fs"

definition pools_inv ::
  "('p \<Rightarrow> grant set) \<Rightarrow> ('p \<Rightarrow> bool) \<Rightarrow> 'p world \<Rightarrow> chunk_pool list \<Rightarrow> nat list list list \<Rightarrow> bool" where
  "pools_inv live ok w ps Fss \<longleftrightarrow>
     ok (w_prov w) \<and> length Fss = length ps \<and>
     (\<forall>i < length ps. manager_inv live ok w (cp_manager (ps ! i)) (Fss ! i) \<and> cp_policy (ps ! i) = GrowOnExhaustion) \<and>
     (\<forall>i < length ps. \<forall>j < length ps. i \<noteq> j \<longrightarrow> pool_storages (ps ! i) \<inter> pool_storages (ps ! j) = {})"

lemma pools_invD:
  assumes "pools_inv live ok w ps Fss"
  shows "ok (w_prov w)" and "length Fss = length ps"
    and "\<And>i. i < length ps \<Longrightarrow> manager_inv live ok w (cp_manager (ps ! i)) (Fss ! i)"
    and "\<And>i. i < length ps \<Longrightarrow> cp_policy (ps ! i) = GrowOnExhaustion"
    and "\<And>i j. i < length ps \<Longrightarrow> j < length ps \<Longrightarrow> i \<noteq> j \<Longrightarrow> pool_storages (ps ! i) \<inter> pool_storages (ps ! j) = {}"
  using assms unfolding pools_inv_def by blast+

lemma pools_invI:
  assumes "ok (w_prov w)" and "length Fss = length ps"
    and "\<And>i. i < length ps \<Longrightarrow> manager_inv live ok w (cp_manager (ps ! i)) (Fss ! i)"
    and "\<And>i. i < length ps \<Longrightarrow> cp_policy (ps ! i) = GrowOnExhaustion"
    and "\<And>i j. i < length ps \<Longrightarrow> j < length ps \<Longrightarrow> i \<noteq> j \<Longrightarrow> pool_storages (ps ! i) \<inter> pool_storages (ps ! j) = {}"
  shows "pools_inv live ok w ps Fss"
  using assms unfolding pools_inv_def by blast

lemma manager_rest_storages:
  "manager_rest live (cp_manager cp) w = {g \<in> live (w_prov w). fst g \<notin> pool_storages cp}"
  by (simp add: manager_rest_def pool_storages_def)

lemma all_storages_iff: "x \<in> all_storages ps \<longleftrightarrow> (\<exists>i < length ps. x \<in> pool_storages (ps ! i))"
  unfolding all_storages_def by (simp add: Bex_def in_set_conv_nth) blast

lemma pool_inv_of_manager:
  assumes "manager_inv live ok w (cp_manager cp) Fs" and "cp_policy cp = GrowOnExhaustion"
  shows "chunk_pool_inv live ok (manager_rest live (cp_manager cp) w) (w, cp) Fs"
    and "chunk_pool_blocks cp Fs = pool_blocks cp Fs"
  using assms by (simp_all add: chunk_pool_inv_def chunk_pool_blocks_def pool_blocks_def)

lemma manager_inv_other:
  assumes inv: "manager_inv live ok w cm Fs" and "ok (w_prov w')"
    and "\<And>c. c \<in> set (cm_chunks cm) \<Longrightarrow> chunk_grant c \<in> live (w_prov w')"
    and "\<And>c x. c \<in> set (cm_chunks cm) \<Longrightarrow> x \<in> chunk_extent c \<Longrightarrow> w_mem w' x = w_mem w x"
  shows "manager_inv live ok w' cm Fs"
proof -
  note cs = manager_inv_chunks [OF inv]
  note d = chunk_setD [OF cs]
  have "chunk_inv (w_mem w') (cm_chunks cm ! k) (Fs ! k)" if "k < length (cm_chunks cm)" for k
    using assms(4) [OF nth_mem [OF that]] by (intro chunk_inv_frame [OF d(4) [OF that]])
  then have "chunk_set live ok w' (cm_chunks cm) Fs (cm_block_size cm) (cm_alignment cm)"
    using cs d(2) assms(2,3) by (auto simp: chunk_set_def list_all2_conv_all_nth)
  then show ?thesis using manager_invD(2) [OF inv] by (intro manager_inv_update [OF inv]) simp_all
qed

lemma pools_chunk_live:
  assumes "pools_inv live ok w ps Fss" and "i < length ps" and "c \<in> set (cm_chunks (cp_manager (ps ! i)))"
  shows "chunk_grant c \<in> live (w_prov w)" and "mc_storage c \<in> pool_storages (ps ! i)"
  using chunk_setD(5) [OF manager_inv_chunks [OF pools_invD(3) [OF assms(1,2)]] assms(3)] assms(3)
  by (auto simp: pool_storages_def)

text \<open>
  One pool moves and touches nothing outside its own chunks: the other pools keep their invariant, and what is granted
  outside all pools stays the same.
\<close>

lemma pools_inv_step:
  assumes inv: "pools_inv live ok w ps Fss" and i: "i < length ps"
    and mi: "manager_inv live ok w' (cp_manager cp') F'" and pol: "cp_policy cp' = GrowOnExhaustion"
    and rest: "manager_rest live (cp_manager cp') w' = manager_rest live (cp_manager (ps ! i)) w"
    and frame: "\<And>g x. g \<in> manager_rest live (cp_manager (ps ! i)) w \<Longrightarrow> x \<in> grant_extent g \<Longrightarrow> w_mem w' x = w_mem w x"
  shows "pools_inv live ok w' (ps[i := cp']) (Fss[i := F'])"
    and "{g \<in> live (w_prov w'). fst g \<notin> all_storages (ps[i := cp'])} = {g \<in> live (w_prov w). fst g \<notin> all_storages ps}"
proof -
  note d = pools_invD [OF inv]
  have ok': "ok (w_prov w')" by (rule chunk_setD(1) [OF manager_inv_chunks [OF mi]])
  have other: "chunk_grant c \<in> manager_rest live (cp_manager (ps ! i)) w"
    if "j < length ps" "j \<noteq> i" "c \<in> set (cm_chunks (cp_manager (ps ! j)))" for j c
    using pools_chunk_live [OF inv that(1,3)] d(5) [OF that(1) i that(2)]
    unfolding manager_rest_storages by auto
  have mj: "manager_inv live ok w' (cp_manager (ps ! j)) (Fss ! j)" if j: "j < length ps" "j \<noteq> i" for j
  proof (rule manager_inv_other [OF d(3) [OF j(1)] ok'])
    fix c assume c: "c \<in> set (cm_chunks (cp_manager (ps ! j)))"
    show "chunk_grant c \<in> live (w_prov w')"
      using other [OF j c] unfolding rest [symmetric] by (simp add: manager_rest_def)
    show "w_mem w' x = w_mem w x" if "x \<in> chunk_extent c" for x
      using frame [OF other [OF j c]] that by (simp add: chunk_extent_def)
  qed
  have dj: "pool_storages cp' \<inter> pool_storages (ps ! j) = {}" if j: "j < length ps" "j \<noteq> i" for j
  proof -
    have "mc_storage c \<notin> pool_storages cp'" if "c \<in> set (cm_chunks (cp_manager (ps ! j)))" for c
      using other [OF j that, folded rest] unfolding manager_rest_storages by simp
    then show ?thesis by (auto simp: pool_storages_def [of "ps ! j"])
  qed
  show "pools_inv live ok w' (ps[i := cp']) (Fss[i := F'])"
  proof (rule pools_invI)
    show "ok (w_prov w')" by (rule ok')
    show "length (Fss[i := F']) = length (ps[i := cp'])" using d(2) by simp
    fix j assume j: "j < length (ps[i := cp'])"
    show "manager_inv live ok w' (cp_manager (ps[i := cp'] ! j)) (Fss[i := F'] ! j)"
      using mj [of j] mi j d(2) by (cases "j = i") simp_all
    show "cp_policy (ps[i := cp'] ! j) = GrowOnExhaustion" using d(4) [of j] pol j by (cases "j = i") simp_all
    fix k assume k: "k < length (ps[i := cp'])" "j \<noteq> k"
    show "pool_storages (ps[i := cp'] ! j) \<inter> pool_storages (ps[i := cp'] ! k) = {}"
      using dj [of j] dj [of k] d(5) [of j k] j k by (cases "j = i"; cases "k = i") (simp_all add: Int_commute)
  qed
  have split: "{g \<in> live (w_prov v). fst g \<notin> all_storages qs} =
      {g \<in> manager_rest live (cp_manager (qs ! i)) v. \<forall>j < length ps. j \<noteq> i \<longrightarrow> fst g \<notin> pool_storages (qs ! j)}"
    if "length qs = length ps" for v qs
    unfolding manager_rest_storages all_storages_iff using i that by auto
  show "{g \<in> live (w_prov w'). fst g \<notin> all_storages (ps[i := cp'])} = {g \<in> live (w_prov w). fst g \<notin> all_storages ps}"
    unfolding split [OF refl] split [of "ps[i := cp']", simplified] nth_list_update_eq [OF i] rest by auto
qed

text \<open>The provider or the client moves outside all pools.\<close>

lemma pools_inv_world:
  assumes inv: "pools_inv live ok w ps Fss" and "ok (w_prov w')"
    and "\<And>g. g \<in> live (w_prov w) \<Longrightarrow> fst g \<in> all_storages ps \<Longrightarrow> g \<in> live (w_prov w')"
    and "\<And>g x. g \<in> live (w_prov w) \<Longrightarrow> fst g \<in> all_storages ps \<Longrightarrow> x \<in> grant_extent g \<Longrightarrow> w_mem w' x = w_mem w x"
  shows "pools_inv live ok w' ps Fss"
proof (rule pools_invI)
  note d = pools_invD [OF inv]
  fix i assume i: "i < length ps"
  have g: "chunk_grant c \<in> live (w_prov w)" "fst (chunk_grant c) \<in> all_storages ps"
    if "c \<in> set (cm_chunks (cp_manager (ps ! i)))" for c
    using pools_chunk_live [OF inv i that] i unfolding all_storages_iff by auto
  show "manager_inv live ok w' (cp_manager (ps ! i)) (Fss ! i)"
    by (rule manager_inv_other [OF d(3) [OF i] assms(2) assms(3) [OF g] assms(4) [OF g]]) (simp_all add: chunk_extent_def)
qed (use pools_invD [OF inv] assms(2) in auto)

context memory_provider begin

lemma pools_block_extent:
  assumes inv: "pools_inv live ok w ps Fss" and i: "i < length ps" and q: "q \<in> pool_blocks (ps ! i) (Fss ! i)"
  shows "\<exists>c \<in> set (cm_chunks (cp_manager (ps ! i))).
     extent q (cm_block_size (cp_manager (ps ! i))) \<subseteq> chunk_extent c \<and> q \<in> chunk_extent c"
proof -
  let ?cm = "cp_manager (ps ! i)"
  note d = chunk_setD [OF manager_inv_chunks [OF pools_invD(3) [OF inv i]]]
  obtain k where k: "k < length (cm_chunks ?cm)" "q \<in> chunk_live (cm_chunks ?cm ! k) (Fss ! i ! k)"
    using q by (auto simp: pool_blocks_def chunks_live_iff)
  then show ?thesis
    using chunk_live_in_extent(1,2) [OF d(4) [OF k(1)] k(2)] d(6) [OF k(1)] nth_mem [OF k(1)] by auto
qed

lemma pools_chunk_apart:
  assumes inv: "pools_inv live ok w ps Fss" and i: "i < length ps" and c: "c \<in> set (cm_chunks (cp_manager (ps ! i)))"
    and g: "g \<in> live (w_prov w)" and "fst g \<notin> pool_storages (ps ! i)"
  shows "chunk_extent c \<inter> grant_extent g = {}"
proof -
  note cl = pools_chunk_live [OF inv i c]
  have "fst (chunk_grant c) \<noteq> fst g" using cl(2) assms(5) by auto
  from live_disjoint [OF pools_invD(1) [OF inv] cl(1) g this] show ?thesis by (simp add: chunk_extent_def)
qed

text \<open>The scan for the owner stops at the only pool whose storage contains the pointer.\<close>

lemma chunk_pool_owns_iff:
  assumes inv: "pools_inv live ok w ps Fss" and i: "i < length ps"
  shows "chunk_pool_owns (ps ! i) q \<longleftrightarrow> (\<exists>c \<in> set (cm_chunks (cp_manager (ps ! i))). q \<in> chunk_extent c)"
proof -
  let ?cs = "cm_chunks (cp_manager (ps ! i))"
  note d = chunk_setD [OF manager_inv_chunks [OF pools_invD(3) [OF inv i]]]
  have "chunk_pool_owns (ps ! i) q \<longleftrightarrow> (\<exists>c \<in> set ?cs. chunk_owns c q)"
    using pools_invD(4) [OF inv i] find_chunk_in_None [of ?cs q]
    by (auto simp: chunk_pool_owns_def policy_owns_def manager_find_chunk_def)
  also have "chunk_owns c q \<longleftrightarrow> q \<in> chunk_extent c" if "c \<in> set ?cs" for c
    using chunk_owns_iff [OF d(4)] that unfolding in_set_conv_nth by blast
  then have "(\<exists>c \<in> set ?cs. chunk_owns c q) \<longleftrightarrow> (\<exists>c \<in> set ?cs. q \<in> chunk_extent c)" by blast
  finally show ?thesis .
qed

lemma owning_pool_None: "owning_pool ps q = None \<longleftrightarrow> (\<forall>cp \<in> set ps. \<not> chunk_pool_owns cp q)"
  by (induction ps) auto

lemma owning_pool_Some:
  assumes "owning_pool ps q = Some i"
  shows "i < length ps" and "chunk_pool_owns (ps ! i) q"
proof -
  have "i < length ps \<and> chunk_pool_owns (ps ! i) q"
    using assms by (induction ps arbitrary: i) (auto split: if_splits)
  then show "i < length ps" and "chunk_pool_owns (ps ! i) q" by blast+
qed

lemma pools_owner_unique:
  assumes inv: "pools_inv live ok w ps Fss" and "i < length ps" and "j < length ps"
    and "chunk_pool_owns (ps ! i) q" and "chunk_pool_owns (ps ! j) q"
  shows "i = j"
proof (rule ccontr)
  assume ne: "i \<noteq> j"
  obtain c e where c: "c \<in> set (cm_chunks (cp_manager (ps ! i)))" "q \<in> chunk_extent c"
    and e: "e \<in> set (cm_chunks (cp_manager (ps ! j)))" "q \<in> chunk_extent e"
    using assms(4,5) chunk_pool_owns_iff [OF inv assms(2)] chunk_pool_owns_iff [OF inv assms(3)] by blast
  note el = pools_chunk_live [OF inv assms(3) e(1)]
  have "fst (chunk_grant e) \<notin> pool_storages (ps ! i)" using el(2) pools_invD(5) [OF inv assms(2,3) ne] by auto
  from pools_chunk_apart [OF inv assms(2) c(1) el(1) this] c(2) e(2) show False by (auto simp: chunk_extent_def)
qed

lemma owning_pool_block:
  assumes inv: "pools_inv live ok w ps Fss" and i: "i < length ps" and q: "q \<in> pool_blocks (ps ! i) (Fss ! i)"
  shows "owning_pool ps q = Some i"
proof -
  have o: "chunk_pool_owns (ps ! i) q" using pools_block_extent [OF inv i q] chunk_pool_owns_iff [OF inv i] by blast
  then obtain j where j: "owning_pool ps q = Some j" using owning_pool_None [of ps q] nth_mem [OF i] by fastforce
  then show ?thesis using pools_owner_unique [OF inv _ i _ o] owning_pool_Some [OF j] by simp
qed

lemma owning_pool_outside:
  assumes inv: "pools_inv live ok w ps Fss" and g: "g \<in> live (w_prov w)" and "fst g \<notin> all_storages ps"
    and x: "x \<in> grant_extent g"
  shows "owning_pool ps x = None"
proof -
  have "\<not> chunk_pool_owns cp x" if "cp \<in> set ps" for cp
  proof -
    obtain i where i: "i < length ps" "cp = ps ! i" using \<open>cp \<in> set ps\<close> by (auto simp: in_set_conv_nth)
    have "fst g \<notin> pool_storages (ps ! i)" using assms(3) i(1) unfolding all_storages_iff by blast
    then show ?thesis
      using pools_chunk_apart [OF inv i(1) _ g] chunk_pool_owns_iff [OF inv i(1)] x i(2) by blast
  qed
  then show ?thesis unfolding owning_pool_None by blast
qed

end

section \<open>The allocator\<close>

definition segregated_rest :: "('p \<Rightarrow> grant set) \<Rightarrow> 'p world \<Rightarrow> segregated \<Rightarrow> grant set" where
  "segregated_rest live w sa = {g \<in> live (w_prov w). fst g \<notin> all_storages (sa_pools sa)}"

definition segregated_inv ::
  "('p \<Rightarrow> grant set) \<Rightarrow> ('p \<Rightarrow> bool) \<Rightarrow> grant set \<Rightarrow> 'p world \<times> segregated \<Rightarrow> nat list list list \<Rightarrow> bool" where
  "segregated_inv live ok L s Fss \<longleftrightarrow>
     (case s of (w, sa) \<Rightarrow>
        pools_inv live ok w (sa_pools sa) Fss \<and> valid_selector (sa_selector sa) \<and>
        length (sa_pools sa) = length (sa_selector sa) \<and>
        (\<forall>i < length (sa_pools sa). cmo_block_size (cm_options (cp_manager (sa_pools sa ! i))) = sa_selector sa ! i \<and>
           cmo_alignment (cm_options (cp_manager (sa_pools sa ! i))) = sa_selector sa ! i) \<and>
        distinct (map fst (sa_fallback sa)) \<and> set (sa_fallback sa) \<subseteq> segregated_rest live w sa \<and>
        {g \<in> segregated_rest live w sa. fst g \<notin> fst ` set (sa_fallback sa)} = L)"

lemma segregated_invD:
  assumes "segregated_inv live ok L (w, sa) Fss"
  shows "pools_inv live ok w (sa_pools sa) Fss" and "valid_selector (sa_selector sa)"
    and "length (sa_pools sa) = length (sa_selector sa)"
    and "\<And>i. i < length (sa_pools sa) \<Longrightarrow> cmo_block_size (cm_options (cp_manager (sa_pools sa ! i))) = sa_selector sa ! i \<and>
           cmo_alignment (cm_options (cp_manager (sa_pools sa ! i))) = sa_selector sa ! i"
    and "distinct (map fst (sa_fallback sa))" and "set (sa_fallback sa) \<subseteq> segregated_rest live w sa"
    and "{g \<in> segregated_rest live w sa. fst g \<notin> fst ` set (sa_fallback sa)} = L"
  using assms unfolding segregated_inv_def prod.case by blast+

text \<open>
  \<open>H\<close> is what the client holds: each request is a live block of the pool of its class, or a direct allocation
  of its size and alignment.
\<close>

definition served ::
  "segregated \<Rightarrow> nat list list list \<Rightarrow> request \<Rightarrow> bool" where
  "served sa Fss h \<longleftrightarrow>
     (case h of (q, n, a) \<Rightarrow>
        (\<exists>i < length (sa_pools sa). selector_select (sa_selector sa) n a = Inr (Some i) \<and>
           q \<in> pool_blocks (sa_pools sa ! i) (Fss ! i)) \<or>
        (selector_select (sa_selector sa) n a = Inr None \<and> (q, normalize_size n, a) \<in> set (sa_fallback sa) \<and>
           unat a dvd unat q))"

definition segregated_blocks :: "segregated \<Rightarrow> nat list list list \<Rightarrow> addr set" where
  "segregated_blocks sa Fss =
     (\<Union>i < length (sa_pools sa). pool_blocks (sa_pools sa ! i) (Fss ! i)) \<union> fst ` set (sa_fallback sa)"

definition segregated_holds ::
  "('p \<Rightarrow> grant set) \<Rightarrow> ('p \<Rightarrow> bool) \<Rightarrow> grant set \<Rightarrow> 'p world \<times> segregated \<Rightarrow> request set \<Rightarrow> bool" where
  "segregated_holds live ok L s H \<longleftrightarrow>
     (\<exists>Fss. segregated_inv live ok L s Fss \<and> (\<forall>h \<in> H. served (snd s) Fss h) \<and> inj_on fst H \<and>
        fst ` H = segregated_blocks (snd s) Fss)"

lemma segregated_statistics_irrelevant [simp]:
  "segregated_inv live ok L (w, sa\<lparr>sa_statistics := x\<rparr>) Fss = segregated_inv live ok L (w, sa) Fss"
  "served (sa\<lparr>sa_statistics := x\<rparr>) Fss h = served sa Fss h"
  "segregated_blocks (sa\<lparr>sa_statistics := x\<rparr>) Fss = segregated_blocks sa Fss"
  by (simp_all add: segregated_inv_def segregated_rest_def served_def segregated_blocks_def)

lemma segregated_inv_cong:
  assumes "segregated_inv live ok L (w, sa) Fss" and "sa_pools sa' = sa_pools sa" and "sa_selector sa' = sa_selector sa"
    and "sa_fallback sa' = sa_fallback sa"
  shows "segregated_inv live ok L (w, sa') Fss"
  using assms(1) by (simp add: segregated_inv_def segregated_rest_def assms(2-4))

lemma update_statistics [simp]:
  "segregated_inv live ok L (w, update_totals f sa) Fss = segregated_inv live ok L (w, sa) Fss"
  "segregated_inv live ok L (w, update_class i g sa) Fss = segregated_inv live ok L (w, sa) Fss"
  "served (update_totals f sa) Fss h = served sa Fss h" "served (update_class i g sa) Fss h = served sa Fss h"
  "segregated_blocks (update_totals f sa) Fss = segregated_blocks sa Fss"
  "segregated_blocks (update_class i g sa) Fss = segregated_blocks sa Fss"
  "sa_pools (update_totals f sa) = sa_pools sa" "sa_pools (update_class i g sa) = sa_pools sa"
  "sa_selector (update_totals f sa) = sa_selector sa" "sa_selector (update_class i g sa) = sa_selector sa"
  "sa_fallback (update_totals f sa) = sa_fallback sa" "sa_fallback (update_class i g sa) = sa_fallback sa"
  by (simp_all add: update_totals_def update_class_def)

lemma segregated_rest_rest:
  assumes "segregated_inv live ok L (w, sa) Fss" and "i < length (sa_pools sa)" and "g \<in> segregated_rest live w sa"
  shows "g \<in> manager_rest live (cp_manager (sa_pools sa ! i)) w"
  using assms(2,3) unfolding segregated_rest_def manager_rest_storages all_storages_iff by blast

context memory_provider begin

lemma segregated_pool_step:
  assumes inv: "segregated_inv live ok L (w, sa) Fss" and i: "i < length (sa_pools sa)"
    and pi: "chunk_pool_inv live ok (manager_rest live (cp_manager (sa_pools sa ! i)) w) (w', cp') F'"
    and pol: "cp_policy cp' = GrowOnExhaustion" and opt: "cm_options (cp_manager cp') = cm_options (cp_manager (sa_pools sa ! i))"
    and frame: "\<And>g x. g \<in> manager_rest live (cp_manager (sa_pools sa ! i)) w \<Longrightarrow> x \<in> grant_extent g \<Longrightarrow> w_mem w' x = w_mem w x"
  shows "segregated_inv live ok L (w', sa\<lparr>sa_pools := (sa_pools sa)[i := cp']\<rparr>) (Fss[i := F'])"
proof -
  let ?sa = "sa\<lparr>sa_pools := (sa_pools sa)[i := cp']\<rparr>"
  note d = segregated_invD [OF inv]
  note mi = chunk_pool_invD(1) [OF pi]
  have rest: "manager_rest live (cp_manager cp') w' = manager_rest live (cp_manager (sa_pools sa ! i)) w"
    using chunk_pool_invD(4) [OF pi] pol by simp
  note st = pools_inv_step [OF d(1) i mi pol rest frame]
  have r: "segregated_rest live w' ?sa = segregated_rest live w sa" using st(2) by (simp add: segregated_rest_def)
  have o: "cmo_block_size (cm_options (cp_manager (sa_pools ?sa ! j))) = sa_selector sa ! j \<and>
      cmo_alignment (cm_options (cp_manager (sa_pools ?sa ! j))) = sa_selector sa ! j" if "j < length (sa_pools sa)" for j
    using d(4) [OF that] opt i by (cases "j = i") simp_all
  show ?thesis
    unfolding segregated_inv_def prod.case r using d(2,3,5,6,7) st(1) o by simp
qed

lemma pool_alignment:
  assumes inv: "segregated_inv live ok L (w, sa) Fss" and i: "i < length (sa_pools sa)"
    and q: "q \<in> pool_blocks (sa_pools sa ! i) (Fss ! i)"
  shows "q \<noteq> 0" and "unat (sa_selector sa ! i) dvd unat q"
    and "sa_selector sa ! i \<le> cm_block_size (cp_manager (sa_pools sa ! i))"
proof -
  note d = segregated_invD [OF inv]
  note mi = pools_invD(3) [OF d(1) i]
  note pm = pool_inv_of_manager [OF mi pools_invD(4) [OF d(1) i]]
  have c: "is_power_of_two (sa_selector sa ! i)" "8 \<le> sa_selector sa ! i"
    using d(2,3) i by (auto simp: valid_selector_def)
  have "cm_alignment (cp_manager (sa_pools sa ! i)) = sa_selector sa ! i"
    using manager_invD(6) [OF mi] d(4) [OF i] c(2) by (simp add: max_def)
  then show "q \<noteq> 0" and "unat (sa_selector sa ! i) dvd unat q"
    using chunk_pool_block_facts [OF pm(1)] q pm(2) by simp_all
  show "sa_selector sa ! i \<le> cm_block_size (cp_manager (sa_pools sa ! i))"
    using manager_invD(4) [OF mi] d(4) [OF i] by simp
qed

text \<open>Allocation from a size class.\<close>

lemma allocate_pooled_inv:
  assumes inv: "segregated_inv live ok L (w, sa) Fss" and i: "i < length (sa_pools sa)"
    and "allocate_pooled P i rq (w, sa) = (r, (w', sa'))"
  shows "\<exists>F'. segregated_inv live ok L (w', sa') (Fss[i := F']) \<and> sa_selector sa' = sa_selector sa \<and>
     sa_fallback sa' = sa_fallback sa \<and> length (sa_pools sa') = length (sa_pools sa) \<and>
     (\<forall>j < length (sa_pools sa). j \<noteq> i \<longrightarrow> sa_pools sa' ! j = sa_pools sa ! j) \<and>
     (case r of Inl e \<Rightarrow> e \<noteq> UndefinedBehaviour \<and> e \<noteq> Terminate \<and>
         pool_blocks (sa_pools sa' ! i) F' = pool_blocks (sa_pools sa ! i) (Fss ! i)
      | Inr q \<Rightarrow> q \<noteq> 0 \<and> q \<notin> pool_blocks (sa_pools sa ! i) (Fss ! i) \<and>
         pool_blocks (sa_pools sa' ! i) F' = insert q (pool_blocks (sa_pools sa ! i) (Fss ! i)))"
proof -
  let ?cp = "sa_pools sa ! i"
  note d = segregated_invD [OF inv]
  note pol = pools_invD(4) [OF d(1) i]
  note pm = pool_inv_of_manager [OF pools_invD(3) [OF d(1) i] pol]
  obtain b w1 cp1 where al: "chunk_pool_allocate P (w, ?cp) = (b, (w1, cp1))" by (metis prod_cases3)
  have pol1: "cp_policy cp1 = GrowOnExhaustion"
    using al pol by (auto simp: chunk_pool_allocate_def split: prod.splits sum.splits if_splits)
  note ai = chunk_pool_allocate_inv [OF pm(1) al]
  then obtain F1 where F1: "chunk_pool_inv live ok (manager_rest live (cp_manager ?cp) w) (w1, cp1) F1"
      and bl: "case b of Inl e \<Rightarrow> e \<noteq> UndefinedBehaviour \<and> e \<noteq> Terminate \<and> chunk_pool_blocks cp1 F1 = chunk_pool_blocks ?cp (Fss ! i)
         | Inr q \<Rightarrow> q \<noteq> 0 \<and> q \<notin> chunk_pool_blocks ?cp (Fss ! i) \<and> chunk_pool_blocks cp1 F1 = insert q (chunk_pool_blocks ?cp (Fss ! i))"
    using pol by (cases b) (auto split: if_splits)
  have st: "segregated_inv live ok L (w1, sa\<lparr>sa_pools := (sa_pools sa)[i := cp1]\<rparr>) (Fss[i := F1])"
    using chunk_pool_allocate_frame [OF pm(1) al]
    by (intro segregated_pool_step [OF inv i F1 pol1 chunk_pool_allocate_options [OF al]])
  have blk: "chunk_pool_blocks cp1 F1 = pool_blocks cp1 F1" "chunk_pool_blocks ?cp (Fss ! i) = pool_blocks ?cp (Fss ! i)"
    using pol pol1 by (simp_all add: chunk_pool_blocks_def pool_blocks_def)
  have r: "r = b" "w' = w1"
    and sa': "sa_pools sa' = (sa_pools sa)[i := cp1]" "sa_selector sa' = sa_selector sa" "sa_fallback sa' = sa_fallback sa"
    using assms(3) al by (cases b; auto simp: allocate_pooled_def Let_def)+
  have "segregated_inv live ok L (w', sa') (Fss[i := F1])"
    unfolding r(2) by (rule segregated_inv_cong [OF st]) (simp_all add: sa')
  then show ?thesis
    using sa' bl i unfolding r blk by (intro exI [of _ F1]) (cases b; simp)
qed

text \<open>Allocation straight from the provider.\<close>

lemma segregated_outside:
  assumes inv: "segregated_inv live ok L (w, sa) Fss" and "\<And>g. g \<in> live (w_prov w) \<Longrightarrow> x \<notin> grant_extent g"
  shows "x \<notin> segregated_blocks sa Fss"
proof
  note d = segregated_invD [OF inv]
  note okp = pools_invD(1) [OF d(1)]
  assume "x \<in> segregated_blocks sa Fss"
  then consider i where "i < length (sa_pools sa)" "x \<in> pool_blocks (sa_pools sa ! i) (Fss ! i)"
    | n a where "(x, n, a) \<in> set (sa_fallback sa)" by (auto simp: segregated_blocks_def)
  then show False
  proof cases
    case 1
    obtain c where c: "c \<in> set (cm_chunks (cp_manager (sa_pools sa ! i)))" "x \<in> chunk_extent c"
      using pools_block_extent [OF d(1) 1] by blast
    then show ?thesis using assms(2) [OF pools_chunk_live(1) [OF d(1) 1(1) c(1)]] by (simp add: chunk_extent_def)
  next
    case 2
    then have g: "(x, n, a) \<in> live (w_prov w)" using d(6) by (auto simp: segregated_rest_def)
    then show ?thesis using assms(2) [OF g] live_wf [OF okp g] extent_self [of n x] by simp
  qed
qed

lemma segregated_provider_step:
  assumes inv: "segregated_inv live ok L (w, sa) Fss" and "ok p"
    and "\<And>g. fst g \<in> all_storages (sa_pools sa) \<Longrightarrow> g \<in> live (w_prov w) \<Longrightarrow> g \<in> live p"
    and fb: "distinct (map fst fs)" "set fs \<subseteq> {g \<in> live p. fst g \<notin> all_storages (sa_pools sa)}"
    and L: "{g \<in> live p. fst g \<notin> all_storages (sa_pools sa) \<and> fst g \<notin> fst ` set fs} = L"
    and w': "w_prov w' = p" "w_mem w' = w_mem w"
    and sa': "sa_pools sa' = sa_pools sa" "sa_selector sa' = sa_selector sa" "sa_fallback sa' = fs"
  shows "segregated_inv live ok L (w', sa') Fss"
proof -
  note d = segregated_invD [OF inv]
  have "pools_inv live ok w' (sa_pools sa) Fss"
    using assms(2,3) w' by (intro pools_inv_world [OF d(1)]) simp_all
  then show ?thesis
    using d(2-4) fb L unfolding segregated_inv_def segregated_rest_def prod.case sa' w' by simp
qed

lemma segregated_same_live:
  assumes inv: "segregated_inv live ok L (w, sa) Fss" and "ok (w_prov w')" and "live (w_prov w') = live (w_prov w)"
    and "w_mem w' = w_mem w"
  shows "segregated_inv live ok L (w', sa) Fss"
proof -
  note d = segregated_invD [OF inv]
  have "pools_inv live ok w' (sa_pools sa) Fss" using assms(2-) by (intro pools_inv_world [OF d(1)]) simp_all
  moreover have "segregated_rest live w' sa = segregated_rest live w sa" using assms(3) by (simp add: segregated_rest_def)
  ultimately show ?thesis using d(2-) unfolding segregated_inv_def prod.case by simp
qed

lemma allocate_fallback_inv:
  assumes inv: "segregated_inv live ok L (w, sa) Fss" and al: "is_power_of_two al" and rq: "rq \<noteq> 0"
    and "allocate_fallback P rq al (w, sa) = (r, (w', sa'))"
  shows "segregated_inv live ok L (w', sa') Fss \<and> sa_selector sa' = sa_selector sa \<and> sa_pools sa' = sa_pools sa \<and>
     (case r of Inl e \<Rightarrow> e \<noteq> UndefinedBehaviour \<and> e \<noteq> Terminate \<and> sa_fallback sa' = sa_fallback sa
      | Inr q \<Rightarrow> q \<noteq> 0 \<and> unat al dvd unat q \<and> q \<notin> segregated_blocks sa Fss \<and>
          sa_fallback sa' = (q, rq, al) # sa_fallback sa)"
proof -
  note d = segregated_invD [OF inv]
  note okp = pools_invD(1) [OF d(1)]
  note L = d(7) [unfolded segregated_rest_def]
  have fs: "set (sa_fallback sa) \<subseteq> live (w_prov w)" using d(6) by (auto simp: segregated_rest_def)
  obtain b p where pa: "prov_allocate P rq al (w_prov w) = (b, p)" by (cases "prov_allocate P rq al (w_prov w)")
  obtain node w1 where me: "meta_alloc (w\<lparr>w_prov := p\<rparr>) = (node, w1)" by (cases "meta_alloc (w\<lparr>w_prov := p\<rparr>)")
  have w1: "w_mem w1 = w_mem w" "w_prov w1 = p" using meta_alloc_world [OF me] by simp_all
  show ?thesis
  proof (cases b)
    case (Inl e)
    note pl = allocate_Inl [OF okp pa [unfolded Inl]]
    have res: "r = Inl e" "w' = w\<lparr>w_prov := p\<rparr>" "sa' = sa" using assms(4) pa Inl by (auto simp: allocate_fallback_def)
    have "segregated_inv live ok L (w', sa') Fss"
      unfolding res using pl by (intro segregated_same_live [OF inv]) simp_all
    then show ?thesis using res pl by simp
  next
    case (Inr q)
    note g = allocate_Inr [OF okp rq al pa [unfolded Inr]]
    have out: "x \<notin> grant_extent h" if "x \<in> extent q rq" "h \<in> live (w_prov w)" for x h using g that by blast
    have nq: "q \<notin> segregated_blocks sa Fss"
      by (rule segregated_outside [OF inv out [OF extent_self [OF rq]]])
    have fresh: "fst h \<noteq> q" if "h \<in> live (w_prov w)" for h using allocate_fresh [OF okp rq al pa [unfolded Inr] that] .
    have "q \<notin> fst ` set (sa_fallback sa)" using fs fresh by blast
    then have mo: "map_of (sa_fallback sa) q = None" by (simp add: map_of_eq_None_iff)
    have sub: "live (w_prov w) \<subseteq> live p" using g by blast
    have nst: "q \<notin> all_storages (sa_pools sa)"
    proof
      assume "q \<in> all_storages (sa_pools sa)"
      then obtain i c where c: "i < length (sa_pools sa)" "c \<in> set (cm_chunks (cp_manager (sa_pools sa ! i)))" "q = mc_storage c"
        unfolding all_storages_iff pool_storages_def by blast
      then show False using fresh [OF pools_chunk_live(1) [OF d(1) c(1,2)]] by simp
    qed
    show ?thesis
    proof (cases node)
      case False
      note un = allocate_deallocate [OF okp rq al pa [unfolded Inr]]
      have res: "r = Inl BadAlloc" "w' = w1\<lparr>w_prov := prov_deallocate P q rq al p\<rparr>" "sa' = sa"
        using assms(4) pa Inr me False w1 by (auto simp: allocate_fallback_def Let_def)
      have "segregated_inv live ok L (w', sa') Fss"
        unfolding res using un w1 by (intro segregated_same_live [OF inv]) simp_all
      then show ?thesis using res by simp
    next
      case True
      have res: "r = Inr q" "w' = w1" "sa_pools sa' = sa_pools sa" "sa_selector sa' = sa_selector sa"
        "sa_fallback sa' = (q, rq, al) # sa_fallback sa"
        using assms(4) pa Inr me True mo by (auto simp: allocate_fallback_def Let_def)
      have key: "{h \<in> live p. fst h \<notin> all_storages (sa_pools sa) \<and> fst h \<notin> fst ` set ((q, rq, al) # sa_fallback sa)} = L"
        unfolding L [symmetric] using g by auto
      have "segregated_inv live ok L (w', sa') Fss"
      proof (rule segregated_provider_step [OF inv _ _ _ _ key])
        show "ok p" using g by blast
        show "h \<in> live p" if "h \<in> live (w_prov w)" for h using sub that by blast
        show "distinct (map fst ((q, rq, al) # sa_fallback sa))" using d(5) \<open>q \<notin> fst ` set (sa_fallback sa)\<close> by simp
        have "(q, rq, al) \<in> live p" using g by blast
        then show "set ((q, rq, al) # sa_fallback sa) \<subseteq> {h \<in> live p. fst h \<notin> all_storages (sa_pools sa)}"
          using d(6) sub nst by (auto simp: segregated_rest_def)
      qed (simp_all add: res w1)
      then show ?thesis using res g nq by simp
    qed
  qed
qed

section \<open>Allocation\<close>

lemma selector_select_normalize [simp]: "selector_select cs (normalize_size n) a = selector_select cs n a"
  by (simp add: selector_select_def normalize_size_def Let_def)

lemma normalize_size_nonzero [simp]: "normalize_size n \<noteq> 0"
  unfolding normalize_size_def by (rule max_1_nonzero)

lemma segregated_blocks_disjoint:
  assumes inv: "segregated_inv live ok L (w, sa) Fss" and i: "i < length (sa_pools sa)"
    and q: "q \<in> pool_blocks (sa_pools sa ! i) (Fss ! i)"
  shows "q \<notin> fst ` set (sa_fallback sa)"
    and "\<And>j. j < length (sa_pools sa) \<Longrightarrow> q \<in> pool_blocks (sa_pools sa ! j) (Fss ! j) \<Longrightarrow> j = i"
proof -
  note d = segregated_invD [OF inv]
  note o = owning_pool_block [OF d(1) i q]
  show "q \<notin> fst ` set (sa_fallback sa)"
  proof
    assume "q \<in> fst ` set (sa_fallback sa)"
    then obtain n a where f: "(q, n, a) \<in> set (sa_fallback sa)" by auto
    then have g: "(q, n, a) \<in> live (w_prov w)" "q \<notin> all_storages (sa_pools sa)" using d(6) by (auto simp: segregated_rest_def)
    have "n \<noteq> 0" using live_wf [OF pools_invD(1) [OF d(1)] g(1)] by simp
    then have "owning_pool (sa_pools sa) q = None"
      using owning_pool_outside [OF d(1) g(1), of q] g(2) extent_self [of n q] by simp
    then show False using o by simp
  qed
  fix j assume "j < length (sa_pools sa)" and "q \<in> pool_blocks (sa_pools sa ! j) (Fss ! j)"
  then show "j = i" using owning_pool_block [OF d(1), of j q] o by simp
qed

lemma segregated_blocks_pool:
  assumes "length (sa_pools sa') = length (sa_pools sa)" and "length Fss = length (sa_pools sa)" and "i < length (sa_pools sa)"
    and "\<forall>j < length (sa_pools sa). j \<noteq> i \<longrightarrow> sa_pools sa' ! j = sa_pools sa ! j" and "sa_fallback sa' = sa_fallback sa"
    and "pool_blocks (sa_pools sa' ! i) F' = insert q (pool_blocks (sa_pools sa ! i) (Fss ! i))"
  shows "segregated_blocks sa' (Fss[i := F']) = insert q (segregated_blocks sa Fss)"
proof -
  have "pool_blocks (sa_pools sa' ! j) (Fss[i := F'] ! j) =
      (if j = i then insert q (pool_blocks (sa_pools sa ! i) (Fss ! i)) else pool_blocks (sa_pools sa ! j) (Fss ! j))"
    if "j < length (sa_pools sa)" for j
    using assms that by simp
  then have "(\<Union>j < length (sa_pools sa). pool_blocks (sa_pools sa' ! j) (Fss[i := F'] ! j)) =
      insert q (\<Union>j < length (sa_pools sa). pool_blocks (sa_pools sa ! j) (Fss ! j))"
    using assms(3) by (auto split: if_splits)
  then show ?thesis unfolding segregated_blocks_def assms(1,5) by simp
qed

lemma segregated_allocate_inv:
  assumes inv: "segregated_inv live ok L (w, sa) Fss" and "segregated_allocate P n a (w, sa) = (r, (w', sa'))"
  shows "\<exists>Fss'. segregated_inv live ok L (w', sa') Fss' \<and> sa_selector sa' = sa_selector sa \<and>
     (\<forall>h. served sa Fss h \<longrightarrow> served sa' Fss' h) \<and>
     (case r of Inl e \<Rightarrow> e \<noteq> UndefinedBehaviour \<and> e \<noteq> Terminate \<and> segregated_blocks sa' Fss' = segregated_blocks sa Fss
      | Inr q \<Rightarrow> q \<noteq> 0 \<and> unat a dvd unat q \<and> q \<notin> segregated_blocks sa Fss \<and>
          segregated_blocks sa' Fss' = insert q (segregated_blocks sa Fss) \<and> served sa' Fss' (q, n, a))"
proof -
  let ?sa = "update_totals count_request sa"
  have inv0: "segregated_inv live ok L (w, ?sa) Fss" using inv by simp
  note d = segregated_invD [OF inv]
  note v = d(2)
  have len: "length Fss = length (sa_pools sa)" by (rule pools_invD(2) [OF d(1)])
  consider (bad) e where "selector_select (sa_selector sa) n a = Inl e"
    | (none) "selector_select (sa_selector sa) n a = Inr None"
    | (some) i where "selector_select (sa_selector sa) n a = Inr (Some i)"
    by (cases "selector_select (sa_selector sa) n a"; metis option.exhaust)
  then show ?thesis
  proof cases
    case bad
    then have "e = InvalidArgument" by (auto simp: selector_select_def Let_def split: if_splits)
    moreover have "r = Inl e" "w' = w" "sa' = update_totals count_failure ?sa"
      using assms(2) bad by (auto simp: segregated_allocate_def)
    ultimately show ?thesis using inv by (intro exI [of _ Fss]) simp
  next
    case none
    have p: "is_power_of_two a" using none by (auto simp: selector_select_def split: if_splits)
    obtain b w1 sa1 where f: "allocate_fallback P (normalize_size n) a (w, ?sa) = (b, (w1, sa1))" by (metis prod_cases3)
    note fi = allocate_fallback_inv [OF inv0 p normalize_size_nonzero f]
    have res: "r = b" "w' = w1" "sa' = (case b of Inl _ \<Rightarrow> update_totals count_failure sa1 | Inr _ \<Rightarrow> sa1)"
      using assms(2) none f by (cases b; auto simp: segregated_allocate_def)+
    have sv: "served sa Fss h \<Longrightarrow> served sa1 Fss h" for h
      using fi by (cases b) (auto simp: served_def)
    show ?thesis
    proof (cases b)
      case (Inl e)
      then have "segregated_blocks sa1 Fss = segregated_blocks sa Fss" using fi by (simp add: segregated_blocks_def)
      then show ?thesis using fi sv res Inl by (intro exI [of _ Fss]) simp
    next
      case (Inr q)
      then have "segregated_blocks sa1 Fss = insert q (segregated_blocks sa Fss)" using fi by (simp add: segregated_blocks_def)
      moreover have "served sa1 Fss (q, n, a)" using fi none Inr by (simp add: served_def)
      ultimately show ?thesis using fi sv res Inr by (intro exI [of _ Fss]) simp
    qed
  next
    case (some i)
    note ss = selector_select_Some [OF v some]
    have i: "i < length (sa_pools sa)" using ss(1) d(3) by simp
    obtain b w1 sa1 where f: "allocate_pooled P i (normalize_size n) (w, ?sa) = (b, (w1, sa1))" by (metis prod_cases3)
    obtain F' where fi: "segregated_inv live ok L (w1, sa1) (Fss[i := F'])" "sa_selector sa1 = sa_selector sa"
        "sa_fallback sa1 = sa_fallback sa" "length (sa_pools sa1) = length (sa_pools sa)"
        "\<forall>j < length (sa_pools sa). j \<noteq> i \<longrightarrow> sa_pools sa1 ! j = sa_pools sa ! j"
      and bl: "case b of Inl e \<Rightarrow> e \<noteq> UndefinedBehaviour \<and> e \<noteq> Terminate \<and>
         pool_blocks (sa_pools sa1 ! i) F' = pool_blocks (sa_pools sa ! i) (Fss ! i)
      | Inr q \<Rightarrow> q \<noteq> 0 \<and> q \<notin> pool_blocks (sa_pools sa ! i) (Fss ! i) \<and>
         pool_blocks (sa_pools sa1 ! i) F' = insert q (pool_blocks (sa_pools sa ! i) (Fss ! i))"
      using allocate_pooled_inv [OF inv0 _ f, unfolded update_statistics, OF i] by blast
    have res: "r = b" "w' = w1" "sa' = (case b of Inl _ \<Rightarrow> update_totals count_failure sa1 | Inr _ \<Rightarrow> sa1)"
      using assms(2) some f by (cases b; auto simp: segregated_allocate_def)+
    have bj: "pool_blocks (sa_pools sa ! j) (Fss ! j) \<subseteq> pool_blocks (sa_pools sa1 ! j) (Fss[i := F'] ! j)"
      if "j < length (sa_pools sa)" for j
      using bl fi(5) that i len by (cases "j = i"; cases b) auto
    have sv: "served sa1 (Fss[i := F']) h" if "served sa Fss h" for h
      using that bj fi(2-4) unfolding served_def by (auto split: prod.splits)
    show ?thesis
    proof (cases b)
      case (Inl e)
      have "pool_blocks (sa_pools sa1 ! j) (Fss[i := F'] ! j) = pool_blocks (sa_pools sa ! j) (Fss ! j)"
        if "j < length (sa_pools sa)" for j
        using bl fi(5) that i len Inl by (cases "j = i") auto
      then have "segregated_blocks sa1 (Fss[i := F']) = segregated_blocks sa Fss" using fi(3,4) by (simp add: segregated_blocks_def)
      then show ?thesis using fi sv res Inl bl by (intro exI [of _ "Fss[i := F']"]) simp
    next
      case (Inr q)
      have bi: "q \<noteq> 0" "pool_blocks (sa_pools sa1 ! i) F' = insert q (pool_blocks (sa_pools sa ! i) (Fss ! i))"
        and nq: "q \<notin> pool_blocks (sa_pools sa ! i) (Fss ! i)" using bl Inr by auto
      have qi: "q \<in> pool_blocks (sa_pools sa1 ! i) (Fss[i := F'] ! i)" and i1: "i < length (sa_pools sa1)" using bi i len fi(4) by simp_all
      note dj = segregated_blocks_disjoint [OF fi(1) i1 qi]
      have "q \<notin> segregated_blocks sa Fss"
      proof
        assume "q \<in> segregated_blocks sa Fss"
        then obtain j where j: "j < length (sa_pools sa)" "q \<in> pool_blocks (sa_pools sa ! j) (Fss ! j)"
          using dj(1) fi(3) by (auto simp: segregated_blocks_def)
        then have "j = i" using dj(2) [of j] bj [OF j(1)] fi(4) by auto
        then show False using j(2) nq by simp
      qed
      moreover have "unat a dvd unat q"
        using pool_alignment(2) [OF fi(1) i1 qi] ss(5) fi(2) by (metis dvd_trans)
      moreover have "served sa1 (Fss[i := F']) (q, n, a)" using some qi i1 fi(2) by (auto simp: served_def)
      ultimately show ?thesis
        using fi sv res Inr bi segregated_blocks_pool [OF fi(4) len i fi(5,3) bi(2)]
        by (intro exI [of _ "Fss[i := F']"]) simp
    qed
  qed
qed

section \<open>Deallocation\<close>

lemma fallback_entry:
  assumes inv: "segregated_inv live ok L (w, sa) Fss" and f: "(q, n, a) \<in> set (sa_fallback sa)"
  shows "owning_class sa q = None" and "map_of (sa_fallback sa) q = Some (n, a)" and "(q, n, a) \<in> live (w_prov w)"
    and "q \<noteq> 0" and "q \<notin> all_storages (sa_pools sa)"
proof -
  note d = segregated_invD [OF inv]
  show g: "(q, n, a) \<in> live (w_prov w)" "q \<notin> all_storages (sa_pools sa)" using d(6) f by (auto simp: segregated_rest_def)
  note wf = live_wf [OF pools_invD(1) [OF d(1)] g(1)]
  then show "q \<noteq> 0" by simp
  show "owning_class sa q = None"
    using owning_pool_outside [OF d(1) g(1), of q] g(2) extent_self [of n q] wf by (simp add: owning_class_def)
  show "map_of (sa_fallback sa) q = Some (n, a)" using d(5) f by (simp add: map_of_eq_Some_iff)
qed

lemma segregated_deallocate_pooled:
  assumes inv: "segregated_inv live ok L (w, sa) Fss" and i: "i < length (sa_pools sa)"
    and q: "q \<in> pool_blocks (sa_pools sa ! i) (Fss ! i)" and "segregated_deallocate P q (w, sa) = (r, (w', sa'))"
  shows "r = Inr () \<and> (\<exists>F'. segregated_inv live ok L (w', sa') (Fss[i := F']) \<and> sa_selector sa' = sa_selector sa \<and>
     sa_fallback sa' = sa_fallback sa \<and> length (sa_pools sa') = length (sa_pools sa) \<and>
     (\<forall>j < length (sa_pools sa). j \<noteq> i \<longrightarrow> sa_pools sa' ! j = sa_pools sa ! j) \<and>
     pool_blocks (sa_pools sa' ! i) F' = pool_blocks (sa_pools sa ! i) (Fss ! i) - {q})"
proof -
  let ?cp = "sa_pools sa ! i"
  note d = segregated_invD [OF inv]
  note pol = pools_invD(4) [OF d(1) i]
  note pm = pool_inv_of_manager [OF pools_invD(3) [OF d(1) i] pol]
  have qb: "q \<in> chunk_pool_blocks ?cp (Fss ! i)" using q pm(2) by simp
  obtain b w1 cp1 where de: "chunk_pool_deallocate P q (w, ?cp) = (b, (w1, cp1))" by (metis prod_cases3)
  from chunk_pool_deallocate_live [OF pm(1) qb de] obtain F1 where b: "b = Inr ()"
    and F1: "chunk_pool_inv live ok (manager_rest live (cp_manager ?cp) w) (w1, cp1) F1"
    and bl: "chunk_pool_blocks cp1 F1 = chunk_pool_blocks ?cp (Fss ! i) - {q}" by blast
  have pol1: "cp_policy cp1 = GrowOnExhaustion"
    using de pol by (auto simp: chunk_pool_deallocate_def split: prod.splits if_splits)
  have blk: "chunk_pool_blocks cp1 F1 = pool_blocks cp1 F1" "chunk_pool_blocks ?cp (Fss ! i) = pool_blocks ?cp (Fss ! i)"
    using pol pol1 by (simp_all add: chunk_pool_blocks_def pool_blocks_def)
  have st: "segregated_inv live ok L (w1, sa\<lparr>sa_pools := (sa_pools sa)[i := cp1]\<rparr>) (Fss[i := F1])"
    using chunk_pool_deallocate_frame [OF pm(1) qb de]
    by (intro segregated_pool_step [OF inv i F1 pol1 chunk_pool_deallocate_options [OF de]])
  have "owning_class sa q = Some i" using owning_pool_block [OF d(1) i q] by (simp add: owning_class_def)
  then have r: "r = Inr ()" "w' = w1"
    and sa': "sa_pools sa' = (sa_pools sa)[i := cp1]" "sa_selector sa' = sa_selector sa" "sa_fallback sa' = sa_fallback sa"
    using assms(4) de b pool_alignment(1) [OF inv i q] by (auto simp: segregated_deallocate_def)
  have "segregated_inv live ok L (w', sa') (Fss[i := F1])"
    unfolding r(2) by (rule segregated_inv_cong [OF st]) (simp_all add: sa')
  then show ?thesis using sa' bl i r(1) unfolding blk by (intro conjI exI [of _ F1]) simp_all
qed

lemma segregated_deallocate_fallback:
  assumes inv: "segregated_inv live ok L (w, sa) Fss" and f: "(q, n, a) \<in> set (sa_fallback sa)"
    and "segregated_deallocate P q (w, sa) = (r, (w', sa'))"
  shows "r = Inr () \<and> segregated_inv live ok L (w', sa') Fss \<and> sa_selector sa' = sa_selector sa \<and> sa_pools sa' = sa_pools sa \<and>
     sa_fallback sa' = filter (\<lambda>e. fst e \<noteq> q) (sa_fallback sa)"
proof -
  note d = segregated_invD [OF inv] and fe = fallback_entry [OF inv f]
  let ?p = "prov_deallocate P q n a (w_prov w)" and ?fs = "filter (\<lambda>e. fst e \<noteq> q) (sa_fallback sa)"
  note dl = deallocate [OF pools_invD(1) [OF d(1)] fe(3)]
  have res: "r = Inr ()" "w' = w\<lparr>w_prov := ?p\<rparr>" "sa_pools sa' = sa_pools sa" "sa_selector sa' = sa_selector sa"
    "sa_fallback sa' = ?fs"
    using assms(3) fe by (auto simp: segregated_deallocate_def)
  have key: "{h \<in> live ?p. fst h \<notin> all_storages (sa_pools sa) \<and> fst h \<notin> fst ` set ?fs} = L"
    unfolding d(7) [symmetric] segregated_rest_def using dl imageI [OF f, of fst] by auto
  have "segregated_inv live ok L (w', sa') Fss"
  proof (rule segregated_provider_step [OF inv _ _ _ _ key])
    show "ok ?p" using dl by blast
    show "h \<in> live ?p" if "fst h \<in> all_storages (sa_pools sa)" "h \<in> live (w_prov w)" for h using dl fe(5) that by auto
    show "distinct (map fst ?fs)" using d(5) by (simp add: distinct_map_filter)
    show "set ?fs \<subseteq> {h \<in> live ?p. fst h \<notin> all_storages (sa_pools sa)}"
      using d(6) dl by (auto simp: segregated_rest_def)
  qed (simp_all add: res)
  then show ?thesis using res by simp
qed

lemma segregated_deallocate_live:
  assumes inv: "segregated_inv live ok L (w, sa) Fss" and q: "q \<in> segregated_blocks sa Fss"
    and de: "segregated_deallocate P q (w, sa) = (r, (w', sa'))"
  shows "r = Inr () \<and> (\<exists>Fss'. segregated_inv live ok L (w', sa') Fss' \<and> sa_selector sa' = sa_selector sa \<and>
     segregated_blocks sa' Fss' = segregated_blocks sa Fss - {q} \<and>
     (\<forall>h. served sa Fss h \<longrightarrow> fst h \<noteq> q \<longrightarrow> served sa' Fss' h))"
proof -
  note d = segregated_invD [OF inv]
  have len: "length Fss = length (sa_pools sa)" by (rule pools_invD(2) [OF d(1)])
  from q consider i where "i < length (sa_pools sa)" "q \<in> pool_blocks (sa_pools sa ! i) (Fss ! i)"
    | n a where "(q, n, a) \<in> set (sa_fallback sa)" by (auto simp: segregated_blocks_def)
  then show ?thesis
  proof cases
    case (1 i)
    note dj = segregated_blocks_disjoint [OF inv 1]
    from segregated_deallocate_pooled [OF inv 1 de] obtain F' where r: "r = Inr ()"
      and fi: "segregated_inv live ok L (w', sa') (Fss[i := F'])" "sa_selector sa' = sa_selector sa"
        "sa_fallback sa' = sa_fallback sa" "length (sa_pools sa') = length (sa_pools sa)"
        "\<forall>j < length (sa_pools sa). j \<noteq> i \<longrightarrow> sa_pools sa' ! j = sa_pools sa ! j"
        "pool_blocks (sa_pools sa' ! i) F' = pool_blocks (sa_pools sa ! i) (Fss ! i) - {q}" by (elim conjE exE)
    have bj: "pool_blocks (sa_pools sa' ! j) (Fss[i := F'] ! j) = pool_blocks (sa_pools sa ! j) (Fss ! j) - {q}"
      if j: "j < length (sa_pools sa)" for j
    proof (cases "j = i")
      case True
      then show ?thesis using fi(6) 1(1) len by simp
    next
      case False
      then have "q \<notin> pool_blocks (sa_pools sa ! j) (Fss ! j)" using dj(2) [OF j] by blast
      then show ?thesis using fi(5) j False by simp
    qed
    have "(\<Union>j < length (sa_pools sa). pool_blocks (sa_pools sa' ! j) (Fss[i := F'] ! j)) =
        (\<Union>j < length (sa_pools sa). pool_blocks (sa_pools sa ! j) (Fss ! j)) - {q}" using bj by auto
    then have "segregated_blocks sa' (Fss[i := F']) = segregated_blocks sa Fss - {q}"
      unfolding segregated_blocks_def fi(3,4) using dj(1) by auto
    moreover have "served sa' (Fss[i := F']) h" if "served sa Fss h" "fst h \<noteq> q" for h
      using that bj fi(2-4) unfolding served_def by (auto split: prod.splits)
    ultimately show ?thesis using r fi(1,2) by blast
  next
    case (2 n a)
    note fi = segregated_deallocate_fallback [OF inv 2 de]
    have "q \<notin> pool_blocks (sa_pools sa ! j) (Fss ! j)" if "j < length (sa_pools sa)" for j
      using segregated_blocks_disjoint(1) [OF inv that, of q] 2 by force
    then have "segregated_blocks sa' Fss = segregated_blocks sa Fss - {q}"
      using fi unfolding segregated_blocks_def by auto
    moreover have "served sa' Fss h" if "served sa Fss h" "fst h \<noteq> q" for h
      using that fi unfolding served_def by (auto split: prod.splits)
    ultimately show ?thesis using fi by blast
  qed
qed

lemma segregated_deallocate_sized_served:
  assumes inv: "segregated_inv live ok L (w, sa) Fss" and "served sa Fss (q, n, a)"
  shows "segregated_deallocate_sized P q n a (w, sa) = segregated_deallocate P q (w, sa)"
    and "q \<in> segregated_blocks sa Fss"
proof -
  note d = segregated_invD [OF inv]
  from assms(2) consider (pool) i where "i < length (sa_pools sa)" "q \<in> pool_blocks (sa_pools sa ! i) (Fss ! i)"
      "selector_select (sa_selector sa) n a = Inr (Some i)"
    | (direct) "(q, normalize_size n, a) \<in> set (sa_fallback sa)" by (auto simp: served_def)
  then have "segregated_deallocate_sized P q n a (w, sa) = segregated_deallocate P q (w, sa) \<and> q \<in> segregated_blocks sa Fss"
  proof cases
    case (pool i)
    have "owning_class sa q = Some i" using owning_pool_block [OF d(1) pool(1,2)] by (simp add: owning_class_def)
    then show ?thesis
      using pool by (auto simp: segregated_deallocate_sized_def segregated_deallocate_def segregated_blocks_def)
  next
    case direct
    note fe = fallback_entry [OF inv direct]
    have "q \<in> fst ` set (sa_fallback sa)" using direct by force
    then show ?thesis
      using fe by (simp add: segregated_deallocate_sized_def segregated_blocks_def)
  qed
  then show "segregated_deallocate_sized P q n a (w, sa) = segregated_deallocate P q (w, sa)"
    and "q \<in> segregated_blocks sa Fss" by blast+
qed

section \<open>Client access\<close>

lemma served_extent:
  assumes inv: "segregated_inv live ok L (w, sa) Fss" and "served sa Fss (q, n, a)"
  shows "(\<exists>i < length (sa_pools sa). q \<in> pool_blocks (sa_pools sa ! i) (Fss ! i) \<and>
       extent q n \<subseteq> extent q (cm_block_size (cp_manager (sa_pools sa ! i)))) \<or>
     ((q, normalize_size n, a) \<in> set (sa_fallback sa) \<and> extent q n \<subseteq> extent q (normalize_size n))"
proof -
  have n: "n \<le> normalize_size n" by (simp add: normalize_size_def)
  from assms(2) consider (pool) i where "i < length (sa_pools sa)" "q \<in> pool_blocks (sa_pools sa ! i) (Fss ! i)"
      "selector_select (sa_selector sa) n a = Inr (Some i)"
    | (direct) "(q, normalize_size n, a) \<in> set (sa_fallback sa)" by (auto simp: served_def)
  then show ?thesis
  proof cases
    case (pool i)
    have "n \<le> cm_block_size (cp_manager (sa_pools sa ! i))"
      using selector_select_Some(2) [OF segregated_invD(2) [OF inv] pool(3)] pool_alignment(3) [OF inv pool(1,2)]
      by (auto intro: order_trans)
    then show ?thesis using pool extent_mono by blast
  next
    case direct
    then show ?thesis using extent_mono [OF n] by blast
  qed
qed

lemma segregated_client_write:
  assumes inv: "segregated_inv live ok L (w, sa) Fss" and sv: "served sa Fss (q, n, a)" and x: "x \<in> extent q n"
  shows "segregated_inv live ok L (w\<lparr>w_mem := (w_mem w)(x := b)\<rparr>, sa) Fss"
proof -
  let ?w = "w\<lparr>w_mem := (w_mem w)(x := b)\<rparr>"
  note d = segregated_invD [OF inv]
  note okp = pools_invD(1) [OF d(1)]
  from served_extent [OF inv sv] show ?thesis
  proof (elim disjE exE conjE)
    fix i assume i: "i < length (sa_pools sa)" and q: "q \<in> pool_blocks (sa_pools sa ! i) (Fss ! i)"
      and ex: "extent q n \<subseteq> extent q (cm_block_size (cp_manager (sa_pools sa ! i)))"
    let ?cp = "sa_pools sa ! i"
    note pol = pools_invD(4) [OF d(1) i]
    note pm = pool_inv_of_manager [OF pools_invD(3) [OF d(1) i] pol]
    have xb: "x \<in> extent q (cm_block_size (cp_manager ?cp))" using x ex by blast
    have qb: "q \<in> chunk_pool_blocks ?cp (Fss ! i)" using q pm(2) by simp
    note cw = chunk_pool_client_write [OF pm(1) qb xb]
    obtain c where c: "c \<in> set (cm_chunks (cp_manager ?cp))" "x \<in> chunk_extent c"
      using pools_block_extent [OF d(1) i q] xb by blast
    have fr: "w_mem ?w y = w_mem w y" if "g \<in> manager_rest live (cp_manager ?cp) w" "y \<in> grant_extent g" for g y
      using pools_chunk_apart [OF d(1) i c(1), of g] that c(2) unfolding manager_rest_storages by auto
    have "segregated_inv live ok L (?w, sa\<lparr>sa_pools := (sa_pools sa)[i := ?cp]\<rparr>) (Fss[i := Fss ! i])"
      using fr by (intro segregated_pool_step [OF inv i cw pol refl])
    then show ?thesis by simp
  next
    assume f: "(q, normalize_size n, a) \<in> set (sa_fallback sa)" and ex: "extent q n \<subseteq> extent q (normalize_size n)"
    note fe = fallback_entry [OF inv f]
    have fr: "w_mem ?w y = w_mem w y"
      if g: "g \<in> live (w_prov w)" "fst g \<in> all_storages (sa_pools sa)" and y: "y \<in> grant_extent g" for g y
    proof -
      have "fst g \<noteq> fst (q, normalize_size n, a)" using fe(5) g(2) by auto
      from live_disjoint [OF okp g(1) fe(3) this] have "x \<noteq> y" using x ex y by auto
      then show ?thesis by simp
    qed
    have "pools_inv live ok ?w (sa_pools sa) Fss" using okp fr by (intro pools_inv_world [OF d(1)]) simp_all
    moreover have "segregated_rest live ?w sa = segregated_rest live w sa" by (simp add: segregated_rest_def)
    ultimately show ?thesis using d(2-) unfolding segregated_inv_def prod.case by simp
  qed
qed

lemma served_apart:
  assumes inv: "segregated_inv live ok L (w, sa) Fss" and sv: "served sa Fss (q, n, a)" "served sa Fss (q', n', a')" and ne: "q \<noteq> q'"
  shows "extent q n \<inter> extent q' n' = {}"
proof -
  note d = segregated_invD [OF inv]
  note okp = pools_invD(1) [OF d(1)]
  let ?E = "\<lambda>q i. extent q (cm_block_size (cp_manager (sa_pools sa ! i)))"
  have mixed: "?E p i \<inter> extent r (normalize_size k) = {}"
    if i: "i < length (sa_pools sa)" and p: "p \<in> pool_blocks (sa_pools sa ! i) (Fss ! i)"
      and f: "(r, normalize_size k, z) \<in> set (sa_fallback sa)" for p r k z i
  proof -
    obtain c where c: "c \<in> set (cm_chunks (cp_manager (sa_pools sa ! i)))" "?E p i \<subseteq> chunk_extent c"
      using pools_block_extent [OF d(1) i p] by blast
    note fe = fallback_entry [OF inv f]
    have "r \<notin> pool_storages (sa_pools sa ! i)" using fe(5) i unfolding all_storages_iff by blast
    then show ?thesis using pools_chunk_apart [OF d(1) i c(1) fe(3)] c(2) by auto
  qed
  have pools: "?E q i \<inter> ?E q' j = {}"
    if i: "i < length (sa_pools sa)" "q \<in> pool_blocks (sa_pools sa ! i) (Fss ! i)"
      and j: "j < length (sa_pools sa)" "q' \<in> pool_blocks (sa_pools sa ! j) (Fss ! j)" for i j
  proof (cases "i = j")
    case True
    note pm = pool_inv_of_manager [OF pools_invD(3) [OF d(1) i(1)] pools_invD(4) [OF d(1) i(1)]]
    show ?thesis using chunk_pool_blocks_apart [OF pm(1), of q q'] i j ne True pm(2) by simp
  next
    case False
    obtain c where c: "c \<in> set (cm_chunks (cp_manager (sa_pools sa ! i)))" "?E q i \<subseteq> chunk_extent c"
      using pools_block_extent [OF d(1) i] by blast
    obtain e where e: "e \<in> set (cm_chunks (cp_manager (sa_pools sa ! j)))" "?E q' j \<subseteq> chunk_extent e"
      using pools_block_extent [OF d(1) j] by blast
    note el = pools_chunk_live [OF d(1) j(1) e(1)]
    have "fst (chunk_grant e) \<notin> pool_storages (sa_pools sa ! i)" using el(2) pools_invD(5) [OF d(1) i(1) j(1) False] by auto
    from pools_chunk_apart [OF d(1) i(1) c(1) el(1) this] show ?thesis using c(2) e(2) by (auto simp: chunk_extent_def)
  qed
  have direct: "extent q (normalize_size n) \<inter> extent q' (normalize_size n') = {}"
    if "(q, normalize_size n, a) \<in> set (sa_fallback sa)" "(q', normalize_size n', a') \<in> set (sa_fallback sa)"
    using live_disjoint [OF okp fallback_entry(3) [OF inv that(1)] fallback_entry(3) [OF inv that(2)]] ne by simp
  from served_extent [OF inv sv(1)] served_extent [OF inv sv(2)] show ?thesis
    using pools mixed direct by (elim disjE exE conjE) (blast | (simp add: Int_commute, blast))+
qed

end

end
