(* ===== verification/Segregated_Runs.thy ===== *)
theory Segregated_Runs
  imports Segregated_Correct
begin

text \<open>
  Construction, destruction and whole runs of \<^verbatim>\<open>SegregatedAllocator\<close>, the errors of its two
  deallocation functions, and its statistics.
\<close>

section \<open>Destruction\<close>

lemma chunk_pool_destroy_mem [simp]: "w_mem (chunk_pool_destroy P cp w) = w_mem w"
proof -
  have "w_mem (fold (chunk_destroy P) cs v) = w_mem v" for cs v
    by (induction cs arbitrary: v) (simp_all add: chunk_destroy_def)
  then show ?thesis by (simp add: chunk_pool_destroy_def manager_destroy_def release_all_def)
qed

lemma pools_inv_tl:
  assumes "pools_inv live ok w (cp # ps) Fss"
  shows "pools_inv live ok w ps (tl Fss)" and "manager_inv live ok w (cp_manager cp) (hd Fss)"
    and "cp_policy cp = GrowOnExhaustion" and "pool_storages cp \<inter> all_storages ps = {}"
proof -
  note d = pools_invD [OF assms]
  have nt: "tl Fss ! i = Fss ! Suc i" if "i < length ps" for i using d(2) that by (simp add: nth_tl)
  have "ps ! i = (cp # ps) ! Suc i" for i by simp
  then show "pools_inv live ok w ps (tl Fss)"
    using d(1,2) d(3,4) [of "Suc i" for i] d(5) [of "Suc i" "Suc j" for i j] nt by (intro pools_invI) auto
  show "manager_inv live ok w (cp_manager cp) (hd Fss)" using d(2) d(3) [of 0] by (cases Fss) auto
  show "cp_policy cp = GrowOnExhaustion" using d(4) [of 0] by simp
  have "pool_storages cp \<inter> pool_storages (ps ! i) = {}" if "i < length ps" for i using d(5) [of 0 "Suc i"] that by simp
  then show "pool_storages cp \<inter> all_storages ps = {}" unfolding disjoint_iff all_storages_iff by blast
qed

lemma all_storages_Cons [simp]: "all_storages (cp # ps) = pool_storages cp \<union> all_storages ps"
  by (simp add: all_storages_def)

definition pools_serve :: "chunk_pool list \<Rightarrow> nat list list list \<Rightarrow> size_t list \<Rightarrow> bool" where
  "pools_serve ps Fss classes \<longleftrightarrow> length ps = length classes \<and>
     (\<forall>i < length ps. pool_blocks (ps ! i) (Fss ! i) = {} \<and>
        cmo_block_size (cm_options (cp_manager (ps ! i))) = classes ! i \<and>
        cmo_alignment (cm_options (cp_manager (ps ! i))) = classes ! i)"

definition request_matches :: "size_class_selector \<Rightarrow> size_t \<Rightarrow> size_t \<Rightarrow> size_t \<Rightarrow> size_t \<Rightarrow> bool" where
  "request_matches sel n a n' a' \<longleftrightarrow>
     selector_select sel n' a' = selector_select sel n a \<and>
     (selector_select sel n a = Inr None \<longrightarrow> normalize_size n' = normalize_size n \<and> a' = a)"

context memory_provider begin

lemma destroy_pools_inv:
  assumes "pools_inv live ok w ps Fss"
  shows "ok (w_prov (destroy_pools P ps w)) \<and>
     live (w_prov (destroy_pools P ps w)) = {g \<in> live (w_prov w). fst g \<notin> all_storages ps} \<and>
     w_mem (destroy_pools P ps w) = w_mem w"
  using assms
proof (induction ps arbitrary: w Fss)
  case Nil
  then show ?case using pools_invD(1) [OF Nil] by (simp add: destroy_pools_def all_storages_def)
next
  case (Cons cp ps)
  note t = pools_inv_tl [OF Cons.prems]
  let ?w = "chunk_pool_destroy P cp w"
  note ds = chunk_pool_destroy_inv [OF pool_inv_of_manager(1) [OF t(2,3)], unfolded manager_rest_storages]
  have "pools_inv live ok ?w ps (tl Fss)"
    using ds t(4) by (intro pools_inv_world [OF t(1)]) auto
  from Cons.IH [OF this] ds(2) show ?case by (auto simp: destroy_pools_def)
qed

lemma segregated_destroy_inv:
  assumes inv: "segregated_inv live ok L (w, sa) Fss"
  shows "ok (w_prov (segregated_destroy P sa w))" and "live (w_prov (segregated_destroy P sa w)) = L"
proof -
  note d = segregated_invD [OF inv]
  let ?fs = "sa_fallback sa" and ?w = "release_fallback P (sa_fallback sa) w"
  have fs: "set ?fs \<subseteq> live (w_prov w)" "\<And>q. q \<in> fst ` set ?fs \<Longrightarrow> q \<notin> all_storages (sa_pools sa)"
    using d(6) by (auto simp: segregated_rest_def)
  have rel: "ok (w_prov ?w)" "live (w_prov ?w) = {g \<in> live (w_prov w). fst g \<notin> fst ` set ?fs}" "w_mem ?w = w_mem w"
    using release_list [OF pools_invD(1) [OF d(1)] fs(1) d(5)] by (simp_all add: release_fallback_def)
  have "pools_inv live ok ?w (sa_pools sa) Fss"
    using rel fs(2) by (intro pools_inv_world [OF d(1)]) auto
  note ds = destroy_pools_inv [OF this]
  show "ok (w_prov (segregated_destroy P sa w))" using ds by (simp add: segregated_destroy_def)
  show "live (w_prov (segregated_destroy P sa w)) = L"
    using ds rel(2) d(7) unfolding segregated_rest_def by (auto simp: segregated_destroy_def)
qed

section \<open>Construction\<close>

lemma pools_inv_append:
  assumes inv: "pools_inv live ok w ps Fss" and pi: "chunk_pool_inv live ok (live (w_prov w)) (w', cp) F"
    and pol: "cp_policy cp = GrowOnExhaustion"
    and frame: "\<And>g x. g \<in> live (w_prov w) \<Longrightarrow> x \<in> grant_extent g \<Longrightarrow> w_mem w' x = w_mem w x"
  shows "pools_inv live ok w' (ps @ [cp]) (Fss @ [F])"
    and "{g \<in> live (w_prov w'). fst g \<notin> all_storages (ps @ [cp])} = {g \<in> live (w_prov w). fst g \<notin> all_storages ps}"
proof -
  note d = pools_invD [OF inv]
  have rest: "{g \<in> live (w_prov w'). fst g \<notin> pool_storages cp} = live (w_prov w)"
    using chunk_pool_invD(4) [OF pi] pol unfolding manager_rest_storages by simp
  note mi = chunk_pool_invD(1) [OF pi]
  have ok': "ok (w_prov w')" by (rule chunk_setD(1) [OF manager_inv_chunks [OF mi]])
  have old: "pools_inv live ok w' ps Fss" using rest frame by (intro pools_inv_world [OF inv ok']) blast+
  note e = pools_invD [OF old]
  have dj: "pool_storages cp \<inter> pool_storages (ps ! i) = {}" if i: "i < length ps" for i
  proof -
    have "mc_storage c \<notin> pool_storages cp" if "c \<in> set (cm_chunks (cp_manager (ps ! i)))" for c
      using pools_chunk_live(1) [OF inv i that, folded rest] by simp
    then show ?thesis by (auto simp: pool_storages_def [of "ps ! i"])
  qed
  show "pools_inv live ok w' (ps @ [cp]) (Fss @ [F])"
  proof (rule pools_invI)
    show "ok (w_prov w')" by (rule ok')
    show "length (Fss @ [F]) = length (ps @ [cp])" using e(2) by simp
    fix i assume i: "i < length (ps @ [cp])"
    show "manager_inv live ok w' (cp_manager ((ps @ [cp]) ! i)) ((Fss @ [F]) ! i)"
      using e(2) e(3) [of i] mi i by (cases "i < length ps") (simp_all add: nth_append less_Suc_eq)
    show "cp_policy ((ps @ [cp]) ! i) = GrowOnExhaustion"
      using e(4) [of i] pol i by (cases "i < length ps") (simp_all add: nth_append less_Suc_eq)
    fix j assume j: "j < length (ps @ [cp])" "i \<noteq> j"
    show "pool_storages ((ps @ [cp]) ! i) \<inter> pool_storages ((ps @ [cp]) ! j) = {}"
      using e(5) [of i j] dj [of i] dj [of j] i j
      by (cases "i < length ps"; cases "j < length ps") (simp_all add: nth_append less_Suc_eq Int_commute)
  qed
  show "{g \<in> live (w_prov w'). fst g \<notin> all_storages (ps @ [cp])} = {g \<in> live (w_prov w). fst g \<notin> all_storages ps}"
    unfolding rest [symmetric] by (auto simp: all_storages_def)
qed

lemma create_pools_inv:
  assumes "pools_inv live ok w ps Fss" and "pools_serve ps Fss made"
    and "{g \<in> live (w_prov w). fst g \<notin> all_storages ps} = L" and "create_pools P options rest ps w = (r, w')"
  shows "case r of
       Inl e \<Rightarrow> e \<noteq> UndefinedBehaviour \<and> e \<noteq> Terminate \<and> ok (w_prov w') \<and> live (w_prov w') = L
     | Inr qs \<Rightarrow> \<exists>Gss. pools_inv live ok w' qs Gss \<and> pools_serve qs Gss (made @ rest) \<and>
         {g \<in> live (w_prov w'). fst g \<notin> all_storages qs} = L"
  using assms
proof (induction rest arbitrary: w ps Fss made)
  case Nil
  then show ?case by auto
next
  case (Cons c rest)
  obtain b w1 where m: "meta_alloc w = (b, w1)" by (cases "meta_alloc w")
  have w1: "w_prov w1 = w_prov w" "w_mem w1 = w_mem w" using meta_alloc_world [OF m] by simp_all
  have inv1: "pools_inv live ok w1 ps Fss"
    using pools_invD(1) [OF Cons.prems(1)] w1 by (intro pools_inv_world [OF Cons.prems(1)]) simp_all
  have L1: "{g \<in> live (w_prov w1). fst g \<notin> all_storages ps} = L" using Cons.prems(3) w1 by simp
  obtain a w2 where cr: "chunk_pool_create P (class_options options c) GrowOnExhaustion w1 = (a, w2)"
    by (cases "chunk_pool_create P (class_options options c) GrowOnExhaustion w1")
  note o = chunk_pool_create_outcome [OF pools_invD(1) [OF inv1] cr]
  consider (meta) "\<not> b" | (throw) e where b "a = Inl e" | (fresh) cp where b "a = Inr cp" by (cases a) auto
  then show ?case
  proof cases
    case meta
    then have "r = Inl BadAlloc" "w' = destroy_pools P ps w1" using Cons.prems(4) m by auto
    then show ?thesis using destroy_pools_inv [OF inv1] L1 by simp
  next
    case throw
    then have r: "r = Inl e" "w' = destroy_pools P ps w2" using Cons.prems(4) m cr by auto
    have "pools_inv live ok w2 ps Fss" using o(1) o(2) [OF throw(2)] by (intro pools_inv_world [OF inv1]) simp_all
    from destroy_pools_inv [OF this] show ?thesis using r o(2) [OF throw(2)] L1 by simp
  next
    case (fresh cp)
    have cr': "chunk_pool_create P (class_options options c) GrowOnExhaustion w1 = (Inr cp, w2)" using cr fresh by simp
    define F where "F = [[0..<unat (cmo_initial_blocks (class_options options c))]]"
    note cc = chunk_pool_created [OF pools_invD(1) [OF inv1] cr' fallback_list.simps(4), folded F_def]
    have ap: "pools_inv live ok w2 (ps @ [cp]) (Fss @ [F])"
      "{g \<in> live (w_prov w2). fst g \<notin> all_storages (ps @ [cp])} = L"
      using pools_inv_append [OF inv1 cc(1,5)] o(1) L1 by blast+
    have "pool_blocks cp F = {}" using cc(2) by (simp add: chunk_pool_blocks_def pool_blocks_def)
    then have "pools_serve (ps @ [cp]) (Fss @ [F]) (made @ [c])"
      using Cons.prems(2) cc(3) pools_invD(2) [OF inv1]
      by (auto simp: pools_serve_def nth_append less_Suc_eq class_options_def)
    moreover have "create_pools P options rest (ps @ [cp]) w2 = (r, w')" using Cons.prems(4) m cr fresh by simp
    ultimately have "case r of
       Inl e \<Rightarrow> e \<noteq> UndefinedBehaviour \<and> e \<noteq> Terminate \<and> ok (w_prov w') \<and> live (w_prov w') = L
     | Inr qs \<Rightarrow> \<exists>Gss. pools_inv live ok w' qs Gss \<and> pools_serve qs Gss ((made @ [c]) @ rest) \<and>
         {g \<in> live (w_prov w'). fst g \<notin> all_storages qs} = L"
      by (intro Cons.IH [OF ap(1) _ ap(2)])
    then show ?thesis by (cases r) simp_all
  qed
qed

lemma segregated_create_inv:
  assumes "ok (w_prov w)" and "segregated_create P options w = (r, w')"
  shows "case r of
       Inl e \<Rightarrow> e \<noteq> UndefinedBehaviour \<and> e \<noteq> Terminate \<and> ok (w_prov w') \<and> live (w_prov w') = live (w_prov w)
     | Inr sa \<Rightarrow> segregated_holds live ok (live (w_prov w)) (w', sa) {} \<and> sa_selector sa = sgo_size_classes options \<and>
         sa_statistics sa = zero_segregated_statistics (sgo_size_classes options)"
proof -
  obtain b1 w1 where m1: "meta_alloc w = (b1, w1)" by (cases "meta_alloc w")
  obtain b2 w2 where m2: "meta_alloc w1 = (b2, w2)" by (cases "meta_alloc w1")
  obtain b3 w3 where m3: "meta_alloc w2 = (b3, w3)" by (cases "meta_alloc w2")
  note f = meta_alloc_world [OF m1] meta_alloc_world [OF m2] meta_alloc_world [OF m3]
  let ?cs = "sgo_size_classes options"
  show ?thesis
  proof (cases "b1 \<and> valid_selector ?cs \<and> sgo_initial_blocks_per_class options \<noteq> 0 \<and> b2 \<and> b3")
    case False
    then have "r \<in> {Inl BadAlloc, Inl InvalidArgument}" "w' \<in> {w1, w2, w3}"
      using assms(2) m1 m2 m3 by (auto simp: segregated_create_def selector_create_iff split: if_splits prod.splits sum.splits)
    then show ?thesis using assms(1) f by auto
  next
    case True
    then have v: "valid_selector ?cs" by blast
    obtain a w4 where cp: "create_pools P options ?cs [] w3 = (a, w4)" by (cases "create_pools P options ?cs [] w3")
    have r: "w' = w4" "r = (case a of Inl e \<Rightarrow> Inl e | Inr pools \<Rightarrow>
        Inr \<lparr>sa_selector = ?cs, sa_pools = pools, sa_fallback = [], sa_statistics = zero_segregated_statistics ?cs\<rparr>)"
      using assms(2) m1 m2 m3 True cp by (cases a; simp add: segregated_create_def selector_create_iff)+
    have "pools_inv live ok w3 [] []" "{g \<in> live (w_prov w3). fst g \<notin> all_storages []} = live (w_prov w)"
      using assms(1) f by (simp_all add: pools_inv_def all_storages_def)
    note o = create_pools_inv [OF this(1) _ this(2) cp, of "[]"]
    show ?thesis
    proof (cases a)
      case (Inl e)
      then show ?thesis using o r by (simp add: pools_serve_def)
    next
      case (Inr qs)
      let ?sa = "\<lparr>sa_selector = ?cs, sa_pools = qs, sa_fallback = [], sa_statistics = zero_segregated_statistics ?cs\<rparr>"
      from o Inr obtain Gss where G: "pools_inv live ok w4 qs Gss" "pools_serve qs Gss ?cs"
        "{g \<in> live (w_prov w4). fst g \<notin> all_storages qs} = live (w_prov w)" by (auto simp: pools_serve_def)
      have "segregated_inv live ok (live (w_prov w)) (w4, ?sa) Gss"
        using G v by (simp add: segregated_inv_def segregated_rest_def pools_serve_def)
      moreover have "segregated_blocks ?sa Gss = {}" using G(2) by (simp add: segregated_blocks_def pools_serve_def)
      ultimately show ?thesis using r Inr unfolding segregated_holds_def by auto
    qed
  qed
qed

section \<open>Rejected deallocations\<close>

lemma segregated_deallocate_rejects:
  assumes inv: "segregated_inv live ok L (w, sa) Fss" and "q \<noteq> 0" and q: "q \<notin> segregated_blocks sa Fss"
  shows "segregated_deallocate P q (w, sa) = (Inl InvalidPoolPointer, (w, sa)) \<or>
     segregated_deallocate P q (w, sa) = (Inl DoubleFreeError, (w, sa))"
proof (cases "owning_class sa q")
  case None
  then have "map_of (sa_fallback sa) q = None" using q by (auto simp: segregated_blocks_def map_of_eq_None_iff)
  then show ?thesis using None assms(2) by (simp add: segregated_deallocate_def)
next
  case (Some i)
  note d = segregated_invD [OF inv]
  have i: "i < length (sa_pools sa)" using owning_pool_Some(1) Some by (simp add: owning_class_def)
  note pm = pool_inv_of_manager [OF pools_invD(3) [OF d(1) i] pools_invD(4) [OF d(1) i]]
  have "q \<notin> chunk_pool_blocks (sa_pools sa ! i) (Fss ! i)" using q i pm(2) by (auto simp: segregated_blocks_def)
  from chunk_pool_deallocate_rejects [OF pm(1) assms(2) this] show ?thesis
    using Some assms(2) by (auto simp: segregated_deallocate_def)
qed

lemma segregated_deallocate_sized_checks:
  assumes inv: "segregated_inv live ok L (w, sa) Fss" and sv: "served sa Fss (q, n, a)"
  shows "segregated_deallocate_sized P q n' a' (w, sa) =
     (if request_matches (sa_selector sa) n a n' a' then segregated_deallocate P q (w, sa)
      else (Inl (if is_power_of_two a' \<or> selector_select (sa_selector sa) n a = Inr None then AllocationMismatchError
                 else InvalidArgument), (w, sa)))"
proof -
  note d = segregated_invD [OF inv]
  from sv consider (pool) i where "i < length (sa_pools sa)" "q \<in> pool_blocks (sa_pools sa ! i) (Fss ! i)"
      "selector_select (sa_selector sa) n a = Inr (Some i)"
    | (direct) "(q, normalize_size n, a) \<in> set (sa_fallback sa)" "selector_select (sa_selector sa) n a = Inr None"
    by (auto simp: served_def)
  then show ?thesis
  proof cases
    case (pool i)
    have o: "owning_class sa q = Some i" using owning_pool_block [OF d(1) pool(1,2)] by (simp add: owning_class_def)
    have "\<not> is_power_of_two a' \<Longrightarrow> selector_select (sa_selector sa) n' a' = Inl InvalidArgument"
      "is_power_of_two a' \<Longrightarrow> \<exists>x. selector_select (sa_selector sa) n' a' = Inr x"
      by (simp_all add: selector_select_def Let_def)
    then show ?thesis
      using o pool_alignment(1) [OF inv pool(1,2)] pool(3)
      by (cases "is_power_of_two a'") (auto simp: segregated_deallocate_sized_def request_matches_def)
  next
    case direct
    note fe = fallback_entry [OF inv direct(1)]
    have "selector_select (sa_selector sa) n' a' = selector_select (sa_selector sa) n a" if "normalize_size n' = normalize_size n" "a' = a"
      using selector_select_normalize that by metis
    then show ?thesis
      using fe direct(2) by (auto simp: segregated_deallocate_sized_def request_matches_def)
  qed
qed

end

section \<open>The allocator as a sized source\<close>

definition segregated_poke :: "addr \<Rightarrow> byte \<Rightarrow> 'p world \<times> segregated \<Rightarrow> 'p world \<times> segregated" where
  "segregated_poke x b s = ((fst s)\<lparr>w_mem := (w_mem (fst s))(x := b)\<rparr>, snd s)"

sublocale memory_provider \<subseteq> segregating: sized_source "segregated_allocate P" "segregated_deallocate_sized P"
  segregated_poke "segregated_holds live ok L" for L
proof
  fix s s' :: "'p world \<times> segregated" and H n a q
  assume h: "segregated_holds live ok L s H" and al: "segregated_allocate P n a s = (Inr q, s')"
  obtain w sa w' sa' where s: "s = (w, sa)" "s' = (w', sa')" by (cases s; cases s')
  obtain Fss where F: "segregated_inv live ok L (w, sa) Fss" "\<forall>h \<in> H. served sa Fss h" "inj_on fst H"
    "fst ` H = segregated_blocks sa Fss" using h unfolding s segregated_holds_def by auto
  from segregated_allocate_inv [OF F(1) al [unfolded s]] obtain Fss' where G: "segregated_inv live ok L (w', sa') Fss'"
    "\<And>h. served sa Fss h \<Longrightarrow> served sa' Fss' h" "q \<noteq> 0" "unat a dvd unat q" "q \<notin> segregated_blocks sa Fss"
    "segregated_blocks sa' Fss' = insert q (segregated_blocks sa Fss)" "served sa' Fss' (q, n, a)" by auto
  have nq: "q \<notin> fst ` H" using G(5) F(4) by simp
  have "segregated_holds live ok L s' (insert (q, n, a) H)"
    unfolding segregated_holds_def s
    using G(1,2,6,7) F(2-4) nq by (intro exI [of _ Fss']) (auto simp: inj_on_insert)
  then show "segregated_holds live ok L s' (insert (q, n, a) H) \<and> q \<noteq> 0 \<and> unat a dvd unat q \<and> q \<notin> fst ` H"
    using G nq by blast
next
  fix s s' :: "'p world \<times> segregated" and H n a e
  assume h: "segregated_holds live ok L s H" and al: "segregated_allocate P n a s = (Inl e, s')"
  obtain w sa w' sa' where s: "s = (w, sa)" "s' = (w', sa')" by (cases s; cases s')
  obtain Fss where F: "segregated_inv live ok L (w, sa) Fss" "\<forall>h \<in> H. served sa Fss h" "inj_on fst H"
    "fst ` H = segregated_blocks sa Fss" using h unfolding s segregated_holds_def by auto
  from segregated_allocate_inv [OF F(1) al [unfolded s]] obtain Fss' where G: "segregated_inv live ok L (w', sa') Fss'"
    "\<And>h. served sa Fss h \<Longrightarrow> served sa' Fss' h" "e \<noteq> UndefinedBehaviour" "e \<noteq> Terminate"
    "segregated_blocks sa' Fss' = segregated_blocks sa Fss" by auto
  then show "e \<noteq> UndefinedBehaviour \<and> e \<noteq> Terminate \<and> segregated_holds live ok L s' H"
    unfolding segregated_holds_def s using F(2-4) by auto
next
  fix s :: "'p world \<times> segregated" and H q n a
  assume h: "segregated_holds live ok L s H" and q: "(q, n, a) \<in> H"
  obtain w sa where s: "s = (w, sa)" by (cases s)
  obtain Fss where F: "segregated_inv live ok L (w, sa) Fss" "\<forall>h \<in> H. served sa Fss h" "inj_on fst H"
    "fst ` H = segregated_blocks sa Fss" using h unfolding s segregated_holds_def by auto
  have sv: "served sa Fss (q, n, a)" using F(2) q by blast
  note sd = segregated_deallocate_sized_served [OF F(1) sv]
  obtain r w' sa' where de: "segregated_deallocate P q (w, sa) = (r, (w', sa'))" by (metis prod_cases3)
  from segregated_deallocate_live [OF F(1) sd(2) de] obtain Fss' where r: "r = Inr ()"
    and G: "segregated_inv live ok L (w', sa') Fss'" "segregated_blocks sa' Fss' = segregated_blocks sa Fss - {q}"
      "\<And>h. served sa Fss h \<Longrightarrow> fst h \<noteq> q \<Longrightarrow> served sa' Fss' h" by blast
  have ne: "fst h \<noteq> q" if "h \<in> H - {(q, n, a)}" for h using inj_onD [OF F(3), of h "(q, n, a)"] that q by auto
  have "fst ` (H - {(q, n, a)}) = fst ` H - {q}"
    using inj_on_image_set_diff [OF F(3), of H "{(q, n, a)}"] q by auto
  then have "segregated_holds live ok L (w', sa') (H - {(q, n, a)})"
    unfolding segregated_holds_def snd_conv using G F(2-4) ne
    by (intro exI [of _ Fss'] conjI) (auto intro: inj_on_subset)
  then show "\<exists>s'. segregated_deallocate_sized P q n a s = (Inr (), s') \<and> segregated_holds live ok L s' (H - {(q, n, a)})"
    unfolding s sd(1) de r by blast
next
  fix s :: "'p world \<times> segregated" and H q n a x b
  assume h: "segregated_holds live ok L s H" and q: "(q, n, a) \<in> H" and x: "x \<in> extent q n"
  obtain w sa where s: "s = (w, sa)" by (cases s)
  obtain Fss where F: "segregated_inv live ok L (w, sa) Fss" "\<forall>h \<in> H. served sa Fss h" "inj_on fst H"
    "fst ` H = segregated_blocks sa Fss" using h unfolding s segregated_holds_def by auto
  have "served sa Fss (q, n, a)" using F(2) q by blast
  from segregated_client_write [OF F(1) this x, of b] F(2-4)
  show "segregated_holds live ok L (segregated_poke x b s) H"
    unfolding segregated_holds_def s segregated_poke_def by auto
next
  fix s :: "'p world \<times> segregated" and H q n a q' n' a'
  assume h: "segregated_holds live ok L s H" and q: "(q, n, a) \<in> H" "(q', n', a') \<in> H" "(q, n, a) \<noteq> (q', n', a')"
  obtain w sa where s: "s = (w, sa)" by (cases s)
  obtain Fss where F: "segregated_inv live ok L (w, sa) Fss" "\<forall>h \<in> H. served sa Fss h" "inj_on fst H"
    using h unfolding s segregated_holds_def by auto
  have ne: "q \<noteq> q'" using inj_onD [OF F(3) _ q(1,2)] q(3) by auto
  have sv: "served sa Fss (q, n, a)" "served sa Fss (q', n', a')" using F(2) q(1,2) by blast+
  show "q \<noteq> q' \<and> extent q n \<inter> extent q' n' = {}" using served_apart [OF F(1) sv ne] ne by blast
qed

end
