(* ===== verification/Segregated_Properties.thy ===== *)
theory Segregated_Properties
  imports Segregated_Runs Chunk_Pool_Properties
begin

text \<open>
  The statistics of \<^verbatim>\<open>SegregatedAllocator\<close> and the properties of the allocator. They hold for every
  memory provider that keeps the contract \<open>memory_provider\<close>.
\<close>

section \<open>Statistics\<close>

text \<open>The statistics after a call are a function of the statistics before it, the class of the request and the outcome.\<close>

definition class_statistics :: "nat \<Rightarrow> (size_class_statistics \<Rightarrow> size_class_statistics) \<Rightarrow>
    segregated_statistics \<Rightarrow> segregated_statistics" where
  "class_statistics i f st = st\<lparr>sgs_size_classes := (sgs_size_classes st)[i := f (sgs_size_classes st ! i)]\<rparr>"

definition allocation_statistics ::
  "nat option result \<Rightarrow> size_t \<Rightarrow> bool \<Rightarrow> segregated_statistics \<Rightarrow> segregated_statistics" where
  "allocation_statistics route rq success st =
     (let st0 = count_request st in
      case route of
        Inl _ \<Rightarrow> count_failure st0
      | Inr None \<Rightarrow> if success then count_fallback_allocation rq st0 else count_failure st0
      | Inr (Some i) \<Rightarrow>
          let st1 = class_statistics i count_class_request st0
          in if success then count_success (class_statistics i (count_class_allocation rq) st1) else count_failure st1)"

definition deallocation_statistics :: "nat option result \<Rightarrow> segregated_statistics \<Rightarrow> segregated_statistics" where
  "deallocation_statistics route st =
     (case route of
        Inl _ \<Rightarrow> st
      | Inr None \<Rightarrow> count_fallback_deallocation st
      | Inr (Some i) \<Rightarrow> count_deallocation (class_statistics i count_class_deallocation st))"

lemma segregated_allocate_statistics:
  assumes "segregated_allocate P n a (w, sa) = (r, (w', sa'))"
  shows "sa_statistics sa' =
     allocation_statistics (selector_select (sa_selector sa) n a) (normalize_size n) (\<not> isl r) (sa_statistics sa)"
proof -
  have [simp]: "selector_select (sa_selector sa) (normalize_size n) a = selector_select (sa_selector sa) n a"
    by (simp add: selector_select_def normalize_size_def Let_def)
  show ?thesis
  proof (cases "selector_select (sa_selector sa) n a")
    case (Inl e)
    then show ?thesis
      using assms by (auto simp: segregated_allocate_def allocation_statistics_def update_totals_def)
  next
    case (Inr x)
    then show ?thesis
      using assms
      by (cases x) (auto simp: segregated_allocate_def allocation_statistics_def update_totals_def update_class_def
          class_statistics_def allocate_pooled_def allocate_fallback_def Let_def split: prod.splits sum.splits if_splits)
  qed
qed

text \<open>The number of held requests that select class \<open>i\<close>, and of those that select none.\<close>

definition route :: "size_class_selector \<Rightarrow> request \<Rightarrow> nat option result" where
  "route sel h = selector_select sel (fst (snd h)) (snd (snd h))"

definition routed :: "size_class_selector \<Rightarrow> request set \<Rightarrow> nat option \<Rightarrow> nat" where
  "routed sel H x = card {h \<in> H. route sel h = Inr x}"

lemma routed_insert:
  assumes "finite H" and "h \<notin> H"
  shows "routed sel (insert h H) x = routed sel H x + (if route sel h = Inr x then 1 else 0)"
proof -
  have "{k \<in> insert h H. route sel k = Inr x} =
      (if route sel h = Inr x then insert h {k \<in> H. route sel k = Inr x} else {k \<in> H. route sel k = Inr x})" by auto
  then show ?thesis using assms by (simp add: routed_def)
qed

definition class_counts :: "size_class_statistics \<Rightarrow> size_t \<Rightarrow> nat \<Rightarrow> bool" where
  "class_counts c class_size k \<longleftrightarrow>
     scs_class_size c = class_size \<and> scs_currently_allocated c = of_nat k \<and>
     scs_successful_allocations c = scs_deallocations c + scs_currently_allocated c \<and>
     scs_served_bytes c = class_size * scs_successful_allocations c \<and>
     scs_served_bytes c = scs_requested_bytes c + scs_internal_fragmentation_bytes c"

definition counts_match :: "size_class_selector \<Rightarrow> segregated_statistics \<Rightarrow> request set \<Rightarrow> bool" where
  "counts_match sel st H \<longleftrightarrow>
     length (sgs_size_classes st) = length sel \<and>
     (\<forall>i < length sel. class_counts (sgs_size_classes st ! i) (sel ! i) (routed sel H (Some i))) \<and>
     sgs_current_fallback_allocations st = of_nat (routed sel H None) \<and>
     sgs_fallback_allocations st = sgs_fallback_deallocations st + sgs_current_fallback_allocations st \<and>
     sgs_allocation_requests st = sgs_successful_allocations st + sgs_failed_allocations st \<and>
     sgs_successful_allocations st = sum_list (map scs_successful_allocations (sgs_size_classes st)) + sgs_fallback_allocations st \<and>
     sgs_deallocations st = sum_list (map scs_deallocations (sgs_size_classes st)) + sgs_fallback_deallocations st"

lemma counts_match_class:
  assumes "counts_match sel st H" and "i < length sel"
  shows "length (sgs_size_classes st) = length sel" and "i < length (sgs_size_classes st)"
    and "class_counts (sgs_size_classes st ! i) (sel ! i) (routed sel H (Some i))"
  using assms by (auto simp: counts_match_def)

lemma counts_match_allocate:
  assumes m: "counts_match sel st H" and fin: "finite H" and new: "(q, n, a) \<notin> H"
    and i: "\<And>i. selector_select sel n a = Inr (Some i) \<Longrightarrow> i < length sel" and ok: "\<exists>x. selector_select sel n a = Inr x"
  shows "counts_match sel (allocation_statistics (selector_select sel n a) rq True st) (insert (q, n, a) H)"
proof -
  obtain x where x: "selector_select sel n a = Inr x" using ok by blast
  have r: "routed sel (insert (q, n, a) H) y = routed sel H y + (if x = y then 1 else 0)" for y
    using routed_insert [OF fin new] x by (simp add: route_def)
  show ?thesis
  proof (cases x)
    case None
    then show ?thesis
      using m x r by (auto simp: allocation_statistics_def counts_match_def count_request_def count_fallback_allocation_def)
  next
    case (Some j)
    have j: "j < length sel" using i x Some by simp
    note c = counts_match_class [OF m j]
    show ?thesis
      unfolding counts_match_def using m x r Some j c
      by (auto simp: allocation_statistics_def counts_match_def count_request_def count_success_def class_statistics_def
          count_class_request_def count_class_allocation_def class_counts_def nth_list_update sum_list_map_update algebra_simps)
  qed
qed

lemma counts_match_failure:
  assumes m: "counts_match sel st H" and i: "\<And>i. rt = Inr (Some i) \<Longrightarrow> i < length sel"
  shows "counts_match sel (allocation_statistics rt rq False st) H"
proof (cases "\<exists>j. rt = Inr (Some j)")
  case False
  then show ?thesis
    using m by (auto simp: allocation_statistics_def counts_match_def count_request_def count_failure_def Let_def
        split: sum.splits option.splits)
next
  case True
  then obtain j where rt: "rt = Inr (Some j)" by blast
  note c = counts_match_class [OF m i [OF rt]]
  show ?thesis
    unfolding counts_match_def using m rt c i
    by (auto simp: allocation_statistics_def counts_match_def count_request_def count_failure_def class_statistics_def
        count_class_request_def class_counts_def nth_list_update sum_list_map_update algebra_simps)
qed

lemma counts_match_deallocate:
  assumes m: "counts_match sel st H" and fin: "finite H" and mem: "(q, n, a) \<in> H"
    and i: "\<And>i. selector_select sel n a = Inr (Some i) \<Longrightarrow> i < length sel" and ok: "\<exists>x. selector_select sel n a = Inr x"
  shows "counts_match sel (deallocation_statistics (selector_select sel n a) st) (H - {(q, n, a)})"
proof -
  obtain x where x: "selector_select sel n a = Inr x" using ok by blast
  have "routed sel (insert (q, n, a) (H - {(q, n, a)})) y = routed sel (H - {(q, n, a)}) y + (if x = y then 1 else 0)" for y
    using routed_insert [of "H - {(q, n, a)}" "(q, n, a)"] fin x by (simp add: route_def)
  then have r: "routed sel H y = routed sel (H - {(q, n, a)}) y + (if x = y then 1 else 0)" for y
    using mem by (simp add: insert_absorb)
  show ?thesis
  proof (cases x)
    case None
    then show ?thesis
      using m x r by (auto simp: deallocation_statistics_def counts_match_def count_fallback_deallocation_def)
  next
    case (Some j)
    have j: "j < length sel" using i x Some by simp
    note c = counts_match_class [OF m j]
    show ?thesis
      unfolding counts_match_def using m x r Some j c
      by (auto simp: deallocation_statistics_def counts_match_def count_deallocation_def class_statistics_def
          count_class_deallocation_def class_counts_def nth_list_update sum_list_map_update algebra_simps)
  qed
qed

section \<open>A concrete allocator\<close>

definition demo_sg_options :: segregated_options where
  "demo_sg_options = \<lparr>sgo_size_classes = [16], sgo_initial_blocks_per_class = 1,
     sgo_growth = \<lparr>gp_mode = GrowthGeometric, gp_factor = 2, gp_maximum_blocks_per_chunk = 0\<rparr>, sgo_spare_empty_chunks = 1\<rparr>"

definition demo_sg :: segregated where
  "demo_sg = projr (fst (segregated_create new_delete_provider demo_sg_options demo_world))"

definition demo_sg_world :: "sys_heap world" where
  "demo_sg_world = snd (segregated_create new_delete_provider demo_sg_options demo_world)"

lemma demo_sg_layout:
  "make_block_layout 16 1 16 False free_node_size free_node_alignment 0 =
     Inr \<lparr>block_size = 16, block_count = 1, alignment = 16, payload_offset = 0, block_stride = 16, storage_size = 16\<rparr>"
  by (simp add: make_block_layout_def validate_alignment_def round_up_def checked_multiply_def
      size_max_def free_node_size_def free_node_alignment_def)

lemmas demo_sg_eval = segregated_create_def demo_sg_options_def class_options_def selector_create_def is_power_of_two_def
  pointer_size_def chunk_pool_create_def manager_create_def manager_grow_def meta_alloc_def
        demo_world_def chunk_create_def demo_sg_layout new_delete_provider_def new_delete_allocate_def
        needs_extended_alignment_def default_new_alignment_def sys_new_def Let_def
        placeable_def bump_place_def empty_sys_heap_def no_wrap_def max_1_id

lemma demo_sg_created:
  "segregated_create new_delete_provider demo_sg_options demo_world = (Inr demo_sg, demo_sg_world)"
proof -
  have "\<not> isl (fst (segregated_create new_delete_provider demo_sg_options demo_world))"
    by (simp add: demo_sg_eval split: prod.splits)
  then show ?thesis
    by (cases "segregated_create new_delete_provider demo_sg_options demo_world")
      (auto simp: demo_sg_def demo_sg_world_def)
qed

lemma demo_sg_select: "selector_select [16] 10 8 = Inr (Some 0)"
proof -
  have "valid_selector [16]" "is_power_of_two 8" by (simp_all add: valid_selector_def is_power_of_two_def)
  from selector_select_spec [OF this, of 10] show ?thesis by (auto simp: max_def word_le_nat_alt word_less_nat_alt)
qed

lemma demo_sg_chunk:
  "sa_selector demo_sg = [16]"
  "\<exists>cp c. sa_pools demo_sg = [cp] \<and> cm_chunks (cp_manager cp) = [c] \<and> mc_free_blocks c = 1 \<and>
     mc_free_head c = 4096 \<and> mc_storage c = 4096 \<and> mc_block_stride c = 16 \<and> mc_states c = [0]"
  by (simp_all add: demo_sg_def demo_sg_eval push_free_def block_at_def split: prod.splits)

lemma demo_sg_alloc: "\<exists>s. segregated_allocate new_delete_provider 10 8 (demo_sg_world, demo_sg) = (Inr 4096, s)"
proof -
  obtain cp c where "sa_pools demo_sg = [cp]" "cm_chunks (cp_manager cp) = [c]" "mc_free_blocks c = 1"
     "mc_free_head c = 4096" "mc_storage c = 4096" "mc_block_stride c = 16" "mc_states c = [0]" using demo_sg_chunk(2) by blast
  then show ?thesis
    by (simp add: segregated_allocate_def demo_sg_chunk(1) demo_sg_select allocate_pooled_def chunk_pool_allocate_def manager_try_allocate_def
        chunk_allocate_def chunk_block_index_def)
qed

section \<open>Whole runs\<close>

lemma served_route:
  assumes "served sa Fss (q, n, a)" and "valid_selector (sa_selector sa)"
  shows "\<exists>x. selector_select (sa_selector sa) n a = Inr x"
    and "\<And>i. selector_select (sa_selector sa) n a = Inr (Some i) \<Longrightarrow> i < length (sa_selector sa)"
  using assms selector_select_Some(1) [OF assms(2)] by (auto simp: served_def)

context memory_provider begin

lemmas segregated_run_holds = segregating.sized_run_holds
lemmas segregated_run_apart = segregating.sized_run_apart
lemmas segregated_run_free = segregating.sized_run_free

lemma served_facts:
  assumes inv: "segregated_inv live ok L (w, sa) Fss" and sv: "served sa Fss (q, n, a)"
  shows "q \<noteq> 0" and "unat a dvd unat q"
proof -
  note v = segregated_invD(2) [OF inv]
  from sv consider (pool) i where "i < length (sa_pools sa)" "q \<in> pool_blocks (sa_pools sa ! i) (Fss ! i)"
      "selector_select (sa_selector sa) n a = Inr (Some i)"
    | (direct) "(q, normalize_size n, a) \<in> set (sa_fallback sa)" "unat a dvd unat q"
    by (auto simp: served_def)
  then have "q \<noteq> 0 \<and> unat a dvd unat q"
  proof cases
    case (pool i)
    then show ?thesis
      using pool_alignment(1,2) [OF inv pool(1,2)] selector_select_Some(5) [OF v pool(3)] dvd_trans by blast
  next
    case direct
    then show ?thesis using fallback_entry(4) [OF inv direct(1)] by simp
  qed
  then show "q \<noteq> 0" and "unat a dvd unat q" by blast+
qed

lemma segregated_deallocate_statistics:
  assumes inv: "segregated_inv live ok L (w, sa) Fss" and sv: "served sa Fss (q, n, a)"
    and "segregated_deallocate_sized P q n a (w, sa) = (r, (w', sa'))"
  shows "sa_statistics sa' = deallocation_statistics (selector_select (sa_selector sa) n a) (sa_statistics sa)"
    and "sa_selector sa' = sa_selector sa"
proof -
  note d = segregated_invD [OF inv]
  note sd = segregated_deallocate_sized_served [OF inv sv]
  have de: "segregated_deallocate P q (w, sa) = (r, (w', sa'))" using assms(3) sd(1) by simp
  note lv = segregated_deallocate_live [OF inv sd(2) de]
  then show "sa_selector sa' = sa_selector sa" by blast
  from sv consider (pool) i where "i < length (sa_pools sa)" "q \<in> pool_blocks (sa_pools sa ! i) (Fss ! i)"
      "selector_select (sa_selector sa) n a = Inr (Some i)"
    | (direct) "(q, normalize_size n, a) \<in> set (sa_fallback sa)" "selector_select (sa_selector sa) n a = Inr None"
    by (auto simp: served_def)
  then show "sa_statistics sa' = deallocation_statistics (selector_select (sa_selector sa) n a) (sa_statistics sa)"
  proof cases
    case (pool i)
    have "owning_class sa q = Some i" using owning_pool_block [OF d(1) pool(1,2)] by (simp add: owning_class_def)
    then show ?thesis
      using de lv pool(3) pool_alignment(1) [OF inv pool(1,2)]
      by (auto simp: segregated_deallocate_def deallocation_statistics_def update_totals_def update_class_def
          class_statistics_def split: prod.splits sum.splits)
  next
    case direct
    then show ?thesis
      using de fallback_entry [OF inv direct(1)]
      by (auto simp: segregated_deallocate_def deallocation_statistics_def update_totals_def)
  qed
qed

lemma segregated_run_counts:
  assumes "sized_run (segregated_allocate P) (segregated_deallocate_sized P) segregated_poke (w0, sa0) s H"
    and "segregated_holds live ok L (w0, sa0) {}" and "counts_match (sa_selector sa0) (sa_statistics sa0) {}"
  shows "finite H \<and> sa_selector (snd s) = sa_selector sa0 \<and> counts_match (sa_selector sa0) (sa_statistics (snd s)) H"
  using assms
proof (induction rule: sized_run.induct)
  case sized_start
  then show ?case by simp
next
  case (sized_alloc s H n a q s')
  obtain w sa w' sa' where s: "s = (w, sa)" "s' = (w', sa')" by (cases s; cases s')
  have h: "segregated_holds live ok L (w, sa) H" using segregating.sized_run_holds [OF sized_alloc.hyps(1) sized_alloc.prems(1)] s by simp
  note al = sized_alloc.hyps(2) [unfolded s]
  from segregating.alloc_fresh [OF h al] have f: "(q, n, a) \<notin> H" "segregated_holds live ok L (w', sa') (insert (q, n, a) H)" by force+
  obtain Fss where F: "segregated_inv live ok L (w, sa) Fss" using h by (auto simp: segregated_holds_def)
  have sel: "sa_selector sa' = sa_selector sa" using segregated_allocate_inv [OF F al] by auto
  obtain Gss where G: "segregated_inv live ok L (w', sa') Gss" "served sa' Gss (q, n, a)" using f(2) by (auto simp: segregated_holds_def)
  note rt = served_route [OF G(2) segregated_invD(2) [OF G(1)], unfolded sel]
  have IH: "finite H" "sa_selector sa = sa_selector sa0" "counts_match (sa_selector sa) (sa_statistics sa) H"
    using sized_alloc.IH [OF sized_alloc.prems] s by simp_all
  have "counts_match (sa_selector sa) (sa_statistics sa') (insert (q, n, a) H)"
    using counts_match_allocate [OF IH(3,1) f(1) rt(2,1)] segregated_allocate_statistics [OF al] by simp
  then show ?case using IH sel s by simp
next
  case (sized_alloc_throw s H n a e s')
  obtain w sa w' sa' where s: "s = (w, sa)" "s' = (w', sa')" by (cases s; cases s')
  have h: "segregated_holds live ok L (w, sa) H" using segregating.sized_run_holds [OF sized_alloc_throw.hyps(1) sized_alloc_throw.prems(1)] s by simp
  note al = sized_alloc_throw.hyps(2) [unfolded s]
  obtain Fss where F: "segregated_inv live ok L (w, sa) Fss" using h by (auto simp: segregated_holds_def)
  have sel: "sa_selector sa' = sa_selector sa" using segregated_allocate_inv [OF F al] by auto
  have IH: "finite H" "sa_selector sa = sa_selector sa0" "counts_match (sa_selector sa) (sa_statistics sa) H"
    using sized_alloc_throw.IH [OF sized_alloc_throw.prems] s by simp_all
  have "counts_match (sa_selector sa) (sa_statistics sa') H"
    using counts_match_failure [OF IH(3), of "selector_select (sa_selector sa) n a"]
      selector_select_Some(1) [OF segregated_invD(2) [OF F]] segregated_allocate_statistics [OF al] by simp
  then show ?case using IH sel s by simp
next
  case (sized_free s H q n a r s')
  obtain w sa w' sa' where s: "s = (w, sa)" "s' = (w', sa')" by (cases s; cases s')
  have h: "segregated_holds live ok L (w, sa) H" using segregating.sized_run_holds [OF sized_free.hyps(1) sized_free.prems(1)] s by simp
  obtain Fss where F: "segregated_inv live ok L (w, sa) Fss" "served sa Fss (q, n, a)"
    using h sized_free.hyps(2) by (auto simp: segregated_holds_def)
  note st = segregated_deallocate_statistics [OF F sized_free.hyps(3) [unfolded s]]
  note rt = served_route [OF F(2) segregated_invD(2) [OF F(1)]]
  have IH: "finite H" "sa_selector sa = sa_selector sa0" "counts_match (sa_selector sa) (sa_statistics sa) H"
    using sized_free.IH [OF sized_free.prems] s by simp_all
  have "counts_match (sa_selector sa) (sa_statistics sa') (H - {(q, n, a)})"
    using counts_match_deallocate [OF IH(3,1) sized_free.hyps(2) rt(2,1)] st(1) by simp
  then show ?case using IH st(2) s by simp
next
  case (sized_poke s H q n a x b)
  then show ?case by (simp add: segregated_poke_def)
qed

end

lemma counts_match_zero: "counts_match sel (zero_segregated_statistics sel) {}"
proof -
  have [simp]: "sum_list (map (f \<circ> zero_class_statistics) xs) = (0 :: size_t)" if "\<And>c. f (zero_class_statistics c) = 0" for f xs
    using that by (induction xs) simp_all
  show ?thesis
    by (simp add: counts_match_def zero_segregated_statistics_def class_counts_def zero_class_statistics_def routed_def)
qed

section \<open>Properties\<close>

lemma segregated_started:
  assumes "memory_provider P live ok" and "ok (w_prov w)" and "segregated_create P options w = (Inr sa, w0)"
  shows "segregated_holds live ok (live (w_prov w)) (w0, sa) {}" and "sa_selector sa = sgo_size_classes options"
    and "counts_match (sa_selector sa) (sa_statistics sa) {}"
  using memory_provider.segregated_create_inv [OF assms] counts_match_zero by simp_all

definition demo_sg_next :: "sys_heap world \<times> segregated" where
  "demo_sg_next = snd (segregated_allocate new_delete_provider 10 8 (demo_sg_world, demo_sg))"

lemma demo_sg_run:
  "sized_run (segregated_allocate new_delete_provider) (segregated_deallocate_sized new_delete_provider) segregated_poke
     (demo_sg_world, demo_sg) demo_sg_next {(4096, 10, 8)}"
proof -
  have "segregated_allocate new_delete_provider 10 8 (demo_sg_world, demo_sg) = (Inr 4096, demo_sg_next)"
    using demo_sg_alloc by (auto simp: demo_sg_next_def)
  then show ?thesis by (rule sized_alloc [OF sized_start])
qed

text \<open>
  C21: over every provider that keeps its contract, whatever sizes and alignments a client asks
  for and in whatever order it returns blocks and writes into them, every request it holds is a non-null
  address with the requested alignment; the bytes of two held requests never overlap; and handing a
  request back with its size and alignment never throws.
\<close>

theorem segregated_client_safety:
  assumes "memory_provider P live ok" and "ok (w_prov w)" and "segregated_create P options w = (Inr sa, w0)"
    and "sized_run (segregated_allocate P) (segregated_deallocate_sized P) segregated_poke (w0, sa) s H"
    and "(q, n, a) \<in> H"
  shows "q \<noteq> 0 \<and> unat a dvd unat q \<and> (\<forall>q' n' a'. (q', n', a') \<in> H - {(q, n, a)} \<longrightarrow> extent q n \<inter> extent q' n' = {}) \<and>
     (\<exists>s'. segregated_deallocate_sized P q n a s = (Inr (), s'))"
proof -
  note st = segregated_started [OF assms(1-3)]
  note h = memory_provider.segregated_run_holds [OF assms(1,4) st(1)]
  obtain w1 sa1 where s: "s = (w1, sa1)" by (cases s)
  obtain Fss where F: "segregated_inv live ok (live (w_prov w)) (w1, sa1) Fss" "served sa1 Fss (q, n, a)"
    using h assms(5) s by (auto simp: segregated_holds_def)
  show ?thesis
    using memory_provider.served_facts [OF assms(1) F]
      memory_provider.segregated_run_apart [OF assms(1,4) st(1) assms(5)]
      memory_provider.segregated_run_free [OF assms(1,4) st(1) assms(5)] by blast
qed

theorem segregated_client_safety_witness:
  "\<exists>s'. unat (8 :: size_t) dvd unat (4096 :: addr) \<and>
     segregated_deallocate_sized new_delete_provider 4096 10 8 demo_sg_next = (Inr (), s')"
  using segregated_client_safety [OF new_delete.memory_provider_axioms demo_world_ok demo_sg_created demo_sg_run, of 4096 10 8] by simp

text \<open>
  C22: a constructor that throws leaves the provider's grants as they were, and the destructor
  returns every chunk of every class and every direct allocation, whatever the client still holds.
\<close>

theorem segregated_no_leak:
  assumes "memory_provider P live ok" and "ok (w_prov w)" and "segregated_create P options w = (r, w0)"
  shows "case r of
       Inl e \<Rightarrow> e \<noteq> UndefinedBehaviour \<and> e \<noteq> Terminate \<and> ok (w_prov w0) \<and> live (w_prov w0) = live (w_prov w)
     | Inr sa \<Rightarrow> \<forall>w1 sa1 H.
         sized_run (segregated_allocate P) (segregated_deallocate_sized P) segregated_poke (w0, sa) (w1, sa1) H \<longrightarrow>
         ok (w_prov (segregated_destroy P sa1 w1)) \<and> live (w_prov (segregated_destroy P sa1 w1)) = live (w_prov w)"
proof (cases r)
  case (Inl e)
  then show ?thesis using memory_provider.segregated_create_inv [OF assms] by simp
next
  case (Inr sa)
  note st = segregated_started [OF assms(1,2) assms(3) [unfolded Inr]]
  have "ok (w_prov (segregated_destroy P sa1 w1)) \<and> live (w_prov (segregated_destroy P sa1 w1)) = live (w_prov w)"
    if run: "sized_run (segregated_allocate P) (segregated_deallocate_sized P) segregated_poke (w0, sa) (w1, sa1) H" for w1 sa1 H
  proof -
    note h = memory_provider.segregated_run_holds [OF assms(1) run st(1)]
    obtain Fss where "segregated_inv live ok (live (w_prov w)) (w1, sa1) Fss" using h by (auto simp: segregated_holds_def)
    from memory_provider.segregated_destroy_inv [OF assms(1) this] show ?thesis by blast
  qed
  then show ?thesis using Inr by simp
qed

theorem segregated_no_leak_witness:
  "new_delete_live (w_prov (segregated_destroy new_delete_provider (snd demo_sg_next) (fst demo_sg_next))) = {}"
proof -
  have "new_delete_live (w_prov demo_world) = {}"
    by (simp add: demo_world_def new_delete_live_def empty_sys_heap_def)
  moreover have "sized_run (segregated_allocate new_delete_provider) (segregated_deallocate_sized new_delete_provider)
      segregated_poke (demo_sg_world, demo_sg) (fst demo_sg_next, snd demo_sg_next) {(4096, 10, 8)}"
    using demo_sg_run by simp
  ultimately show ?thesis
    using segregated_no_leak [OF new_delete.memory_provider_axioms demo_world_ok demo_sg_created, unfolded sum.case] by blast
qed

text \<open>
  Sized deallocation of a held request is checked. It frees the block exactly when the
  supplied size and alignment select the class the block was served from (for a direct
  allocation: when size and alignment are the ones it was made with), and otherwise throws
  \<^verbatim>\<open>AllocationMismatchError\<close> (\<^verbatim>\<open>invalid_argument\<close> for a pooled block and an alignment that is no power of two)
  without any change.
\<close>

theorem segregated_sized_checks:
  assumes "memory_provider P live ok" and "ok (w_prov w)" and "segregated_create P options w = (Inr sa, w0)"
    and "sized_run (segregated_allocate P) (segregated_deallocate_sized P) segregated_poke (w0, sa) s H"
    and "(q, n, a) \<in> H"
  defines "pick \<equiv> selector_select (sgo_size_classes options)"
  shows "segregated_deallocate_sized P q n' a' s =
     (if pick n' a' = pick n a \<and> (pick n a \<noteq> Inr None \<or> max n' 1 = max n 1 \<and> a' = a) then segregated_deallocate P q s
      else (Inl (if is_power_of_two a' \<or> pick n a = Inr None then AllocationMismatchError else InvalidArgument), s))"
proof -
  note st = segregated_started [OF assms(1-3)]
  note h = memory_provider.segregated_run_holds [OF assms(1,4) st(1)]
  obtain w1 sa1 where s: "s = (w1, sa1)" by (cases s)
  obtain Fss where F: "segregated_inv live ok (live (w_prov w)) (w1, sa1) Fss" "served sa1 Fss (q, n, a)"
    using h assms(5) s by (auto simp: segregated_holds_def)
  have sel: "sa_selector sa1 = sgo_size_classes options"
    using memory_provider.segregated_run_counts [OF assms(1,4) st(1,3)] st(2) s by simp
  have "request_matches (sa_selector sa1) n a n' a' \<longleftrightarrow>
      pick n' a' = pick n a \<and> (pick n a \<noteq> Inr None \<or> max n' 1 = max n 1 \<and> a' = a)"
    by (auto simp: request_matches_def sel pick_def normalize_size_def)
  then show ?thesis
    using memory_provider.segregated_deallocate_sized_checks [OF assms(1) F, of n' a'] unfolding s sel pick_def by simp
qed

theorem segregated_sized_checks_witness:
  "segregated_deallocate_sized new_delete_provider 4096 10 3 demo_sg_next = (Inl InvalidArgument, demo_sg_next)"
proof -
  have "\<not> is_power_of_two 3" by (simp add: is_power_of_two_def)
  moreover have "selector_select [16] 10 3 = Inl InvalidArgument" using \<open>\<not> is_power_of_two 3\<close> by (simp add: selector_select_def)
  ultimately show ?thesis
    using segregated_sized_checks [OF new_delete.memory_provider_axioms demo_world_ok demo_sg_created demo_sg_run, of 4096 10 8 10 3]
      demo_sg_select by (simp add: demo_sg_options_def)
qed

text \<open>
  Deallocation of a non-null pointer that the client does not hold throws
  \<^verbatim>\<open>InvalidPoolPointer\<close> or \<^verbatim>\<open>DoubleFreeError\<close> and changes nothing, statistics included.
\<close>

theorem segregated_rejects_foreign:
  assumes "memory_provider P live ok" and "ok (w_prov w)" and "segregated_create P options w = (Inr sa, w0)"
    and "sized_run (segregated_allocate P) (segregated_deallocate_sized P) segregated_poke (w0, sa) s H"
    and "q \<noteq> 0" and "q \<notin> fst ` H"
  shows "segregated_deallocate P q s = (Inl InvalidPoolPointer, s) \<or> segregated_deallocate P q s = (Inl DoubleFreeError, s)"
proof -
  note st = segregated_started [OF assms(1-3)]
  note h = memory_provider.segregated_run_holds [OF assms(1,4) st(1)]
  obtain w1 sa1 where s: "s = (w1, sa1)" by (cases s)
  obtain Fss where F: "segregated_inv live ok (live (w_prov w)) (w1, sa1) Fss" "fst ` H = segregated_blocks sa1 Fss"
    using h s by (auto simp: segregated_holds_def)
  show ?thesis
    using memory_provider.segregated_deallocate_rejects [OF assms(1) F(1) assms(5)] assms(6) F(2) by (simp add: s)
qed

theorem segregated_rejects_foreign_witness:
  "\<exists>e. segregated_deallocate new_delete_provider 4100 demo_sg_next = (Inl e, demo_sg_next)"
  using segregated_rejects_foreign [OF new_delete.memory_provider_axioms demo_world_ok demo_sg_created demo_sg_run, of 4100]
  by auto

text \<open>
  C23: after every run the statistics are exact (modulo \<^verbatim>\<open>size_t\<close>). For every class: the
  current count is the number of held requests that select the class, successes are
  deallocations plus current, the served bytes are the class size times the successes and split into
  requested and internally wasted bytes. For the direct allocations: current is the number of held
  requests that select no class, allocations are deallocations plus current. In total: requests
  are successes plus failures, and successes and deallocations are the sums over classes and direct allocations.
\<close>

theorem segregated_statistics_exact:
  assumes "memory_provider P live ok" and "ok (w_prov w)" and "segregated_create P options w = (Inr sa, w0)"
    and "sized_run (segregated_allocate P) (segregated_deallocate_sized P) segregated_poke (w0, sa) s H"
  defines "classes \<equiv> sgo_size_classes options" and "st \<equiv> sa_statistics (snd s)"
  shows "counts_match classes st H"
proof -
  note c = segregated_started [OF assms(1-3)]
  show ?thesis
    using memory_provider.segregated_run_counts [OF assms(1,4) c(1,3)] c(2) unfolding classes_def st_def by simp
qed

theorem segregated_statistics_exact_witness:
  "counts_match [16] (sa_statistics (snd demo_sg_next)) {(4096, 10, 8)}"
  using segregated_statistics_exact [OF new_delete.memory_provider_axioms demo_world_ok demo_sg_created demo_sg_run]
  by (simp add: demo_sg_options_def)

end
