(* ===== verification/Arena_Chunk.thy ===== *)
theory Arena_Chunk
  imports Memory_Chunk
begin

text \<open>
  \<^verbatim>\<open>src/detail/arena_chunk.hpp\<close> and \<^verbatim>\<open>src/detail/arena_chunk.cpp\<close>: one block of provider storage with a
  cursor. \<open>std_align\<close> is \<^verbatim>\<open>std::align\<close> of the standard library: the first address at or after the
  pointer that has the alignment, if the object still fits into the space.
\<close>

section \<open>Operations\<close>

record arena_chunk =
  ac_storage :: addr
  ac_capacity :: size_t
  ac_alignment :: size_t
  ac_offset :: size_t

record arena_allocation =
  aa_pointer :: addr
  aa_previous_offset :: size_t
  aa_consumed_bytes :: size_t

definition std_align :: "size_t \<Rightarrow> size_t \<Rightarrow> addr \<Rightarrow> size_t \<Rightarrow> addr option" where
  "std_align al sz p space =
     (if space < sz then None
      else let diff = (al - p mod al) mod al
           in if space - sz < diff then None else Some (p + diff))"

definition arena_chunk_create ::
  "'p provider option \<Rightarrow> size_t \<Rightarrow> size_t \<Rightarrow> 'p \<Rightarrow> (arena_chunk, 'p) outcome" where
  "arena_chunk_create provider capacity al p =
     (case provider of
        None \<Rightarrow> (Inl InvalidArgument, p)
      | Some P \<Rightarrow>
          (case prov_allocate P capacity al p of
             (Inl e, p') \<Rightarrow> (Inl e, p')
           | (Inr st, p') \<Rightarrow>
               (Inr \<lparr>ac_storage = st, ac_capacity = capacity, ac_alignment = al, ac_offset = 0\<rparr>, p')))"

definition arena_chunk_destroy :: "'p provider \<Rightarrow> arena_chunk \<Rightarrow> 'p \<Rightarrow> 'p" where
  "arena_chunk_destroy P c p = prov_deallocate P (ac_storage c) (ac_capacity c) (ac_alignment c) p"

definition arena_try_allocate :: "arena_chunk \<Rightarrow> size_t \<Rightarrow> size_t \<Rightarrow> arena_allocation option \<times> arena_chunk" where
  "arena_try_allocate c sz al =
     (if ac_alignment c < al \<or> ac_capacity c < ac_offset c then (None, c)
      else let candidate = ac_storage c + ac_offset c;
               space = ac_capacity c - ac_offset c
           in case std_align al sz candidate space of
                None \<Rightarrow> (None, c)
              | Some aligned \<Rightarrow>
                  let previous_offset = ac_offset c;
                      offset = (aligned - ac_storage c) + sz
                  in (Some \<lparr>aa_pointer = aligned, aa_previous_offset = previous_offset,
                            aa_consumed_bytes = offset - previous_offset\<rparr>,
                      c\<lparr>ac_offset := offset\<rparr>))"

definition arena_rewind :: "size_t \<Rightarrow> arena_chunk \<Rightarrow> arena_chunk" where
  "arena_rewind previous_offset c =
     (if previous_offset \<le> ac_offset c then c\<lparr>ac_offset := previous_offset\<rparr> else c)"

definition arena_chunk_reset :: "arena_chunk \<Rightarrow> arena_chunk" where
  "arena_chunk_reset c = c\<lparr>ac_offset := 0\<rparr>"

definition arena_chunk_owns :: "arena_chunk \<Rightarrow> addr \<Rightarrow> bool" where
  "arena_chunk_owns c pointer \<longleftrightarrow>
     (if pointer = nullptr then False
      else pointer \<ge> ac_storage c \<and> pointer - ac_storage c < ac_capacity c)"

section \<open>The alignment step\<close>

text \<open>On addresses that do not wrap, \<^verbatim>\<open>std::align\<close> returns the least aligned address, exactly when the object fits there.\<close>

lemma unat_align_diff:
  assumes "is_power_of_two al"
  shows "unat p + unat ((al - p mod al) mod al) = round_up_nat (unat p) (unat al)"
proof -
  let ?a = "unat al" and ?p = "unat p"
  have a: "0 < ?a" by (rule is_power_of_two_pos [OF assms])
  have le: "unat (p mod al) \<le> ?a" using a by (simp add: unat_mod less_imp_le)
  have d: "unat ((al - p mod al) mod al) = (?a - ?p mod ?a) mod ?a"
    using unat_sub_size [OF le] by (simp add: unat_mod)
  show ?thesis
  proof (cases "?p mod ?a = 0")
    case True
    then have "?a dvd ?p" by (simp add: mod_eq_0_iff_dvd)
    then have "round_up_nat ?p ?a = ?p"
      using round_up_nat_least [OF a _ le_refl, of ?p] round_up_nat_ge [OF a, of ?p] by simp
    then show ?thesis using d True by simp
  next
    case False
    define q r where "q = ?p div ?a" and "r = ?p mod ?a"
    have p: "?p = q * ?a + r" by (simp add: q_def r_def)
    have r: "0 < r" "r < ?a" using False a by (simp_all add: r_def)
    have "(?p + ?a - 1) div ?a = Suc q"
    proof (rule div_nat_eqI)
      show "?a * Suc q \<le> ?p + ?a - 1" using p r(1) by (simp add: mult.commute)
      show "?p + ?a - 1 < ?a * Suc (Suc q)" using p r(2) a by (simp add: mult.commute)
    qed
    then have "round_up_nat ?p ?a = q * ?a + ?a" by (simp add: round_up_nat_def)
    moreover have "(?a - r) mod ?a = ?a - r" using r by simp
    ultimately show ?thesis using d p r by (simp add: r_def [symmetric])
  qed
qed

lemma std_align_spec:
  assumes "is_power_of_two al" and "no_wrap p space" and "sz \<noteq> 0"
  shows "std_align al sz p space =
     (if round_up_nat (unat p) (unat al) + unat sz \<le> unat p + unat space
      then Some (of_nat (round_up_nat (unat p) (unat al))) else None)"
proof -
  let ?d = "(al - p mod al) mod al" and ?R = "round_up_nat (unat p) (unat al)"
  note ud = unat_align_diff [OF assms(1), of p]
  have fits: "space < sz \<or> space - sz < ?d \<longleftrightarrow> \<not> ?R + unat sz \<le> unat p + unat space"
  proof (cases "space < sz")
    case True
    then show ?thesis using ud by (simp add: word_less_nat_alt)
  next
    case False
    then have "unat sz \<le> unat space" by (simp add: word_less_nat_alt)
    then show ?thesis using ud False by (simp add: word_less_nat_alt unat_sub_size) linarith
  qed
  have "p + ?d = of_nat ?R" unfolding ud [symmetric] by simp
  then show ?thesis using fits by (auto simp: std_align_def Let_def)
qed

section \<open>Well-formed chunks\<close>

definition arena_chunk_wf :: "arena_chunk \<Rightarrow> bool" where
  "arena_chunk_wf c \<longleftrightarrow>
     ac_storage c \<noteq> 0 \<and> ac_capacity c \<noteq> 0 \<and> no_wrap (ac_storage c) (ac_capacity c) \<and>
     is_power_of_two (ac_alignment c) \<and> unat (ac_alignment c) dvd unat (ac_storage c) \<and> ac_offset c \<le> ac_capacity c"

definition arena_same_config :: "arena_chunk \<Rightarrow> arena_chunk \<Rightarrow> bool" where
  "arena_same_config c c' \<longleftrightarrow>
     ac_storage c' = ac_storage c \<and> ac_capacity c' = ac_capacity c \<and> ac_alignment c' = ac_alignment c"

lemma arena_same_config_refl [simp]: "arena_same_config c c"
  by (simp add: arena_same_config_def)

text \<open>The address, on natural numbers, at which the next object of an alignment would start.\<close>

definition arena_next :: "arena_chunk \<Rightarrow> size_t \<Rightarrow> nat" where
  "arena_next c al = round_up_nat (unat (ac_storage c) + unat (ac_offset c)) (unat al)"

lemma arena_cursor:
  assumes "arena_chunk_wf c"
  shows "unat (ac_storage c + ac_offset c) = unat (ac_storage c) + unat (ac_offset c)"
    and "unat (ac_capacity c - ac_offset c) = unat (ac_capacity c) - unat (ac_offset c)"
    and "no_wrap (ac_storage c + ac_offset c) (ac_capacity c - ac_offset c)"
proof -
  have le: "unat (ac_offset c) \<le> unat (ac_capacity c)"
    and nw: "unat (ac_storage c) + unat (ac_capacity c) < 18446744073709551616"
    using assms by (auto simp: arena_chunk_wf_def word_le_nat_alt no_wrap_def)
  show a: "unat (ac_storage c + ac_offset c) = unat (ac_storage c) + unat (ac_offset c)"
    using le nw by (intro unat_add_size) simp
  show b: "unat (ac_capacity c - ac_offset c) = unat (ac_capacity c) - unat (ac_offset c)" by (rule unat_sub_size [OF le])
  show "no_wrap (ac_storage c + ac_offset c) (ac_capacity c - ac_offset c)"
    unfolding no_wrap_def a b using le nw by simp
qed

lemma arena_try_allocate_cases:
  assumes wf: "arena_chunk_wf c" and al: "is_power_of_two al" and sz: "sz \<noteq> 0"
  shows "arena_try_allocate c sz al =
     (if al \<le> ac_alignment c \<and> arena_next c al + unat sz \<le> unat (ac_storage c) + unat (ac_capacity c)
      then let q = of_nat (arena_next c al); offset = q - ac_storage c + sz
           in (Some \<lparr>aa_pointer = q, aa_previous_offset = ac_offset c, aa_consumed_bytes = offset - ac_offset c\<rparr>,
               c\<lparr>ac_offset := offset\<rparr>)
      else (None, c))"
proof -
  have "unat (ac_storage c + ac_offset c) + unat (ac_capacity c - ac_offset c) = unat (ac_storage c) + unat (ac_capacity c)"
    using arena_cursor(1,2) [OF wf] wf by (simp add: arena_chunk_wf_def word_le_nat_alt)
  then show ?thesis
    using std_align_spec [OF al arena_cursor(3) [OF wf] sz] wf arena_cursor(1) [OF wf]
    by (auto simp: arena_try_allocate_def arena_next_def arena_chunk_wf_def Let_def not_less)
qed

lemma arena_try_allocate_Some:
  assumes wf: "arena_chunk_wf c" and al: "is_power_of_two al" and sz: "sz \<noteq> 0"
    and "arena_try_allocate c sz al = (Some a, c')"
  defines "q \<equiv> aa_pointer a"
  shows "arena_chunk_wf c'" and "arena_same_config c c'" and "unat al dvd unat q"
    and "unat (ac_storage c) + unat (ac_offset c) \<le> unat q"
    and "unat q + unat sz = unat (ac_storage c) + unat (ac_offset c')"
    and "aa_previous_offset a = ac_offset c" and "ac_offset c' = ac_offset c + aa_consumed_bytes a"
    and "unat q = arena_next c al" and "al \<le> ac_alignment c" and "ac_offset c \<le> ac_offset c'"
proof -
  let ?s = "unat (ac_storage c)" and ?R = "arena_next c al"
  have c: "al \<le> ac_alignment c" "?R + unat sz \<le> ?s + unat (ac_capacity c)"
    and a: "a = \<lparr>aa_pointer = of_nat ?R, aa_previous_offset = ac_offset c,
        aa_consumed_bytes = (of_nat ?R - ac_storage c + sz) - ac_offset c\<rparr>"
    and c': "c' = c\<lparr>ac_offset := of_nat ?R - ac_storage c + sz\<rparr>"
    using assms(4) arena_try_allocate_cases [OF wf al sz] by (auto simp: Let_def split: if_splits)
  have nw: "?s + unat (ac_capacity c) < 18446744073709551616" using wf by (auto simp: arena_chunk_wf_def no_wrap_def)
  have ge: "?s + unat (ac_offset c) \<le> ?R"
    unfolding arena_next_def by (rule round_up_nat_ge [OF is_power_of_two_pos [OF al]])
  have uq: "unat q = ?R" unfolding q_def a using c(2) nw by (simp add: unat_of_nat_size)
  have "?s \<le> unat (of_nat ?R :: addr)" using uq ge by (simp add: q_def a)
  then have "unat (of_nat ?R - ac_storage c) = ?R - ?s" using uq by (simp add: unat_sub_size q_def a)
  then have off: "unat (ac_offset c') = ?R - ?s + unat sz"
    unfolding c' using c(2) nw ge by (simp add: unat_add_size)
  show "unat q = ?R" "al \<le> ac_alignment c" by (rule uq, rule c(1))
  show "unat al dvd unat q" unfolding uq arena_next_def by simp
  show "?s + unat (ac_offset c) \<le> unat q" using uq ge by simp
  show "unat q + unat sz = ?s + unat (ac_offset c')" using uq off ge by simp
  show "aa_previous_offset a = ac_offset c" "ac_offset c' = ac_offset c + aa_consumed_bytes a" by (simp_all add: a c')
  show "arena_same_config c c'" by (simp add: c' arena_same_config_def)
  show "ac_offset c \<le> ac_offset c'" using off ge by (simp add: word_le_nat_alt)
  show "arena_chunk_wf c'"
    using wf off c(2) ge by (auto simp: arena_chunk_wf_def c' word_le_nat_alt)
qed

lemma arena_try_allocate_None: "arena_try_allocate c sz al = (None, c') \<Longrightarrow> c' = c"
  by (auto simp: arena_try_allocate_def Let_def split: if_splits option.splits)

text \<open>A chunk that is empty serves every request that is not bigger or more aligned than itself, at its start.\<close>

lemma arena_try_allocate_fresh:
  assumes wf: "arena_chunk_wf c" and al: "is_power_of_two al" and sz: "sz \<noteq> 0"
    and "ac_offset c = 0" and "al \<le> ac_alignment c" and "sz \<le> ac_capacity c"
  shows "\<exists>a c'. arena_try_allocate c sz al = (Some a, c') \<and> aa_pointer a = ac_storage c"
proof -
  have p: "is_power_of_two (ac_alignment c)" "unat (ac_alignment c) dvd unat (ac_storage c)"
    using wf by (auto simp: arena_chunk_wf_def)
  have d: "unat al dvd unat (ac_storage c)"
    using dvd_trans [OF is_power_of_two_dvd [OF al p(1) assms(5)] p(2)] .
  have "arena_next c al = unat (ac_storage c)"
    unfolding arena_next_def assms(4)
    using round_up_nat_least [OF is_power_of_two_pos [OF al] d le_refl] round_up_nat_ge [OF is_power_of_two_pos [OF al], of "unat (ac_storage c)"]
    by simp
  then show ?thesis
    using arena_try_allocate_cases [OF wf al sz] assms(5,6) by (auto simp: Let_def word_le_nat_alt)
qed

lemma arena_chunk_owns_iff:
  assumes "arena_chunk_wf c"
  shows "arena_chunk_owns c q \<longleftrightarrow> q \<in> extent (ac_storage c) (ac_capacity c)"
proof -
  have "no_wrap (ac_storage c) (ac_capacity c)" "0 < unat (ac_storage c)"
    using assms by (auto simp: arena_chunk_wf_def unat_gt_0)
  then show ?thesis
    using extent_iff [of "ac_storage c" "ac_capacity c" q]
    by (auto simp: arena_chunk_owns_def extent_def word_le_nat_alt)
qed

end
