(* ===== verification/Monotonic_Arena.thy ===== *)
theory Monotonic_Arena
  imports Arena_Chunk Chunk_Manager
begin

text \<open>
  \<^verbatim>\<open>include/memory_pool/arena_options.hpp\<close>, \<^verbatim>\<open>arena_statistics.hpp\<close>, \<^verbatim>\<open>monotonic_arena.hpp\<close> and
  \<^verbatim>\<open>src/monotonic_arena.cpp\<close>. A pointer to a chunk is its position in the vector. A registered destructor is
  a function on the memory; a constructor passed to \<open>arena_create\<close> may also use the arena itself.
\<close>

section \<open>State\<close>

datatype arena_growth_mode = ArenaFixed | ArenaGeometric

record arena_growth_policy =
  agp_mode :: arena_growth_mode
  agp_factor :: size_t
  agp_maximum_chunk_size :: size_t

datatype arena_reset_policy = RetainAllChunks | RetainInitialChunk

record arena_options =
  ao_initial_chunk_size :: size_t
  ao_initial_alignment :: size_t
  ao_growth :: arena_growth_policy
  ao_reset_policy :: arena_reset_policy

record arena_statistics =
  as_allocation_requests :: size_t
  as_successful_allocations :: size_t
  as_failed_allocations :: size_t
  as_requested_bytes :: size_t
  as_current_used_bytes :: size_t
  as_peak_used_bytes :: size_t
  as_padding_bytes :: size_t
  as_current_reserved_bytes :: size_t
  as_peak_reserved_bytes :: size_t
  as_current_chunks :: size_t
  as_peak_chunks :: size_t
  as_chunk_allocations :: size_t
  as_chunk_releases :: size_t
  as_reset_calls :: size_t
  as_object_constructions :: size_t
  as_construction_failures :: size_t
  as_destructor_calls :: size_t

record destructor_record =
  dr_object :: addr
  dr_destructor :: "addr \<Rightarrow> mem \<Rightarrow> mem"

record last_allocation =
  la_chunk :: "nat option"
  la_pointer :: addr
  la_previous_offset :: size_t
  la_consumed_bytes :: size_t

record arena =
  ar_options :: arena_options
  ar_chunks :: "arena_chunk list"
  ar_destructors :: "destructor_record list"
  ar_current_chunk :: nat
  ar_next_chunk_size :: size_t
  ar_last :: last_allocation
  ar_statistics :: arena_statistics

definition zero_arena_statistics :: arena_statistics where
  "zero_arena_statistics =
     \<lparr>as_allocation_requests = 0, as_successful_allocations = 0, as_failed_allocations = 0,
      as_requested_bytes = 0, as_current_used_bytes = 0, as_peak_used_bytes = 0, as_padding_bytes = 0,
      as_current_reserved_bytes = 0, as_peak_reserved_bytes = 0, as_current_chunks = 0, as_peak_chunks = 0,
      as_chunk_allocations = 0, as_chunk_releases = 0, as_reset_calls = 0, as_object_constructions = 0,
      as_construction_failures = 0, as_destructor_calls = 0\<rparr>"

definition no_last_allocation :: last_allocation where
  "no_last_allocation = \<lparr>la_chunk = None, la_pointer = nullptr, la_previous_offset = 0, la_consumed_bytes = 0\<rparr>"

text \<open>\<^verbatim>\<open>alignof(std::max_align_t)\<close>.\<close>

definition max_align :: size_t where
  "max_align = 16"

abbreviation map_statistics :: "(arena_statistics \<Rightarrow> arena_statistics) \<Rightarrow> arena \<Rightarrow> arena" where
  "map_statistics f ar \<equiv> ar\<lparr>ar_statistics := f (ar_statistics ar)\<rparr>"

section \<open>Options and growth\<close>

definition validate_arena_options :: "arena_options \<Rightarrow> arena_options result" where
  "validate_arena_options options =
     (if ao_initial_chunk_size options = 0 then Inl InvalidArgument
      else if \<not> is_power_of_two (ao_initial_alignment options) then Inl InvalidArgument
      else let options' = options\<lparr>ao_initial_alignment := max (ao_initial_alignment options) max_align\<rparr>
           in if agp_mode (ao_growth options') = ArenaGeometric \<and> agp_factor (ao_growth options') < 2
              then Inl InvalidArgument
              else if agp_maximum_chunk_size (ao_growth options') \<noteq> 0 \<and>
                      agp_maximum_chunk_size (ao_growth options') < ao_initial_chunk_size options'
              then Inl InvalidArgument
              else Inr options')"

definition normalized_size :: "size_t \<Rightarrow> size_t" where
  "normalized_size sz = max sz 1"

definition calculate_next_chunk_size :: "arena_options \<Rightarrow> size_t \<Rightarrow> size_t" where
  "calculate_next_chunk_size options current_size =
     (if agp_mode (ao_growth options) = ArenaFixed then ao_initial_chunk_size options
      else let maximum = agp_maximum_chunk_size (ao_growth options)
           in if maximum \<noteq> 0 \<and> current_size \<ge> maximum then maximum
              else if current_size > size_max div agp_factor (ao_growth options)
                then (if maximum \<noteq> 0 then maximum else size_max)
              else let nxt = current_size * agp_factor (ao_growth options)
                   in if maximum \<noteq> 0 then min nxt maximum else nxt)"

section \<open>Chunks\<close>

definition count_chunk :: "nat \<Rightarrow> size_t \<Rightarrow> arena_statistics \<Rightarrow> arena_statistics" where
  "count_chunk chunks capacity s =
     s\<lparr>as_chunk_allocations := as_chunk_allocations s + 1,
       as_current_chunks := of_nat chunks,
       as_peak_chunks := max (as_peak_chunks s) (of_nat chunks),
       as_current_reserved_bytes := as_current_reserved_bytes s + capacity,
       as_peak_reserved_bytes := max (as_peak_reserved_bytes s) (as_current_reserved_bytes s + capacity)\<rparr>"

text \<open>\<^verbatim>\<open>make_unique\<close> and \<^verbatim>\<open>push_back\<close> may fail to get memory; after the latter the new chunk is destroyed.\<close>

definition add_chunk ::
  "'p provider \<Rightarrow> size_t \<Rightarrow> size_t \<Rightarrow> 'p world \<times> arena \<Rightarrow> (nat, 'p world \<times> arena) outcome" where
  "add_chunk P capacity al s =
     (case s of (w, ar) \<Rightarrow>
        case meta_alloc w of (ok_chunk, w1) \<Rightarrow>
          if \<not> ok_chunk then (Inl BadAlloc, (w1, ar))
          else case arena_chunk_create (Some P) capacity al (w_prov w1) of
            (Inl e, p) \<Rightarrow> (Inl e, (w1\<lparr>w_prov := p\<rparr>, ar))
          | (Inr chunk, p) \<Rightarrow>
              (case meta_alloc (w1\<lparr>w_prov := p\<rparr>) of (ok_push, w2) \<Rightarrow>
                 if \<not> ok_push then (Inl BadAlloc, (w2\<lparr>w_prov := arena_chunk_destroy P chunk (w_prov w2)\<rparr>, ar))
                 else let chunks = ar_chunks ar @ [chunk]
                      in (Inr (length (ar_chunks ar)),
                          (w2, map_statistics (count_chunk (length chunks) capacity) (ar\<lparr>ar_chunks := chunks\<rparr>)))))"

definition arena_make ::
  "'p provider \<Rightarrow> arena_options \<Rightarrow> 'p world \<Rightarrow> (arena, 'p world) outcome" where
  "arena_make P requested_options w =
     (case meta_alloc w of (ok_impl, w1) \<Rightarrow>
        if \<not> ok_impl then (Inl BadAlloc, w1)
        else case validate_arena_options requested_options of
          Inl e \<Rightarrow> (Inl e, w1)
        | Inr options \<Rightarrow>
            (case add_chunk P (ao_initial_chunk_size options) (ao_initial_alignment options)
               (w1, \<lparr>ar_options = options, ar_chunks = [], ar_destructors = [], ar_current_chunk = 0,
                     ar_next_chunk_size = calculate_next_chunk_size options (ao_initial_chunk_size options),
                     ar_last = no_last_allocation, ar_statistics = zero_arena_statistics\<rparr>) of
               (Inl e, (w2, _)) \<Rightarrow> (Inl e, w2)
             | (Inr _, (w2, ar)) \<Rightarrow> (Inr ar, w2)))"

section \<open>Allocation\<close>

definition count_arena_allocation :: "arena_allocation \<Rightarrow> size_t \<Rightarrow> arena_statistics \<Rightarrow> arena_statistics" where
  "count_arena_allocation allocation requested_size s =
     s\<lparr>as_successful_allocations := as_successful_allocations s + 1,
       as_requested_bytes := as_requested_bytes s + requested_size,
       as_current_used_bytes := as_current_used_bytes s + aa_consumed_bytes allocation,
       as_peak_used_bytes := max (as_peak_used_bytes s) (as_current_used_bytes s + aa_consumed_bytes allocation),
       as_padding_bytes := as_padding_bytes s + (aa_consumed_bytes allocation - requested_size)\<rparr>"

definition arena_record_allocation :: "nat \<Rightarrow> arena_allocation \<Rightarrow> size_t \<Rightarrow> arena \<Rightarrow> arena" where
  "arena_record_allocation chunk allocation requested_size ar =
     (map_statistics (count_arena_allocation allocation requested_size) ar)
       \<lparr>ar_last := \<lparr>la_chunk = Some chunk, la_pointer = aa_pointer allocation,
                    la_previous_offset = aa_previous_offset allocation,
                    la_consumed_bytes = aa_consumed_bytes allocation\<rparr>\<rparr>"

text \<open>The loop over the chunks from the current one on; the index is relative to the current chunk.\<close>

fun scan_chunks ::
  "arena_chunk list \<Rightarrow> size_t \<Rightarrow> size_t \<Rightarrow> (nat \<times> arena_allocation \<times> arena_chunk) option" where
  "scan_chunks [] sz al = None"
| "scan_chunks (c # cs) sz al =
     (case arena_try_allocate c sz al of
        (Some allocation, c') \<Rightarrow> Some (0, allocation, c')
      | (None, _) \<Rightarrow> map_option (\<lambda>(i, r). (Suc i, r)) (scan_chunks cs sz al))"

definition arena_grow ::
  "'p provider \<Rightarrow> size_t \<Rightarrow> size_t \<Rightarrow> 'p world \<times> arena \<Rightarrow> (addr, 'p world \<times> arena) outcome" where
  "arena_grow P request_size al s =
     (let capacity = max (ar_next_chunk_size (snd s)) request_size;
          chunk_alignment = max (ao_initial_alignment (ar_options (snd s))) al
      in case add_chunk P capacity chunk_alignment s of
           (Inl e, s') \<Rightarrow> (Inl e, s')
         | (Inr k, (w, ar)) \<Rightarrow>
             let ar1 = ar\<lparr>ar_current_chunk := length (ar_chunks ar) - 1,
                          ar_next_chunk_size := calculate_next_chunk_size (ar_options ar) (ar_next_chunk_size ar)\<rparr>
             in case arena_try_allocate (ar_chunks ar1 ! k) request_size al of
                  (None, _) \<Rightarrow> (Inl LogicError, (w, ar1))
                | (Some allocation, c) \<Rightarrow>
                    (Inr (aa_pointer allocation),
                     (w, arena_record_allocation k allocation request_size
                           (ar1\<lparr>ar_chunks := (ar_chunks ar1)[k := c]\<rparr>))))"

definition arena_allocate ::
  "'p provider \<Rightarrow> size_t \<Rightarrow> size_t \<Rightarrow> 'p world \<times> arena \<Rightarrow> (addr, 'p world \<times> arena) outcome" where
  "arena_allocate P sz al s =
     (case s of (w, ar) \<Rightarrow>
        let ar0 = map_statistics (\<lambda>s. s\<lparr>as_allocation_requests := as_allocation_requests s + 1\<rparr>) ar;
            request_size = normalized_size sz;
            attempt =
              (if \<not> is_power_of_two al then (Inl InvalidArgument, (w, ar0))
               else case scan_chunks (drop (ar_current_chunk ar0) (ar_chunks ar0)) request_size al of
                 Some (i, allocation, c) \<Rightarrow>
                   let index = ar_current_chunk ar0 + i
                   in (Inr (aa_pointer allocation),
                       (w, arena_record_allocation index allocation request_size
                             (ar0\<lparr>ar_chunks := (ar_chunks ar0)[index := c], ar_current_chunk := index\<rparr>)))
               | None \<Rightarrow> arena_grow P request_size al (w, ar0))
        in case attempt of
             (Inl e, (w', ar')) \<Rightarrow>
               (Inl e, (w', map_statistics (\<lambda>s. s\<lparr>as_failed_allocations := as_failed_allocations s + 1\<rparr>) ar'))
           | (Inr q, s') \<Rightarrow> (Inr q, s'))"

section \<open>Rollback, reset, destruction\<close>

definition arena_rollback_last :: "addr \<Rightarrow> arena \<Rightarrow> arena" where
  "arena_rollback_last pointer ar =
     (let ar0 = map_statistics (\<lambda>s. s\<lparr>as_construction_failures := as_construction_failures s + 1\<rparr>) ar
      in if la_pointer (ar_last ar0) \<noteq> pointer then ar0
         else case la_chunk (ar_last ar0) of
           None \<Rightarrow> ar0
         | Some k \<Rightarrow>
             (map_statistics
                (\<lambda>s. s\<lparr>as_current_used_bytes := as_current_used_bytes s - la_consumed_bytes (ar_last ar0)\<rparr>)
                (ar0\<lparr>ar_chunks := (ar_chunks ar0)
                       [k := arena_rewind (la_previous_offset (ar_last ar0)) (ar_chunks ar0 ! k)]\<rparr>))
               \<lparr>ar_last := no_last_allocation\<rparr>)"

function destroy_registered_objects :: "'p world \<times> arena \<Rightarrow> 'p world \<times> arena" where
  "destroy_registered_objects (w, ar) =
     (if ar_destructors ar = [] then (w, ar)
      else let rec = last (ar_destructors ar)
           in destroy_registered_objects
                (w\<lparr>w_mem := dr_destructor rec (dr_object rec) (w_mem w)\<rparr>,
                 map_statistics (\<lambda>s. s\<lparr>as_destructor_calls := as_destructor_calls s + 1\<rparr>)
                   (ar\<lparr>ar_destructors := butlast (ar_destructors ar)\<rparr>)))"
  by pat_completeness auto
termination
  by (relation "measure (\<lambda>(w, ar). length (ar_destructors ar))") auto

declare destroy_registered_objects.simps [simp del]

definition release_chunks :: "'p provider \<Rightarrow> arena_chunk list \<Rightarrow> 'p world \<Rightarrow> 'p world" where
  "release_chunks P cs w = w\<lparr>w_prov := fold (arena_chunk_destroy P) cs (w_prov w)\<rparr>"

text \<open>\<^verbatim>\<open>chunks.front()\<close> of an empty vector is undefined.\<close>

definition arena_reset :: "'p provider \<Rightarrow> 'p world \<times> arena \<Rightarrow> (unit, 'p world \<times> arena) outcome" where
  "arena_reset P s =
     (case destroy_registered_objects s of (w, ar) \<Rightarrow>
        let ar1 = (map_statistics (\<lambda>s. s\<lparr>as_reset_calls := as_reset_calls s + 1, as_current_used_bytes := 0\<rparr>) ar)
                    \<lparr>ar_current_chunk := 0, ar_last := no_last_allocation\<rparr>
        in if ao_reset_policy (ar_options ar1) = RetainAllChunks
           then (Inr (), (w, ar1\<lparr>ar_chunks := map arena_chunk_reset (ar_chunks ar1)\<rparr>))
           else case ar_chunks ar1 of
             [] \<Rightarrow> (Inl UndefinedBehaviour, (w, ar1))
           | c # cs \<Rightarrow>
               let released_bytes = fold (\<lambda>c n. n + ac_capacity c) cs 0;
                   ar2 = (if cs = [] then ar1\<lparr>ar_chunks := [arena_chunk_reset c]\<rparr>
                          else map_statistics
                                 (\<lambda>s. s\<lparr>as_chunk_releases := as_chunk_releases s + of_nat (length cs),
                                        as_current_reserved_bytes := as_current_reserved_bytes s - released_bytes,
                                        as_current_chunks := 1\<rparr>)
                                 (ar1\<lparr>ar_chunks := [arena_chunk_reset c]\<rparr>))
               in (Inr (), (release_chunks P cs w,
                            ar2\<lparr>ar_next_chunk_size :=
                                  calculate_next_chunk_size (ar_options ar2) (ao_initial_chunk_size (ar_options ar2))\<rparr>)))"

definition arena_destroy :: "'p provider \<Rightarrow> 'p world \<times> arena \<Rightarrow> 'p world" where
  "arena_destroy P s =
     (case destroy_registered_objects s of (w, ar) \<Rightarrow> release_chunks P (ar_chunks ar) w)"

definition arena_owns :: "arena \<Rightarrow> addr \<Rightarrow> bool" where
  "arena_owns ar pointer \<longleftrightarrow> list_ex (\<lambda>c. arena_chunk_owns c pointer) (ar_chunks ar)"

section \<open>Object creation\<close>

record 'p arena_type =
  at_size :: size_t
  at_align :: size_t
  at_trivial :: bool
  at_construct :: "addr \<Rightarrow> 'p world \<times> arena \<Rightarrow> (unit, 'p world \<times> arena) outcome"
  at_destroy :: "addr \<Rightarrow> mem \<Rightarrow> mem"

definition register_destructor ::
  "addr \<Rightarrow> (addr \<Rightarrow> mem \<Rightarrow> mem) \<Rightarrow> 'p world \<times> arena \<Rightarrow> (unit, 'p world \<times> arena) outcome" where
  "register_destructor object destructor s =
     (case s of (w, ar) \<Rightarrow>
        case meta_alloc w of (ok_push, w1) \<Rightarrow>
          if \<not> ok_push then (Inl BadAlloc, (w1, ar))
          else (Inr (), (w1, ar\<lparr>ar_destructors :=
                               ar_destructors ar @ [\<lparr>dr_object = object, dr_destructor = destructor\<rparr>]\<rparr>)))"

definition note_object_construction :: "arena \<Rightarrow> arena" where
  "note_object_construction ar =
     map_statistics (\<lambda>s. s\<lparr>as_object_constructions := as_object_constructions s + 1\<rparr>) ar"

definition arena_create ::
  "'p provider \<Rightarrow> 'p arena_type \<Rightarrow> 'p world \<times> arena \<Rightarrow> (addr, 'p world \<times> arena) outcome" where
  "arena_create P T s =
     (case arena_allocate P (at_size T) (at_align T) s of
        (Inl e, s1) \<Rightarrow> (Inl e, s1)
      | (Inr storage, s1) \<Rightarrow>
          (case at_construct T storage s1 of
             (Inl e, (w2, ar2)) \<Rightarrow> (Inl e, (w2, arena_rollback_last storage ar2))
           | (Inr _, (w2, ar2)) \<Rightarrow>
               if at_trivial T then (Inr storage, (w2, note_object_construction ar2))
               else case register_destructor storage (at_destroy T) (w2, ar2) of
                 (Inl e, (w3, ar3)) \<Rightarrow>
                   (Inl e, (w3\<lparr>w_mem := at_destroy T storage (w_mem w3)\<rparr>, arena_rollback_last storage ar3))
               | (Inr _, (w3, ar3)) \<Rightarrow> (Inr storage, (w3, note_object_construction ar3))))"

end
