(* ===== verification/Arena_Correct.thy ===== *)
theory Arena_Correct
  imports Monotonic_Arena Sized_Source
begin

text \<open>
  The invariant of \<^verbatim>\<open>MonotonicArena\<close> over every provider that keeps its contract: the held allocations
  lie below the cursors of their chunks and apart from each other, and the remembered last allocation is the
  topmost one of its chunk, so that rolling it back takes no bytes from any other.
\<close>

section \<open>The invariant\<close>

definition arena_grant :: "arena_chunk \<Rightarrow> grant" where
  "arena_grant c = (ac_storage c, ac_capacity c, ac_alignment c)"

definition arena_storages :: "arena \<Rightarrow> addr set" where
  "arena_storages ar = ac_storage ` set (ar_chunks ar)"

definition arena_state_ok ::
  "('p \<Rightarrow> grant set) \<Rightarrow> ('p \<Rightarrow> bool) \<Rightarrow> grant set \<Rightarrow> 'p world \<times> arena \<Rightarrow> bool" where
  "arena_state_ok live ok L s \<longleftrightarrow>
     (case s of (w, ar) \<Rightarrow>
        ok (w_prov w) \<and> ar_current_chunk ar < length (ar_chunks ar) \<and>
        (\<forall>c \<in> set (ar_chunks ar). arena_chunk_wf c \<and> arena_grant c \<in> live (w_prov w)) \<and>
        distinct (map ac_storage (ar_chunks ar)) \<and> is_power_of_two (ao_initial_alignment (ar_options ar)) \<and>
        {g \<in> live (w_prov w). fst g \<notin> arena_storages ar} = L)"

lemma arena_state_okD:
  assumes "arena_state_ok live ok L (w, ar)"
  shows "ok (w_prov w)" and "ar_current_chunk ar < length (ar_chunks ar)"
    and "\<And>c. c \<in> set (ar_chunks ar) \<Longrightarrow> arena_chunk_wf c"
    and "\<And>c. c \<in> set (ar_chunks ar) \<Longrightarrow> arena_grant c \<in> live (w_prov w)"
    and "distinct (map ac_storage (ar_chunks ar))" and "is_power_of_two (ao_initial_alignment (ar_options ar))"
    and "{g \<in> live (w_prov w). fst g \<notin> arena_storages ar} = L"
  using assms unfolding arena_state_ok_def prod.case by blast+

text \<open>\<open>below c lim h\<close>: the request \<open>h\<close> lies in chunk \<open>c\<close> before the offset \<open>lim\<close>.\<close>

definition below :: "arena_chunk \<Rightarrow> size_t \<Rightarrow> request \<Rightarrow> bool" where
  "below c lim h \<longleftrightarrow>
     unat (ac_storage c) \<le> unat (fst h) \<and>
     unat (fst h) + unat (normalized_size (fst (snd h))) \<le> unat (ac_storage c) + unat lim"

definition apart :: "request \<Rightarrow> request \<Rightarrow> bool" where
  "apart h h' \<longleftrightarrow>
     unat (fst h) + unat (normalized_size (fst (snd h))) \<le> unat (fst h') \<or>
     unat (fst h') + unat (normalized_size (fst (snd h'))) \<le> unat (fst h)"

definition last_top :: "arena \<Rightarrow> request set \<Rightarrow> bool" where
  "last_top ar H \<longleftrightarrow>
     (case la_chunk (ar_last ar) of
        None \<Rightarrow> True
      | Some k \<Rightarrow>
          k < length (ar_chunks ar) \<and>
          ac_offset (ar_chunks ar ! k) = la_previous_offset (ar_last ar) + la_consumed_bytes (ar_last ar) \<and>
          la_previous_offset (ar_last ar) \<le> ac_offset (ar_chunks ar ! k) \<and>
          (\<forall>h \<in> H. fst h \<noteq> la_pointer (ar_last ar) \<longrightarrow> below (ar_chunks ar ! k) (ac_offset (ar_chunks ar ! k)) h \<longrightarrow>
             below (ar_chunks ar ! k) (la_previous_offset (ar_last ar)) h))"

definition placed :: "arena \<Rightarrow> request set \<Rightarrow> bool" where
  "placed ar H \<longleftrightarrow>
     (\<forall>h \<in> H. unat (snd (snd h)) dvd unat (fst h) \<and>
        (\<exists>k < length (ar_chunks ar). below (ar_chunks ar ! k) (ac_offset (ar_chunks ar ! k)) h)) \<and>
     (\<forall>h \<in> H. \<forall>h' \<in> H. h \<noteq> h' \<longrightarrow> apart h h')"

definition arena_holds ::
  "('p \<Rightarrow> grant set) \<Rightarrow> ('p \<Rightarrow> bool) \<Rightarrow> grant set \<Rightarrow> 'p world \<times> arena \<Rightarrow> request set \<Rightarrow> bool" where
  "arena_holds live ok L s H \<longleftrightarrow> arena_state_ok live ok L s \<and> placed (snd s) H \<and> last_top (snd s) H"

lemma normalized_size_nonzero [simp]: "normalized_size n \<noteq> 0" "0 < unat (normalized_size n)" "n \<le> normalized_size n"
  using max_1_nonzero [of n] by (simp_all add: normalized_size_def unat_gt_0)

lemma apart_pointer: "apart h h' \<Longrightarrow> fst h \<noteq> fst h'"
proof
  assume a: "apart h h'" and "fst h = fst h'"
  then have e: "unat (fst h) = unat (fst h')" by simp
  from a show False
    using normalized_size_nonzero(2) [of "fst (snd h)"] normalized_size_nonzero(2) [of "fst (snd h')"] e
    unfolding apart_def by linarith
qed

lemma last_top_le:
  assumes "last_top ar H" and "la_chunk (ar_last ar) = Some k"
  shows "la_previous_offset (ar_last ar) \<le> ac_offset (ar_chunks ar ! k)"
  using assms(1) unfolding last_top_def assms(2) option.case by blast

lemma placedD:
  assumes "placed ar H" and "h \<in> H"
  shows "unat (snd (snd h)) dvd unat (fst h)"
    and "\<exists>k < length (ar_chunks ar). below (ar_chunks ar ! k) (ac_offset (ar_chunks ar ! k)) h"
    and "\<And>h'. h' \<in> H \<Longrightarrow> h \<noteq> h' \<Longrightarrow> apart h h'"
  using assms unfolding placed_def by blast+

lemma below_extent:
  assumes "arena_chunk_wf c" and "below c lim h" and "lim \<le> ac_capacity c"
  shows "no_wrap (fst h) (normalized_size (fst (snd h)))"
    and "extent (fst h) (normalized_size (fst (snd h))) \<subseteq> extent (ac_storage c) (ac_capacity c)" and "fst h \<noteq> 0"
proof -
  have nw: "no_wrap (ac_storage c) (ac_capacity c)" "0 < unat (ac_storage c)" using assms(1) by (auto simp: arena_chunk_wf_def unat_gt_0)
  have le: "unat lim \<le> unat (ac_capacity c)" using assms(3) by (simp add: word_le_nat_alt)
  show n: "no_wrap (fst h) (normalized_size (fst (snd h)))" using assms(2) nw(1) le by (auto simp: below_def no_wrap_def)
  show "extent (fst h) (normalized_size (fst (snd h))) \<subseteq> extent (ac_storage c) (ac_capacity c)"
    using assms(2) le by (intro extent_subsetI [OF n nw(1)]) (auto simp: below_def)
  show "fst h \<noteq> 0" using assms(2) nw(2) by (auto simp: below_def)
qed

lemma apart_extent:
  assumes "apart h h'" and "no_wrap (fst h) (normalized_size (fst (snd h)))" and "no_wrap (fst h') (normalized_size (fst (snd h')))"
  shows "extent (fst h) (fst (snd h)) \<inter> extent (fst h') (fst (snd h')) = {}"
proof -
  have "extent (fst h) (normalized_size (fst (snd h))) \<inter> extent (fst h') (normalized_size (fst (snd h'))) = {}"
    using assms by (intro extent_disjointI) (auto simp: apart_def)
  then show ?thesis
    using extent_mono [OF normalized_size_nonzero(3), of "fst h" "fst (snd h)"]
      extent_mono [OF normalized_size_nonzero(3), of "fst h'" "fst (snd h')"] by blast
qed

section \<open>What does not touch the chunks\<close>

definition same_chunks :: "arena \<Rightarrow> arena \<Rightarrow> bool" where
  "same_chunks ar ar' \<longleftrightarrow>
     ar_chunks ar' = ar_chunks ar \<and> ar_current_chunk ar' = ar_current_chunk ar \<and> ar_options ar' = ar_options ar \<and>
     ar_last ar' = ar_last ar"

lemma arena_holds_cong:
  assumes "arena_holds live ok L (w, ar) H" and "same_chunks ar ar'" and "ok (w_prov w')" and "live (w_prov w') = live (w_prov w)"
  shows "arena_holds live ok L (w', ar') H"
proof -
  have e: "ar_chunks ar' = ar_chunks ar" "ar_current_chunk ar' = ar_current_chunk ar" "ar_options ar' = ar_options ar"
    "ar_last ar' = ar_last ar" using assms(2) by (simp_all add: same_chunks_def)
  show ?thesis
    using assms(1,3,4) unfolding arena_holds_def arena_state_ok_def placed_def last_top_def arena_storages_def snd_conv prod.case e
    by simp
qed

lemma arena_holds_subset:
  assumes "arena_holds live ok L s H" and "H' \<subseteq> H"
  shows "arena_holds live ok L s H'"
proof -
  have "placed (snd s) H'" using assms unfolding arena_holds_def placed_def by blast
  moreover have "last_top (snd s) H'"
    using assms unfolding arena_holds_def last_top_def by (auto split: option.splits)
  ultimately show ?thesis using assms(1) by (simp add: arena_holds_def)
qed

lemma destroy_registered_same:
  assumes "destroy_registered_objects (w, ar) = (w', ar')"
  shows "same_chunks ar ar'" and "w_prov w' = w_prov w" and "ar_destructors ar' = []"
    and "ar_next_chunk_size ar' = ar_next_chunk_size ar"
proof -
  have "same_chunks ar ar' \<and> w_prov w' = w_prov w \<and> ar_destructors ar' = [] \<and> ar_next_chunk_size ar' = ar_next_chunk_size ar"
    using assms
  proof (induction "(w, ar)" arbitrary: w ar rule: destroy_registered_objects.induct)
    case (1 w ar)
    show ?case
    proof (cases "ar_destructors ar = []")
      case True
      then show ?thesis using 1(2) by (subst (asm) destroy_registered_objects.simps) (simp add: same_chunks_def)
    next
      case False
      have "destroy_registered_objects
          (w\<lparr>w_mem := dr_destructor (last (ar_destructors ar)) (dr_object (last (ar_destructors ar))) (w_mem w)\<rparr>,
           (ar\<lparr>ar_destructors := butlast (ar_destructors ar)\<rparr>)\<lparr>ar_statistics :=
              ar_statistics ar\<lparr>as_destructor_calls := as_destructor_calls (ar_statistics ar) + 1\<rparr>\<rparr>) = (w', ar')"
        using 1(2) False by (subst (asm) destroy_registered_objects.simps) (simp add: Let_def)
      from 1(1) [OF False refl] this show ?thesis by (simp add: same_chunks_def)
    qed
  qed
  then show "same_chunks ar ar'" and "w_prov w' = w_prov w" and "ar_destructors ar' = []"
    and "ar_next_chunk_size ar' = ar_next_chunk_size ar" by blast+
qed

section \<open>Taking storage from a chunk\<close>

lemma chunks_update_storage:
  assumes "k < length cs" and "arena_same_config (cs ! k) c'"
  shows "map ac_storage (cs[k := c']) = map ac_storage cs" and "arena_grant c' = arena_grant (cs ! k)"
proof -
  have "map ac_storage (cs[k := c']) = (map ac_storage cs)[k := map ac_storage cs ! k]"
    using assms by (simp add: map_update arena_same_config_def)
  then show "map ac_storage (cs[k := c']) = map ac_storage cs" by simp
  show "arena_grant c' = arena_grant (cs ! k)" using assms(2) by (simp add: arena_grant_def arena_same_config_def)
qed

lemma arena_state_ok_update:
  assumes "arena_state_ok live ok L (w, ar)" and "k < length (ar_chunks ar)" and "arena_same_config (ar_chunks ar ! k) c'"
    and "arena_chunk_wf c'" and "ar_chunks ar' = (ar_chunks ar)[k := c']" and "ar_options ar' = ar_options ar"
    and "ar_current_chunk ar' < length (ar_chunks ar)"
  shows "arena_state_ok live ok L (w, ar')"
proof -
  note d = arena_state_okD [OF assms(1)] and u = chunks_update_storage [OF assms(2,3)]
  have "arena_storages ar' = arena_storages ar"
    using arg_cong [OF u(1), of set] by (simp add: arena_storages_def assms(5))
  moreover have "arena_chunk_wf c \<and> arena_grant c \<in> live (w_prov w)" if "c \<in> set (ar_chunks ar')" for c
  proof -
    from that have "c = c' \<or> c \<in> set (ar_chunks ar)" using set_update_subset_insert [of "ar_chunks ar" k c'] assms(5) by auto
    then show ?thesis using d(3,4) assms(4) u(2) nth_mem [OF assms(2)] by auto
  qed
  ultimately show ?thesis using d assms(5-7) u(1) unfolding arena_state_ok_def by simp
qed

lemma scan_chunks_Some:
  assumes "scan_chunks cs sz al = Some (i, A, c')"
  shows "i < length cs" and "arena_try_allocate (cs ! i) sz al = (Some A, c')"
    and "\<And>j. j < i \<Longrightarrow> arena_try_allocate (cs ! j) sz al = (None, cs ! j)"
proof -
  have "i < length cs \<and> arena_try_allocate (cs ! i) sz al = (Some A, c') \<and>
      (\<forall>j < i. arena_try_allocate (cs ! j) sz al = (None, cs ! j))"
    using assms
  proof (induction cs arbitrary: i)
    case (Cons c cs)
    obtain x c1 where t: "arena_try_allocate c sz al = (x, c1)" by (cases "arena_try_allocate c sz al")
    show ?case
    proof (cases x)
      case None
      then obtain i' where i': "i = Suc i'" "scan_chunks cs sz al = Some (i', A, c')" using Cons.prems t by auto
      have c1: "c1 = c" using arena_try_allocate_None t None by simp
      show ?thesis using Cons.IH [OF i'(2)] t None c1 i'(1) by (auto simp: less_Suc_eq_0_disj)
    next
      case (Some y)
      then show ?thesis using Cons.prems t by simp
    qed
  qed simp
  then show "i < length cs" and "arena_try_allocate (cs ! i) sz al = (Some A, c')"
    and "\<And>j. j < i \<Longrightarrow> arena_try_allocate (cs ! j) sz al = (None, cs ! j)" by blast+
qed

context memory_provider begin

lemma arena_chunks_disjoint:
  assumes "arena_state_ok live ok L (w, ar)" and "j < length (ar_chunks ar)" and "k < length (ar_chunks ar)" and "j \<noteq> k"
  shows "extent (ac_storage (ar_chunks ar ! j)) (ac_capacity (ar_chunks ar ! j)) \<inter>
     extent (ac_storage (ar_chunks ar ! k)) (ac_capacity (ar_chunks ar ! k)) = {}"
proof -
  note d = arena_state_okD [OF assms(1)]
  have "ac_storage (ar_chunks ar ! j) \<noteq> ac_storage (ar_chunks ar ! k)"
    using d(5) assms(2-4) by (simp add: distinct_conv_nth)
  then show ?thesis
    using live_disjoint [OF d(1) d(4) [OF nth_mem [OF assms(2)]] d(4) [OF nth_mem [OF assms(3)]]]
    by (simp add: arena_grant_def)
qed

lemma below_apart:
  assumes st: "arena_state_ok live ok L (w, ar)" and jk: "j < length (ar_chunks ar)" "k < length (ar_chunks ar)" "j \<noteq> k"
    and b: "below (ar_chunks ar ! j) lim h" "lim \<le> ac_capacity (ar_chunks ar ! j)"
      "below (ar_chunks ar ! k) lim' h'" "lim' \<le> ac_capacity (ar_chunks ar ! k)"
  shows "apart h h'"
proof -
  note d = arena_state_okD [OF st]
  note x = below_extent [OF d(3) [OF nth_mem [OF jk(1)]] b(1,2)] and y = below_extent [OF d(3) [OF nth_mem [OF jk(2)]] b(3,4)]
  have "extent (fst h) (normalized_size (fst (snd h))) \<inter> extent (fst h') (normalized_size (fst (snd h'))) = {}"
    using arena_chunks_disjoint [OF st jk] x(2) y(2) by blast
  from extent_disjointD [OF x(1) y(1) normalized_size_nonzero(2) normalized_size_nonzero(2) this] show ?thesis
    by (simp add: apart_def)
qed

lemma arena_take:
  assumes h: "arena_holds live ok L (w, ar) H" and k: "k < length (ar_chunks ar)" and al: "is_power_of_two a"
    and tr: "arena_try_allocate (ar_chunks ar ! k) (normalized_size n) a = (Some A, c')"
    and ar': "ar_chunks ar' = (ar_chunks ar)[k := c']" "ar_options ar' = ar_options ar" "ar_current_chunk ar' < length (ar_chunks ar)"
      "ar_last ar' = \<lparr>la_chunk = Some k, la_pointer = aa_pointer A, la_previous_offset = aa_previous_offset A,
         la_consumed_bytes = aa_consumed_bytes A\<rparr>"
  shows "arena_holds live ok L (w, ar') (insert (aa_pointer A, n, a) H)" and "aa_pointer A \<notin> fst ` H"
proof -
  let ?c = "ar_chunks ar ! k" and ?q = "(aa_pointer A, n, a)"
  have st: "arena_state_ok live ok L (w, ar)" and pl: "placed ar H" using h by (simp_all add: arena_holds_def)
  note d = arena_state_okD [OF st]
  note wf = d(3) [OF nth_mem [OF k]]
  note t = arena_try_allocate_Some [OF wf al normalized_size_nonzero(1) tr]
  have cfg: "ac_storage c' = ac_storage ?c" "ac_capacity c' = ac_capacity ?c" using t(2) by (simp_all add: arena_same_config_def)
  have st': "arena_state_ok live ok L (w, ar')" by (rule arena_state_ok_update [OF st k t(2,1) ar'(1-3)])
  have chunk: "ar_chunks ar' ! j = (if j = k then c' else ar_chunks ar ! j)" if "j < length (ar_chunks ar)" for j
    using ar'(1) that k by simp
  have new: "below c' (ac_offset c') ?q" using t(4,5) cfg(1) by (simp add: below_def)
  have lim: "ac_offset (ar_chunks ar ! j) \<le> ac_capacity (ar_chunks ar ! j)" if "j < length (ar_chunks ar)" for j
    using d(3) [OF nth_mem [OF that]] by (simp add: arena_chunk_wf_def)
  have lim': "ac_offset c' \<le> ac_capacity ?c" using t(1) cfg(2) by (simp add: arena_chunk_wf_def)
  have off: "unat (ac_offset ?c) \<le> unat (ac_offset c')" using t(10) by (simp add: word_le_nat_alt)
  have old: "apart g ?q \<and> (\<exists>j < length (ar_chunks ar'). below (ar_chunks ar' ! j) (ac_offset (ar_chunks ar' ! j)) g)" if g: "g \<in> H" for g
  proof -
    obtain j where j: "j < length (ar_chunks ar)" "below (ar_chunks ar ! j) (ac_offset (ar_chunks ar ! j)) g"
      using placedD(2) [OF pl g] by blast
    have "below (ar_chunks ar' ! j) (ac_offset (ar_chunks ar' ! j)) g"
      using j off cfg(1) by (cases "j = k") (auto simp: chunk below_def)
    moreover have "apart g ?q"
    proof (cases "j = k")
      case True
      then show ?thesis using j(2) t(4) by (simp add: below_def apart_def)
    next
      case False
      have "below ?c (ac_offset c') ?q" using new cfg(1) by (simp add: below_def)
      then show ?thesis by (rule below_apart [OF st j(1) k False j(2) lim [OF j(1)] _ lim'])
    qed
    ultimately show ?thesis using j(1) ar'(1) by auto
  qed
  have sym: "apart ?q g" if "g \<in> H" for g using old [OF that] by (auto simp: apart_def)
  have "placed ar' (insert ?q H)"
    unfolding placed_def
  proof (intro conjI ballI impI)
    fix g assume g: "g \<in> insert ?q H"
    show "unat (snd (snd g)) dvd unat (fst g)" using g placedD(1) [OF pl, of g] t(3) by auto
    show "\<exists>j < length (ar_chunks ar'). below (ar_chunks ar' ! j) (ac_offset (ar_chunks ar' ! j)) g"
    proof (cases "g \<in> H")
      case True
      then show ?thesis using old by blast
    next
      case False
      then show ?thesis using g new k ar'(1) by (auto intro!: exI [of _ k])
    qed
    fix g' assume "g' \<in> insert ?q H" "g \<noteq> g'"
    then show "apart g g'" using g old sym placedD(3) [OF pl] by blast
  qed
  moreover have "last_top ar' (insert ?q H)"
  proof -
    have "below c' (ac_offset ?c) g" if g: "g \<in> H" and b: "below c' (ac_offset c') g" for g
    proof -
      obtain j where j: "j < length (ar_chunks ar)" "below (ar_chunks ar ! j) (ac_offset (ar_chunks ar ! j)) g"
        using placedD(2) [OF pl g] by blast
      have "below ?c (ac_offset c') g" using b cfg(1) by (simp add: below_def)
      then have "j \<noteq> k \<Longrightarrow> apart g g" by (intro below_apart [OF st j(1) k _ j(2) lim [OF j(1)] _ lim'])
      then have "j = k" using apart_pointer by blast
      then show ?thesis using j(2) cfg(1) by (simp add: below_def)
    qed
    then show ?thesis
      unfolding last_top_def ar'(4) using k ar'(1) chunk [OF k] t(6,7,10) by auto
  qed
  ultimately show "arena_holds live ok L (w, ar') (insert ?q H)" using st' by (simp add: arena_holds_def)
  show "aa_pointer A \<notin> fst ` H" using old apart_pointer by fastforce
qed

section \<open>Adding chunks\<close>

text \<open>The exceptions that reach the client come from the provider or from the metadata allocations.\<close>

definition storage_error :: "exn \<Rightarrow> bool" where
  "storage_error e \<longleftrightarrow> e = BadAlloc \<or> (\<exists>n a p p'. prov_allocate P n a p = (Inl e, p'))"

lemma add_chunk_cases:
  assumes okp: "ok (w_prov w)" and cap: "capacity \<noteq> 0" and al: "is_power_of_two al"
    and "add_chunk P capacity al (w, ar) = (r, (w', ar'))"
  obtains (throws) e where "r = Inl e" "storage_error e" "e \<noteq> UndefinedBehaviour" "e \<noteq> Terminate" "ar' = ar" "ok (w_prov w')"
      "live (w_prov w') = live (w_prov w)"
  | (adds) c where "r = Inr (length (ar_chunks ar))" "arena_chunk_wf c" "ac_offset c = 0" "ac_capacity c = capacity"
      "ac_alignment c = al" "ok (w_prov w')" "arena_grant c \<in> live (w_prov w')"
      "{g \<in> live (w_prov w'). fst g \<noteq> ac_storage c} = live (w_prov w)"
      "ar' = (ar\<lparr>ar_chunks := ar_chunks ar @ [c]\<rparr>)\<lparr>ar_statistics :=
         count_chunk (Suc (length (ar_chunks ar))) capacity (ar_statistics ar)\<rparr>"
proof -
  obtain b1 w1 where m1: "meta_alloc w = (b1, w1)" by (cases "meta_alloc w")
  obtain x p where pa: "prov_allocate P capacity al (w_prov w) = (x, p)" by (cases "prov_allocate P capacity al (w_prov w)")
  obtain b2 w2 where m2: "meta_alloc (w1\<lparr>w_prov := p\<rparr>) = (b2, w2)" by (cases "meta_alloc (w1\<lparr>w_prov := p\<rparr>)")
  have f: "w_prov w1 = w_prov w" "w_prov w2 = p" using meta_alloc_world [OF m1] meta_alloc_world [OF m2] by simp_all
  consider (meta) "\<not> b1" | (prov) e where b1 "x = Inl e" | (push) st where b1 "x = Inr st" "\<not> b2" | (fine) st where b1 "x = Inr st" b2
    by (cases x) auto
  then show thesis
  proof cases
    case meta
    then have "r = Inl BadAlloc" "w' = w1" "ar' = ar" using assms(4) m1 by (auto simp: add_chunk_def)
    then show thesis using throws [of BadAlloc] okp f by (simp add: storage_error_def)
  next
    case prov
    then have r: "r = Inl e" "w' = w1\<lparr>w_prov := p\<rparr>" "ar' = ar"
      using assms(4) m1 pa f by (auto simp: add_chunk_def arena_chunk_create_def)
    have "storage_error e" using pa prov by (auto simp: storage_error_def)
    then show thesis using throws [of e] r allocate_Inl [OF okp pa [unfolded prov]] by simp
  next
    case push
    then have r: "r = Inl BadAlloc" "w' = w2\<lparr>w_prov := prov_deallocate P st capacity al p\<rparr>" "ar' = ar"
      using assms(4) m1 pa m2 f by (auto simp: add_chunk_def arena_chunk_create_def arena_chunk_destroy_def)
    show thesis
      using throws [of BadAlloc] r allocate_deallocate [OF okp cap al pa [unfolded push]] by (simp add: storage_error_def)
  next
    case fine
    let ?c = "\<lparr>ac_storage = st, ac_capacity = capacity, ac_alignment = al, ac_offset = 0\<rparr>"
    have r: "r = Inr (length (ar_chunks ar))" "w' = w2"
      "ar' = (ar\<lparr>ar_chunks := ar_chunks ar @ [?c]\<rparr>)\<lparr>ar_statistics :=
         count_chunk (Suc (length (ar_chunks ar))) capacity (ar_statistics ar)\<rparr>"
      using assms(4) m1 pa m2 f fine by (auto simp: add_chunk_def arena_chunk_create_def Let_def)
    note g = allocate_Inr [OF okp cap al pa [unfolded fine]]
    have "arena_chunk_wf ?c" using g cap al by (simp add: arena_chunk_wf_def)
    then show thesis using adds [of ?c] r g f by (simp add: arena_grant_def)
  qed
qed

lemma arena_append:
  assumes h: "arena_holds live ok L (w, ar) H" and c: "arena_chunk_wf c" "arena_grant c \<in> live (w_prov w')" "ok (w_prov w')"
      "{g \<in> live (w_prov w'). fst g \<noteq> ac_storage c} = live (w_prov w)"
    and ar': "ar_chunks ar' = ar_chunks ar @ [c]" "ar_options ar' = ar_options ar" "ar_last ar' = ar_last ar"
      "ar_current_chunk ar' \<le> length (ar_chunks ar)"
  shows "arena_holds live ok L (w', ar') H"
proof -
  have st: "arena_state_ok live ok L (w, ar)" and pl: "placed ar H" and lt: "last_top ar H" using h by (simp_all add: arena_holds_def)
  note d = arena_state_okD [OF st]
  have nc: "ac_storage c \<notin> arena_storages ar"
  proof
    assume "ac_storage c \<in> arena_storages ar"
    then obtain e where "e \<in> set (ar_chunks ar)" "ac_storage e = ac_storage c" by (auto simp: arena_storages_def)
    then show False using d(4) [of e] unfolding c(4) [symmetric] by (simp add: arena_grant_def)
  qed
  have gr: "arena_chunk_wf e \<and> arena_grant e \<in> live (w_prov w')" if "e \<in> set (ar_chunks ar')" for e
    using that d(3,4) c(1,2) unfolding c(4) [symmetric] ar'(1) by auto
  have "{g \<in> live (w_prov w'). fst g \<notin> arena_storages ar'} = L"
    unfolding d(7) [symmetric] c(4) [symmetric] by (auto simp: arena_storages_def ar'(1))
  moreover have "distinct (map ac_storage (ar_chunks ar'))" using d(5) nc ar'(1) by (auto simp: arena_storages_def)
  ultimately have "arena_state_ok live ok L (w', ar')"
    using c(3) gr d(6) ar'(2,4) unfolding arena_state_ok_def prod.case by (simp add: ar'(1))
  moreover have "placed ar' H"
    using pl unfolding placed_def ar'(1) by (fastforce simp: nth_append less_Suc_eq)
  moreover have "last_top ar' H"
    using lt unfolding last_top_def ar'(1,3) by (auto simp: nth_append split: option.splits)
  ultimately show ?thesis by (simp add: arena_holds_def)
qed

section \<open>Allocation\<close>

lemma arena_grow_holds:
  assumes h: "arena_holds live ok L (w, ar) H" and al: "is_power_of_two a"
    and "arena_grow P (normalized_size n) a (w, ar) = (r, (w', ar'))"
  shows "case r of
       Inl e \<Rightarrow> storage_error e \<and> e \<noteq> UndefinedBehaviour \<and> e \<noteq> Terminate \<and> ar' = ar \<and> arena_holds live ok L (w', ar) H
     | Inr q \<Rightarrow> arena_holds live ok L (w', ar') (insert (q, n, a) H) \<and> q \<notin> fst ` H \<and>
         (\<exists>c. ar_chunks ar' = ar_chunks ar @ [c] \<and> q = ac_storage c \<and> ac_capacity c = max (ar_next_chunk_size ar) (normalized_size n))"
proof -
  have st: "arena_state_ok live ok L (w, ar)" using h by (simp add: arena_holds_def)
  note d = arena_state_okD [OF st]
  let ?cap = "max (ar_next_chunk_size ar) (normalized_size n)" and ?al = "max (ao_initial_alignment (ar_options ar)) a"
  have cap: "?cap \<noteq> 0" by (metis normalized_size_nonzero(1) max.cobounded2 word_le_0_iff)
  have pa: "is_power_of_two ?al" by (rule is_power_of_two_max [OF d(6) al])
  obtain x w1 ar1 where ad: "add_chunk P ?cap ?al (w, ar) = (x, (w1, ar1))" by (metis prod_cases3)
  from d(1) cap pa ad show ?thesis
  proof (cases rule: add_chunk_cases)
    case (throws e)
    then have "r = Inl e" "w' = w1" "ar' = ar" using assms(3) ad by (auto simp: arena_grow_def)
    then show ?thesis using throws arena_holds_cong [OF h, of ar w1] by (simp add: same_chunks_def)
  next
    case (adds c)
    let ?k = "length (ar_chunks ar)"
    let ?ar = "ar1\<lparr>ar_current_chunk := length (ar_chunks ar1) - 1,
        ar_next_chunk_size := calculate_next_chunk_size (ar_options ar1) (ar_next_chunk_size ar1)\<rparr>"
    have f: "ar_chunks ?ar = ar_chunks ar @ [c]" "ar_options ?ar = ar_options ar" "ar_last ?ar = ar_last ar"
      "ar_current_chunk ?ar = ?k" using adds(9) by simp_all
    have h1: "arena_holds live ok L (w1, ?ar) H"
      by (rule arena_append [OF h adds(2,7,6,8) f(1-3)]) (simp only: f(4) order_refl)
    have ck: "ar_chunks ?ar ! ?k = c" "?k < length (ar_chunks ?ar)" using f(1) by simp_all
    obtain A c' where tr: "arena_try_allocate c (normalized_size n) a = (Some A, c')" and q: "aa_pointer A = ac_storage c"
      using arena_try_allocate_fresh [OF adds(2) al normalized_size_nonzero(1) [of n] adds(3)] adds(4,5) by auto
    let ?ar2 = "arena_record_allocation ?k A (normalized_size n) (?ar\<lparr>ar_chunks := (ar_chunks ?ar)[?k := c']\<rparr>)"
    have res: "r = Inr (aa_pointer A)" "w' = w1" "ar' = ?ar2"
      using assms(3) ad adds(1) tr ck by (auto simp: arena_grow_def Let_def)
    have tr': "arena_try_allocate (ar_chunks ?ar ! ?k) (normalized_size n) a = (Some A, c')" using tr ck by simp
    have l: "ar_chunks ?ar2 = (ar_chunks ?ar)[?k := c']" "ar_options ?ar2 = ar_options ?ar" "ar_current_chunk ?ar2 < length (ar_chunks ?ar)"
      "ar_last ?ar2 = \<lparr>la_chunk = Some ?k, la_pointer = aa_pointer A, la_previous_offset = aa_previous_offset A,
         la_consumed_bytes = aa_consumed_bytes A\<rparr>"
      using f ck(2) by (simp_all add: arena_record_allocation_def)
    note tk = arena_take [OF h1 ck(2) al tr' l]
    have "arena_same_config c c'" by (rule arena_try_allocate_Some(2) [OF adds(2) al normalized_size_nonzero(1) tr])
    then have "\<exists>c. ar_chunks ?ar2 = ar_chunks ar @ [c] \<and> aa_pointer A = ac_storage c \<and> ac_capacity c = ?cap"
      using l(1) f(1) q adds(4) by (simp add: arena_same_config_def)
    then show ?thesis using tk res by simp
  qed
qed

lemma arena_allocate_holds:
  assumes h: "arena_holds live ok L (w, ar) H" and "arena_allocate P n a (w, ar) = (r, (w', ar'))"
  shows "case r of
       Inl e \<Rightarrow> e \<noteq> UndefinedBehaviour \<and> e \<noteq> Terminate \<and> arena_holds live ok L (w', ar') H \<and> same_chunks ar ar' \<and>
         (if is_power_of_two a then storage_error e else e = InvalidArgument)
     | Inr q \<Rightarrow> arena_holds live ok L (w', ar') (insert (q, n, a) H) \<and> q \<notin> fst ` H \<and> is_power_of_two a"
proof -
  let ?ar = "ar\<lparr>ar_statistics := ar_statistics ar\<lparr>as_allocation_requests := as_allocation_requests (ar_statistics ar) + 1\<rparr>\<rparr>"
  have st: "arena_state_ok live ok L (w, ar)" using h by (simp add: arena_holds_def)
  note d = arena_state_okD [OF st]
  have h0: "arena_holds live ok L (w, ?ar) H" using d(1) by (intro arena_holds_cong [OF h]) (simp_all add: same_chunks_def)
  have cong: "arena_holds live ok L (w1, ar1\<lparr>ar_statistics := x\<rparr>) H'" if "arena_holds live ok L (w1, ar1) H'" for w1 ar1 x H'
    using that arena_state_okD(1) [of live ok L w1 ar1] by (intro arena_holds_cong [OF that]) (simp_all add: same_chunks_def arena_holds_def)
  show ?thesis
  proof (cases "is_power_of_two a")
    case False
    then have "r = Inl InvalidArgument" "w' = w" "\<exists>x. ar' = ar\<lparr>ar_statistics := x\<rparr>"
      using assms(2) by (auto simp: arena_allocate_def Let_def)
    then show ?thesis using cong [OF h] False by (auto simp: same_chunks_def)
  next
    case al: True
    let ?cs = "drop (ar_current_chunk ar) (ar_chunks ar)"
    show ?thesis
    proof (cases "scan_chunks ?cs (normalized_size n) a")
      case None
      obtain x w1 ar1 where gr: "arena_grow P (normalized_size n) a (w, ?ar) = (x, (w1, ar1))" by (metis prod_cases3)
      note g = arena_grow_holds [OF h0 al gr]
      show ?thesis
      proof (cases x)
        case (Inl e)
        then have "r = Inl e" "w' = w1" "\<exists>y. ar' = ar1\<lparr>ar_statistics := y\<rparr>"
          using assms(2) al None gr by (auto simp: arena_allocate_def Let_def)
        then show ?thesis using g Inl al cong [of w1 ar1 H] by (auto simp: same_chunks_def)
      next
        case (Inr q)
        then have "r = Inr q" "w' = w1" "ar' = ar1" using assms(2) al None gr by (auto simp: arena_allocate_def Let_def)
        then show ?thesis using g Inr al by simp
      qed
    next
      case (Some y)
      obtain i A c' where y: "y = (i, A, c')" by (cases y)
      note sc = scan_chunks_Some [OF Some [unfolded y]]
      let ?k = "ar_current_chunk ar + i"
      have k: "?k < length (ar_chunks ?ar)" using sc(1) by simp
      have tr: "arena_try_allocate (ar_chunks ?ar ! ?k) (normalized_size n) a = (Some A, c')" using sc(1,2) by simp
      have res: "r = Inr (aa_pointer A)" "w' = w"
        and ar': "ar' = arena_record_allocation ?k A (normalized_size n) (?ar\<lparr>ar_chunks := (ar_chunks ?ar)[?k := c'], ar_current_chunk := ?k\<rparr>)"
        using assms(2) al Some y by (auto simp: arena_allocate_def Let_def)
      have l: "ar_chunks ar' = (ar_chunks ?ar)[?k := c']" "ar_options ar' = ar_options ?ar" "ar_current_chunk ar' < length (ar_chunks ?ar)"
        "ar_last ar' = \<lparr>la_chunk = Some ?k, la_pointer = aa_pointer A, la_previous_offset = aa_previous_offset A,
           la_consumed_bytes = aa_consumed_bytes A\<rparr>"
        using k by (simp_all add: ar' arena_record_allocation_def)
      show ?thesis using arena_take [OF h0 k al tr l] res al by simp
    qed
  qed
qed

section \<open>Rollback and object creation\<close>

lemma arena_rollback_holds:
  assumes h: "arena_holds live ok L (w, ar) H" and q: "(q, n, a) \<in> H"
  shows "arena_holds live ok L (w, arena_rollback_last q ar) (H - {(q, n, a)})"
proof -
  have st: "arena_state_ok live ok L (w, ar)" and pl: "placed ar H" and lt: "last_top ar H" using h by (simp_all add: arena_holds_def)
  note d = arena_state_okD [OF st]
  note sub = arena_holds_subset [OF h, of "H - {(q, n, a)}"]
  show ?thesis
  proof (cases "la_pointer (ar_last ar) = q \<and> la_chunk (ar_last ar) \<noteq> None")
    case False
    then have "\<exists>x. arena_rollback_last q ar = ar\<lparr>ar_statistics := x\<rparr>"
      by (auto simp: arena_rollback_last_def Let_def)
    then show ?thesis using sub d(1) by (auto intro!: arena_holds_cong [of live ok L w ar] simp: same_chunks_def)
  next
    case True
    then obtain k where k: "la_chunk (ar_last ar) = Some k" and p: "la_pointer (ar_last ar) = q" by blast
    let ?c = "ar_chunks ar ! k" and ?prev = "la_previous_offset (ar_last ar)"
    let ?c' = "?c\<lparr>ac_offset := ?prev\<rparr>"
    have t: "k < length (ar_chunks ar)" "?prev \<le> ac_offset ?c"
      "\<And>g. g \<in> H \<Longrightarrow> fst g \<noteq> q \<Longrightarrow> below ?c (ac_offset ?c) g \<Longrightarrow> below ?c ?prev g"
      using lt k p by (auto simp: last_top_def)
    define ar' where "ar' = arena_rollback_last q ar"
    have ar': "ar_chunks ar' = (ar_chunks ar)[k := ?c']" "ar_options ar' = ar_options ar" "ar_current_chunk ar' = ar_current_chunk ar"
      "ar_last ar' = no_last_allocation"
      using k p t(2) by (simp_all add: ar'_def arena_rollback_last_def Let_def arena_rewind_def)
    have wf: "arena_chunk_wf ?c'" using d(3) [OF nth_mem [OF t(1)]] t(2) by (auto simp: arena_chunk_wf_def)
    have "arena_same_config ?c ?c'" by (simp add: arena_same_config_def)
    then have "arena_state_ok live ok L (w, ar')"
      using d(2) ar'(3) by (intro arena_state_ok_update [OF st t(1) _ wf ar'(1,2)]) simp_all
    moreover have "placed ar' (H - {(q, n, a)})"
      unfolding placed_def
    proof (intro conjI ballI impI)
      fix g assume g: "g \<in> H - {(q, n, a)}"
      then have gH: "g \<in> H" by simp
      show "unat (snd (snd g)) dvd unat (fst g)" by (rule placedD(1) [OF pl gH])
      have "g \<noteq> (q, n, a)" using g by simp
      from apart_pointer [OF placedD(3) [OF pl gH q this]] have nq: "fst g \<noteq> q" by simp
      obtain j where j: "j < length (ar_chunks ar)" "below (ar_chunks ar ! j) (ac_offset (ar_chunks ar ! j)) g"
        using placedD(2) [OF pl gH] by blast
      have "below (ar_chunks ar' ! j) (ac_offset (ar_chunks ar' ! j)) g"
        using j t(3) [OF gH nq] ar'(1) by (cases "j = k") (simp_all add: below_def)
      then show "\<exists>j < length (ar_chunks ar'). below (ar_chunks ar' ! j) (ac_offset (ar_chunks ar' ! j)) g"
        using j(1) ar'(1) by auto
      fix g' assume "g' \<in> H - {(q, n, a)}" "g \<noteq> g'"
      then show "apart g g'" using placedD(3) [OF pl gH] by blast
    qed
    moreover have "last_top ar' (H - {(q, n, a)})" by (simp add: last_top_def ar'(4) no_last_allocation_def)
    ultimately show ?thesis by (simp add: arena_holds_def ar'_def)
  qed
qed

lemma release_chunks_live:
  assumes "ok (w_prov w)" and "\<And>c. c \<in> set cs \<Longrightarrow> arena_grant c \<in> live (w_prov w)" and "distinct (map ac_storage cs)"
  shows "ok (w_prov (release_chunks P cs w))" and "live (w_prov (release_chunks P cs w)) = {g \<in> live (w_prov w). fst g \<notin> ac_storage ` set cs}"
    and "w_mem (release_chunks P cs w) = w_mem w"
proof -
  have "fold (\<lambda>(q, n, a). prov_deallocate P q n a) (map arena_grant cs) p = fold (arena_chunk_destroy P) cs p" for p
    by (induction cs arbitrary: p) (simp_all add: arena_grant_def arena_chunk_destroy_def)
  moreover have sub: "set (map arena_grant cs) \<subseteq> live (w_prov w)" using assms(2) by auto
  moreover have dist: "distinct (map fst (map arena_grant cs))" using assms(3) by (simp add: comp_def arena_grant_def)
  ultimately show "ok (w_prov (release_chunks P cs w))" "live (w_prov (release_chunks P cs w)) = {g \<in> live (w_prov w). fst g \<notin> ac_storage ` set cs}"
    using release_list [OF assms(1) sub dist]
    by (simp_all add: release_chunks_def image_image arena_grant_def)
  show "w_mem (release_chunks P cs w) = w_mem w" by (simp add: release_chunks_def)
qed

lemma arena_reset_holds:
  assumes h: "arena_holds live ok L (w, ar) H" and "arena_reset P (w, ar) = (r, (w', ar'))"
  shows "r = Inr ()" and "arena_holds live ok L (w', ar') {}" and "ar_destructors ar' = []" and "ar_current_chunk ar' = 0"
    and "list_all (\<lambda>c. ac_offset c = 0) (ar_chunks ar')" and "ar_options ar' = ar_options ar"
    and "ao_reset_policy (ar_options ar) = RetainAllChunks \<Longrightarrow> w_prov w' = w_prov w \<and> ar_chunks ar' = map arena_chunk_reset (ar_chunks ar)"
    and "ao_reset_policy (ar_options ar) = RetainInitialChunk \<Longrightarrow> ar_chunks ar' = [arena_chunk_reset (hd (ar_chunks ar))]"
proof -
  have st: "arena_state_ok live ok L (w, ar)" using h by (simp add: arena_holds_def)
  note d = arena_state_okD [OF st]
  obtain w1 ar1 where ds: "destroy_registered_objects (w, ar) = (w1, ar1)" by (cases "destroy_registered_objects (w, ar)")
  note s = destroy_registered_same [OF ds]
  have e: "ar_chunks ar1 = ar_chunks ar" "ar_options ar1 = ar_options ar" using s(1) by (simp_all add: same_chunks_def)
  obtain c cs where cs: "ar_chunks ar = c # cs" using d(2) by (cases "ar_chunks ar") auto
  have wf: "arena_chunk_wf (arena_chunk_reset x)" "arena_grant (arena_chunk_reset x) \<in> live (w_prov w)" if "x \<in> set (ar_chunks ar)" for x
    using d(3,4) [OF that] by (simp_all add: arena_chunk_wf_def arena_chunk_reset_def arena_grant_def)
  have top: "placed x {}" "ar_last x = no_last_allocation \<Longrightarrow> last_top x {}" for x
    by (simp_all add: placed_def last_top_def no_last_allocation_def)
  have "r = Inr () \<and> arena_holds live ok L (w', ar') {} \<and> ar_destructors ar' = [] \<and> ar_current_chunk ar' = 0 \<and>
      list_all (\<lambda>c. ac_offset c = 0) (ar_chunks ar') \<and> ar_options ar' = ar_options ar \<and>
      (ao_reset_policy (ar_options ar) = RetainAllChunks \<longrightarrow> w_prov w' = w_prov w \<and> ar_chunks ar' = map arena_chunk_reset (ar_chunks ar)) \<and>
      (ao_reset_policy (ar_options ar) = RetainInitialChunk \<longrightarrow> ar_chunks ar' = [arena_chunk_reset (hd (ar_chunks ar))])"
  proof (cases "ao_reset_policy (ar_options ar)")
    case RetainAllChunks
    have res: "r = Inr ()" "w' = w1"
      and ar': "ar_chunks ar' = map arena_chunk_reset (ar_chunks ar)" "ar_options ar' = ar_options ar" "ar_current_chunk ar' = 0"
        "ar_last ar' = no_last_allocation" "ar_destructors ar' = []"
      using assms(2) ds RetainAllChunks e s(3) by (auto simp: arena_reset_def Let_def)
    have stor: "map ac_storage (ar_chunks ar') = map ac_storage (ar_chunks ar)" using ar'(1) by (simp add: arena_chunk_reset_def)
    have "arena_storages ar' = arena_storages ar" using arg_cong [OF stor, of set] by (simp only: arena_storages_def set_map)
    moreover have "distinct (map ac_storage (ar_chunks ar'))" unfolding stor by (rule d(5))
    moreover have "ar_current_chunk ar' < length (ar_chunks ar')" using arena_state_okD(2) [OF st] ar'(1,3) by (cases "ar_chunks ar") auto
    moreover have "arena_chunk_wf x \<and> arena_grant x \<in> live (w_prov w')" if "x \<in> set (ar_chunks ar')" for x
      using that wf s(2) res(2) unfolding ar'(1) by auto
    ultimately have "arena_state_ok live ok L (w', ar')"
      using d(1,6,7) s(2) res(2) ar'(2) unfolding arena_state_ok_def prod.case by simp
    moreover have "list_all (\<lambda>c. ac_offset c = 0) (ar_chunks ar')" by (simp add: ar'(1) list_all_iff arena_chunk_reset_def)
    ultimately show ?thesis using res ar' top s(2) RetainAllChunks by (simp add: arena_holds_def)
  next
    case RetainInitialChunk
    have res: "r = Inr ()" "w' = release_chunks P cs w1"
      and ar': "ar_chunks ar' = [arena_chunk_reset c]" "ar_options ar' = ar_options ar" "ar_current_chunk ar' = 0"
        "ar_last ar' = no_last_allocation" "ar_destructors ar' = []"
      using assms(2) ds RetainInitialChunk e s(3) cs by (auto simp: arena_reset_def Let_def)
    have dist: "distinct (map ac_storage cs)" "ac_storage c \<notin> ac_storage ` set cs" using d(5) cs by auto
    have "ok (w_prov w1)" "\<And>x. x \<in> set cs \<Longrightarrow> arena_grant x \<in> live (w_prov w1)" using d(1,4) s(2) cs by auto
    note r0 = release_chunks_live [OF this dist(1)]
    have rl: "ok (w_prov w')" "live (w_prov w') = {g \<in> live (w_prov w). fst g \<notin> ac_storage ` set cs}"
      using r0(1,2) res(2) s(2) by simp_all
    have "arena_grant (arena_chunk_reset c) \<in> live (w_prov w')"
      using wf(2) [of c] dist(2) cs unfolding rl(2) by (simp add: arena_grant_def arena_chunk_reset_def)
    moreover have "{g \<in> live (w_prov w'). fst g \<notin> arena_storages ar'} = L"
      unfolding d(7) [symmetric] rl(2) using cs by (auto simp: arena_storages_def ar'(1) arena_chunk_reset_def)
    ultimately have "arena_state_ok live ok L (w', ar')"
      using rl(1) wf(1) [of c] cs d(6) ar'(1-3) unfolding arena_state_ok_def prod.case by simp
    then show ?thesis using res ar' top RetainInitialChunk cs by (simp add: arena_holds_def arena_chunk_reset_def)
  qed
  then show "r = Inr ()" and "arena_holds live ok L (w', ar') {}" and "ar_destructors ar' = []" and "ar_current_chunk ar' = 0"
    and "list_all (\<lambda>c. ac_offset c = 0) (ar_chunks ar')" and "ar_options ar' = ar_options ar"
    and "ao_reset_policy (ar_options ar) = RetainAllChunks \<Longrightarrow> w_prov w' = w_prov w \<and> ar_chunks ar' = map arena_chunk_reset (ar_chunks ar)"
    and "ao_reset_policy (ar_options ar) = RetainInitialChunk \<Longrightarrow> ar_chunks ar' = [arena_chunk_reset (hd (ar_chunks ar))]"
    by blast+
qed

section \<open>Construction and destruction\<close>

lemma arena_make_outcome:
  assumes "ok (w_prov w)" and "arena_make P options w = (r, w')"
  shows "case r of
       Inl e \<Rightarrow> e \<noteq> UndefinedBehaviour \<and> e \<noteq> Terminate \<and> ok (w_prov w') \<and> live (w_prov w') = live (w_prov w)
     | Inr ar \<Rightarrow> arena_holds live ok (live (w_prov w)) (w', ar) {} \<and> validate_arena_options options = Inr (ar_options ar) \<and>
         (\<exists>c. ar_chunks ar = [c] \<and> ac_offset c = 0 \<and> ac_capacity c = ao_initial_chunk_size options) \<and> ar_destructors ar = [] \<and>
         ar_current_chunk ar = 0 \<and>
         ar_statistics ar = count_chunk 1 (ao_initial_chunk_size options) zero_arena_statistics"
proof -
  obtain b1 w1 where m1: "meta_alloc w = (b1, w1)" by (cases "meta_alloc w")
  have f: "w_prov w1 = w_prov w" using meta_alloc_world [OF m1] by simp
  show ?thesis
  proof (cases "b1 \<and> (\<exists>x. validate_arena_options options = Inr x)")
    case False
    have "validate_arena_options options = Inl e \<Longrightarrow> e = InvalidArgument" for e
      by (auto simp: validate_arena_options_def Let_def split: if_splits)
    then have "r \<in> {Inl BadAlloc, Inl InvalidArgument}" "w' = w1"
      using assms(2) m1 False by (auto simp: arena_make_def split: sum.splits if_splits)
    then show ?thesis using assms(1) f by auto
  next
    case True
    then obtain x where v: "validate_arena_options options = Inr x" by blast
    have x: "ao_initial_chunk_size x \<noteq> 0" "is_power_of_two (ao_initial_alignment x)" "ao_initial_chunk_size x = ao_initial_chunk_size options"
    proof -
      have "is_power_of_two max_align" by (simp add: is_power_of_two_def max_align_def)
      then show "ao_initial_chunk_size x \<noteq> 0" "is_power_of_two (ao_initial_alignment x)" "ao_initial_chunk_size x = ao_initial_chunk_size options"
        using v by (auto simp: validate_arena_options_def Let_def is_power_of_two_max split: if_splits)
    qed
    let ?ar = "\<lparr>ar_options = x, ar_chunks = [], ar_destructors = [], ar_current_chunk = 0,
       ar_next_chunk_size = calculate_next_chunk_size x (ao_initial_chunk_size x),
       ar_last = no_last_allocation, ar_statistics = zero_arena_statistics\<rparr>"
    obtain y w2 ar2 where ad: "add_chunk P (ao_initial_chunk_size x) (ao_initial_alignment x) (w1, ?ar) = (y, (w2, ar2))" by (metis prod_cases3)
    have ok1: "ok (w_prov w1)" using assms(1) f by simp
    from ok1 x(1,2) ad show ?thesis
    proof (cases rule: add_chunk_cases)
      case (throws e)
      then have "r = Inl e" "w' = w2" using assms(2) m1 True v ad by (auto simp: arena_make_def)
      then show ?thesis using throws f by simp
    next
      case (adds c)
      have res: "r = Inr ar2" "w' = w2" using assms(2) m1 True v ad adds(1) by (auto simp: arena_make_def)
      have "arena_state_ok live ok (live (w_prov w)) (w2, ar2)"
        using adds x(2) f by (simp add: arena_state_ok_def arena_storages_def)
      moreover have "placed ar2 {}" "last_top ar2 {}" using adds(9) by (simp_all add: placed_def last_top_def no_last_allocation_def)
      ultimately show ?thesis using res v adds(3,4,9) x(3) by (simp add: arena_holds_def)
    qed
  qed
qed

lemma arena_destroy_live:
  assumes h: "arena_holds live ok L (w, ar) H"
  shows "ok (w_prov (arena_destroy P (w, ar)))" and "live (w_prov (arena_destroy P (w, ar))) = L"
proof -
  have st: "arena_state_ok live ok L (w, ar)" using h by (simp add: arena_holds_def)
  note d = arena_state_okD [OF st]
  obtain w1 ar1 where ds: "destroy_registered_objects (w, ar) = (w1, ar1)" by (cases "destroy_registered_objects (w, ar)")
  note s = destroy_registered_same [OF ds]
  have e: "ar_chunks ar1 = ar_chunks ar" using s(1) by (simp add: same_chunks_def)
  have "ok (w_prov w1)" "\<And>x. x \<in> set (ar_chunks ar) \<Longrightarrow> arena_grant x \<in> live (w_prov w1)" using d(1,4) s(2) by auto
  note rl = release_chunks_live [OF this d(5), unfolded s(2)]
  show "ok (w_prov (arena_destroy P (w, ar)))" "live (w_prov (arena_destroy P (w, ar))) = L"
    using rl(1,2) d(7) ds e by (simp_all add: arena_destroy_def arena_storages_def)
qed

end

end
