(* ===== verification/Arena_Runs.thy ===== *)
theory Arena_Runs
  imports Arena_Correct
begin

text \<open>
  Object creation in the arena and whole runs of a client. A constructor may itself use the arena
  it is constructed in: \<open>arena_steps\<close> is the relation between the states, with the requests the client
  holds, before and after any sequence of such uses, nested to any depth.
\<close>

section \<open>Runs\<close>

definition arena_poke :: "addr \<Rightarrow> byte \<Rightarrow> 'p world \<times> arena \<Rightarrow> 'p world \<times> arena" where
  "arena_poke x b s = (case s of (w, ar) \<Rightarrow> (w\<lparr>w_mem := (w_mem w)(x := b)\<rparr>, ar))"

abbreviation type_request :: "'p arena_type \<Rightarrow> addr \<Rightarrow> request" where
  "type_request T q \<equiv> (q, at_size T, at_align T)"

inductive arena_steps ::
  "'p provider \<Rightarrow> ('p world \<times> arena) \<times> request set \<Rightarrow> ('p world \<times> arena) \<times> request set \<Rightarrow> bool"
  for P where
  steps_none: "arena_steps P x x"
| steps_alloc: "arena_steps P x (s, H) \<Longrightarrow> arena_allocate P n a s = (Inr q, s') \<Longrightarrow>
    arena_steps P x (s', insert (q, n, a) H)"
| steps_throw: "arena_steps P x (s, H) \<Longrightarrow> arena_allocate P n a s = (Inl e, s') \<Longrightarrow> arena_steps P x (s', H)"
| steps_poke: "arena_steps P x (s, H) \<Longrightarrow> (q, n, a) \<in> H \<Longrightarrow> y \<in> extent q n \<Longrightarrow>
    arena_steps P x (arena_poke y b s, H)"
| steps_create: "arena_steps P x (s, H) \<Longrightarrow> arena_allocate P (at_size T) (at_align T) s = (Inr q, s1) \<Longrightarrow>
    at_construct T q s1 = (c, s2) \<Longrightarrow> arena_steps P (s1, insert (type_request T q) H) (s2, H2) \<Longrightarrow>
    arena_create P T s = (r, s') \<Longrightarrow>
    arena_steps P x (s', case r of Inl _ \<Rightarrow> H2 - {type_request T q} | Inr _ \<Rightarrow> H2)"
| steps_create_throw: "arena_steps P x (s, H) \<Longrightarrow> arena_allocate P (at_size T) (at_align T) s = (Inl e, s1) \<Longrightarrow>
    arena_create P T s = (r, s') \<Longrightarrow> arena_steps P x (s', H)"

inductive arena_run :: "'p provider \<Rightarrow> 'p world \<times> arena \<Rightarrow> 'p world \<times> arena \<Rightarrow> request set \<Rightarrow> bool"
  for P s0 where
  arena_start: "arena_run P s0 s0 {}"
| arena_use: "arena_run P s0 s H \<Longrightarrow> arena_steps P (s, H) (s', H') \<Longrightarrow> arena_run P s0 s' H'"
| arena_clear: "arena_run P s0 s H \<Longrightarrow> arena_reset P s = (r, s') \<Longrightarrow> arena_run P s0 s' {}"

section \<open>Object creation\<close>

text \<open>What \<open>arena_create\<close> does after the constructor has run, by the way it ends.\<close>

lemma arena_create_cases:
  assumes "arena_allocate P (at_size T) (at_align T) s = (Inr q, s1)" and "at_construct T q s1 = (c, (w2, ar2))"
    and "arena_create P T s = (r, (w', ar'))"
  obtains (constructor) e where "c = Inl e" "r = Inl e" "w' = w2" "ar' = arena_rollback_last q ar2"
  | (metadata) w3 where "c = Inr ()" "\<not> at_trivial T" "meta_alloc w2 = (False, w3)" "r = Inl BadAlloc"
      "w' = w3\<lparr>w_mem := at_destroy T q (w_mem w3)\<rparr>" "ar' = arena_rollback_last q ar2"
  | (trivial) "c = Inr ()" "at_trivial T" "r = Inr q" "w' = w2" "ar' = note_object_construction ar2"
  | (registered) "c = Inr ()" "\<not> at_trivial T" "meta_alloc w2 = (True, w')" "r = Inr q"
      "ar' = note_object_construction (ar2\<lparr>ar_destructors := ar_destructors ar2 @ [\<lparr>dr_object = q, dr_destructor = at_destroy T\<rparr>]\<rparr>)"
proof (cases c)
  case (Inl e)
  then show thesis using constructor [of e] assms by (simp add: arena_create_def)
next
  case (Inr u)
  obtain b w3 where m: "meta_alloc w2 = (b, w3)" by (cases "meta_alloc w2")
  consider "at_trivial T" | "\<not> at_trivial T" b | "\<not> at_trivial T" "\<not> b" by blast
  then show thesis
  proof cases
    case 1
    then show thesis using trivial assms Inr by (simp add: arena_create_def)
  next
    case 2
    then show thesis using registered assms Inr m by (simp add: arena_create_def register_destructor_def)
  next
    case 3
    then show thesis using metadata [of w3] assms Inr m by (simp add: arena_create_def register_destructor_def)
  qed
qed

context memory_provider begin

lemma arena_create_holds:
  assumes al: "arena_allocate P (at_size T) (at_align T) s = (Inr q, s1)" and c: "at_construct T q s1 = (c, s2)"
    and h: "arena_holds live ok L s2 H2" and q: "type_request T q \<in> H2" and cr: "arena_create P T s = (r, s')"
  shows "arena_holds live ok L s' (case r of Inl _ \<Rightarrow> H2 - {type_request T q} | Inr _ \<Rightarrow> H2)"
proof -
  obtain w2 ar2 w' ar' where s: "s2 = (w2, ar2)" "s' = (w', ar')" by (cases s2, cases s')
  have okw: "ok (w_prov w2)" using h s(1) arena_state_okD(1) by (auto simp: arena_holds_def)
  note h2 = h [unfolded s(1)]
  from al c [unfolded s] cr [unfolded s] show ?thesis
  proof (cases rule: arena_create_cases)
    case (constructor e)
    then show ?thesis using arena_rollback_holds [OF h2 q] s(2) by simp
  next
    case (metadata w3)
    have "w_prov w' = w_prov w2" using meta_alloc_world [OF metadata(3)] metadata(5) by simp
    then show ?thesis
      using arena_holds_cong [OF arena_rollback_holds [OF h2 q], of ar' w'] metadata(4,6) okw s(2) by (simp add: same_chunks_def)
  next
    case trivial
    then show ?thesis using arena_holds_cong [OF h2, of ar' w'] okw s(2) by (simp add: same_chunks_def note_object_construction_def)
  next
    case registered
    then show ?thesis
      using arena_holds_cong [OF h2, of ar' w'] okw s(2) meta_alloc_world [OF registered(3)]
      by (simp add: same_chunks_def note_object_construction_def)
  qed
qed

section \<open>Preservation\<close>

lemma arena_allocate_Inr:
  assumes "arena_holds live ok L s H" and "arena_allocate P n a s = (Inr q, s')"
  shows "arena_holds live ok L s' (insert (q, n, a) H)" and "q \<notin> fst ` H" and "is_power_of_two a"
proof -
  obtain w ar w' ar' where s: "s = (w, ar)" "s' = (w', ar')" by (cases s, cases s')
  show "arena_holds live ok L s' (insert (q, n, a) H)" and "q \<notin> fst ` H" and "is_power_of_two a"
    using arena_allocate_holds [OF assms [unfolded s]] s by simp_all
qed

lemma arena_allocate_Inl:
  assumes "arena_holds live ok L s H" and "arena_allocate P n a s = (Inl e, s')"
  shows "arena_holds live ok L s' H" and "same_chunks (snd s) (snd s')" and "e \<noteq> UndefinedBehaviour" and "e \<noteq> Terminate"
    and "if is_power_of_two a then storage_error e else e = InvalidArgument"
proof -
  obtain w ar w' ar' where s: "s = (w, ar)" "s' = (w', ar')" by (cases s, cases s')
  show "arena_holds live ok L s' H" and "same_chunks (snd s) (snd s')" and "e \<noteq> UndefinedBehaviour" and "e \<noteq> Terminate"
    and "if is_power_of_two a then storage_error e else e = InvalidArgument"
    using arena_allocate_holds [OF assms [unfolded s]] s by simp_all
qed

lemma arena_poke_holds: "arena_holds live ok L s H \<Longrightarrow> arena_holds live ok L (arena_poke x b s) H"
proof -
  assume h: "arena_holds live ok L s H"
  obtain w ar where s: "s = (w, ar)" by (cases s)
  have "ok (w_prov w)" using h s arena_state_okD(1) by (auto simp: arena_holds_def)
  then show ?thesis using arena_holds_cong [OF h [unfolded s], of ar] s by (simp add: same_chunks_def arena_poke_def)
qed

text \<open>No sequence of uses takes storage away from the client, constructors that fail included.\<close>

lemma arena_steps_holds:
  assumes "arena_steps P x y" and "arena_holds live ok L (fst x) (snd x)"
  shows "arena_holds live ok L (fst y) (snd y) \<and> snd x \<subseteq> snd y"
  using assms
proof (induction rule: arena_steps.induct)
  case (steps_alloc x s H n a q s')
  then show ?case using arena_allocate_Inr [of L s H n a q s'] by auto
next
  case (steps_throw x s H n a e s')
  then show ?case using arena_allocate_Inl [of L s H n a e s'] by auto
next
  case (steps_poke x s H q n a y b)
  then show ?case using arena_poke_holds by auto
next
  case (steps_create x s H T q s1 c s2 H2 r s')
  have h: "arena_holds live ok L s H" "snd x \<subseteq> H" using steps_create.IH(1) steps_create.prems by simp_all
  note a = arena_allocate_Inr [OF h(1) steps_create.hyps(2)]
  have h2: "arena_holds live ok L s2 H2" "insert (type_request T q) H \<subseteq> H2" using steps_create.IH(2) a(1) by simp_all
  have q: "type_request T q \<in> H2" using h2(2) by simp
  have "type_request T q \<notin> H" using a(2) by force
  then have "H \<subseteq> (case r of Inl _ \<Rightarrow> H2 - {type_request T q} | Inr _ \<Rightarrow> H2)" using h2(2) by (cases r) auto
  then show ?case
    using arena_create_holds [OF steps_create.hyps(2,3) h2(1) q steps_create.hyps(5)] h(2) by auto
next
  case (steps_create_throw x s H T e s1 r s')
  then have "s' = s1" by (simp add: arena_create_def)
  then show ?case using steps_create_throw arena_allocate_Inl [of L s H _ _ e s1] by auto
qed simp

lemma arena_run_holds:
  assumes "arena_run P s0 s H" and "arena_holds live ok L s0 {}"
  shows "arena_holds live ok L s H"
  using assms
proof (induction rule: arena_run.induct)
  case (arena_use s H s' H')
  then show ?case using arena_steps_holds [of "(s, H)" "(s', H')" L] by simp
next
  case (arena_clear s H r s')
  obtain w ar w' ar' where "s = (w, ar)" "s' = (w', ar')" by (cases s, cases s')
  then show ?case using arena_reset_holds(2) [of L w ar H r w' ar'] arena_clear by simp
qed simp

text \<open>What the client may rely on for the storage it holds.\<close>

lemma arena_holds_client:
  assumes h: "arena_holds live ok L (w, ar) H" and q: "(q, n, a) \<in> H"
  shows "q \<noteq> 0" and "unat a dvd unat q" and "no_wrap q n" and "\<And>x. x \<in> extent q n \<Longrightarrow> arena_owns ar x"
    and "\<And>q' n' a'. (q', n', a') \<in> H \<Longrightarrow> (q', n', a') \<noteq> (q, n, a) \<Longrightarrow> q' \<noteq> q \<and> extent q n \<inter> extent q' n' = {}"
proof -
  have st: "arena_state_ok live ok L (w, ar)" and pl: "placed ar H" using h by (simp_all add: arena_holds_def)
  note d = arena_state_okD [OF st]
  have b: "\<exists>c \<in> set (ar_chunks ar). arena_chunk_wf c \<and> below c (ac_offset c) g \<and> ac_offset c \<le> ac_capacity c" if g: "g \<in> H" for g
  proof -
    obtain k where k: "k < length (ar_chunks ar)" "below (ar_chunks ar ! k) (ac_offset (ar_chunks ar ! k)) g"
      using placedD(2) [OF pl g] by blast
    have "arena_chunk_wf (ar_chunks ar ! k)" by (rule d(3) [OF nth_mem [OF k(1)]])
    then show ?thesis using k nth_mem [OF k(1)] by (auto simp: arena_chunk_wf_def)
  qed
  obtain c where c: "c \<in> set (ar_chunks ar)" "arena_chunk_wf c" "below c (ac_offset c) (q, n, a)" "ac_offset c \<le> ac_capacity c"
    using b [OF q] by blast
  note e = below_extent [OF c(2-4), unfolded fst_conv snd_conv]
  show "q \<noteq> 0" by (rule e(3))
  show "unat a dvd unat q" using placedD(1) [OF pl q] by simp
  have "unat n \<le> unat (normalized_size n)" using normalized_size_nonzero(3) [of n] by (simp add: word_le_nat_alt)
  then show "no_wrap q n" using e(1) by (simp add: no_wrap_def)
  show "arena_owns ar x" if x: "x \<in> extent q n" for x
  proof -
    have "x \<in> extent (ac_storage c) (ac_capacity c)"
      using x e(2) extent_mono [OF normalized_size_nonzero(3), of q n] by blast
    then show ?thesis using c(1,2) arena_chunk_owns_iff by (auto simp: arena_owns_def list_ex_iff)
  qed
  fix q' n' a' assume q': "(q', n', a') \<in> H" "(q', n', a') \<noteq> (q, n, a)"
  have ap: "apart (q, n, a) (q', n', a')" by (rule placedD(3) [OF pl q q'(1) q'(2) [symmetric]])
  obtain c' where c': "arena_chunk_wf c'" "below c' (ac_offset c') (q', n', a')" "ac_offset c' \<le> ac_capacity c'"
    using b [OF q'(1)] by blast
  note e' = below_extent(1) [OF c']
  show "q' \<noteq> q \<and> extent q n \<inter> extent q' n' = {}"
    using apart_extent [OF ap] e(1) e' apart_pointer [OF ap] by auto
qed

end

end
