(* ===== verification/Arena_Replay.thy ===== *)
theory Arena_Replay
  imports Arena_Runs
begin

text \<open>
  Three facts about the arena beyond the safety of its storage: a workload repeated after a reset gets
  the addresses it got before, the destructors run in the reverse order of construction, and the
  counters agree with the chunks.
\<close>

section \<open>The destructors\<close>

definition run_destructors :: "destructor_record list \<Rightarrow> mem \<Rightarrow> mem" where
  "run_destructors ds = fold (\<lambda>d. dr_destructor d (dr_object d)) (rev ds)"

lemma destroy_registered_all:
  "destroy_registered_objects (w, ar) =
     (w\<lparr>w_mem := run_destructors (ar_destructors ar) (w_mem w)\<rparr>,
      ar\<lparr>ar_destructors := [],
         ar_statistics := ar_statistics ar
           \<lparr>as_destructor_calls := as_destructor_calls (ar_statistics ar) + of_nat (length (ar_destructors ar))\<rparr>\<rparr>)"
proof (induction "ar_destructors ar" arbitrary: w ar rule: rev_induct)
  case Nil
  then show ?case by (simp add: destroy_registered_objects.simps run_destructors_def)
next
  case (snoc d ds)
  let ?ar = "ar\<lparr>ar_destructors := ds, ar_statistics := ar_statistics ar\<lparr>as_destructor_calls := as_destructor_calls (ar_statistics ar) + 1\<rparr>\<rparr>"
  have "destroy_registered_objects (w, ar) =
      destroy_registered_objects (w\<lparr>w_mem := dr_destructor d (dr_object d) (w_mem w)\<rparr>, ?ar)"
    using snoc.hyps(2) [symmetric] by (subst destroy_registered_objects.simps) (simp add: Let_def)
  also have "\<dots> = (w\<lparr>w_mem := run_destructors (ar_destructors ar) (w_mem w)\<rparr>,
      ar\<lparr>ar_destructors := [], ar_statistics := ar_statistics ar
           \<lparr>as_destructor_calls := as_destructor_calls (ar_statistics ar) + of_nat (length (ar_destructors ar))\<rparr>\<rparr>)"
    using snoc.hyps(1) [of ?ar] snoc.hyps(2) [symmetric] by (simp add: run_destructors_def ac_simps)
  finally show ?case .
qed

section \<open>Replaying a workload\<close>

fun arena_allocate_all ::
  "'p provider \<Rightarrow> (size_t \<times> size_t) list \<Rightarrow> 'p world \<times> arena \<Rightarrow> (addr list, 'p world \<times> arena) outcome" where
  "arena_allocate_all P [] s = (Inr [], s)"
| "arena_allocate_all P ((n, a) # rs) s =
     (case arena_allocate P n a s of
        (Inl e, s') \<Rightarrow> (Inl e, s')
      | (Inr q, s') \<Rightarrow>
          (case arena_allocate_all P rs s' of
             (Inl e, s'') \<Rightarrow> (Inl e, s'')
           | (Inr qs, s'') \<Rightarrow> (Inr (q # qs), s'')))"

lemma scan_chunks_append:
  "scan_chunks (xs @ ys) sz al =
     (case scan_chunks xs sz al of
        Some r \<Rightarrow> Some r
      | None \<Rightarrow> map_option (\<lambda>(i, r). (length xs + i, r)) (scan_chunks ys sz al))"
proof (induction xs)
  case Nil
  then show ?case by (cases "scan_chunks ys sz al") auto
next
  case (Cons x xs)
  obtain r c where t: "arena_try_allocate x sz al = (r, c)" by (cases "arena_try_allocate x sz al")
  then show ?case
    using Cons by (cases r; cases "scan_chunks xs sz al"; cases "scan_chunks ys sz al") auto
qed

lemma arena_try_allocate_bytes:
  assumes "arena_try_allocate c sz al = (Some A, c')"
  shows "arena_chunk_reset c' = arena_chunk_reset c" and "ac_offset c' = ac_offset c + aa_consumed_bytes A"
    and "ac_capacity c' = ac_capacity c" and "c'\<lparr>ac_offset := aa_previous_offset A\<rparr> = c"
  using assms by (auto simp: arena_try_allocate_def Let_def arena_chunk_reset_def split: if_splits option.splits)

lemma add_chunk_Inr:
  assumes "add_chunk P capacity al (w, ar) = (Inr k, (w', ar'))"
  obtains c where "k = length (ar_chunks ar)" "ac_offset c = 0" "ac_capacity c = capacity"
    "ar' = ar\<lparr>ar_chunks := ar_chunks ar @ [c], ar_statistics := count_chunk (Suc (length (ar_chunks ar))) capacity (ar_statistics ar)\<rparr>"
proof -
  obtain b1 w1 where m1: "meta_alloc w = (b1, w1)" by (cases "meta_alloc w")
  obtain x p where pa: "prov_allocate P capacity al (w_prov w1) = (x, p)" by (cases "prov_allocate P capacity al (w_prov w1)")
  obtain b2 w2 where m2: "meta_alloc (w1\<lparr>w_prov := p\<rparr>) = (b2, w2)" by (cases "meta_alloc (w1\<lparr>w_prov := p\<rparr>)")
  obtain st where "b1" "x = Inr st" "b2"
    using assms m1 pa m2 by (cases b1; cases x; cases b2) (simp_all add: add_chunk_def arena_chunk_create_def)
  then show thesis
    using that [of "\<lparr>ac_storage = st, ac_capacity = capacity, ac_alignment = al, ac_offset = 0\<rparr>"] assms m1 pa m2
    by (auto simp: add_chunk_def arena_chunk_create_def Let_def)
qed

text \<open>A successful allocation either takes from a chunk it has or appends one chunk and takes from that.\<close>

lemma arena_allocate_Inr_cases:
  assumes "arena_allocate P n a (w, ar) = (Inr q, (w', ar'))"
  obtains (scan) i A c where "is_power_of_two a"
      "scan_chunks (drop (ar_current_chunk ar) (ar_chunks ar)) (normalized_size n) a = Some (i, A, c)" "q = aa_pointer A" "w' = w"
      "ar_chunks ar' = (ar_chunks ar)[ar_current_chunk ar + i := c]" "ar_current_chunk ar' = ar_current_chunk ar + i"
      "ar_options ar' = ar_options ar" "ar_destructors ar' = ar_destructors ar"
      "ar_statistics ar' = count_arena_allocation A (normalized_size n)
         (ar_statistics ar\<lparr>as_allocation_requests := as_allocation_requests (ar_statistics ar) + 1\<rparr>)"
      "ar_last ar' = \<lparr>la_chunk = Some (ar_current_chunk ar + i), la_pointer = aa_pointer A,
         la_previous_offset = aa_previous_offset A, la_consumed_bytes = aa_consumed_bytes A\<rparr>"
  | (grow) c A c' where "is_power_of_two a"
      "scan_chunks (drop (ar_current_chunk ar) (ar_chunks ar)) (normalized_size n) a = None" "ac_offset c = 0"
      "ac_capacity c = max (ar_next_chunk_size ar) (normalized_size n)"
      "arena_try_allocate c (normalized_size n) a = (Some A, c')" "q = aa_pointer A"
      "ar_chunks ar' = ar_chunks ar @ [c']" "ar_current_chunk ar' = length (ar_chunks ar)"
      "ar_options ar' = ar_options ar" "ar_destructors ar' = ar_destructors ar"
      "ar_statistics ar' = count_arena_allocation A (normalized_size n) (count_chunk (Suc (length (ar_chunks ar)))
         (ac_capacity c) (ar_statistics ar\<lparr>as_allocation_requests := as_allocation_requests (ar_statistics ar) + 1\<rparr>))"
      "ar_last ar' = \<lparr>la_chunk = Some (length (ar_chunks ar)), la_pointer = aa_pointer A,
         la_previous_offset = aa_previous_offset A, la_consumed_bytes = aa_consumed_bytes A\<rparr>"
proof -
  let ?ar = "ar\<lparr>ar_statistics := ar_statistics ar\<lparr>as_allocation_requests := as_allocation_requests (ar_statistics ar) + 1\<rparr>\<rparr>"
  have al: "is_power_of_two a" using assms by (auto simp: arena_allocate_def Let_def split: if_splits)
  show thesis
  proof (cases "scan_chunks (drop (ar_current_chunk ar) (ar_chunks ar)) (normalized_size n) a")
    case (Some y)
    obtain i A c where "y = (i, A, c)" by (cases y)
    then show thesis
      using scan [OF al, of i A c] assms al Some by (auto simp: arena_allocate_def Let_def arena_record_allocation_def)
  next
    case None
    obtain x w1 ar1 where gr: "arena_grow P (normalized_size n) a (w, ?ar) = (x, (w1, ar1))" by (metis prod_cases3)
    have x: "x = Inr q" "ar1 = ar'" using assms al None gr by (auto simp: arena_allocate_def Let_def split: sum.splits)
    let ?cap = "max (ar_next_chunk_size ar) (normalized_size n)" and ?al = "max (ao_initial_alignment (ar_options ar)) a"
    obtain y w2 ar2 where ad: "add_chunk P ?cap ?al (w, ?ar) = (y, (w2, ar2))" by (metis prod_cases3)
    obtain k where k: "y = Inr k" using gr ad x by (cases y) (auto simp: arena_grow_def)
    obtain c where c: "ar2 = ?ar\<lparr>ar_chunks := ar_chunks ar @ [c],
          ar_statistics := count_chunk (Suc (length (ar_chunks ar))) ?cap (ar_statistics ?ar)\<rparr>"
        "k = length (ar_chunks ar)" "ac_offset c = 0" "ac_capacity c = ?cap"
      by (rule add_chunk_Inr [OF ad [unfolded k]]) simp
    obtain z c' where tr: "arena_try_allocate c (normalized_size n) a = (z, c')" by (cases "arena_try_allocate c (normalized_size n) a")
    obtain A where A: "z = Some A"
      using gr ad x k c tr by (cases z) (auto simp: arena_grow_def Let_def)
    show thesis
      using grow [OF al None c(3,4) tr [unfolded A]] gr ad x k c tr A
      by (auto simp: arena_grow_def Let_def arena_record_allocation_def)
  qed
qed

lemma reset_list_update:
  "arena_chunk_reset c = arena_chunk_reset (cs ! k) \<Longrightarrow> map arena_chunk_reset (cs[k := c]) = map arena_chunk_reset cs"
  by (cases "k < length cs") (simp_all add: map_update list_update_same_conv list_update_beyond)

lemma arena_allocate_extends:
  assumes "arena_allocate P n a (w, ar) = (Inr q, (w', ar'))"
  shows "\<exists>ys. map arena_chunk_reset (ar_chunks ar') = map arena_chunk_reset (ar_chunks ar) @ ys"
  using assms
proof (cases rule: arena_allocate_Inr_cases)
  case (scan i A c)
  note s = scan_chunks_Some [OF scan(2)]
  have "arena_chunk_reset c = arena_chunk_reset (ar_chunks ar ! (ar_current_chunk ar + i))"
    using arena_try_allocate_bytes(1) [OF s(2)] s(1) by simp
  then show ?thesis using scan(5) reset_list_update by simp
next
  case (grow c A c')
  then show ?thesis by simp
qed

lemma arena_allocate_all_extends:
  assumes "arena_allocate_all P rs (w, ar) = (Inr qs, (w', ar'))"
  shows "\<exists>ys. map arena_chunk_reset (ar_chunks ar') = map arena_chunk_reset (ar_chunks ar) @ ys"
  using assms
proof (induction rs arbitrary: w ar qs)
  case (Cons r rs)
  obtain n a where r: "r = (n, a)" by (cases r)
  obtain x w1 ar1 where al: "arena_allocate P n a (w, ar) = (x, (w1, ar1))" by (metis prod_cases3)
  obtain q where q: "x = Inr q" using Cons.prems r al by (cases x) auto
  obtain ps where "arena_allocate_all P rs (w1, ar1) = (Inr ps, (w', ar'))"
    using Cons.prems r al q by (auto split: prod.splits sum.splits)
  then show ?case using Cons.IH arena_allocate_extends [OF al [unfolded q]] by fastforce
qed simp

lemma arena_allocate_replay:
  assumes al: "arena_allocate P n a (w, ar) = (Inr q, (w', ar'))" and cur: "ar_current_chunk br = ar_current_chunk ar"
    "ar_current_chunk ar \<le> length (ar_chunks ar)"
    and br: "ar_chunks br = ar_chunks ar @ map arena_chunk_reset (drop (length (ar_chunks ar)) (ar_chunks ar')) @ rest"
  shows "\<exists>br'. arena_allocate P n a (v, br) = (Inr q, (v, br')) \<and> ar_chunks br' = ar_chunks ar' @ rest \<and>
     ar_current_chunk br' = ar_current_chunk ar' \<and> ar_current_chunk ar' \<le> length (ar_chunks ar')"
  using al
proof (cases rule: arena_allocate_Inr_cases)
  case (scan i A c)
  have len: "length (ar_chunks ar') = length (ar_chunks ar)" using scan(5) by simp
  have "scan_chunks (drop (ar_current_chunk ar) (ar_chunks br)) (normalized_size n) a = Some (i, A, c)"
    using scan(2) br cur(2) len by (simp add: scan_chunks_append)
  moreover have "ar_current_chunk ar + i < length (ar_chunks ar)" using scan_chunks_Some(1) [OF scan(2)] by simp
  ultimately show ?thesis
    using scan cur(1) br len by (simp add: arena_allocate_def Let_def arena_record_allocation_def list_update_append)
next
  case (grow c A c')
  have "arena_chunk_reset c' = c"
    using arena_try_allocate_bytes(1) [OF grow(5)] grow(3) by (simp add: arena_chunk_reset_def)
  then have br': "ar_chunks br = ar_chunks ar @ c # rest" using br grow(7) by simp
  have "scan_chunks (drop (ar_current_chunk ar) (ar_chunks br)) (normalized_size n) a =
      Some (length (ar_chunks ar) - ar_current_chunk ar, A, c')"
    using grow(2,5) br' cur(2) by (simp add: scan_chunks_append)
  then show ?thesis
    using grow cur br' by (simp add: arena_allocate_def Let_def arena_record_allocation_def)
qed

lemma arena_allocate_all_replay:
  assumes "arena_allocate_all P rs (w, ar) = (Inr qs, (w', ar'))" and "ar_current_chunk br = ar_current_chunk ar"
    and "ar_current_chunk ar \<le> length (ar_chunks ar)"
    and "ar_chunks br = ar_chunks ar @ map arena_chunk_reset (drop (length (ar_chunks ar)) (ar_chunks ar'))"
  shows "\<exists>br'. arena_allocate_all P rs (v, br) = (Inr qs, (v, br')) \<and> ar_chunks br' = ar_chunks ar'"
  using assms
proof (induction rs arbitrary: w ar br qs)
  case Nil
  then show ?case by simp
next
  case (Cons r rs)
  obtain n a where r: "r = (n, a)" by (cases r)
  obtain x w1 ar1 where al: "arena_allocate P n a (w, ar) = (x, (w1, ar1))" by (metis prod_cases3)
  obtain q where q: "x = Inr q" using Cons.prems(1) r al by (cases x) auto
  obtain ps where all: "arena_allocate_all P rs (w1, ar1) = (Inr ps, (w', ar'))" and qs: "qs = q # ps"
    using Cons.prems(1) r al q by (auto split: prod.splits sum.splits)
  obtain ys zs where ys: "map arena_chunk_reset (ar_chunks ar1) = map arena_chunk_reset (ar_chunks ar) @ ys"
    and zs: "map arena_chunk_reset (ar_chunks ar') = map arena_chunk_reset (ar_chunks ar1) @ zs"
    using arena_allocate_extends [OF al [unfolded q]] arena_allocate_all_extends [OF all] by blast
  have len: "length (ar_chunks ar1) = length (ar_chunks ar) + length ys"
    using arg_cong [OF ys, of length] by (simp only: length_map length_append)
  have dr: "map arena_chunk_reset (drop (length (ar_chunks ar)) (ar_chunks ar1)) = ys"
    "map arena_chunk_reset (drop (length (ar_chunks ar1)) (ar_chunks ar')) = zs"
    "map arena_chunk_reset (drop (length (ar_chunks ar)) (ar_chunks ar')) = ys @ zs"
    using ys zs len by (simp_all add: drop_map [symmetric])
  have "ar_chunks br = ar_chunks ar @ map arena_chunk_reset (drop (length (ar_chunks ar)) (ar_chunks ar1)) @
      map arena_chunk_reset (drop (length (ar_chunks ar1)) (ar_chunks ar'))"
    using Cons.prems(4) unfolding dr .
  from arena_allocate_replay [OF al [unfolded q] Cons.prems(2,3) this]
  obtain br1 where b: "arena_allocate P n a (v, br) = (Inr q, (v, br1))"
    "ar_chunks br1 = ar_chunks ar1 @ map arena_chunk_reset (drop (length (ar_chunks ar1)) (ar_chunks ar'))"
    "ar_current_chunk br1 = ar_current_chunk ar1" "ar_current_chunk ar1 \<le> length (ar_chunks ar1)" by blast
  from Cons.IH [OF all b(3,4,2)] show ?case using b(1) r qs by auto
qed

lemma arena_allocate_all_options:
  "arena_allocate_all P rs (w, ar) = (Inr qs, (w', ar')) \<Longrightarrow> ar_options ar' = ar_options ar"
proof (induction rs arbitrary: w ar qs)
  case (Cons r rs)
  obtain n a where r: "r = (n, a)" by (cases r)
  obtain x w1 ar1 where al: "arena_allocate P n a (w, ar) = (x, (w1, ar1))" by (metis prod_cases3)
  obtain q where q: "x = Inr q" using Cons.prems r al by (cases x) auto
  obtain ps where "arena_allocate_all P rs (w1, ar1) = (Inr ps, (w', ar'))"
    using Cons.prems r al q by (auto split: prod.splits sum.splits)
  moreover have "ar_options ar1 = ar_options ar" using al [unfolded q] by (cases rule: arena_allocate_Inr_cases)
  ultimately show ?case using Cons.IH by simp
qed simp

lemma arena_reset_retaining:
  assumes "ao_reset_policy (ar_options ar) = RetainAllChunks" and "arena_reset P (w, ar) = (r, (w', ar'))"
  shows "ar_chunks ar' = map arena_chunk_reset (ar_chunks ar)" and "ar_current_chunk ar' = 0" and "ar_options ar' = ar_options ar"
  using assms by (auto simp: arena_reset_def destroy_registered_all Let_def)

section \<open>The counters\<close>

definition arena_counts :: "arena \<Rightarrow> bool" where
  "arena_counts ar \<longleftrightarrow>
     (let st = ar_statistics ar in
      as_current_used_bytes st = sum_list (map ac_offset (ar_chunks ar)) \<and>
      as_current_reserved_bytes st = sum_list (map ac_capacity (ar_chunks ar)) \<and>
      as_current_chunks st = of_nat (length (ar_chunks ar)) \<and>
      as_chunk_allocations st = as_chunk_releases st + as_current_chunks st \<and>
      as_allocation_requests st = as_successful_allocations st + as_failed_allocations st)"

lemma arena_counts_cong:
  "arena_counts ar \<Longrightarrow> ar_chunks ar' = ar_chunks ar \<Longrightarrow> ar_statistics ar' = ar_statistics ar \<Longrightarrow> arena_counts ar'"
  by (simp add: arena_counts_def)

lemma arena_allocate_Inr_counts:
  assumes "arena_counts ar" and "arena_allocate P n a (w, ar) = (Inr q, (w', ar'))"
  shows "arena_counts ar'"
  using assms(2)
proof (cases rule: arena_allocate_Inr_cases)
  case (scan i A c)
  note s = scan_chunks_Some [OF scan(2)]
  have k: "ar_current_chunk ar + i < length (ar_chunks ar)" using s(1) by simp
  have "arena_try_allocate (ar_chunks ar ! (ar_current_chunk ar + i)) (normalized_size n) a = (Some A, c)" using s by simp
  note t = arena_try_allocate_bytes [OF this]
  show ?thesis
    using assms(1) scan(5,9) t sum_list_map_update [OF k, of ac_offset c] sum_list_map_update [OF k, of ac_capacity c]
    by (simp add: arena_counts_def Let_def count_arena_allocation_def)
next
  case (grow c A c')
  then show ?thesis
    using assms(1) arena_try_allocate_bytes [OF grow(5)]
    by (simp add: arena_counts_def Let_def count_arena_allocation_def count_chunk_def)
qed

lemma arena_rollback_counts:
  assumes "arena_counts ar" and "last_top ar H"
  shows "arena_counts (arena_rollback_last q ar)"
proof (cases "la_pointer (ar_last ar) = q \<and> la_chunk (ar_last ar) \<noteq> None")
  case False
  then show ?thesis using assms(1) by (auto simp: arena_rollback_last_def Let_def arena_counts_def)
next
  case True
  then obtain k where k: "la_chunk (ar_last ar) = Some k" and p: "la_pointer (ar_last ar) = q" by blast
  then have t: "k < length (ar_chunks ar)" "la_previous_offset (ar_last ar) \<le> ac_offset (ar_chunks ar ! k)"
    "ac_offset (ar_chunks ar ! k) = la_previous_offset (ar_last ar) + la_consumed_bytes (ar_last ar)"
    using assms(2) unfolding last_top_def k option.case by blast+
  let ?c = "(ar_chunks ar ! k)\<lparr>ac_offset := la_previous_offset (ar_last ar)\<rparr>"
  have c: "ar_chunks (arena_rollback_last q ar) = (ar_chunks ar)[k := ?c]"
    using k p t(2) by (simp add: arena_rollback_last_def Let_def arena_rewind_def)
  have sums: "sum_list (map ac_offset ((ar_chunks ar)[k := ?c])) = sum_list (map ac_offset (ar_chunks ar)) - la_consumed_bytes (ar_last ar)"
    "sum_list (map ac_capacity ((ar_chunks ar)[k := ?c])) = sum_list (map ac_capacity (ar_chunks ar))"
    using sum_list_map_update [OF t(1), of ac_offset ?c] sum_list_map_update [OF t(1), of ac_capacity ?c] t(3) by simp_all
  show ?thesis
    using assms(1) sums k p unfolding arena_counts_def Let_def c by (simp add: arena_rollback_last_def Let_def)
qed

lemma released_bytes: "fold (\<lambda>c n. n + ac_capacity c) cs x = x + sum_list (map ac_capacity cs)"
  by (induction cs arbitrary: x) (simp_all add: ac_simps)

lemma sum_offsets_reset [simp]: "sum_list (map (\<lambda>c. ac_offset (arena_chunk_reset c)) cs) = 0"
  "map (\<lambda>c. ac_capacity (arena_chunk_reset c)) cs = map ac_capacity cs"
  by (simp_all add: arena_chunk_reset_def sum_list_0)

lemma arena_reset_counts:
  assumes "arena_counts ar" and "arena_reset P (w, ar) = (r, (w', ar'))"
  shows "arena_counts ar'"
proof (cases "ao_reset_policy (ar_options ar)")
  case RetainAllChunks
  then show ?thesis
    using assms by (auto simp: arena_reset_def destroy_registered_all Let_def arena_counts_def comp_def)
next
  case RetainInitialChunk
  show ?thesis
  proof (cases "ar_chunks ar")
    case Nil
    then show ?thesis
      using assms RetainInitialChunk by (auto simp: arena_reset_def destroy_registered_all Let_def arena_counts_def)
  next
    case (Cons c cs)
    then show ?thesis
      using assms RetainInitialChunk
      by (cases "cs = []") (auto simp: arena_reset_def destroy_registered_all Let_def arena_counts_def released_bytes arena_chunk_reset_def)
  qed
qed

context memory_provider begin

lemma arena_allocate_Inl_counts:
  assumes c: "arena_counts ar" and h: "arena_holds live ok L (w, ar) H" and al: "arena_allocate P n a (w, ar) = (Inl e, (w', ar'))"
  shows "arena_counts ar'"
proof -
  let ?ar = "ar\<lparr>ar_statistics := ar_statistics ar\<lparr>as_allocation_requests := as_allocation_requests (ar_statistics ar) + 1\<rparr>\<rparr>"
  have okw: "ok (w_prov w)" using h arena_state_okD(1) by (auto simp: arena_holds_def)
  have h0: "arena_holds live ok L (w, ?ar) H" using okw by (intro arena_holds_cong [OF h]) (simp_all add: same_chunks_def)
  have "ar' = ?ar\<lparr>ar_statistics := (ar_statistics ?ar)\<lparr>as_failed_allocations := as_failed_allocations (ar_statistics ar) + 1\<rparr>\<rparr>"
  proof (cases "is_power_of_two a \<and> scan_chunks (drop (ar_current_chunk ar) (ar_chunks ar)) (normalized_size n) a = None")
    case False
    then show ?thesis using al by (auto simp: arena_allocate_def Let_def split: if_splits)
  next
    case True
    obtain x w1 ar1 where gr: "arena_grow P (normalized_size n) a (w, ?ar) = (x, (w1, ar1))" by (metis prod_cases3)
    have x: "x = Inl e" using al True gr by (auto simp: arena_allocate_def Let_def split: sum.splits)
    have "ar1 = ?ar" using arena_grow_holds [OF h0 _ gr] True x by simp
    then show ?thesis using al True gr x by (auto simp: arena_allocate_def Let_def)
  qed
  then show ?thesis using c by (simp add: arena_counts_def Let_def)
qed

lemma arena_allocate_counts:
  assumes "arena_counts (snd s)" and "arena_holds live ok L s H" and "arena_allocate P n a s = (r, s')"
  shows "arena_counts (snd s')"
proof -
  obtain w ar w' ar' where s: "s = (w, ar)" "s' = (w', ar')" by (cases s, cases s')
  show ?thesis
    using arena_allocate_Inl_counts [of ar L w H n a _ w' ar'] arena_allocate_Inr_counts [of ar P n a w _ w' ar'] assms s
    by (cases r) auto
qed

lemma arena_create_counts:
  assumes "arena_allocate P (at_size T) (at_align T) s = (Inr q, s1)" and "at_construct T q s1 = (c, s2)"
    and h: "arena_holds live ok L s2 H2" and cn: "arena_counts (snd s2)" and "arena_create P T s = (r, s')"
  shows "arena_counts (snd s')"
proof -
  obtain w2 ar2 w' ar' where s: "s2 = (w2, ar2)" "s' = (w', ar')" by (cases s2, cases s')
  have rb: "arena_counts (arena_rollback_last q ar2)" using arena_rollback_counts [of ar2 H2] h cn s(1) by (simp add: arena_holds_def)
  have note': "arena_counts (note_object_construction (ar2\<lparr>ar_destructors := ds\<rparr>))"
    "arena_counts (note_object_construction ar2)" for ds
    using cn s(1) by (simp_all add: note_object_construction_def arena_counts_def Let_def)
  from assms(1,2,5) [unfolded s] show ?thesis
    using rb note' s(2) by (cases rule: arena_create_cases) simp_all
qed

lemma arena_steps_counts:
  assumes "arena_steps P x y" and "arena_holds live ok L (fst x) (snd x)" and "arena_counts (snd (fst x))"
  shows "arena_counts (snd (fst y))"
  using assms
proof (induction rule: arena_steps.induct)
  case (steps_alloc x s H n a q s')
  then show ?case using arena_steps_holds [OF steps_alloc.hyps(1)] arena_allocate_counts [of s L H n a _ s'] by simp
next
  case (steps_throw x s H n a e s')
  then show ?case using arena_steps_holds [OF steps_throw.hyps(1)] arena_allocate_counts [of s L H n a _ s'] by simp
next
  case (steps_poke x s H q n a y b)
  then show ?case by (cases s) (simp add: arena_poke_def)
next
  case (steps_create x s H T q s1 c s2 H2 r s')
  have h: "arena_holds live ok L s H" using arena_steps_holds [OF steps_create.hyps(1)] steps_create.prems by simp
  have c: "arena_counts (snd s)" using steps_create.IH(1) steps_create.prems by simp
  note a = arena_allocate_Inr(1) [OF h steps_create.hyps(2)]
  have h2: "arena_holds live ok L s2 H2" using arena_steps_holds [OF steps_create.hyps(4)] a by simp
  have "arena_counts (snd s1)" by (rule arena_allocate_counts [OF c h steps_create.hyps(2)])
  then have "arena_counts (snd s2)" using steps_create.IH(2) a by simp
  then show ?case using arena_create_counts [OF steps_create.hyps(2,3) h2 _ steps_create.hyps(5)] by simp
next
  case (steps_create_throw x s H T e s1 r s')
  then have "s' = s1" by (simp add: arena_create_def)
  then show ?case
    using steps_create_throw arena_steps_holds [OF steps_create_throw.hyps(1)] arena_allocate_counts [of s L H _ _ _ s1] by simp
qed

lemma arena_run_counts:
  assumes "arena_run P s0 s H" and "arena_holds live ok L s0 {}" and "arena_counts (snd s0)"
  shows "arena_counts (snd s)"
  using assms
proof (induction rule: arena_run.induct)
  case (arena_use s H s' H')
  then show ?case using arena_steps_counts [of "(s, H)" "(s', H')" L] arena_run_holds [OF arena_use.hyps(1)] by simp
next
  case (arena_clear s H r s')
  obtain w ar w' ar' where "s = (w, ar)" "s' = (w', ar')" by (cases s, cases s')
  then show ?case using arena_reset_counts [of ar P w r w' ar'] arena_clear by simp
qed simp

end

end
