(* ===== verification/Arena_Properties.thy ===== *)
theory Arena_Properties
  imports Arena_Replay Segregated_Properties
begin

text \<open>
  The properties of \<^verbatim>\<open>MonotonicArena\<close>, over every memory provider that keeps the contract \<open>memory_provider\<close>,
  with a demonstration arena on the global \<^verbatim>\<open>operator new\<close> for the witnesses.
\<close>

section \<open>A demonstration arena\<close>

definition demo_arena_options :: arena_options where
  "demo_arena_options = \<lparr>ao_initial_chunk_size = 64, ao_initial_alignment = 16,
     ao_growth = \<lparr>agp_mode = ArenaGeometric, agp_factor = 2, agp_maximum_chunk_size = 0\<rparr>,
     ao_reset_policy = RetainAllChunks\<rparr>"

definition demo_arena :: arena where
  "demo_arena = projr (fst (arena_make new_delete_provider demo_arena_options demo_world))"

definition demo_arena_world :: "sys_heap world" where
  "demo_arena_world = snd (arena_make new_delete_provider demo_arena_options demo_world)"

lemmas demo_arena_eval = arena_make_def demo_arena_options_def validate_arena_options_def add_chunk_def arena_chunk_create_def
  meta_alloc_def demo_world_def new_delete_provider_def new_delete_allocate_def max_align_def is_power_of_two_def
  needs_extended_alignment_def default_new_alignment_def sys_new_def Let_def
  placeable_def bump_place_def empty_sys_heap_def no_wrap_def max_1_id

lemma demo_arena_made:
  "arena_make new_delete_provider demo_arena_options demo_world = (Inr demo_arena, demo_arena_world)"
proof -
  have "\<not> isl (fst (arena_make new_delete_provider demo_arena_options demo_world))"
    by (simp add: demo_arena_eval split: prod.splits)
  then show ?thesis
    by (cases "arena_make new_delete_provider demo_arena_options demo_world")
      (auto simp: demo_arena_def demo_arena_world_def)
qed

lemma demo_arena_chunk:
  "ar_chunks demo_arena = [\<lparr>ac_storage = 4096, ac_capacity = 64, ac_alignment = 16, ac_offset = 0\<rparr>]"
  "ar_current_chunk demo_arena = 0" "ar_options demo_arena = demo_arena_options" "ar_destructors demo_arena = []"
  by (simp_all add: demo_arena_def demo_arena_eval split: prod.splits)

definition demo_arena_next :: "sys_heap world \<times> arena" where
  "demo_arena_next = snd (arena_allocate new_delete_provider 10 8 (demo_arena_world, demo_arena))"

lemma demo_arena_alloc:
  "arena_allocate new_delete_provider 10 8 (demo_arena_world, demo_arena) = (Inr 4096, demo_arena_next)"
proof -
  have "is_power_of_two 8" by (simp add: is_power_of_two_def)
  then have "fst (arena_allocate new_delete_provider 10 8 (demo_arena_world, demo_arena)) = Inr 4096"
    by (simp add: arena_allocate_def Let_def demo_arena_chunk arena_try_allocate_def std_align_def normalized_size_def)
  then show ?thesis by (metis demo_arena_next_def prod.collapse)
qed

lemma demo_arena_run: "arena_run new_delete_provider (demo_arena_world, demo_arena) demo_arena_next {(4096, 10, 8)}"
  by (rule arena_use [OF arena_start steps_alloc [OF steps_none demo_arena_alloc]])

lemma arena_made:
  assumes "memory_provider P live ok" and "ok (w_prov w)" and "arena_make P options w = (Inr ar, w0)"
  shows "arena_holds live ok (live (w_prov w)) (w0, ar) {}" and "arena_counts ar"
    and "ar_current_chunk ar = 0" and "list_all (\<lambda>c. ac_offset c = 0) (ar_chunks ar)"
  using memory_provider.arena_make_outcome [OF assms]
  by (auto simp: arena_counts_def Let_def count_chunk_def zero_arena_statistics_def)

section \<open>Properties\<close>

text \<open>
  C25: whatever a client does with an arena (allocations, constructors that allocate from the same
  arena to any depth and may throw, writes into the storage it holds, resets), the storage it holds
  since the last reset is non-null, aligned as requested, owned by the arena byte for byte, and
  disjoint from all other storage it holds.
\<close>

theorem arena_client_safety:
  assumes "memory_provider P live ok" and "ok (w_prov w)" and "arena_make P options w = (Inr ar, w0)"
    and "arena_run P (w0, ar) s H" and "(q, n, a) \<in> H"
  shows "q \<noteq> 0 \<and> unat a dvd unat q \<and> no_wrap q n \<and> (\<forall>x. x \<in> extent q n \<longrightarrow> arena_owns (snd s) x) \<and>
     (\<forall>q' n' a'. (q', n', a') \<in> H \<longrightarrow> (q', n', a') \<noteq> (q, n, a) \<longrightarrow> q' \<noteq> q \<and> extent q n \<inter> extent q' n' = {})"
proof -
  obtain w1 ar1 where s: "s = (w1, ar1)" by (cases s)
  have "arena_holds live ok (live (w_prov w)) (w1, ar1) H"
    using memory_provider.arena_run_holds [OF assms(1,4) arena_made(1) [OF assms(1-3)]] s by simp
  note c = memory_provider.arena_holds_client [OF assms(1) this assms(5)]
  show ?thesis unfolding s snd_conv using c by blast
qed

theorem arena_client_safety_witness: "arena_owns (snd demo_arena_next) 4100 \<and> unat (8 :: size_t) dvd unat (4096 :: addr)"
proof -
  have "4100 \<in> extent 4096 10" by (simp add: extent_def)
  then show ?thesis
    using arena_client_safety [OF new_delete.memory_provider_axioms demo_world_ok demo_arena_made demo_arena_run, of 4096 10 8] by blast
qed

text \<open>
  C26: an arena constructor that throws leaves the provider's grants as they were; the destructor of an
  arena returns every chunk, after any run.
\<close>

theorem arena_no_leak:
  assumes "memory_provider P live ok" and "ok (w_prov w)" and "arena_make P options w = (r, w0)"
  shows "case r of
       Inl e \<Rightarrow> e \<noteq> UndefinedBehaviour \<and> e \<noteq> Terminate \<and> ok (w_prov w0) \<and> live (w_prov w0) = live (w_prov w)
     | Inr ar \<Rightarrow> \<forall>s H. arena_run P (w0, ar) s H \<longrightarrow>
         ok (w_prov (arena_destroy P s)) \<and> live (w_prov (arena_destroy P s)) = live (w_prov w)"
proof (cases r)
  case (Inl e)
  then show ?thesis using memory_provider.arena_make_outcome [OF assms] by simp
next
  case (Inr ar)
  note st = arena_made [OF assms(1,2) assms(3) [unfolded Inr]]
  have "ok (w_prov (arena_destroy P s)) \<and> live (w_prov (arena_destroy P s)) = live (w_prov w)"
    if run: "arena_run P (w0, ar) s H" for s H
  proof -
    obtain w1 ar1 where s: "s = (w1, ar1)" by (cases s)
    have "arena_holds live ok (live (w_prov w)) (w1, ar1) H"
      using memory_provider.arena_run_holds [OF assms(1) run st(1)] s by simp
    from memory_provider.arena_destroy_live [OF assms(1) this] show ?thesis using s by simp
  qed
  then show ?thesis using Inr by simp
qed

theorem arena_no_leak_witness: "new_delete_live (w_prov (arena_destroy new_delete_provider demo_arena_next)) = {}"
proof -
  have "new_delete_live (w_prov demo_world) = {}"
    by (simp add: demo_world_def new_delete_live_def empty_sys_heap_def)
  then show ?thesis
    using arena_no_leak [OF new_delete.memory_provider_axioms demo_world_ok demo_arena_made, unfolded sum.case] demo_arena_run by blast
qed

text \<open>
  An allocation throws \<^verbatim>\<open>invalid_argument\<close> exactly when the alignment is no power of two;
  every other exception is \<^verbatim>\<open>bad_alloc\<close> or comes from the provider, so the internal \<^verbatim>\<open>logic_error\<close> of
  \<^verbatim>\<open>allocate\<close> (a new chunk that cannot serve its own request) needs a provider that throws it. No failed
  allocation changes a chunk, the cursor or the last allocation.
\<close>

theorem arena_allocation_errors:
  assumes "memory_provider P live ok" and "ok (w_prov w)" and "arena_make P options w = (Inr ar, w0)"
    and "arena_run P (w0, ar) s H" and "arena_allocate P n a s = (Inl e, s')"
  shows "(if is_power_of_two a then e = BadAlloc \<or> (\<exists>n a p p'. prov_allocate P n a p = (Inl e, p')) else e = InvalidArgument) \<and>
     same_chunks (snd s) (snd s')"
proof -
  have h: "arena_holds live ok (live (w_prov w)) s H"
    by (rule memory_provider.arena_run_holds [OF assms(1,4) arena_made(1) [OF assms(1-3)]])
  show ?thesis
    using memory_provider.arena_allocate_Inl(2,5) [OF assms(1) h assms(5)] memory_provider.storage_error_def [OF assms(1)]
    by (auto split: if_splits)
qed

theorem arena_allocation_errors_witness:
  "\<exists>s'. arena_allocate new_delete_provider 10 3 demo_arena_next = (Inl InvalidArgument, s') \<and> same_chunks (snd demo_arena_next) (snd s')"
proof -
  have p: "\<not> is_power_of_two 3" by (simp add: is_power_of_two_def)
  obtain s' where s': "arena_allocate new_delete_provider 10 3 demo_arena_next = (Inl InvalidArgument, s')"
  proof -
    have "fst (arena_allocate new_delete_provider 10 3 demo_arena_next) = Inl InvalidArgument"
      using p by (simp add: arena_allocate_def Let_def split: prod.splits)
    then show thesis using that by (metis prod.collapse)
  qed
  show ?thesis
    using arena_allocation_errors [OF new_delete.memory_provider_axioms demo_world_ok demo_arena_made demo_arena_run s'] s' by blast
qed

text \<open>
  C29: a constructor that throws without having allocated from the arena, or a destructor
  registration that fails after it, leaves the arena as it was before \<^verbatim>\<open>create\<close> took the storage: the cursor of
  the chunk, the bytes in use and the registered destructors are restored, and the exception reaches the caller.
\<close>

theorem arena_failed_create:
  assumes "memory_provider P live ok" and "ok (w_prov w)" and "arena_make P options w = (Inr ar, w0)"
    and "arena_run P (w0, ar) s H" and "arena_allocate P (at_size T) (at_align T) s = (Inr q, (w1, ar1))"
    and "at_construct T q (w1, ar1) = (c, (w2, ar1))" and "arena_create P T s = (Inl e, (w', ar'))"
  shows "(c = Inl e \<or> c = Inr () \<and> e = BadAlloc \<and> \<not> at_trivial T) \<and>
     (ar_chunks ar' = ar_chunks (snd s) \<or> (\<exists>x. ac_offset x = 0 \<and> ar_chunks ar' = ar_chunks (snd s) @ [x])) \<and>
     as_current_used_bytes (ar_statistics ar') = as_current_used_bytes (ar_statistics (snd s)) \<and>
     ar_destructors ar' = ar_destructors (snd s)"
proof -
  obtain v br where s: "s = (v, br)" by (cases s)
  have h: "arena_holds live ok (live (w_prov w)) s H"
    by (rule memory_provider.arena_run_holds [OF assms(1,4) arena_made(1) [OF assms(1-3)]])
  have lt: "last_top ar1 (insert (type_request T q) H)"
    using memory_provider.arena_allocate_Inr(1) [OF assms(1) h assms(5)] by (simp add: arena_holds_def)
  have rb: "(ar_chunks ar' = ar_chunks br \<or> (\<exists>x. ac_offset x = 0 \<and> ar_chunks ar' = ar_chunks br @ [x])) \<and>
      as_current_used_bytes (ar_statistics ar') = as_current_used_bytes (ar_statistics br) \<and> ar_destructors ar' = ar_destructors br"
    if ar': "ar' = arena_rollback_last q ar1"
    using assms(5) [unfolded s]
  proof (cases rule: arena_allocate_Inr_cases)
    case (scan i A d)
    note sc = scan_chunks_Some [OF scan(2)]
    let ?k = "ar_current_chunk br + i"
    have k: "?k < length (ar_chunks br)" using sc(1) by simp
    have "arena_try_allocate (ar_chunks br ! ?k) (normalized_size (at_size T)) (at_align T) = (Some A, d)" using sc(1,2) by simp
    note t = arena_try_allocate_bytes(4) [OF this]
    have le: "aa_previous_offset A \<le> ac_offset d" using last_top_le [OF lt] k scan(5,10) by simp
    have "ar_chunks ar' = ar_chunks br"
      using ar' scan(3,5,10) k t le by (simp add: arena_rollback_last_def Let_def arena_rewind_def)
    then show ?thesis
      using ar' scan(3,5,8,9,10) by (simp add: arena_rollback_last_def Let_def count_arena_allocation_def)
  next
    case (grow x A d)
    have le: "aa_previous_offset A \<le> ac_offset d" using last_top_le [OF lt] grow(7,12) by simp
    have "ar_chunks ar' = ar_chunks br @ [x]"
      using ar' grow(6,7,12) arena_try_allocate_bytes(4) [OF grow(5)] le by (simp add: arena_rollback_last_def Let_def arena_rewind_def)
    then show ?thesis
      using ar' grow(3,6,7,10,11,12) by (simp add: arena_rollback_last_def Let_def count_arena_allocation_def count_chunk_def)
  qed
  from assms(5-7) show ?thesis
    using rb s by (cases rule: arena_create_cases) auto
qed

definition demo_type :: "sys_heap arena_type" where
  "demo_type = \<lparr>at_size = 10, at_align = 8, at_trivial = False,
     at_construct = (\<lambda>q s. (Inl UserException, s)), at_destroy = (\<lambda>q m. m(q := 0))\<rparr>"

theorem arena_failed_create_witness:
  "\<exists>w' ar'. arena_create new_delete_provider demo_type (demo_arena_world, demo_arena) = (Inl UserException, (w', ar')) \<and>
     as_current_used_bytes (ar_statistics ar') = as_current_used_bytes (ar_statistics demo_arena)"
proof -
  obtain w1 ar1 where n: "demo_arena_next = (w1, ar1)" by (cases demo_arena_next)
  have al: "arena_allocate new_delete_provider (at_size demo_type) (at_align demo_type) (demo_arena_world, demo_arena) = (Inr 4096, (w1, ar1))"
    using demo_arena_alloc n by (simp add: demo_type_def)
  have co: "at_construct demo_type 4096 (w1, ar1) = (Inl UserException, (w1, ar1))" by (simp add: demo_type_def)
  have cr: "arena_create new_delete_provider demo_type (demo_arena_world, demo_arena) =
      (Inl UserException, (w1, arena_rollback_last 4096 ar1))"
    using al co by (simp add: arena_create_def)
  show ?thesis
    using arena_failed_create [OF new_delete.memory_provider_axioms demo_world_ok demo_arena_made arena_start al co cr] cr by auto
qed

text \<open>
  C28: after any run a reset returns, and it has run every registered destructor exactly once,
  in the reverse order of registration, before anything is reused; it leaves no destructor, no byte in
  use and every cursor at the start of its chunk. The loop ends for every list of destructors.
\<close>

theorem arena_reset_destroys:
  assumes "memory_provider P live ok" and "ok (w_prov w)" and "arena_make P options w = (Inr ar, w0)"
    and "arena_run P (w0, ar) (w1, ar1) H" and "arena_reset P (w1, ar1) = (r, (w2, ar2))"
  shows "r = Inr () \<and> w_mem w2 = run_destructors (ar_destructors ar1) (w_mem w1) \<and> ar_destructors ar2 = [] \<and>
     as_destructor_calls (ar_statistics ar2) = as_destructor_calls (ar_statistics ar1) + of_nat (length (ar_destructors ar1)) \<and>
     list_all (\<lambda>c. ac_offset c = 0) (ar_chunks ar2) \<and> ar_current_chunk ar2 = 0 \<and> as_current_used_bytes (ar_statistics ar2) = 0"
proof -
  have h: "arena_holds live ok (live (w_prov w)) (w1, ar1) H"
    by (rule memory_provider.arena_run_holds [OF assms(1,4) arena_made(1) [OF assms(1-3)]])
  note rs = memory_provider.arena_reset_holds(1,3-5) [OF assms(1) h assms(5)]
  have "w_mem w2 = run_destructors (ar_destructors ar1) (w_mem w1) \<and> as_current_used_bytes (ar_statistics ar2) = 0 \<and>
      as_destructor_calls (ar_statistics ar2) = as_destructor_calls (ar_statistics ar1) + of_nat (length (ar_destructors ar1))"
    using assms(5) rs(1)
    by (auto simp: arena_reset_def destroy_registered_all Let_def release_chunks_def split: if_splits list.splits)
  then show ?thesis using rs by blast
qed

text \<open>An object of ten bytes whose destructor leaves a mark in its first byte.\<close>

definition demo_object :: "sys_heap arena_type" where
  "demo_object = \<lparr>at_size = 10, at_align = 8, at_trivial = False,
     at_construct = (\<lambda>q s. (Inr (), s)), at_destroy = (\<lambda>q m. m(q := 9))\<rparr>"

lemma demo_arena_object:
  "\<exists>w1 ar1. arena_run new_delete_provider (demo_arena_world, demo_arena) (w1, ar1) {(4096, 10, 8)} \<and>
     ar_destructors ar1 = [\<lparr>dr_object = 4096, dr_destructor = (\<lambda>q m. m(q := 9))\<rparr>]"
proof -
  obtain w1 ar1 where n: "demo_arena_next = (w1, ar1)" by (cases demo_arena_next)
  have al: "arena_allocate new_delete_provider (at_size demo_object) (at_align demo_object) (demo_arena_world, demo_arena) = (Inr 4096, (w1, ar1))"
    using demo_arena_alloc n by (simp add: demo_object_def)
  have co: "at_construct demo_object 4096 (w1, ar1) = (Inr (), (w1, ar1))" by (simp add: demo_object_def)
  have f: "ar_destructors ar1 = []" "w_meta w1 = (\<lambda>_. True)"
    using al by (auto simp: demo_object_def arena_allocate_def is_power_of_two_def Let_def demo_arena_chunk arena_try_allocate_def std_align_def
        normalized_size_def arena_record_allocation_def demo_arena_world_def demo_arena_eval)
  then obtain w2 ar2 where cr: "arena_create new_delete_provider demo_object (demo_arena_world, demo_arena) = (Inr 4096, (w2, ar2))"
      "ar_destructors ar2 = [\<lparr>dr_object = 4096, dr_destructor = (\<lambda>q m. m(q := 9))\<rparr>]"
    using al by (auto simp: arena_create_def demo_object_def register_destructor_def meta_alloc_def note_object_construction_def)
  have "type_request demo_object 4096 = (4096, 10, 8)" by (simp add: demo_object_def)
  then have "arena_run new_delete_provider (demo_arena_world, demo_arena) (w2, ar2) {(4096, 10, 8)}"
    using arena_use [OF arena_start steps_create [OF steps_none al co steps_none cr(1)]] by simp
  then show ?thesis using cr(2) by blast
qed

theorem arena_reset_destroys_witness:
  "\<exists>w1 ar1 w2 ar2. arena_reset new_delete_provider (w1, ar1) = (Inr (), (w2, ar2)) \<and> length (ar_destructors ar1) = 1 \<and>
     w_mem w2 = (w_mem w1)(4096 := 9) \<and> as_destructor_calls (ar_statistics ar2) = as_destructor_calls (ar_statistics ar1) + 1 \<and>
     ar_destructors ar2 = []"
proof -
  obtain w1 ar1 where c: "arena_run new_delete_provider (demo_arena_world, demo_arena) (w1, ar1) {(4096, 10, 8)}"
      "ar_destructors ar1 = [\<lparr>dr_object = 4096, dr_destructor = (\<lambda>q m. m(q := 9))\<rparr>]" using demo_arena_object by blast
  obtain r w2 ar2 where rs: "arena_reset new_delete_provider (w1, ar1) = (r, (w2, ar2))" by (metis prod_cases3)
  note d = arena_reset_destroys [OF new_delete.memory_provider_axioms demo_world_ok demo_arena_made c(1) rs]
  show ?thesis using d rs c(2) by (intro exI [of _ w1] exI [of _ ar1] exI [of _ w2] exI [of _ ar2]) (simp add: run_destructors_def)
qed

text \<open>
  C27: under \<^verbatim>\<open>retain_all_chunks\<close> a sequence of allocations that follows a reset and is repeated after
  the next reset gets the same addresses, in the same order, without a call of the provider and without
  any other allocation of memory.
\<close>

theorem arena_replay:
  assumes "ao_reset_policy (ar_options ar) = RetainAllChunks" and "arena_reset P (w, ar) = (r, s1)"
    and "arena_allocate_all P requests s1 = (Inr qs, s2)" and "arena_reset P s2 = (r', (w3, ar3))"
  shows "\<exists>ar4. arena_allocate_all P requests (w3, ar3) = (Inr qs, (w3, ar4))"
proof -
  obtain w1 ar1 w2 ar2 where s: "s1 = (w1, ar1)" "s2 = (w2, ar2)" by (cases s1, cases s2)
  note r1 = arena_reset_retaining [OF assms(1) assms(2) [unfolded s]]
  note al = assms(3) [unfolded s]
  have pol: "ao_reset_policy (ar_options ar2) = RetainAllChunks"
    using arena_allocate_all_options [OF al] r1(3) assms(1) by simp
  note r2 = arena_reset_retaining [OF pol assms(4) [unfolded s]]
  obtain ys where ys: "map arena_chunk_reset (ar_chunks ar2) = map arena_chunk_reset (ar_chunks ar1) @ ys"
    using arena_allocate_all_extends [OF al] by blast
  have id: "map arena_chunk_reset (ar_chunks ar1) = ar_chunks ar1" unfolding r1(1) by (simp add: arena_chunk_reset_def)
  have "map arena_chunk_reset (drop (length (ar_chunks ar1)) (ar_chunks ar2)) = ys"
    using ys by (simp add: drop_map [symmetric])
  then have "ar_chunks ar3 = ar_chunks ar1 @ map arena_chunk_reset (drop (length (ar_chunks ar1)) (ar_chunks ar2))"
    using r2(1) ys id by simp
  from arena_allocate_all_replay [OF al _ _ this, of w3] show ?thesis using r1(2) r2(2) by auto
qed

theorem arena_replay_witness:
  "\<exists>w3 ar3 ar4. arena_allocate_all new_delete_provider [(10, 8), (10, 8)] (w3, ar3) = (Inr [4096, 4112], (w3, ar4))"
proof -
  have p: "is_power_of_two 8" by (simp add: is_power_of_two_def)
  obtain r w1 ar1 where r1: "arena_reset new_delete_provider (demo_arena_world, demo_arena) = (r, (w1, ar1))" by (metis prod_cases3)
  have pol: "ao_reset_policy (ar_options demo_arena) = RetainAllChunks" by (simp add: demo_arena_chunk demo_arena_options_def)
  note e = arena_reset_retaining(1,2) [OF pol r1, unfolded demo_arena_chunk]
  obtain s2 where al: "arena_allocate_all new_delete_provider [(10, 8), (10, 8)] (w1, ar1) = (Inr [4096, 4112], s2)"
    using e p by (simp add: arena_allocate_def Let_def arena_try_allocate_def std_align_def normalized_size_def
        arena_chunk_reset_def arena_record_allocation_def)
  obtain r' w3 ar3 where r3: "arena_reset new_delete_provider s2 = (r', (w3, ar3))" by (metis prod_cases3)
  from arena_replay [OF pol r1 al r3] show ?thesis by blast
qed

text \<open>
  C30: after every run the counters agree with the chunks (modulo \<^verbatim>\<open>size_t\<close>): the bytes in use
  are the sum of the cursors, the reserved bytes the sum of the capacities, the chunk count is the number of
  chunks and equals chunk allocations minus releases, and the requests are successes plus failures.
\<close>

theorem arena_statistics_exact:
  assumes "memory_provider P live ok" and "ok (w_prov w)" and "arena_make P options w = (Inr ar, w0)"
    and "arena_run P (w0, ar) s H"
  shows "arena_counts (snd s)"
  using memory_provider.arena_run_counts [OF assms(1,4)] arena_made(1,2) [OF assms(1-3)] by simp

theorem arena_statistics_exact_witness: "arena_counts (snd demo_arena_next)"
  by (rule arena_statistics_exact [OF new_delete.memory_provider_axioms demo_world_ok demo_arena_made demo_arena_run])

text \<open>
  For validated options the next chunk size is the configured size in fixed mode, and otherwise the
  product with the factor, capped at the maximum and saturated at the largest \<^verbatim>\<open>size_t\<close>: it never wraps.
\<close>

theorem arena_growth:
  assumes "validate_arena_options requested = Inr options"
  defines "g \<equiv> ao_growth options"
  shows "unat (calculate_next_chunk_size options current) =
     (if agp_mode g = ArenaFixed then unat (ao_initial_chunk_size options)
      else min (unat current * unat (agp_factor g))
             (if agp_maximum_chunk_size g = 0 then 2 ^ 64 - 1 else unat (agp_maximum_chunk_size g)))"
proof -
  let ?mode = "if agp_mode g = ArenaFixed then GrowthFixed else GrowthGeometric"
  let ?cm = "\<lparr>cmo_block_size = 0, cmo_initial_blocks = ao_initial_chunk_size options, cmo_alignment = 0,
      cmo_growth = \<lparr>gp_mode = ?mode, gp_factor = agp_factor g, gp_maximum_blocks_per_chunk = agp_maximum_chunk_size g\<rparr>,
      cmo_spare_empty_chunks = 0\<rparr>"
  have "calculate_next_chunk_size options current = calculate_next_growth ?cm current"
    by (simp add: calculate_next_chunk_size_def calculate_next_growth_def g_def Let_def)
  moreover have "options_ok ?cm"
    using assms(1) by (cases "agp_mode g") (auto simp: options_ok_def validate_arena_options_def g_def Let_def not_less split: if_splits)
  ultimately show ?thesis
    using calculate_next_growth_nat [of ?cm current] by (simp add: next_growth_nat_def Let_def)
qed

theorem arena_growth_witness:
  "unat (calculate_next_chunk_size demo_arena_options (2 ^ 63)) = 2 ^ 64 - 1"
proof -
  have "validate_arena_options demo_arena_options = Inr demo_arena_options"
    by (simp add: validate_arena_options_def demo_arena_options_def is_power_of_two_def max_align_def)
  from arena_growth [OF this, of "2 ^ 63"] show ?thesis by (simp add: demo_arena_options_def)
qed

end
