(* ===== verification/Pool_Resource.thy ===== *)
theory Pool_Resource
  imports Segregated_Properties
begin

text \<open>
  \<^verbatim>\<open>src/pool_memory_resource.cpp\<close>: the adapter that makes a \<^verbatim>\<open>SegregatedAllocator\<close> a
  \<^verbatim>\<open>std::pmr::memory_resource\<close> over an upstream resource. The upstream resource is not part of the
  library: it is a record of its two operations, and what the standard asks of it (storage that is
  non-null, aligned and disjoint from what it has handed out, and \<^verbatim>\<open>deallocate\<close> with the values of the matching
  \<^verbatim>\<open>allocate\<close>) is the contract \<open>memory_provider\<close> of the provider that wraps it.
\<close>

section \<open>The resource\<close>

record 'p memory_resource =
  mr_allocate :: "size_t \<Rightarrow> size_t \<Rightarrow> 'p \<Rightarrow> (addr, 'p) outcome"
  mr_deallocate :: "addr \<Rightarrow> size_t \<Rightarrow> size_t \<Rightarrow> 'p \<Rightarrow> 'p"

text \<open>A null pointer to a resource is \<open>None\<close>.\<close>

definition validate_upstream :: "'p memory_resource option \<Rightarrow> 'p memory_resource result" where
  "validate_upstream upstream = (case upstream of None \<Rightarrow> Inl InvalidArgument | Some R \<Rightarrow> Inr R)"

definition pmr_upstream_provider :: "'p memory_resource \<Rightarrow> 'p provider" where
  "pmr_upstream_provider upstream =
     \<lparr>prov_allocate = (\<lambda>bytes al. mr_allocate upstream bytes al),
      prov_deallocate = (\<lambda>memory bytes al. mr_deallocate upstream memory bytes al)\<rparr>"

record 'p pool_resource =
  pr_upstream :: "'p memory_resource"
  pr_provider :: "'p provider"
  pr_allocator :: segregated

text \<open>\<^verbatim>\<open>make_unique<Impl>\<close> and \<^verbatim>\<open>make_shared<PmrUpstreamProvider>\<close> allocate from the global heap.\<close>

definition pool_resource_create ::
  "segregated_options \<Rightarrow> 'p memory_resource option \<Rightarrow> 'p world \<Rightarrow> ('p pool_resource, 'p world) outcome" where
  "pool_resource_create options upstream_resource w =
     (case meta_alloc w of (ok_impl, w1) \<Rightarrow>
        if \<not> ok_impl then (Inl BadAlloc, w1)
        else case validate_upstream upstream_resource of
          Inl e \<Rightarrow> (Inl e, w1)
        | Inr upstream \<Rightarrow>
            (case meta_alloc w1 of (ok_provider, w2) \<Rightarrow>
               if \<not> ok_provider then (Inl BadAlloc, w2)
               else case validate_upstream (Some upstream) of
                 Inl e \<Rightarrow> (Inl e, w2)
               | Inr checked \<Rightarrow>
                   let provider = pmr_upstream_provider checked
                   in case segregated_create provider options w2 of
                        (Inl e, w3) \<Rightarrow> (Inl e, w3)
                      | (Inr allocator, w3) \<Rightarrow>
                          (Inr \<lparr>pr_upstream = upstream, pr_provider = provider, pr_allocator = allocator\<rparr>, w3)))"

definition pool_resource_destroy :: "'p pool_resource \<Rightarrow> 'p world \<Rightarrow> 'p world" where
  "pool_resource_destroy pr w = segregated_destroy (pr_provider pr) (pr_allocator pr) w"

definition pmr_do_allocate ::
  "size_t \<Rightarrow> size_t \<Rightarrow> 'p world \<times> 'p pool_resource \<Rightarrow> (addr, 'p world \<times> 'p pool_resource) outcome" where
  "pmr_do_allocate bytes al s =
     (case s of (w, pr) \<Rightarrow>
        case segregated_allocate (pr_provider pr) bytes al (w, pr_allocator pr) of
          (r, (w', sa)) \<Rightarrow> (r, (w', pr\<lparr>pr_allocator := sa\<rparr>)))"

definition pmr_do_deallocate ::
  "addr \<Rightarrow> size_t \<Rightarrow> size_t \<Rightarrow> 'p world \<times> 'p pool_resource \<Rightarrow> (unit, 'p world \<times> 'p pool_resource) outcome" where
  "pmr_do_deallocate pointer bytes al s =
     (case s of (w, pr) \<Rightarrow>
        case segregated_deallocate_sized (pr_provider pr) pointer bytes al (w, pr_allocator pr) of
          (r, (w', sa)) \<Rightarrow> (r, (w', pr\<lparr>pr_allocator := sa\<rparr>)))"

text \<open>A resource object is identified by its address.\<close>

definition pmr_do_is_equal :: "addr \<Rightarrow> addr \<Rightarrow> bool" where
  "pmr_do_is_equal this other \<longleftrightarrow> this = other"

definition resource_poke :: "addr \<Rightarrow> byte \<Rightarrow> 'p world \<times> 'p pool_resource \<Rightarrow> 'p world \<times> 'p pool_resource" where
  "resource_poke x b s = (case s of (w, pr) \<Rightarrow> (fst (segregated_poke x b (w, pr_allocator pr)), pr))"

section \<open>The contract\<close>

definition resource_holds ::
  "('p \<Rightarrow> grant set) \<Rightarrow> ('p \<Rightarrow> bool) \<Rightarrow> 'p provider \<Rightarrow> grant set \<Rightarrow> 'p world \<times> 'p pool_resource \<Rightarrow> request set \<Rightarrow> bool" where
  "resource_holds live ok P L s H \<longleftrightarrow>
     pr_provider (snd s) = P \<and> segregated_holds live ok L (fst s, pr_allocator (snd s)) H"

context memory_provider begin

sublocale resource: sized_source pmr_do_allocate pmr_do_deallocate resource_poke "resource_holds live ok P L" for L
proof (unfold_locales, goal_cases)
  case (1 s H n a q s')
  obtain w pr where s: "s = (w, pr)" by (cases s)
  obtain r w' sa where al: "segregated_allocate P n a (w, pr_allocator pr) = (r, (w', sa))" by (metis prod_cases3)
  have h: "segregated_holds live ok L (w, pr_allocator pr) H" "pr_provider pr = P" using 1 s by (simp_all add: resource_holds_def)
  have e: "r = Inr q" "s' = (w', pr\<lparr>pr_allocator := sa\<rparr>)" using 1 s al h(2) by (auto simp: pmr_do_allocate_def)
  show ?case using segregating.alloc_fresh [OF h(1) al [unfolded e(1)]] e h(2) by (simp add: resource_holds_def)
next
  case (2 s H n a e s')
  obtain w pr where s: "s = (w, pr)" by (cases s)
  obtain r w' sa where al: "segregated_allocate P n a (w, pr_allocator pr) = (r, (w', sa))" by (metis prod_cases3)
  have h: "segregated_holds live ok L (w, pr_allocator pr) H" "pr_provider pr = P" using 2 s by (simp_all add: resource_holds_def)
  have e: "r = Inl e" "s' = (w', pr\<lparr>pr_allocator := sa\<rparr>)" using 2 s al h(2) by (auto simp: pmr_do_allocate_def)
  show ?case using segregating.alloc_throws [OF h(1) al [unfolded e(1)]] e h(2) by (simp add: resource_holds_def)
next
  case (3 s H q n a)
  obtain w pr where s: "s = (w, pr)" by (cases s)
  have h: "segregated_holds live ok L (w, pr_allocator pr) H" "pr_provider pr = P" using 3 s by (simp_all add: resource_holds_def)
  obtain w' sa where "segregated_deallocate_sized P q n a (w, pr_allocator pr) = (Inr (), (w', sa))"
    "segregated_holds live ok L (w', sa) (H - {(q, n, a)})"
    using segregating.free_accepts [OF h(1) 3(2)] by auto
  then show ?case using h(2) s by (simp add: pmr_do_deallocate_def resource_holds_def)
next
  case (4 s H q n a x b)
  obtain w pr where s: "s = (w, pr)" by (cases s)
  have h: "segregated_holds live ok L (w, pr_allocator pr) H" "pr_provider pr = P" using 4 s by (simp_all add: resource_holds_def)
  have "segregated_poke x b (w, pr_allocator pr) = (fst (segregated_poke x b (w, pr_allocator pr)), pr_allocator pr)"
    by (simp add: segregated_poke_def)
  then show ?case using segregating.poke_keeps [OF h(1) 4(2,3)] h(2) s by (simp add: resource_holds_def resource_poke_def)
next
  case (5 s H q n a q' n' a')
  then have "segregated_holds live ok L (fst s, pr_allocator (snd s)) H" by (simp add: resource_holds_def)
  from segregating.holds_apart [OF this 5(2-4)] show ?case .
qed

lemmas resource_alloc_fresh = resource.alloc_fresh
lemmas resource_alloc_throws = resource.alloc_throws
lemmas resource_run_holds = resource.sized_run_holds
lemmas resource_run_apart = resource.sized_run_apart
lemmas resource_run_free = resource.sized_run_free

end

section \<open>Properties\<close>

lemma pool_resource_create_cases:
  assumes "pool_resource_create options upstream w = (r, w')"
  obtains (fails) e where "r = Inl e" "e = BadAlloc \<or> e = InvalidArgument \<and> upstream = None" "w_prov w' = w_prov w"
  | (throws) R w2 e where "upstream = Some R" "w_prov w2 = w_prov w" "segregated_create (pmr_upstream_provider R) options w2 = (Inl e, w')"
      "r = Inl e"
  | (made) R w2 sa where "upstream = Some R" "w_prov w2 = w_prov w" "segregated_create (pmr_upstream_provider R) options w2 = (Inr sa, w')"
      "r = Inr \<lparr>pr_upstream = R, pr_provider = pmr_upstream_provider R, pr_allocator = sa\<rparr>"
proof -
  obtain b1 w1 where m1: "meta_alloc w = (b1, w1)" by (cases "meta_alloc w")
  obtain b2 w2 where m2: "meta_alloc w1 = (b2, w2)" by (cases "meta_alloc w1")
  have f: "w_prov w1 = w_prov w" "w_prov w2 = w_prov w" using meta_alloc_world [OF m1] meta_alloc_world [OF m2] by simp_all
  show thesis
  proof (cases "b1 \<and> b2 \<and> upstream \<noteq> None")
    case False
    then show thesis
      using assms m1 m2 f fails by (auto simp: pool_resource_create_def validate_upstream_def split: if_splits option.splits)
  next
    case True
    then obtain R where R: "upstream = Some R" by blast
    obtain x w3 where sc: "segregated_create (pmr_upstream_provider R) options w2 = (x, w3)" by fastforce
    show thesis
      using assms m1 m2 True R sc f throws [OF R f(2)] made [OF R f(2)]
      by (cases x) (auto simp: pool_resource_create_def validate_upstream_def Let_def)
  qed
qed

text \<open>
  C31: a \<^verbatim>\<open>PoolMemoryResource\<close> over an upstream resource that keeps the contract of \<^verbatim>\<open>memory_resource\<close> keeps it
  itself: after any run of allocations, deallocations with the allocated size and alignment and writes into
  held storage, what is held is non-null, aligned, disjoint and is taken back, an allocation returns a block that is not held or throws, and
  destruction returns to the upstream resource exactly what was taken from it, whether or not anything is still held.
\<close>

theorem pmr_contract:
  assumes "memory_provider (pmr_upstream_provider R) live ok" and "ok (w_prov w)"
    and "pool_resource_create options (Some R) w = (Inr pr, w0)"
    and "sized_run pmr_do_allocate pmr_do_deallocate resource_poke (w0, pr) (w1, pr1) H"
  shows "live (w_prov (pool_resource_destroy pr1 w1)) = live (w_prov w) \<and>
     (\<forall>q n a. (q, n, a) \<in> H \<longrightarrow> q \<noteq> 0 \<and> unat a dvd unat q \<and>
        (\<forall>q' n' a'. (q', n', a') \<in> H \<longrightarrow> (q', n', a') \<noteq> (q, n, a) \<longrightarrow> extent q n \<inter> extent q' n' = {}) \<and>
        (\<exists>s'. pmr_do_deallocate q n a (w1, pr1) = (Inr (), s'))) \<and>
     (\<forall>n a. case pmr_do_allocate n a (w1, pr1) of
        (Inr q, _) \<Rightarrow> q \<notin> fst ` H
      | (Inl e, _) \<Rightarrow> e \<noteq> UndefinedBehaviour \<and> e \<noteq> Terminate)"
proof -
  note p = assms(1)
  from assms(3) obtain w2 sa where c: "w_prov w2 = w_prov w" "segregated_create (pmr_upstream_provider R) options w2 = (Inr sa, w0)"
      "pr = \<lparr>pr_upstream = R, pr_provider = pmr_upstream_provider R, pr_allocator = sa\<rparr>"
    by (cases rule: pool_resource_create_cases) auto
  have "ok (w_prov w2)" using assms(2) c(1) by simp
  note st = segregated_started(1) [OF p this c(2)]
  have h0: "resource_holds live ok (pmr_upstream_provider R) (live (w_prov w)) (w0, pr) {}"
    using st c by (simp add: resource_holds_def)
  note h = memory_provider.resource_run_holds [OF p assms(4) h0]
  obtain Fss where inv: "segregated_inv live ok (live (w_prov w)) (w1, pr_allocator pr1) Fss"
    and sv: "\<And>x. x \<in> H \<Longrightarrow> served (pr_allocator pr1) Fss x" and q: "pr_provider pr1 = pmr_upstream_provider R"
    using h by (auto simp: resource_holds_def segregated_holds_def)
  have "live (w_prov (pool_resource_destroy pr1 w1)) = live (w_prov w)"
    using memory_provider.segregated_destroy_inv(2) [OF p inv] q by (simp add: pool_resource_destroy_def)
  moreover have "extent q n \<inter> extent q' n' = {}" if "(q, n, a) \<in> H" "(q', n', a') \<in> H" "(q', n', a') \<noteq> (q, n, a)" for q n a q' n' a'
    using memory_provider.resource_run_apart [OF p assms(4) h0 that(1,2)] that(3) by blast
  moreover have "case pmr_do_allocate n a (w1, pr1) of (Inr q, _) \<Rightarrow> q \<notin> fst ` H | (Inl e, _) \<Rightarrow> e \<noteq> UndefinedBehaviour \<and> e \<noteq> Terminate" for n a
  proof -
    obtain r s' where al: "pmr_do_allocate n a (w1, pr1) = (r, s')" by (cases "pmr_do_allocate n a (w1, pr1)")
    show ?thesis
      using memory_provider.resource_alloc_fresh [OF p h] memory_provider.resource_alloc_throws [OF p h] al by (cases r) auto
  qed
  ultimately show ?thesis
    using memory_provider.resource_run_free [OF p assms(4) h0] memory_provider.served_facts [OF p inv sv] by blast
qed

definition new_delete_resource :: "sys_heap memory_resource" where
  "new_delete_resource = \<lparr>mr_allocate = new_delete_allocate, mr_deallocate = new_delete_deallocate\<rparr>"

lemma new_delete_upstream: "pmr_upstream_provider new_delete_resource = new_delete_provider"
  by (simp add: pmr_upstream_provider_def new_delete_resource_def new_delete_provider_def)

definition demo_pmr :: "sys_heap pool_resource" where
  "demo_pmr = projr (fst (pool_resource_create demo_sg_options (Some new_delete_resource) demo_world))"

definition demo_pmr_world :: "sys_heap world" where
  "demo_pmr_world = snd (pool_resource_create demo_sg_options (Some new_delete_resource) demo_world)"

lemma demo_pmr_created:
  "pool_resource_create demo_sg_options (Some new_delete_resource) demo_world = (Inr demo_pmr, demo_pmr_world)"
proof -
  have "\<not> isl (fst (pool_resource_create demo_sg_options (Some new_delete_resource) demo_world))"
    by (simp add: pool_resource_create_def validate_upstream_def new_delete_upstream demo_sg_eval split: prod.splits)
  then show ?thesis
    by (cases "pool_resource_create demo_sg_options (Some new_delete_resource) demo_world")
      (auto simp: demo_pmr_def demo_pmr_world_def)
qed

lemma demo_pmr_chunk:
  "pr_provider demo_pmr = new_delete_provider" "sa_selector (pr_allocator demo_pmr) = [16]"
  "\<exists>cp c. sa_pools (pr_allocator demo_pmr) = [cp] \<and> cm_chunks (cp_manager cp) = [c] \<and> mc_free_blocks c = 1 \<and>
     mc_free_head c = 4096 \<and> mc_storage c = 4096 \<and> mc_block_stride c = 16 \<and> mc_states c = [0]"
  by (simp_all add: demo_pmr_def pool_resource_create_def validate_upstream_def new_delete_upstream demo_sg_eval
      push_free_def block_at_def split: prod.splits)

lemma demo_pmr_alloc: "\<exists>s. pmr_do_allocate 10 8 (demo_pmr_world, demo_pmr) = (Inr 4096, s)"
proof -
  obtain cp c where "sa_pools (pr_allocator demo_pmr) = [cp]" "cm_chunks (cp_manager cp) = [c]" "mc_free_blocks c = 1"
     "mc_free_head c = 4096" "mc_storage c = 4096" "mc_block_stride c = 16" "mc_states c = [0]" using demo_pmr_chunk(3) by blast
  then show ?thesis
    by (simp add: pmr_do_allocate_def demo_pmr_chunk(1,2) segregated_allocate_def demo_sg_select allocate_pooled_def
        chunk_pool_allocate_def manager_try_allocate_def chunk_allocate_def chunk_block_index_def)
qed

theorem pmr_contract_witness:
  "\<exists>w1 pr1. (\<exists>s'. pmr_do_deallocate 4096 10 8 (w1, pr1) = (Inr (), s')) \<and>
     new_delete_live (w_prov (pool_resource_destroy pr1 w1)) = new_delete_live (w_prov demo_world)"
proof -
  obtain w1 pr1 where al: "pmr_do_allocate 10 8 (demo_pmr_world, demo_pmr) = (Inr 4096, (w1, pr1))" using demo_pmr_alloc by auto
  have run: "sized_run pmr_do_allocate pmr_do_deallocate resource_poke (demo_pmr_world, demo_pmr) (w1, pr1) {(4096, 10, 8)}"
    by (rule sized_alloc [where H = "{}"]) (rule sized_start, rule al)
  have "memory_provider (pmr_upstream_provider new_delete_resource) new_delete_live sys_ok"
    unfolding new_delete_upstream by (rule new_delete.memory_provider_axioms)
  note pc = pmr_contract [OF this demo_world_ok demo_pmr_created run]
  have "\<exists>s'. pmr_do_deallocate 4096 10 8 (w1, pr1) = (Inr (), s')" by (rule pc [THEN conjunct2, THEN conjunct1, rule_format, THEN conjunct2,
        THEN conjunct2, THEN conjunct2]) simp
  then show ?thesis using pc [THEN conjunct1] by (intro exI [of _ w1] exI [of _ pr1]) simp
qed

text \<open>
  A null upstream resource is rejected with \<^verbatim>\<open>invalid_argument\<close> (unless memory for the implementation
  runs out first), and no construction that throws leaves anything allocated from the upstream resource.
\<close>

theorem pmr_construction_errors:
  assumes "\<And>R. upstream = Some R \<Longrightarrow> memory_provider (pmr_upstream_provider R) live ok" and "ok (w_prov w)"
    and "pool_resource_create options upstream w = (Inl e, w')"
  shows "live (w_prov w') = live (w_prov w) \<and> (upstream = None \<longrightarrow> e = InvalidArgument \<or> e = BadAlloc) \<and>
     e \<noteq> UndefinedBehaviour \<and> e \<noteq> Terminate"
  using assms(3)
proof (cases rule: pool_resource_create_cases)
  case (fails e')
  then show ?thesis by auto
next
  case (throws R w2 e')
  have "ok (w_prov w2)" using throws(2) assms(2) by simp
  from memory_provider.segregated_create_inv [OF assms(1) [OF throws(1)] this throws(3)] show ?thesis
    using throws(1,2,4) by simp
next
  case (made R w2 sa)
  then show ?thesis by simp
qed

theorem pmr_construction_errors_witness:
  "\<exists>w'. pool_resource_create demo_sg_options None demo_world = (Inl InvalidArgument, w') \<and>
     new_delete_live (w_prov w') = new_delete_live (w_prov demo_world)"
proof -
  obtain w' where c: "pool_resource_create demo_sg_options None demo_world = (Inl InvalidArgument, w')"
    by (simp add: pool_resource_create_def validate_upstream_def meta_alloc_def demo_world_def)
  show ?thesis
    using pmr_construction_errors [where upstream = None and live = new_delete_live and ok = sys_ok, OF _ demo_world_ok c] c by simp
qed

end
