(* ===== verification/Synchronized_Allocator.thy ===== *)
theory Synchronized_Allocator
  imports Segregated_Properties
begin

text \<open>
  \<^verbatim>\<open>include/memory_pool/synchronized_allocator.hpp\<close>: every member function locks one mutex, calls the
  unsynchronized allocator and unlocks on return or exception. Threads interleave between
  acquiring the lock, reading the shared allocator, writing it back and releasing the lock; a call that reads an
  old state and writes it back later would lose the updates in between, so that the step relation
  shows a race if the lock does not prevent it.
\<close>

section \<open>Calls\<close>

datatype sync_call =
    SyncAllocate size_t size_t
  | SyncDeallocate addr
  | SyncDeallocateSized addr size_t size_t
  | SyncOwns addr
  | SyncOwningSizeClass addr
  | SyncSizeClasses
  | SyncStatistics

datatype sync_result =
    SyncPointer addr
  | SyncUnit
  | SyncBool bool
  | SyncClass "size_t option"
  | SyncClasses "size_t list"
  | SyncSnapshot segregated_statistics
  | SyncThrow exn

definition sync_create ::
  "'p provider \<Rightarrow> segregated_options \<Rightarrow> 'p world \<Rightarrow> (segregated, 'p world) outcome" where
  "sync_create P options w = segregated_create P options w"

text \<open>What a member function does while it holds the lock.\<close>

fun sync_body :: "'p provider \<Rightarrow> sync_call \<Rightarrow> 'p world \<times> segregated \<Rightarrow> sync_result \<times> 'p world \<times> segregated" where
  "sync_body P (SyncAllocate sz al) s =
     (case segregated_allocate P sz al s of (Inl e, s') \<Rightarrow> (SyncThrow e, s') | (Inr q, s') \<Rightarrow> (SyncPointer q, s'))"
| "sync_body P (SyncDeallocate pointer) s =
     (case segregated_deallocate P pointer s of (Inl e, s') \<Rightarrow> (SyncThrow e, s') | (Inr _, s') \<Rightarrow> (SyncUnit, s'))"
| "sync_body P (SyncDeallocateSized pointer sz al) s =
     (case segregated_deallocate_sized P pointer sz al s of
        (Inl e, s') \<Rightarrow> (SyncThrow e, s') | (Inr _, s') \<Rightarrow> (SyncUnit, s'))"
| "sync_body P (SyncOwns pointer) s = (SyncBool (segregated_owns (snd s) pointer), s)"
| "sync_body P (SyncOwningSizeClass pointer) s =
     (case owning_size_class (snd s) pointer of Inl e \<Rightarrow> (SyncThrow e, s) | Inr c \<Rightarrow> (SyncClass c, s))"
| "sync_body P SyncSizeClasses s = (SyncClasses (sa_selector (snd s)), s)"
| "sync_body P SyncStatistics s = (SyncSnapshot (sa_statistics (snd s)), s)"

section \<open>Threads\<close>

datatype 'p sync_status =
    SIdle
  | SWaiting sync_call
  | SEntered sync_call
  | SRunning sync_call "'p world \<times> segregated"
  | SFinished sync_call sync_result

type_synonym thread = nat

record 'p sync_config =
  sc_mutex :: "thread option"
  sc_allocator :: "'p world \<times> segregated"
  sc_threads :: "thread \<Rightarrow> 'p sync_status"
  sc_log :: "(thread \<times> sync_call \<times> sync_result) list"

text \<open>\<open>sc_log\<close> records the calls in the order in which they write the shared state; no step reads it.\<close>

definition sync_start :: "'p world \<times> segregated \<Rightarrow> 'p sync_config" where
  "sync_start s0 = \<lparr>sc_mutex = None, sc_allocator = s0, sc_threads = (\<lambda>_. SIdle), sc_log = []\<rparr>"

abbreviation set_thread :: "thread \<Rightarrow> 'p sync_status \<Rightarrow> 'p sync_config \<Rightarrow> 'p sync_config" where
  "set_thread t x c \<equiv> c\<lparr>sc_threads := (sc_threads c)(t := x)\<rparr>"

text \<open>The steps of a thread inside a member function.\<close>

inductive sync_internal :: "'p provider \<Rightarrow> thread \<Rightarrow> 'p sync_config \<Rightarrow> 'p sync_config \<Rightarrow> bool" for P t where
  sync_lock: "sc_threads c t = SWaiting k \<Longrightarrow> sc_mutex c = None \<Longrightarrow>
    sync_internal P t c (set_thread t (SEntered k) (c\<lparr>sc_mutex := Some t\<rparr>))"
| sync_read: "sc_threads c t = SEntered k \<Longrightarrow>
    sync_internal P t c (set_thread t (SRunning k (sc_allocator c)) c)"
| sync_write: "sc_threads c t = SRunning k s \<Longrightarrow> sync_body P k s = (r, s') \<Longrightarrow>
    sync_internal P t c
      (set_thread t (SFinished k r) (c\<lparr>sc_allocator := s', sc_log := sc_log c @ [(t, k, r)]\<rparr>))"
| sync_unlock: "sc_threads c t = SFinished k r \<Longrightarrow>
    sync_internal P t c (set_thread t SIdle (c\<lparr>sc_mutex := None\<rparr>))"

inductive_cases sync_internalE: "sync_internal P t c c'"

inductive sync_reach :: "'p provider \<Rightarrow> 'p world \<times> segregated \<Rightarrow> 'p sync_config \<Rightarrow> bool" for P s0 where
  sync_init: "sync_reach P s0 (sync_start s0)"
| sync_enter: "sync_reach P s0 c \<Longrightarrow> sc_threads c t = SIdle \<Longrightarrow> sync_reach P s0 (set_thread t (SWaiting k) c)"
| sync_move: "sync_reach P s0 c \<Longrightarrow> sync_internal P t c c' \<Longrightarrow> sync_reach P s0 c'"

section \<open>Mutual exclusion and linearization\<close>

fun critical :: "'p sync_status \<Rightarrow> bool" where
  "critical (SEntered _) = True"
| "critical (SRunning _ _) = True"
| "critical (SFinished _ _) = True"
| "critical _ = False"

fun sync_apply ::
  "'p provider \<Rightarrow> sync_call list \<Rightarrow> 'p world \<times> segregated \<Rightarrow> sync_result list \<times> 'p world \<times> segregated" where
  "sync_apply P [] s = ([], s)"
| "sync_apply P (k # ks) s =
     (case sync_body P k s of (r, s') \<Rightarrow> case sync_apply P ks s' of (rs, s'') \<Rightarrow> (r # rs, s''))"

lemma sync_apply_snoc:
  "sync_apply P (ks @ [k]) s =
     (case sync_apply P ks s of (rs, s') \<Rightarrow> case sync_body P k s' of (r, s'') \<Rightarrow> (rs @ [r], s''))"
  by (induction ks arbitrary: s) (auto split: prod.splits)

abbreviation log_calls :: "(thread \<times> sync_call \<times> sync_result) list \<Rightarrow> sync_call list" where
  "log_calls xs \<equiv> map (\<lambda>x. fst (snd x)) xs"

abbreviation log_results :: "(thread \<times> sync_call \<times> sync_result) list \<Rightarrow> sync_result list" where
  "log_results xs \<equiv> map (\<lambda>x. snd (snd x)) xs"

definition sync_ok :: "'p provider \<Rightarrow> 'p world \<times> segregated \<Rightarrow> 'p sync_config \<Rightarrow> bool" where
  "sync_ok P s0 c \<longleftrightarrow>
     (\<forall>t. critical (sc_threads c t) \<longleftrightarrow> sc_mutex c = Some t) \<and>
     (\<forall>t k s. sc_threads c t = SRunning k s \<longrightarrow> s = sc_allocator c) \<and>
     (\<forall>t k r. sc_threads c t = SFinished k r \<longrightarrow> (\<exists>l. sc_log c = l @ [(t, k, r)])) \<and>
     sync_apply P (log_calls (sc_log c)) s0 = (log_results (sc_log c), sc_allocator c) \<and>
     finite {t. sc_threads c t \<noteq> SIdle}"

lemma sync_okD:
  assumes "sync_ok P s0 c"
  shows "\<And>t. critical (sc_threads c t) \<longleftrightarrow> sc_mutex c = Some t"
    and "\<And>t k s. sc_threads c t = SRunning k s \<Longrightarrow> s = sc_allocator c"
    and "\<And>t k r. sc_threads c t = SFinished k r \<Longrightarrow> \<exists>l. sc_log c = l @ [(t, k, r)]"
    and "sync_apply P (log_calls (sc_log c)) s0 = (log_results (sc_log c), sc_allocator c)"
    and "finite {t. sc_threads c t \<noteq> SIdle}"
  using assms unfolding sync_ok_def by blast+

lemma active_set_thread:
  assumes "finite {t. sc_threads c t \<noteq> SIdle}"
  shows "finite {t'. ((sc_threads c)(t := x)) t' \<noteq> SIdle}"
  by (rule finite_subset [OF _ finite.insertI [OF assms, of t]]) auto

lemma sync_ok_internal:
  assumes ok: "sync_ok P s0 c" and st: "sync_internal P t c c'"
  shows "sync_ok P s0 c'"
proof -
  note d = sync_okD [OF ok]
  have others: "\<not> critical (sc_threads c t')" if "critical (sc_threads c t)" "t' \<noteq> t" for t'
    using d(1) [of t] d(1) [of t'] that by auto
  from st show ?thesis
  proof cases
    case (sync_lock k)
    have "\<not> critical (sc_threads c t')" for t' using d(1) [of t'] sync_lock(3) by simp
    then have "sc_threads c t' \<noteq> SRunning k' s'" "sc_threads c t' \<noteq> SFinished k' r'" for t' k' s' r' by (metis critical.simps)+
    then show ?thesis
      using d(4) active_set_thread [OF d(5), of t] d(1) sync_lock(1,3) unfolding sync_ok_def by auto
  next
    case (sync_read k)
    have cr: "critical (sc_threads c t)" using sync_read(2) by simp
    then have m: "sc_mutex c = Some t" using d(1) by simp
    have "sc_threads c t' \<noteq> SRunning k' s'" "sc_threads c t' \<noteq> SFinished k' r'" if "t' \<noteq> t" for t' k' s' r'
      using others [OF cr that] by (metis critical.simps)+
    then show ?thesis
      using d(4) active_set_thread [OF d(5), of t] d(1) m sync_read(1) unfolding sync_ok_def by auto
  next
    case (sync_write k s r s')
    have cr: "critical (sc_threads c t)" using sync_write(2) by simp
    then have m: "sc_mutex c = Some t" using d(1) by simp
    have o': "sc_threads c t' \<noteq> SRunning k' u" "sc_threads c t' \<noteq> SFinished k' r'" if "t' \<noteq> t" for t' k' u r'
      using others [OF cr that] by (metis critical.simps)+
    have "s = sc_allocator c" by (rule d(2) [OF sync_write(2)])
    then have "sync_apply P (log_calls (sc_log c @ [(t, k, r)])) s0 = (log_results (sc_log c @ [(t, k, r)]), s')"
      using d(4) sync_write(3) by (simp add: sync_apply_snoc)
    then show ?thesis
      using o' active_set_thread [OF d(5), of t] d(1) m sync_write(1) unfolding sync_ok_def by auto
  next
    case (sync_unlock k r)
    have cr: "critical (sc_threads c t)" using sync_unlock(2) by simp
    then have m: "sc_mutex c = Some t" using d(1) by simp
    have o': "sc_threads c t' \<noteq> SRunning k' u" "sc_threads c t' \<noteq> SFinished k' r'" "\<not> critical (sc_threads c t')"
      if "t' \<noteq> t" for t' k' u r'
      using others [OF cr that] by (metis critical.simps)+
    then show ?thesis
      using d(4) active_set_thread [OF d(5), of t] sync_unlock(1) unfolding sync_ok_def by auto
  qed
qed

lemma sync_reach_ok: "sync_reach P s0 c \<Longrightarrow> sync_ok P s0 c"
proof (induction rule: sync_reach.induct)
  case sync_init
  then show ?case by (simp add: sync_ok_def sync_start_def)
next
  case (sync_enter c t k)
  note d = sync_okD [OF sync_enter.IH]
  have "sc_mutex c \<noteq> Some t" using d(1) [of t] sync_enter.hyps(2) by auto
  then show ?case
    using d(1-4) active_set_thread [OF d(5), of t] unfolding sync_ok_def by auto
next
  case (sync_move c t c')
  then show ?case using sync_ok_internal by blast
qed

section \<open>Progress\<close>

fun remaining :: "'p sync_status \<Rightarrow> nat" where
  "remaining SIdle = 0"
| "remaining (SFinished _ _) = 1"
| "remaining (SRunning _ _) = 2"
| "remaining (SEntered _) = 3"
| "remaining (SWaiting _) = 4"

definition sync_work :: "'p sync_config \<Rightarrow> nat" where
  "sync_work c = (\<Sum>t \<in> {t. sc_threads c t \<noteq> SIdle}. remaining (sc_threads c t))"

lemma remaining_0_iff [simp]: "remaining x = 0 \<longleftrightarrow> x = SIdle"
  by (cases x) auto

lemma sync_work_over:
  assumes "finite A" and "{t. sc_threads c t \<noteq> SIdle} \<subseteq> A"
  shows "sync_work c = (\<Sum>t \<in> A. remaining (sc_threads c t))"
  unfolding sync_work_def using assms by (intro sum.mono_neutral_left) auto

lemma sync_internal_decreases:
  assumes ok: "sync_ok P s0 c" and st: "sync_internal P t c c'"
  shows "sync_work c' < sync_work c"
proof -
  let ?A = "{t. sc_threads c t \<noteq> SIdle}"
  have fin: "finite ?A" by (rule sync_okD(5) [OF ok])
  have t: "t \<in> ?A" "remaining (sc_threads c' t) < remaining (sc_threads c t)"
    and other: "\<And>t'. t' \<noteq> t \<Longrightarrow> sc_threads c' t' = sc_threads c t'"
    using st by (auto elim!: sync_internalE)
  have "{t. sc_threads c' t \<noteq> SIdle} \<subseteq> ?A" using t(1) other by (metis (mono_tags, lifting) mem_Collect_eq subsetI)
  then have "sync_work c' = (\<Sum>t \<in> ?A. remaining (sc_threads c' t))" by (rule sync_work_over [OF fin])
  also have "\<dots> < (\<Sum>t \<in> ?A. remaining (sc_threads c t))"
    using t other by (intro sum_strict_mono_ex1 [OF fin]) (auto intro: le_refl, metis less_imp_le order_refl)
  finally show ?thesis by (simp add: sync_work_def)
qed

lemma sync_some_step:
  assumes ok: "sync_ok P s0 c" and "sc_threads c t \<noteq> SIdle"
  shows "\<exists>t' c'. sync_internal P t' c c'"
proof (cases "sc_mutex c")
  case None
  then have "\<not> critical (sc_threads c t)" using sync_okD(1) [OF ok, of t] by simp
  then obtain k where "sc_threads c t = SWaiting k" using assms(2) by (cases "sc_threads c t") auto
  then show ?thesis using sync_lock None by blast
next
  case (Some h)
  then have "critical (sc_threads c h)" using sync_okD(1) [OF ok, of h] by simp
  then show ?thesis
  proof (cases "sc_threads c h")
    case (SRunning k s)
    obtain r s' where "sync_body P k s = (r, s')" by (cases "sync_body P k s")
    then show ?thesis using sync_write SRunning by blast
  next
    case (SEntered k)
    then show ?thesis using sync_read by blast
  next
    case (SFinished k r)
    then show ?thesis using sync_unlock by blast
  qed simp_all
qed

end
