(* ===== verification/Classed_Source.thy ===== *)
theory Classed_Source
  imports Segregated_Properties
begin

text \<open>
  What a cache in front of a sized source relies on: \<open>select\<close> gives the class of a request; a block can be released
  without its size, or with any size of its class; and a held block of a class may serve any other
  request of the same class without a call of the source. The contract extends \<open>sized_source\<close> and is
  discharged by \<^verbatim>\<open>SegregatedAllocator\<close>.
\<close>

locale classed_source = sized_source alloc free poke holds
  for alloc :: "size_t \<Rightarrow> size_t \<Rightarrow> 's \<Rightarrow> (addr, 's) outcome"
    and free :: "addr \<Rightarrow> size_t \<Rightarrow> size_t \<Rightarrow> 's \<Rightarrow> (unit, 's) outcome"
    and poke :: "addr \<Rightarrow> byte \<Rightarrow> 's \<Rightarrow> 's"
    and holds :: "'s \<Rightarrow> request set \<Rightarrow> bool" +
  fixes release :: "addr \<Rightarrow> 's \<Rightarrow> (unit, 's) outcome"
    and select :: "'s \<Rightarrow> size_t \<Rightarrow> size_t \<Rightarrow> nat option result"
  assumes alloc_select: "holds s H \<Longrightarrow> alloc n a s = (r, s') \<Longrightarrow> select s' = select s"
    and release_accepts:
      "holds s H \<Longrightarrow> (q, n, a) \<in> H \<Longrightarrow> \<exists>s'. release q s = (Inr (), s') \<and> holds s' (H - {(q, n, a)}) \<and> select s' = select s"
    and free_matching:
      "holds s H \<Longrightarrow> (q, n, a) \<in> H \<Longrightarrow> select s n' a' = select s n a \<Longrightarrow>
         select s n a \<noteq> Inr None \<or> max n' 1 = max n 1 \<and> a' = a \<Longrightarrow> free q n' a' s = release q s"
    and reissue:
      "holds s H \<Longrightarrow> (q, n, a) \<in> H \<Longrightarrow> select s n a = Inr (Some i) \<Longrightarrow> select s n' a' = Inr (Some i) \<Longrightarrow>
         holds s (insert (q, n', a') (H - {(q, n, a)}))"
    and held_nonnull: "holds s H \<Longrightarrow> (q, n, a) \<in> H \<Longrightarrow> q \<noteq> 0 \<and> unat a dvd unat q"
begin

lemma free_same:
  assumes "holds s H" and "(q, n, a) \<in> H"
  shows "\<exists>s'. free q n a s = (Inr (), s') \<and> holds s' (H - {(q, n, a)}) \<and> select s' = select s"
proof -
  have "free q n a s = release q s" by (rule free_matching [OF assms]) simp_all
  then show ?thesis using release_accepts [OF assms] by simp
qed

lemma held_unique: "holds s H \<Longrightarrow> (q, n, a) \<in> H \<Longrightarrow> (q, n', a') \<in> H \<Longrightarrow> n' = n \<and> a' = a"
  using holds_apart [of s H q n a q n' a'] by auto

end

lemma fst_image_remove:
  assumes "inj_on fst H" and "x \<in> H"
  shows "fst ` (H - {x}) = fst ` H - {fst x}"
  using inj_on_image_set_diff [OF assms(1), of H "{x}"] assms(2) by simp

context memory_provider begin

lemma segregated_holdsE:
  assumes "segregated_holds live ok L (w, sa) H"
  obtains Fss where "segregated_inv live ok L (w, sa) Fss" "\<And>h. h \<in> H \<Longrightarrow> served sa Fss h" "inj_on fst H"
    "fst ` H = segregated_blocks sa Fss"
  using assms by (auto simp: segregated_holds_def)

lemma segregated_release_accepts:
  assumes h: "segregated_holds live ok L (w, sa) H" and q: "(q, n, a) \<in> H"
  shows "\<exists>s'. segregated_deallocate P q (w, sa) = (Inr (), s') \<and> segregated_holds live ok L s' (H - {(q, n, a)}) \<and>
     sa_selector (snd s') = sa_selector sa"
proof -
  from h obtain Fss where F: "segregated_inv live ok L (w, sa) Fss" "\<And>h. h \<in> H \<Longrightarrow> served sa Fss h" "inj_on fst H"
    "fst ` H = segregated_blocks sa Fss" by (rule segregated_holdsE) blast
  have qb: "q \<in> segregated_blocks sa Fss" using q F(4) by force
  obtain r w' sa' where de: "segregated_deallocate P q (w, sa) = (r, (w', sa'))" by (metis prod_cases3)
  obtain Fss' where r: "r = Inr ()" and G: "segregated_inv live ok L (w', sa') Fss'" "sa_selector sa' = sa_selector sa"
      "segregated_blocks sa' Fss' = segregated_blocks sa Fss - {q}" "\<And>h. served sa Fss h \<Longrightarrow> fst h \<noteq> q \<Longrightarrow> served sa' Fss' h"
    using segregated_deallocate_live [OF F(1) qb de] by blast
  have im: "fst ` (H - {(q, n, a)}) = segregated_blocks sa Fss - {q}" using fst_image_remove [OF F(3) q] F(4) by simp
  have "served sa' Fss' h" if "h \<in> H - {(q, n, a)}" for h
  proof -
    have "fst h \<in> fst ` (H - {(q, n, a)})" using that by blast
    then have "fst h \<noteq> q" unfolding im by blast
    then show ?thesis using G(4) [OF F(2) [of h]] that by blast
  qed
  then have "segregated_holds live ok L (w', sa') (H - {(q, n, a)})"
    unfolding segregated_holds_def snd_conv im using G(1,3) inj_on_diff [OF F(3)] by blast
  then show ?thesis using de r G(2) by simp
qed

lemma segregated_reissue:
  assumes h: "segregated_holds live ok L (w, sa) H" and q: "(q, n, a) \<in> H"
    and c: "selector_select (sa_selector sa) n a = Inr (Some i)" "selector_select (sa_selector sa) n' a' = Inr (Some i)"
  shows "segregated_holds live ok L (w, sa) (insert (q, n', a') (H - {(q, n, a)}))"
proof -
  from h obtain Fss where F: "segregated_inv live ok L (w, sa) Fss" "\<And>h. h \<in> H \<Longrightarrow> served sa Fss h" "inj_on fst H"
    "fst ` H = segregated_blocks sa Fss" by (rule segregated_holdsE) blast
  have "served sa Fss (q, n', a')" using F(2) [OF q] c by (auto simp: served_def)
  moreover have nq: "q \<notin> fst ` (H - {(q, n, a)})" using fst_image_remove [OF F(3) q] by simp
  moreover have "fst ` insert (q, n', a') (H - {(q, n, a)}) = fst ` H" using q by force
  moreover have "inj_on fst (insert (q, n', a') (H - {(q, n, a)}))"
    using nq inj_on_diff [OF F(3), of "{(q, n, a)}"] by (auto simp: inj_on_insert)
  moreover have "served sa Fss h" if "h \<in> insert (q, n', a') (H - {(q, n, a)})" for h
    using that calculation(1) F(2) [of h] by blast
  ultimately show ?thesis
    unfolding segregated_holds_def snd_conv using F(1,4) by metis
qed

sublocale central: classed_source "segregated_allocate P" "segregated_deallocate_sized P" segregated_poke
  "segregated_holds live ok L" "segregated_deallocate P" "\<lambda>s. selector_select (sa_selector (snd s))" for L
proof (unfold_locales, goal_cases)
  case (1 s H n a r s')
  obtain w sa w' sa' where s: "s = (w, sa)" "s' = (w', sa')" by (cases s, cases s')
  from 1(1) [unfolded s] obtain Fss where "segregated_inv live ok L (w, sa) Fss" by (rule segregated_holdsE)
  from segregated_allocate_inv [OF this 1(2) [unfolded s]] show ?case using s by auto
next
  case (2 s H q n a)
  then show ?case using segregated_release_accepts [of L "fst s" "snd s" H q n a] by auto
next
  case (3 s H q n a n' a')
  obtain w sa where s: "s = (w, sa)" by (cases s)
  from 3(1) [unfolded s] obtain Fss where F: "segregated_inv live ok L (w, sa) Fss" "\<And>h. h \<in> H \<Longrightarrow> served sa Fss h"
    by (rule segregated_holdsE) blast
  have "request_matches (sa_selector sa) n a n' a'" using 3(3,4) s by (auto simp: request_matches_def normalize_size_def)
  then show ?case using segregated_deallocate_sized_checks [OF F(1) F(2) [OF 3(2)]] s by simp
next
  case (4 s H q n a i n' a')
  then show ?case using segregated_reissue [of L "fst s" "snd s" H q n a i n' a'] by simp
next
  case (5 s H q n a)
  obtain w sa where s: "s = (w, sa)" by (cases s)
  from 5(1) [unfolded s] obtain Fss where F: "segregated_inv live ok L (w, sa) Fss" "\<And>h. h \<in> H \<Longrightarrow> served sa Fss h"
    by (rule segregated_holdsE) blast
  show ?case using served_facts [OF F(1) F(2) [OF 5(2)]] by blast
qed

lemma segregated_holds_selector:
  assumes "segregated_holds live ok L (w, sa) H"
  shows "valid_selector (sa_selector sa)"
proof -
  from assms obtain Fss where "segregated_inv live ok L (w, sa) Fss" by (rule segregated_holdsE)
  from segregated_invD(2) [OF this] show ?thesis .
qed

lemmas central_alloc_fresh = segregating.alloc_fresh
lemmas central_alloc_throws = segregating.alloc_throws
lemmas central_alloc_select = central.alloc_select
lemmas central_release_accepts = central.release_accepts
lemmas central_free_matching = central.free_matching
lemmas central_free_same = central.free_same
lemmas central_reissue = central.reissue
lemmas central_held_nonnull = central.held_nonnull
lemmas central_holds_apart = segregating.holds_apart
lemmas central_poke_keeps = segregating.poke_keeps

end

end
