(* ===== verification/Synchronized_Clients.thy ===== *)
theory Synchronized_Clients
  imports Synchronized_Allocator Classed_Source
begin

text \<open>
  Threads that use a \<^verbatim>\<open>BasicSynchronizedAllocator\<close> as its clients should: they return only requests that some thread has received and nobody
  has returned yet, by either overload of \<^verbatim>\<open>deallocate\<close>, and write into the storage they hold at any time, also while other threads are inside
  calls. Every request is at every moment in the hands of the threads or accounted for by one call.
\<close>

section \<open>Clients\<close>

fun received :: "sync_call \<Rightarrow> sync_result \<Rightarrow> request set" where
  "received (SyncAllocate n a) (SyncPointer q) = {(q, n, a)}"
| "received _ _ = {}"

text \<open>\<open>gives k S\<close>: the call \<open>k\<close> hands over the requests \<open>S\<close>; the null pointer hands over nothing.\<close>

fun gives :: "sync_call \<Rightarrow> request set \<Rightarrow> bool" where
  "gives (SyncDeallocate q) S = ((\<exists>n a. S = {(q, n, a)}) \<or> (q = 0 \<and> S = {}))"
| "gives (SyncDeallocateSized q n a) S = (S = {(q, n, a)} \<or> (q = 0 \<and> S = {}))"
| "gives _ S = (S = {})"

fun deallocation :: "sync_call \<Rightarrow> bool" where
  "deallocation (SyncDeallocate q) = True"
| "deallocation (SyncDeallocateSized q n a) = True"
| "deallocation _ = False"

text \<open>
  A write of a client. The memory is shared, so the write also reaches the state that a call inside its body works on.
\<close>

fun status_poke :: "addr \<Rightarrow> byte \<Rightarrow> 'p sync_status \<Rightarrow> 'p sync_status" where
  "status_poke y b (SRunning k s) = SRunning k (segregated_poke y b s)"
| "status_poke y b x = x"

definition sync_poke :: "addr \<Rightarrow> byte \<Rightarrow> 'p sync_config \<Rightarrow> 'p sync_config" where
  "sync_poke y b c = c\<lparr>sc_allocator := segregated_poke y b (sc_allocator c), sc_threads := (\<lambda>t. status_poke y b (sc_threads c t))\<rparr>"

text \<open>
  \<open>sync_clients P s0 c K G\<close>: such threads can reach \<open>c\<close> with the requests \<open>K\<close> in their hands, while the call of thread \<open>t\<close> accounts for \<open>G t\<close>: before
  its body for what it was given, after it for what it returns. A request leaves \<open>K\<close> when the call of a deallocation begins and enters \<open>K\<close> when the call of
  an allocation returns.
\<close>

inductive sync_clients ::
  "'p provider \<Rightarrow> 'p world \<times> segregated \<Rightarrow> 'p sync_config \<Rightarrow> request set \<Rightarrow> (thread \<Rightarrow> request set) \<Rightarrow> bool" for P s0 where
  clients_start: "sync_clients P s0 (sync_start s0) {} (\<lambda>_. {})"
| clients_call: "sync_clients P s0 c K G \<Longrightarrow> sc_threads c t = SIdle \<Longrightarrow> gives k S \<Longrightarrow> S \<subseteq> K \<Longrightarrow>
    sync_clients P s0 (set_thread t (SWaiting k) c) (K - S) (G(t := S))"
| clients_enter: "sync_clients P s0 c K G \<Longrightarrow> sync_internal P t c c' \<Longrightarrow>
    sc_threads c t = SWaiting k \<or> sc_threads c t = SEntered k \<Longrightarrow> sync_clients P s0 c' K G"
| clients_body: "sync_clients P s0 c K G \<Longrightarrow> sync_internal P t c c' \<Longrightarrow> sc_threads c' t = SFinished k r \<Longrightarrow>
    sync_clients P s0 c' K (G(t := received k r))"
| clients_return: "sync_clients P s0 c K G \<Longrightarrow> sync_internal P t c c' \<Longrightarrow> sc_threads c' t = SIdle \<Longrightarrow>
    sync_clients P s0 c' (K \<union> G t) (G(t := {}))"
| clients_write: "sync_clients P s0 c K G \<Longrightarrow> (q, n, a) \<in> K \<Longrightarrow> y \<in> extent q n \<Longrightarrow> sync_clients P s0 (sync_poke y b c) K G"

section \<open>The invariant\<close>

definition exclusive :: "'p sync_config \<Rightarrow> bool" where
  "exclusive c \<longleftrightarrow> (\<forall>t. critical (sc_threads c t) \<longleftrightarrow> sc_mutex c = Some t) \<and>
     (\<forall>t k s. sc_threads c t = SRunning k s \<longrightarrow> s = sc_allocator c)"

lemma exclusiveD:
  assumes "exclusive c"
  shows "critical (sc_threads c t) \<longleftrightarrow> sc_mutex c = Some t" and "sc_threads c t = SRunning k s \<Longrightarrow> s = sc_allocator c"
  using assms unfolding exclusive_def by blast+

lemma exclusive_internal:
  assumes e: "exclusive c" and st: "sync_internal P t c c'"
  shows "exclusive c'"
proof -
  note d = exclusiveD(1) [OF e] and r = exclusiveD(2) [OF e]
  have nr: "sc_threads c t' \<noteq> SRunning k s" if "sc_mutex c \<noteq> Some t'" for t' k s using d [of t'] that by auto
  from st show ?thesis
  proof cases
    case (sync_lock k)
    then show ?thesis using d r by (auto simp: exclusive_def)
  next
    case (sync_read k)
    then show ?thesis using d r by (fastforce simp: exclusive_def)
  next
    case (sync_write k s x s')
    then have "sc_mutex c = Some t" using d [of t] by simp
    then show ?thesis using sync_write d nr by (auto simp: exclusive_def)
  next
    case (sync_unlock k x)
    then have "sc_mutex c = Some t" using d [of t] by simp
    then show ?thesis using sync_unlock d nr by (auto simp: exclusive_def)
  qed
qed

text \<open>What a thread accounts for at a point of its call, and the results it may have.\<close>

fun account_ok :: "'p sync_status \<Rightarrow> request set \<Rightarrow> bool" where
  "account_ok SIdle S = (S = {})"
| "account_ok (SWaiting k) S = gives k S"
| "account_ok (SEntered k) S = gives k S"
| "account_ok (SRunning k s) S = gives k S"
| "account_ok (SFinished k r) S = (S = received k r \<and> (deallocation k \<longrightarrow> r = SyncUnit) \<and>
     (\<forall>n a. k = SyncAllocate n a \<longrightarrow> r \<noteq> SyncThrow UndefinedBehaviour \<and> r \<noteq> SyncThrow Terminate))"

lemma account_poke [simp]: "account_ok (status_poke y b x) S = account_ok x S"
  by (cases x) simp_all

definition apart :: "request set \<Rightarrow> (thread \<Rightarrow> request set) \<Rightarrow> bool" where
  "apart K G \<longleftrightarrow> (\<forall>t. G t \<inter> K = {}) \<and> (\<forall>t u. t \<noteq> u \<longrightarrow> G t \<inter> G u = {})"

definition sync_held ::
  "('p \<Rightarrow> grant set) \<Rightarrow> ('p \<Rightarrow> bool) \<Rightarrow> grant set \<Rightarrow> 'p sync_config \<Rightarrow> request set \<Rightarrow> (thread \<Rightarrow> request set) \<Rightarrow> bool" where
  "sync_held live ok L c K G \<longleftrightarrow> exclusive c \<and> segregated_holds live ok L (sc_allocator c) (K \<union> (\<Union>t. G t)) \<and> apart K G \<and>
     (\<forall>t. account_ok (sc_threads c t) (G t))"

lemma sync_heldD:
  assumes "sync_held live ok L c K G"
  shows "exclusive c" and "segregated_holds live ok L (sc_allocator c) (K \<union> (\<Union>t. G t))" and "apart K G"
    and "account_ok (sc_threads c t) (G t)"
  using assms unfolding sync_held_def by blast+

lemma apart_rest: "apart K G \<Longrightarrow> K \<union> (\<Union>t. G t) = (K \<union> (\<Union>u \<in> - {t}. G u)) \<union> G t \<and> G t \<inter> (K \<union> (\<Union>u \<in> - {t}. G u)) = {}"
  unfolding apart_def by blast

lemma accounts_update: "K \<union> (\<Union>u. (G(t := S)) u) = (K \<union> (\<Union>u \<in> - {t}. G u)) \<union> S"
  by (auto split: if_splits)

lemma apart_update: "apart K G \<Longrightarrow> S \<inter> (K \<union> (\<Union>u \<in> - {t}. G u)) = {} \<Longrightarrow> apart K (G(t := S))"
  unfolding apart_def by (auto split: if_splits)

context memory_provider begin

lemmas segregated_holds_apart = segregating.holds_apart

text \<open>One execution of a body, by the requests the call accounts for before and after.\<close>

lemma sync_body_holds:
  assumes h: "segregated_holds live ok L s (H \<union> S)" and dj: "S \<inter> H = {}" and g: "gives k S" and b: "sync_body P k s = (r, s')"
  shows "segregated_holds live ok L s' (H \<union> received k r)" and "received k r \<inter> H = {}" and "account_ok (SFinished k r) (received k r)"
proof -
  obtain w sa where s: "s = (w, sa)" by (cases s)
  have "segregated_holds live ok L s' (H \<union> received k r) \<and> received k r \<inter> H = {} \<and> account_ok (SFinished k r) (received k r)"
  proof (cases k)
    case (SyncAllocate n a)
    obtain x s1 where al: "segregated_allocate P n a s = (x, s1)" by (cases "segregated_allocate P n a s")
    have h': "segregated_holds live ok L s H" using h g SyncAllocate by simp
    show ?thesis
    proof (cases x)
      case (Inl e)
      then show ?thesis using segregating.alloc_throws [OF h' al [unfolded Inl]] b al SyncAllocate by auto
    next
      case (Inr q)
      have "q \<notin> fst ` H" "segregated_holds live ok L s1 (insert (q, n, a) H)"
        using segregating.alloc_fresh [OF h' al [unfolded Inr]] by blast+
      then show ?thesis using b al Inr SyncAllocate by force
    qed
  next
    case (SyncDeallocate q)
    from g [unfolded SyncDeallocate gives.simps] show ?thesis
    proof (elim disjE exE conjE)
      fix n a assume S: "S = {(q, n, a)}"
      have "(q, n, a) \<in> H \<union> S" "H \<union> S - {(q, n, a)} = H" using S dj by auto
      from segregated_release_accepts [OF h [unfolded s] this(1), unfolded this(2)] show ?thesis using b s SyncDeallocate by auto
    next
      assume "q = 0" "S = {}"
      then show ?thesis using b s h SyncDeallocate by (simp add: segregated_deallocate_def)
    qed
  next
    case (SyncDeallocateSized q n a)
    from g [unfolded SyncDeallocateSized gives.simps] show ?thesis
    proof (elim disjE conjE)
      assume S: "S = {(q, n, a)}"
      have "(q, n, a) \<in> H \<union> S" "H \<union> S - {(q, n, a)} = H" using S dj by auto
      from segregating.free_accepts [OF h this(1), unfolded this(2)] show ?thesis using b SyncDeallocateSized by auto
    next
      assume "q = 0" "S = {}"
      then show ?thesis using b s h SyncDeallocateSized by (simp add: segregated_deallocate_sized_def)
    qed
  qed (use h b g in \<open>auto split: sum.splits\<close>)
  then show "segregated_holds live ok L s' (H \<union> received k r)" and "received k r \<inter> H = {}"
    and "account_ok (SFinished k r) (received k r)" by blast+
qed

lemma held_body:
  assumes h: "sync_held live ok L c K G" and st: "sync_internal P t c c'" and fin: "sc_threads c' t = SFinished k r"
  shows "sync_held live ok L c' K (G(t := received k r))"
proof -
  note d = sync_heldD [OF h] and ex = exclusive_internal [OF sync_heldD(1) [OF h] st]
  let ?H = "K \<union> (\<Union>u \<in> - {t}. G u)"
  note rest = apart_rest [OF d(3), of t]
  from st show ?thesis
  proof cases
    case (sync_write k' s r' s')
    have kr: "k' = k" "r' = r" using sync_write(1) fin by simp_all
    have "s = sc_allocator c" by (rule exclusiveD(2) [OF d(1) sync_write(2)])
    then have "segregated_holds live ok L s (?H \<union> G t)" using d(2) rest by simp
    moreover have "gives k (G t)" using d(4) [of t] sync_write(2) kr by simp
    ultimately have b: "segregated_holds live ok L s' (?H \<union> received k r)" "received k r \<inter> ?H = {}"
        "account_ok (SFinished k r) (received k r)"
      using sync_body_holds [of L s ?H "G t" k r s'] rest sync_write(3) kr by blast+
    have "account_ok (sc_threads c' u) ((G(t := received k r)) u)" for u
      using b(3) d(4) [of u] sync_write(1) kr by (cases "u = t") (simp_all del: account_ok.simps)
    moreover have "segregated_holds live ok L (sc_allocator c') (K \<union> (\<Union>u. (G(t := received k r)) u))"
      unfolding accounts_update using b(1) sync_write(1) by simp
    ultimately show ?thesis unfolding sync_held_def using ex apart_update [OF d(3) b(2)] by blast
  qed (use fin in auto)
qed

lemma held_quiet:
  assumes h: "sync_held live ok L c K G" and st: "sync_internal P t c c'"
    and al: "sc_allocator c' = sc_allocator c" and th: "\<And>u. u \<noteq> t \<Longrightarrow> sc_threads c' u = sc_threads c u"
    and all: "K' \<union> (\<Union>u. G' u) = K \<union> (\<Union>u. G u)" and ap: "apart K' G'" and others: "\<And>u. u \<noteq> t \<Longrightarrow> G' u = G u"
    and ok: "account_ok (sc_threads c' t) (G' t)"
  shows "sync_held live ok L c' K' G'"
proof -
  note d = sync_heldD [OF h]
  have "account_ok (sc_threads c' u) (G' u)" for u using ok d(4) [of u] th [of u] others [of u] by (cases "u = t") auto
  then show ?thesis unfolding sync_held_def al all using exclusive_internal [OF d(1) st] d(2) ap by blast
qed

lemma exclusive_poke: "exclusive c \<Longrightarrow> exclusive (sync_poke y b c)"
proof -
  assume e: "exclusive c"
  have cr: "critical (status_poke y b x) = critical x" for x by (cases x) simp_all
  have rn: "status_poke y b x = SRunning k s \<longleftrightarrow> (\<exists>s0. x = SRunning k s0 \<and> s = segregated_poke y b s0)" for x k s by (cases x) auto
  show ?thesis using e by (auto simp: exclusive_def sync_poke_def cr rn)
qed

lemma sync_clients_held:
  assumes "sync_clients P s0 c K G" and "segregated_holds live ok L s0 {}"
  shows "sync_held live ok L c K G"
  using assms
proof (induction rule: sync_clients.induct)
  case clients_start
  then show ?case by (simp add: sync_held_def sync_start_def apart_def exclusive_def)
next
  case (clients_call c K G t k S)
  note h = clients_call.IH [OF clients_call.prems]
  note d = sync_heldD [OF h]
  let ?c = "set_thread t (SWaiting k) c"
  have g0: "G t = {}" using d(4) [of t] clients_call.hyps(2) by simp
  have "sc_mutex c \<noteq> Some t" using exclusiveD(1) [OF d(1), of t] clients_call.hyps(2) by simp
  then have "exclusive ?c" using d(1) by (auto simp: exclusive_def)
  moreover have "K - S \<union> (\<Union>u. (G(t := S)) u) = K \<union> (\<Union>u. G u)" unfolding accounts_update using clients_call.hyps(4) g0 by auto
  moreover have "apart (K - S) (G(t := S))" using d(3) clients_call.hyps(4) unfolding apart_def by (auto split: if_splits)
  moreover have "account_ok (sc_threads ?c u) ((G(t := S)) u)" for u using d(4) [of u] clients_call.hyps(3) by simp
  ultimately show ?case using d(2) unfolding sync_held_def by simp
next
  case (clients_enter c K G t c' k)
  note h = clients_enter.IH [OF clients_enter.prems]
  have "sc_allocator c' = sc_allocator c" "\<And>u. u \<noteq> t \<Longrightarrow> sc_threads c' u = sc_threads c u" "account_ok (sc_threads c' t) (G t)"
    using clients_enter.hyps(2,3) sync_heldD(4) [OF h, of t] by (auto elim!: sync_internalE)
  then show ?case by (intro held_quiet [OF h clients_enter.hyps(2)]) (use sync_heldD(3) [OF h] in simp_all)
next
  case (clients_body c K G t c' k r)
  then show ?case using held_body by blast
next
  case (clients_return c K G t c')
  note h = clients_return.IH [OF clients_return.prems]
  have f: "sc_allocator c' = sc_allocator c" "\<And>u. u \<noteq> t \<Longrightarrow> sc_threads c' u = sc_threads c u"
    using clients_return.hyps(2,3) by (auto elim!: sync_internalE)
  have all: "K \<union> G t \<union> (\<Union>u. (G(t := {})) u) = K \<union> (\<Union>u. G u)" by (auto split: if_splits)
  have ap: "apart (K \<union> G t) (G(t := {}))"
    using sync_heldD(3) [OF h] unfolding apart_def by (simp add: Int_Un_distrib)
  show ?case by (rule held_quiet [OF h clients_return.hyps(2) f all ap]) (simp_all add: clients_return.hyps(3))
next
  case (clients_write c K G q n a y b)
  note d = sync_heldD [OF clients_write.IH [OF clients_write.prems]]
  have "(q, n, a) \<in> K \<union> (\<Union>u. G u)" using clients_write.hyps(2) by simp
  from segregating.poke_keeps [OF d(2) this clients_write.hyps(3)]
  have "segregated_holds live ok L (sc_allocator (sync_poke y b c)) (K \<union> (\<Union>u. G u))" by (simp add: sync_poke_def)
  moreover have "account_ok (sc_threads (sync_poke y b c) u) (G u)" for u using d(4) [of u] by (simp add: sync_poke_def)
  ultimately show ?case unfolding sync_held_def using exclusive_poke [OF d(1)] d(3) by blast
qed

end

end
