(* ===== verification/Synchronized_Properties.thy ===== *)
theory Synchronized_Properties
  imports Synchronized_Clients
begin

text \<open>
  The properties of \<^verbatim>\<open>BasicSynchronizedAllocator\<close> for any number of threads and every interleaving.
\<close>

section \<open>Progress of the whole system\<close>

definition sync_any :: "'p provider \<Rightarrow> 'p sync_config \<Rightarrow> 'p sync_config \<Rightarrow> bool" where
  "sync_any P c c' \<longleftrightarrow> (\<exists>t. sync_internal P t c c')"

lemma sync_any_steps:
  assumes "sync_ok P s0 c" and "(sync_any P ^^ n) c c'"
  shows "sync_ok P s0 c'" and "n + sync_work c' \<le> sync_work c"
proof -
  have "sync_ok P s0 c' \<and> n + sync_work c' \<le> sync_work c"
    using assms(2)
  proof (induction n arbitrary: c')
    case 0
    then show ?case using assms(1) by simp
  next
    case (Suc n)
    then obtain c1 where c1: "(sync_any P ^^ n) c c1" and "sync_any P c1 c'" by (auto elim: relpowp_Suc_E)
    then obtain t where st: "sync_internal P t c1 c'" unfolding sync_any_def by blast
    note ih = Suc.IH [OF c1]
    show ?case using sync_ok_internal [OF _ st] sync_internal_decreases [OF _ st] ih by fastforce
  qed
  then show "sync_ok P s0 c'" and "n + sync_work c' \<le> sync_work c" by blast+
qed

lemma sync_finishes:
  assumes "sync_ok P s0 c"
  shows "\<exists>n c'. (sync_any P ^^ n) c c' \<and> (\<forall>t. sc_threads c' t = SIdle)"
  using assms
proof (induction "sync_work c" arbitrary: c rule: less_induct)
  case less
  show ?case
  proof (cases "\<forall>t. sc_threads c t = SIdle")
    case True
    then show ?thesis by (intro exI [of _ 0]) auto
  next
    case False
    then obtain t c1 where st: "sync_internal P t c c1" using sync_some_step [OF less.prems] by blast
    from less.hyps [OF sync_internal_decreases [OF less.prems st] sync_ok_internal [OF less.prems st]]
    obtain n c' where n: "(sync_any P ^^ n) c1 c'" "\<forall>t. sc_threads c' t = SIdle" by blast
    have "sync_any P c c1" using st by (auto simp: sync_any_def)
    from relpowp_Suc_I2 [OF this n(1)] n(2) show ?thesis by blast
  qed
qed

section \<open>Properties\<close>

text \<open>
  C32: in every reachable configuration at most one thread is between locking and unlocking, and it is the owner
  of the mutex; the shared allocator is the one that results from executing the logged calls one after the
  other on the initial allocator, with the logged results; and what a call is about to return is what it logged
  last. So every call takes effect at one moment between its start and its return.
\<close>

theorem sync_linearizable:
  assumes "sync_reach P s0 c"
  shows "(\<forall>t. critical (sc_threads c t) \<longleftrightarrow> sc_mutex c = Some t) \<and>
     sync_apply P (log_calls (sc_log c)) s0 = (log_results (sc_log c), sc_allocator c) \<and>
     (\<forall>t k r. sc_threads c t = SFinished k r \<longrightarrow> (\<exists>l. sc_log c = l @ [(t, k, r)]))"
  using sync_okD(1,3,4) [OF sync_reach_ok [OF assms]] by blast

definition demo_sync :: "sys_heap sync_config" where
  "demo_sync = set_thread 3 (SWaiting SyncSizeClasses) (sync_start (demo_sg_world, demo_sg))"

lemma demo_sync_reach: "sync_reach new_delete_provider (demo_sg_world, demo_sg) demo_sync"
  unfolding demo_sync_def by (rule sync_enter [OF sync_init]) (simp add: sync_start_def)

definition demo_sync_locked :: "sys_heap sync_config" where
  "demo_sync_locked = set_thread 3 (SEntered SyncSizeClasses) (demo_sync\<lparr>sc_mutex := Some 3\<rparr>)"

lemma demo_sync_locks: "sync_internal new_delete_provider 3 demo_sync demo_sync_locked"
  unfolding demo_sync_locked_def by (rule sync_lock) (simp_all add: demo_sync_def sync_start_def)

theorem sync_linearizable_witness:
  "critical (sc_threads demo_sync_locked 3) \<and>
   sync_apply new_delete_provider (log_calls (sc_log demo_sync_locked)) (demo_sg_world, demo_sg) =
     (log_results (sc_log demo_sync_locked), sc_allocator demo_sync_locked)"
proof -
  have "sc_mutex demo_sync_locked = Some 3" by (simp add: demo_sync_locked_def)
  then show ?thesis using sync_linearizable [OF sync_move [OF demo_sync_reach demo_sync_locks]] by blast
qed

text \<open>
  C33: when threads return only requests that some thread has received and nobody has returned yet, by either overload of
  \<^verbatim>\<open>deallocate\<close> (or null pointers), and write only into storage in their hands, also while other threads are inside calls, then in every
  interleaving the requests in the hands of the threads are non-null, aligned and disjoint, also when they were served to different
  threads; no deallocation, with or without a size, throws, and an allocation that returns a pointer returns one that nobody holds.
\<close>

theorem sync_client_safety:
  assumes "memory_provider P live ok" and "ok (w_prov w)" and "sync_create P options w = (Inr sa, w0)"
    and "sync_clients P (w0, sa) c K G"
  shows "(\<forall>q n a. (q, n, a) \<in> K \<longrightarrow> q \<noteq> 0 \<and> unat a dvd unat q) \<and>
     (\<forall>q n a q' n' a'. (q, n, a) \<in> K \<longrightarrow> (q', n', a') \<in> K \<longrightarrow> (q, n, a) \<noteq> (q', n', a') \<longrightarrow>
        q \<noteq> q' \<and> extent q n \<inter> extent q' n' = {}) \<and>
     (\<forall>t q r. sc_threads c t = SFinished (SyncDeallocate q) r \<longrightarrow> r = SyncUnit) \<and>
     (\<forall>t q n a r. sc_threads c t = SFinished (SyncDeallocateSized q n a) r \<longrightarrow> r = SyncUnit) \<and>
     (\<forall>t n a r. sc_threads c t = SFinished (SyncAllocate n a) r \<longrightarrow>
        r \<noteq> SyncThrow UndefinedBehaviour \<and> r \<noteq> SyncThrow Terminate \<and>
        (\<forall>q. r = SyncPointer q \<longrightarrow> q \<notin> fst ` K))"
proof -
  note st = segregated_started(1) [OF assms(1,2) assms(3) [unfolded sync_create_def]]
  note d = sync_heldD [OF memory_provider.sync_clients_held [OF assms(1,4) st]]
  obtain w1 sa1 where a: "sc_allocator c = (w1, sa1)" by (cases "sc_allocator c")
  obtain Fss where F: "segregated_inv live ok (live (w_prov w)) (w1, sa1) Fss" and sv: "\<forall>h \<in> K \<union> (\<Union>t. G t). served sa1 Fss h"
    and inj: "inj_on fst (K \<union> (\<Union>t. G t))" using d(2) a by (auto simp: segregated_holds_def)
  have A: "q \<noteq> 0 \<and> unat a dvd unat q" if "(q, n, a) \<in> K" for q n a
    using memory_provider.served_facts [OF assms(1) F] sv that by blast
  have B: "q \<noteq> q' \<and> extent q n \<inter> extent q' n' = {}"
    if "(q, n, a) \<in> K" "(q', n', a') \<in> K" "(q, n, a) \<noteq> (q', n', a')" for q n a q' n' a'
    using memory_provider.segregated_holds_apart [OF assms(1) d(2)] that by blast
  have C: "r = SyncUnit" if "sc_threads c t = SFinished k r" "deallocation k" for t k r using d(4) [of t] that by simp
  have D: "r \<noteq> SyncThrow UndefinedBehaviour \<and> r \<noteq> SyncThrow Terminate" if "sc_threads c t = SFinished (SyncAllocate n a) r" for t n a r
    using d(4) [of t] that by simp
  have E: "q \<notin> fst ` K" if "sc_threads c t = SFinished (SyncAllocate n a) (SyncPointer q)" for t n a q
  proof
    have g: "(q, n, a) \<in> G t" using d(4) [of t] that by simp
    assume "q \<in> fst ` K"
    then obtain n' a' where k: "(q, n', a') \<in> K" by auto
    have "(q, n', a') = (q, n, a)" by (rule inj_onD [OF inj]) (use g k in auto)
    then show False using g k d(3) unfolding apart_def by blast
  qed
  have F: "r = SyncUnit" if "sc_threads c t = SFinished (SyncDeallocate q) r" for t q r by (rule C [OF that]) simp
  have S: "r = SyncUnit" if "sc_threads c t = SFinished (SyncDeallocateSized q n a) r" for t q n a r by (rule C [OF that]) simp
  show ?thesis by (intro conjI allI impI; (elim A [THEN conjunct1] A [THEN conjunct2] B [THEN conjunct1] B [THEN conjunct2] F S
      D [THEN conjunct1] D [THEN conjunct2]; assumption | use E in simp))
qed

lemma demo_sync_created: "sync_create new_delete_provider demo_sg_options demo_world = (Inr demo_sg, demo_sg_world)"
  by (simp add: sync_create_def demo_sg_created)

text \<open>Thread 0 gets a block, writes into it and returns it without its size.\<close>

lemma demo_sync_clients:
  "\<exists>c G. sync_clients new_delete_provider (demo_sg_world, demo_sg) c {(4096, 10, 8)} G \<and> sc_mutex c = None \<and> sc_threads c 0 = SIdle"
proof -
  let ?P = new_delete_provider and ?s = "(demo_sg_world, demo_sg)" and ?k = "SyncAllocate 10 8"
  let ?c0 = "sync_start ?s :: sys_heap sync_config"
  let ?c1 = "set_thread 0 (SWaiting ?k) ?c0"
  let ?c2 = "set_thread 0 (SEntered ?k) (?c1\<lparr>sc_mutex := Some 0\<rparr>)"
  let ?c3 = "set_thread 0 (SRunning ?k (sc_allocator ?c2)) ?c2"
  have b: "sync_body ?P ?k ?s = (SyncPointer 4096, demo_sg_next)"
    using demo_sg_alloc by (auto simp: demo_sg_next_def)
  let ?c4 = "set_thread 0 (SFinished ?k (SyncPointer 4096)) (?c3\<lparr>sc_allocator := demo_sg_next, sc_log := sc_log ?c3 @ [(0, ?k, SyncPointer 4096)]\<rparr>)"
  let ?c5 = "set_thread 0 SIdle (?c4\<lparr>sc_mutex := None\<rparr>)"
  let ?G = "\<lambda>_ :: thread. {} :: request set"
  have "sync_clients ?P ?s ?c1 ({} - {}) (?G(0 := {}))"
    by (rule clients_call [OF clients_start]) (simp_all add: sync_start_def)
  then have 1: "sync_clients ?P ?s ?c1 {} ?G" by (simp add: fun_upd_idem)
  have 2: "sync_clients ?P ?s ?c2 {} ?G"
    by (rule clients_enter [OF 1, where k = ?k and t = 0], rule sync_lock) (simp_all add: sync_start_def)
  have 3: "sync_clients ?P ?s ?c3 {} ?G"
    by (rule clients_enter [OF 2, where k = ?k and t = 0], rule sync_read) (simp_all add: sync_start_def)
  have 4: "sync_clients ?P ?s ?c4 {} (?G(0 := received ?k (SyncPointer 4096)))"
    by (rule clients_body [OF 3], rule sync_write [where s = ?s]) (use b in \<open>simp_all add: sync_start_def\<close>)
  have "sync_clients ?P ?s ?c5 ({} \<union> (?G(0 := received ?k (SyncPointer 4096))) 0) (?G(0 := received ?k (SyncPointer 4096), 0 := {}))"
    by (rule clients_return [OF 4], rule sync_unlock) simp_all
  then have 5: "sync_clients ?P ?s ?c5 {(4096, 10, 8)} (?G(0 := received ?k (SyncPointer 4096), 0 := {}))" by simp
  have "sc_mutex ?c5 = None" "sc_threads ?c5 0 = SIdle" by simp_all
  then show ?thesis using 5 by blast
qed

lemma demo_sync_returns:
  "\<exists>c K G r. sync_clients new_delete_provider (demo_sg_world, demo_sg) c K G \<and> sc_threads c 0 = SFinished (SyncDeallocate 4096) r"
proof -
  let ?P = new_delete_provider and ?s = "(demo_sg_world, demo_sg)" and ?k = "SyncDeallocate 4096"
  obtain c0 G where c0: "sync_clients ?P ?s c0 {(4096, 10, 8)} G" "sc_mutex c0 = None" "sc_threads c0 0 = SIdle" using demo_sync_clients by blast
  let ?c = "sync_poke 4096 7 c0"
  have c: "sync_clients ?P ?s ?c {(4096, 10, 8)} G" by (rule clients_write [OF c0(1)]) (auto simp: extent_def)
  have i: "sc_mutex ?c = None" "sc_threads ?c 0 = SIdle" using c0(2,3) by (simp_all add: sync_poke_def)
  let ?c1 = "set_thread 0 (SWaiting ?k) ?c"
  let ?c2 = "set_thread 0 (SEntered ?k) (?c1\<lparr>sc_mutex := Some 0\<rparr>)"
  let ?c3 = "set_thread 0 (SRunning ?k (sc_allocator ?c2)) ?c2"
  obtain r s' where b: "sync_body ?P ?k (sc_allocator ?c2) = (r, s')" by (cases "sync_body ?P ?k (sc_allocator ?c2)")
  let ?c4 = "set_thread 0 (SFinished ?k r) (?c3\<lparr>sc_allocator := s', sc_log := sc_log ?c3 @ [(0, ?k, r)]\<rparr>)"
  have 1: "sync_clients ?P ?s ?c1 ({(4096, 10, 8)} - {(4096, 10, 8)}) (G(0 := {(4096, 10, 8)}))"
    by (rule clients_call [OF c i(2)]) simp_all
  have 2: "sync_clients ?P ?s ?c2 ({(4096, 10, 8)} - {(4096, 10, 8)}) (G(0 := {(4096, 10, 8)}))"
    by (rule clients_enter [OF 1, where k = ?k and t = 0], rule sync_lock) (use i(1) in simp_all)
  have 3: "sync_clients ?P ?s ?c3 ({(4096, 10, 8)} - {(4096, 10, 8)}) (G(0 := {(4096, 10, 8)}))"
    by (rule clients_enter [OF 2, where k = ?k and t = 0], rule sync_read) simp_all
  have 4: "sync_clients ?P ?s ?c4 ({(4096, 10, 8)} - {(4096, 10, 8)}) (G(0 := {(4096, 10, 8)}, 0 := received ?k r))"
    by (rule clients_body [OF 3], rule sync_write [where s = "sc_allocator ?c2"]) (use b in simp_all)
  have "sc_threads ?c4 0 = SFinished ?k r" by simp
  then show ?thesis using 4 by blast
qed

theorem sync_client_safety_witness:
  "\<exists>c K G. sync_clients new_delete_provider (demo_sg_world, demo_sg) c K G \<and> sc_threads c 0 = SFinished (SyncDeallocate 4096) SyncUnit"
proof -
  obtain c K G r where c: "sync_clients new_delete_provider (demo_sg_world, demo_sg) c K G" "sc_threads c 0 = SFinished (SyncDeallocate 4096) r"
    using demo_sync_returns by blast
  have "r = SyncUnit"
    using sync_client_safety [OF new_delete.memory_provider_axioms demo_world_ok demo_sync_created c(1)] c(2) by blast
  then show ?thesis using c by blast
qed

text \<open>
  C34: no deadlock and no livelock: from every reachable configuration the threads that are inside calls can finish
  all of them; as long as some call is unfinished some thread can move; and without new calls every execution
  stops after at most \<open>sync_work\<close> (four for each waiting call) steps.
\<close>

theorem sync_liveness:
  assumes "sync_reach P s0 c"
  shows "(\<exists>n c'. (sync_any P ^^ n) c c' \<and> (\<forall>t. sc_threads c' t = SIdle)) \<and>
     (\<forall>n c'. (sync_any P ^^ n) c c' \<longrightarrow>
        n \<le> sync_work c \<and> ((\<exists>t. sc_threads c' t \<noteq> SIdle) \<longrightarrow> (\<exists>c''. sync_any P c' c'')))"
proof -
  note ok = sync_reach_ok [OF assms]
  have "n \<le> sync_work c \<and> ((\<exists>t. sc_threads c' t \<noteq> SIdle) \<longrightarrow> (\<exists>c''. sync_any P c' c''))"
    if "(sync_any P ^^ n) c c'" for n c'
    using sync_any_steps [OF ok that] sync_some_step [of P s0 c'] unfolding sync_any_def by fastforce
  then show ?thesis using sync_finishes [OF ok] by blast
qed

theorem sync_liveness_witness:
  "\<exists>n c'. (sync_any new_delete_provider ^^ n) demo_sync c' \<and> n \<le> sync_work demo_sync \<and> sc_threads c' 3 = SIdle"
  using sync_liveness [OF demo_sync_reach] by blast

end
