(* ===== verification/Thread_Cache.thy ===== *)
theory Thread_Cache
  imports Segregated_Allocator
begin

text \<open>
  \<^verbatim>\<open>include/memory_pool/concurrency_options.hpp\<close>, \<^verbatim>\<open>concurrency_statistics.hpp\<close> and
  \<^verbatim>\<open>src/detail/thread_cache_state.cpp\<close>: the state shared by the threads of a thread-cached allocator. The bins of
  the calling thread are an argument of the operations and part of their result, as the reference
  parameter \<^verbatim>\<open>CacheBins& bins\<close> of the code; the back of a vector is the last element of the list.
\<close>

section \<open>State\<close>

record thread_cache_options =
  tco_low_watermark :: size_t
  tco_high_watermark :: size_t
  tco_refill_batch :: size_t

record allocation_record =
  arec_class_index :: size_t
  arec_requested_size :: size_t
  arec_alignment :: size_t
  arec_owner_thread :: size_t
  arec_active :: bool

record thread_cache_statistics =
  tcs_allocation_requests :: size_t
  tcs_deallocation_requests :: size_t
  tcs_cache_hits :: size_t
  tcs_central_allocations :: size_t
  tcs_central_deallocations :: size_t
  tcs_local_deallocations :: size_t
  tcs_remote_deallocations :: size_t
  tcs_batch_refills :: size_t
  tcs_batch_flushes :: size_t
  tcs_cached_blocks :: size_t
  tcs_peak_cached_blocks :: size_t
  tcs_live_allocations :: size_t
  tcs_peak_live_allocations :: size_t

type_synonym thread_id = size_t
type_synonym cache_bins = "addr list list"

record thread_cache =
  tc_id :: size_t
  tc_cache_options :: thread_cache_options
  tc_selector :: size_class_selector
  tc_central :: segregated
  tc_shards :: "nat \<Rightarrow> addr \<rightharpoonup> allocation_record"
  tc_statistics :: thread_cache_statistics

type_synonym 'p cache_state = "'p world \<times> thread_cache"

definition shard_count :: size_t where
  "shard_count = 64"

definition fallback_class :: size_t where
  "fallback_class = - 1"

definition zero_cache_statistics :: thread_cache_statistics where
  "zero_cache_statistics =
     \<lparr>tcs_allocation_requests = 0, tcs_deallocation_requests = 0, tcs_cache_hits = 0, tcs_central_allocations = 0,
      tcs_central_deallocations = 0, tcs_local_deallocations = 0, tcs_remote_deallocations = 0, tcs_batch_refills = 0,
      tcs_batch_flushes = 0, tcs_cached_blocks = 0, tcs_peak_cached_blocks = 0, tcs_live_allocations = 0,
      tcs_peak_live_allocations = 0\<rparr>"

abbreviation tc_count :: "(thread_cache_statistics \<Rightarrow> thread_cache_statistics) \<Rightarrow> thread_cache \<Rightarrow> thread_cache" where
  "tc_count f tc \<equiv> tc\<lparr>tc_statistics := f (tc_statistics tc)\<rparr>"

section \<open>Construction\<close>

definition validate_cache_options :: "thread_cache_options \<Rightarrow> thread_cache_options result" where
  "validate_cache_options options =
     (if tco_high_watermark options = 0 then Inl InvalidArgument
      else if tco_high_watermark options = size_max then Inl InvalidArgument
      else if tco_low_watermark options > tco_high_watermark options then Inl InvalidArgument
      else if tco_refill_batch options = 0 \<or> tco_refill_batch options > tco_high_watermark options then Inl InvalidArgument
      else Inr options)"

text \<open>
  The number of the new allocator comes from a global counter. Copying the size classes for the selector may fail to
  get memory.
\<close>

definition tc_create ::
  "'p provider \<Rightarrow> size_t \<Rightarrow> segregated_options \<Rightarrow> thread_cache_options \<Rightarrow> 'p world \<Rightarrow> (thread_cache, 'p world) outcome" where
  "tc_create P next_allocator_id allocator_options cache_options w =
     (case validate_cache_options cache_options of
        Inl e \<Rightarrow> (Inl e, w)
      | Inr options \<Rightarrow>
          (case meta_alloc w of (ok_copy, w1) \<Rightarrow>
             if \<not> ok_copy then (Inl BadAlloc, w1)
             else case selector_create (sgo_size_classes allocator_options) of
               Inl e \<Rightarrow> (Inl e, w1)
             | Inr selector \<Rightarrow>
                 (case segregated_create P allocator_options w1 of
                    (Inl e, w2) \<Rightarrow> (Inl e, w2)
                  | (Inr central, w2) \<Rightarrow>
                      (Inr \<lparr>tc_id = next_allocator_id, tc_cache_options = options, tc_selector = selector,
                            tc_central = central, tc_shards = (\<lambda>_. Map.empty),
                            tc_statistics = zero_cache_statistics\<rparr>, w2))))"

definition class_count :: "thread_cache \<Rightarrow> nat" where
  "class_count tc = length (tc_selector tc)"

definition cache_capacity :: "thread_cache \<Rightarrow> size_t" where
  "cache_capacity tc = tco_high_watermark (tc_cache_options tc) + 1"

section \<open>Records and counters\<close>

definition shard_for :: "addr \<Rightarrow> nat" where
  "shard_for pointer = unat (drop_bit 4 pointer mod shard_count)"

definition find_record :: "thread_cache \<Rightarrow> addr \<Rightarrow> allocation_record option" where
  "find_record tc pointer = tc_shards tc (shard_for pointer) pointer"

definition put_record :: "addr \<Rightarrow> allocation_record \<Rightarrow> thread_cache \<Rightarrow> thread_cache" where
  "put_record pointer r tc =
     tc\<lparr>tc_shards := (tc_shards tc)(shard_for pointer := (tc_shards tc (shard_for pointer))(pointer \<mapsto> r))\<rparr>"

definition erase_record :: "addr \<Rightarrow> thread_cache \<Rightarrow> thread_cache" where
  "erase_record pointer tc =
     tc\<lparr>tc_shards := (tc_shards tc)(shard_for pointer := (tc_shards tc (shard_for pointer))(pointer := None))\<rparr>"

text \<open>
  The effect of \<^verbatim>\<open>update_peak\<close>. Its compare-and-exchange loop under interference by other threads is \<open>update_peak_loop\<close>
  in the theory \<open>Thread_Cache_Properties\<close>.
\<close>

definition update_peak :: "size_t \<Rightarrow> size_t \<Rightarrow> size_t" where
  "update_peak peak candidate = (if peak < candidate then candidate else peak)"

definition note_live_allocation :: "thread_cache \<Rightarrow> thread_cache" where
  "note_live_allocation tc =
     tc_count (\<lambda>s. let live = tcs_live_allocations s + 1
                   in s\<lparr>tcs_live_allocations := live,
                        tcs_peak_live_allocations := update_peak (tcs_peak_live_allocations s) live\<rparr>) tc"

definition note_cached_block :: "thread_cache \<Rightarrow> thread_cache" where
  "note_cached_block tc =
     tc_count (\<lambda>s. let cached = tcs_cached_blocks s + 1
                   in s\<lparr>tcs_cached_blocks := cached,
                        tcs_peak_cached_blocks := update_peak (tcs_peak_cached_blocks s) cached\<rparr>) tc"

section \<open>Central storage\<close>

definition central_allocate :: "'p provider \<Rightarrow> size_t \<Rightarrow> size_t \<Rightarrow> 'p cache_state \<Rightarrow> (addr, 'p cache_state) outcome" where
  "central_allocate P sz al s =
     (case s of (w, tc) \<Rightarrow>
        case segregated_allocate P sz al (w, tc_central tc) of
          (Inl e, (w', sa)) \<Rightarrow> (Inl e, (w', tc\<lparr>tc_central := sa\<rparr>))
        | (Inr pointer, (w', sa)) \<Rightarrow>
            (Inr pointer,
             (w', tc_count (\<lambda>s. s\<lparr>tcs_central_allocations := tcs_central_allocations s + 1\<rparr>) (tc\<lparr>tc_central := sa\<rparr>))))"

definition central_release ::
  "(unit, 'p world \<times> segregated) outcome \<Rightarrow> thread_cache \<Rightarrow> (unit, 'p cache_state) outcome" where
  "central_release x tc =
     (case x of
        (Inl e, (w', sa)) \<Rightarrow> (Inl e, (w', tc\<lparr>tc_central := sa\<rparr>))
      | (Inr _, (w', sa)) \<Rightarrow>
          (Inr (), (w', tc_count (\<lambda>s. s\<lparr>tcs_central_deallocations := tcs_central_deallocations s + 1\<rparr>)
                           (tc\<lparr>tc_central := sa\<rparr>))))"

definition central_deallocate :: "'p provider \<Rightarrow> addr \<Rightarrow> 'p cache_state \<Rightarrow> (unit, 'p cache_state) outcome" where
  "central_deallocate P pointer s =
     (case s of (w, tc) \<Rightarrow> central_release (segregated_deallocate P pointer (w, tc_central tc)) tc)"

definition central_deallocate_sized ::
  "'p provider \<Rightarrow> addr \<Rightarrow> size_t \<Rightarrow> size_t \<Rightarrow> 'p cache_state \<Rightarrow> (unit, 'p cache_state) outcome" where
  "central_deallocate_sized P pointer sz al s =
     (case s of (w, tc) \<Rightarrow> central_release (segregated_deallocate_sized P pointer sz al (w, tc_central tc)) tc)"

text \<open>\<^verbatim>\<open>emplace\<close> may fail to allocate its node; it does not replace an existing entry.\<close>

definition record_allocation ::
  "addr \<Rightarrow> allocation_record \<Rightarrow> 'p cache_state \<Rightarrow> (unit, 'p cache_state) outcome" where
  "record_allocation pointer r s =
     (case s of (w, tc) \<Rightarrow>
        case meta_alloc w of (ok_node, w1) \<Rightarrow>
          if \<not> ok_node then (Inl BadAlloc, (w1, tc))
          else if find_record tc pointer \<noteq> None then (Inl LogicError, (w1, tc))
          else (Inr (), (w1, put_record pointer r tc)))"

section \<open>Allocation\<close>

definition tc_allocate_fallback ::
  "'p provider \<Rightarrow> thread_id \<Rightarrow> size_t \<Rightarrow> size_t \<Rightarrow> 'p cache_state \<Rightarrow> (addr, 'p cache_state) outcome" where
  "tc_allocate_fallback P t request_size al s =
     (case central_allocate P request_size al s of
        (Inl e, s1) \<Rightarrow> (Inl e, s1)
      | (Inr pointer, s1) \<Rightarrow>
          (case record_allocation pointer
                  \<lparr>arec_class_index = fallback_class, arec_requested_size = request_size, arec_alignment = al,
                   arec_owner_thread = t, arec_active = True\<rparr> s1 of
             (Inl e, s2) \<Rightarrow>
               (case central_deallocate_sized P pointer request_size al s2 of
                  (Inl e', s3) \<Rightarrow> (Inl e', s3)
                | (Inr _, s3) \<Rightarrow> (Inl e, s3))
           | (Inr _, (w, tc)) \<Rightarrow> (Inr pointer, (w, note_live_allocation tc))))"

text \<open>The branch for a bin that is not empty; the first component of the state is the bin.\<close>

definition tc_allocate_cached ::
  "thread_id \<Rightarrow> addr list \<Rightarrow> size_t \<Rightarrow> size_t \<Rightarrow> 'p cache_state \<Rightarrow> (addr, addr list \<times> 'p cache_state) outcome" where
  "tc_allocate_cached t bin request_size al s =
     (case s of (w, tc) \<Rightarrow>
        let pointer = last bin; bin' = butlast bin in
        case find_record tc pointer of
          None \<Rightarrow> (Inl LogicError, (bin', s))
        | Some r \<Rightarrow>
            if arec_active r then (Inl LogicError, (bin', s))
            else (Inr pointer,
                  (bin', (w, note_live_allocation
                     (tc_count (\<lambda>s. s\<lparr>tcs_cache_hits := tcs_cache_hits s + 1,
                                       tcs_cached_blocks := tcs_cached_blocks s - 1\<rparr>)
                        (put_record pointer
                           (r\<lparr>arec_requested_size := request_size, arec_alignment := al,
                              arec_owner_thread := t, arec_active := True\<rparr>) tc))))))"

text \<open>
  The refill loop with the number of iterations that are left; \<open>first\<close> says that the index is zero. The
  result is the bin and the block for the caller.
\<close>

fun refill_loop ::
  "'p provider \<Rightarrow> thread_id \<Rightarrow> nat \<Rightarrow> size_t \<Rightarrow> size_t \<Rightarrow> nat \<Rightarrow> bool \<Rightarrow> addr \<Rightarrow> addr list \<Rightarrow> 'p cache_state \<Rightarrow>
   (addr, addr list \<times> 'p cache_state) outcome" where
  "refill_loop P t selected request_size al 0 first result bin s = (Inr result, (bin, s))"
| "refill_loop P t selected request_size al (Suc k) first result bin s =
     (case central_allocate P request_size al s of
        (Inl e, s1) \<Rightarrow> if first then (Inl e, (bin, s1)) else (Inr result, (bin, s1))
      | (Inr pointer, s1) \<Rightarrow>
          (case record_allocation pointer
                  \<lparr>arec_class_index = of_nat selected, arec_requested_size = request_size, arec_alignment = al,
                   arec_owner_thread = t, arec_active = first\<rparr> s1 of
             (Inl e, s2) \<Rightarrow>
               (case (if pointer \<noteq> nullptr then central_deallocate_sized P pointer request_size al s2 else (Inr (), s2)) of
                  (Inl e', s3) \<Rightarrow> (Inl e', (bin, s3))
                | (Inr _, s3) \<Rightarrow> if first then (Inl e, (bin, s3)) else (Inr result, (bin, s3)))
           | (Inr _, (w, tc)) \<Rightarrow>
               if first then refill_loop P t selected request_size al k False pointer bin (w, tc)
               else refill_loop P t selected request_size al k False result (bin @ [pointer]) (w, note_cached_block tc)))"

definition tc_allocate_refill ::
  "'p provider \<Rightarrow> thread_id \<Rightarrow> nat \<Rightarrow> addr list \<Rightarrow> size_t \<Rightarrow> size_t \<Rightarrow> 'p cache_state \<Rightarrow>
   (addr, addr list \<times> 'p cache_state) outcome" where
  "tc_allocate_refill P t selected bin request_size al s =
     (case s of (w, tc) \<Rightarrow>
        let tc1 = tc_count (\<lambda>s. s\<lparr>tcs_batch_refills := tcs_batch_refills s + 1\<rparr>) tc in
        case refill_loop P t selected request_size al (unat (tco_refill_batch (tc_cache_options tc1))) True nullptr bin (w, tc1) of
          (Inl e, x) \<Rightarrow> (Inl e, x)
        | (Inr result, (bin', (w', tc'))) \<Rightarrow> (Inr result, (bin', (w', note_live_allocation tc'))))"

definition tc_allocate ::
  "'p provider \<Rightarrow> thread_id \<Rightarrow> cache_bins \<Rightarrow> size_t \<Rightarrow> size_t \<Rightarrow> 'p cache_state \<Rightarrow> (addr, cache_bins \<times> 'p cache_state) outcome" where
  "tc_allocate P t bins sz al s =
     (case s of (w, tc) \<Rightarrow>
        let tc0 = tc_count (\<lambda>s. s\<lparr>tcs_allocation_requests := tcs_allocation_requests s + 1\<rparr>) tc;
            request_size = normalize_size sz
        in case selector_select (tc_selector tc0) request_size al of
             Inl e \<Rightarrow> (Inl e, (bins, (w, tc0)))
           | Inr None \<Rightarrow> (case tc_allocate_fallback P t request_size al (w, tc0) of (r, s') \<Rightarrow> (r, (bins, s')))
           | Inr (Some selected) \<Rightarrow>
               (case (if bins ! selected \<noteq> []
                      then tc_allocate_cached t (bins ! selected) request_size al (w, tc0)
                      else tc_allocate_refill P t selected (bins ! selected) request_size al (w, tc0)) of
                  (r, (bin, s')) \<Rightarrow> (r, (bins[selected := bin], s'))))"

section \<open>Deallocation\<close>

definition validate_sized_deallocation :: "thread_cache \<Rightarrow> allocation_record \<Rightarrow> size_t \<Rightarrow> size_t \<Rightarrow> unit result" where
  "validate_sized_deallocation tc r sz al =
     (let request_size = normalize_size sz in
      if arec_class_index r = fallback_class
      then (if arec_requested_size r \<noteq> request_size \<or> arec_alignment r \<noteq> al then Inl AllocationMismatchError else Inr ())
      else case selector_select (tc_selector tc) request_size al of
             Inl e \<Rightarrow> Inl e
           | Inr None \<Rightarrow> Inl AllocationMismatchError
           | Inr (Some selected) \<Rightarrow>
               if of_nat selected \<noteq> arec_class_index r then Inl AllocationMismatchError else Inr ())"

text \<open>The loop of \<^verbatim>\<open>flush_bin\<close>: blocks leave from the back of the bin.\<close>

function flush_loop ::
  "'p provider \<Rightarrow> size_t \<Rightarrow> addr list \<Rightarrow> size_t \<Rightarrow> 'p cache_state \<Rightarrow> (size_t, addr list \<times> 'p cache_state) outcome" where
  "flush_loop P target bin released s =
     (if unat target < length bin
      then (case find_record (snd s) (last bin) of
              None \<Rightarrow> (Inl LogicError, (bin, s))
            | Some r \<Rightarrow>
                if arec_active r then (Inl LogicError, (bin, s))
                else (case central_deallocate P (last bin) s of
                        (Inl e, s') \<Rightarrow> (Inl e, (bin, s'))
                      | (Inr _, (w, tc)) \<Rightarrow>
                          flush_loop P target (butlast bin) (released + 1)
                            (w, tc_count (\<lambda>s. s\<lparr>tcs_cached_blocks := tcs_cached_blocks s - 1\<rparr>)
                                  (erase_record (last bin) tc))))
      else (Inr released, (bin, s)))"
  by pat_completeness auto
termination
  by (relation "measure (\<lambda>(P, target, bin, released, s). length bin)") auto

declare flush_loop.simps [simp del]

definition flush_bin ::
  "'p provider \<Rightarrow> addr list \<Rightarrow> size_t \<Rightarrow> 'p cache_state \<Rightarrow> (size_t, addr list \<times> 'p cache_state) outcome" where
  "flush_bin P bin target s =
     (case flush_loop P target bin 0 s of
        (Inl e, x) \<Rightarrow> (Inl e, x)
      | (Inr released, (bin', (w, tc))) \<Rightarrow>
          (Inr released,
           (bin', (w, if released \<noteq> 0
                      then tc_count (\<lambda>s. s\<lparr>tcs_batch_flushes := tcs_batch_flushes s + 1\<rparr>) tc else tc))))"

fun flush_bins ::
  "'p provider \<Rightarrow> cache_bins \<Rightarrow> size_t \<Rightarrow> 'p cache_state \<Rightarrow> (size_t, cache_bins \<times> 'p cache_state) outcome" where
  "flush_bins P [] released s = (Inr released, ([], s))"
| "flush_bins P (bin # bins) released s =
     (case flush_bin P bin 0 s of
        (Inl e, (bin', s')) \<Rightarrow> (Inl e, (bin' # bins, s'))
      | (Inr n, (bin', s')) \<Rightarrow>
          (case flush_bins P bins (released + n) s' of (r, (bins', s'')) \<Rightarrow> (r, (bin' # bins', s''))))"

text \<open>The branch for blocks of another thread and for direct allocations.\<close>

definition tc_deallocate_central ::
  "'p provider \<Rightarrow> addr \<Rightarrow> (size_t \<times> size_t) option \<Rightarrow> bool \<Rightarrow> 'p cache_state \<Rightarrow> (unit, 'p cache_state) outcome" where
  "tc_deallocate_central P pointer sized remote s =
     (case (case sized of
              Some (sz, al) \<Rightarrow> central_deallocate_sized P pointer sz al s
            | None \<Rightarrow> central_deallocate P pointer s) of
        (Inl e, s') \<Rightarrow> (Inl e, s')
      | (Inr _, (w, tc)) \<Rightarrow>
          (Inr (), (w, tc_count (\<lambda>s. s\<lparr>tcs_remote_deallocations := tcs_remote_deallocations s + (if remote then 1 else 0),
                                        tcs_live_allocations := tcs_live_allocations s - 1\<rparr>)
                          (erase_record pointer tc))))"

text \<open>The branch for pooled blocks of the calling thread.\<close>

definition tc_deallocate_local ::
  "'p provider \<Rightarrow> cache_bins \<Rightarrow> addr \<Rightarrow> allocation_record \<Rightarrow> 'p cache_state \<Rightarrow> (unit, cache_bins \<times> 'p cache_state) outcome" where
  "tc_deallocate_local P bins pointer r s =
     (case s of (w, tc) \<Rightarrow>
        let i = unat (arec_class_index r);
            tc1 = note_cached_block
                    (tc_count (\<lambda>s. s\<lparr>tcs_local_deallocations := tcs_local_deallocations s + 1,
                                      tcs_live_allocations := tcs_live_allocations s - 1\<rparr>)
                       (put_record pointer (r\<lparr>arec_active := False\<rparr>) tc));
            bin = bins ! i @ [pointer]
        in if unat (tco_high_watermark (tc_cache_options tc1)) < length bin
           then (case flush_bin P bin (tco_low_watermark (tc_cache_options tc1)) (w, tc1) of
                   (Inl e, (bin', s')) \<Rightarrow> (Inl e, (bins[i := bin'], s'))
                 | (Inr _, (bin', s')) \<Rightarrow> (Inr (), (bins[i := bin'], s')))
           else (Inr (), (bins[i := bin], (w, tc1))))"

definition tc_deallocate ::
  "'p provider \<Rightarrow> thread_id \<Rightarrow> cache_bins \<Rightarrow> addr \<Rightarrow> (size_t \<times> size_t) option \<Rightarrow> 'p cache_state \<Rightarrow>
   (unit, cache_bins \<times> 'p cache_state) outcome" where
  "tc_deallocate P t bins pointer sized s =
     (case s of (w, tc) \<Rightarrow>
        let tc0 = tc_count (\<lambda>s. s\<lparr>tcs_deallocation_requests := tcs_deallocation_requests s + 1\<rparr>) tc in
        case find_record tc0 pointer of
          None \<Rightarrow> (Inl InvalidPoolPointer, (bins, (w, tc0)))
        | Some r \<Rightarrow>
            if \<not> arec_active r then (Inl DoubleFreeError, (bins, (w, tc0)))
            else case (case sized of
                         Some (sz, al) \<Rightarrow> validate_sized_deallocation tc0 r sz al
                       | None \<Rightarrow> Inr ()) of
              Inl e \<Rightarrow> (Inl e, (bins, (w, tc0)))
            | Inr _ \<Rightarrow>
                let remote = arec_owner_thread r \<noteq> t; fallback = arec_class_index r = fallback_class
                in if remote \<or> fallback
                   then (case tc_deallocate_central P pointer sized remote (w, tc0) of (x, s') \<Rightarrow> (x, (bins, s')))
                   else tc_deallocate_local P bins pointer r (w, tc0))"

section \<open>Queries\<close>

definition tc_owns :: "thread_cache \<Rightarrow> addr \<Rightarrow> bool" where
  "tc_owns tc pointer \<longleftrightarrow> (if pointer = nullptr then False else find_record tc pointer \<noteq> None)"

definition tc_owning_size_class :: "thread_cache \<Rightarrow> addr \<Rightarrow> size_t option result" where
  "tc_owning_size_class tc pointer =
     (if pointer = nullptr then Inr None
      else case find_record tc pointer of
        None \<Rightarrow> Inr None
      | Some r \<Rightarrow>
          if arec_class_index r = fallback_class then Inr None
          else bind_result (selector_class_size (tc_selector tc) (unat (arec_class_index r))) (\<lambda>c. Inr (Some c)))"

end
