(* ===== verification/Thread_Cached_Allocator.thy ===== *)
theory Thread_Cached_Allocator
  imports Thread_Cache
begin

text \<open>
  \<^verbatim>\<open>src/thread_cached_allocator.cpp\<close>: the public allocator and the thread-local registry of caches. The state
  keeps, for every thread, the entry of that thread's registry for this allocator. The numbers of
  allocators are never reused, so an entry for this allocator belongs to it as long as it exists.
\<close>

record thread_cached =
  tca_state :: thread_cache
  tca_caches :: "thread_id \<Rightarrow> cache_bins option"

type_synonym 'p cached_state = "'p world \<times> thread_cached"

definition tca_create ::
  "'p provider \<Rightarrow> size_t \<Rightarrow> segregated_options \<Rightarrow> thread_cache_options \<Rightarrow> 'p world \<Rightarrow> (thread_cached, 'p world) outcome" where
  "tca_create P next_allocator_id allocator_options cache_options w =
     (case meta_alloc w of (ok_impl, w1) \<Rightarrow>
        if \<not> ok_impl then (Inl BadAlloc, w1)
        else case meta_alloc w1 of (ok_state, w2) \<Rightarrow>
          if \<not> ok_state then (Inl BadAlloc, w2)
          else case tc_create P next_allocator_id allocator_options cache_options w2 of
            (Inl e, w3) \<Rightarrow> (Inl e, w3)
          | (Inr tc, w3) \<Rightarrow> (Inr \<lparr>tca_state = tc, tca_caches = (\<lambda>_. None)\<rparr>, w3))"

section \<open>The registry of a thread\<close>

text \<open>\<^verbatim>\<open>max_size()\<close> of a vector of pointers.\<close>

definition vector_max_size :: size_t where
  "vector_max_size = 2 ^ 60 - 1"

fun reserve_bins :: "size_t \<Rightarrow> nat \<Rightarrow> 'p world \<Rightarrow> (unit, 'p world) outcome" where
  "reserve_bins capacity 0 w = (Inr (), w)"
| "reserve_bins capacity (Suc n) w =
     (if capacity > vector_max_size then (Inl LengthError, w)
      else case meta_alloc w of (ok_bin, w1) \<Rightarrow>
        if \<not> ok_bin then (Inl BadAlloc, w1) else reserve_bins capacity n w1)"

definition registry_get :: "thread_id \<Rightarrow> 'p cached_state \<Rightarrow> (cache_bins, 'p cached_state) outcome" where
  "registry_get t s =
     (case s of (w, x) \<Rightarrow>
        case tca_caches x t of
          Some bins \<Rightarrow> (Inr bins, s)
        | None \<Rightarrow>
            (case meta_alloc w of (ok_resize, w1) \<Rightarrow>
               if \<not> ok_resize then (Inl BadAlloc, (w1, x))
               else case reserve_bins (cache_capacity (tca_state x)) (class_count (tca_state x)) w1 of
                 (Inl e, w2) \<Rightarrow> (Inl e, (w2, x))
               | (Inr _, w2) \<Rightarrow>
                   (case meta_alloc w2 of (ok_emplace, w3) \<Rightarrow>
                      if \<not> ok_emplace then (Inl BadAlloc, (w3, x))
                      else let bins = replicate (class_count (tca_state x)) []
                           in (Inr bins, (w3, x\<lparr>tca_caches := (tca_caches x)(t \<mapsto> bins)\<rparr>)))))"

definition put_cache :: "thread_id \<Rightarrow> thread_cached \<Rightarrow> cache_bins \<times> 'p cache_state \<Rightarrow> 'p cached_state" where
  "put_cache t x y =
     (case y of (bins, (w, tc)) \<Rightarrow> (w, x\<lparr>tca_state := tc, tca_caches := (tca_caches x)(t \<mapsto> bins)\<rparr>))"

definition registry_release :: "'p provider \<Rightarrow> thread_id \<Rightarrow> 'p cached_state \<Rightarrow> (size_t, 'p cached_state) outcome" where
  "registry_release P t s =
     (case s of (w, x) \<Rightarrow>
        case tca_caches x t of
          None \<Rightarrow> (Inr 0, s)
        | Some bins \<Rightarrow>
            (case flush_bins P bins 0 (w, tca_state x) of
               (Inl e, y) \<Rightarrow> (Inl e, put_cache t x y)
             | (Inr released, y) \<Rightarrow>
                 (case put_cache t x y of (w', x') \<Rightarrow> (Inr released, (w', x'\<lparr>tca_caches := (tca_caches x')(t := None)\<rparr>)))))"

text \<open>The destructor of the registry when a thread ends: exceptions are swallowed and the entry goes in any case.\<close>

definition registry_exit :: "'p provider \<Rightarrow> thread_id \<Rightarrow> 'p cached_state \<Rightarrow> 'p cached_state" where
  "registry_exit P t s =
     (case s of (w, x) \<Rightarrow>
        case tca_caches x t of
          None \<Rightarrow> s
        | Some bins \<Rightarrow>
            (case flush_bins P bins 0 (w, tca_state x) of
               (_, y) \<Rightarrow> (case put_cache t x y of (w', x') \<Rightarrow> (w', x'\<lparr>tca_caches := (tca_caches x')(t := None)\<rparr>))))"

section \<open>The allocator\<close>

definition tca_allocate ::
  "'p provider \<Rightarrow> thread_id \<Rightarrow> size_t \<Rightarrow> size_t \<Rightarrow> 'p cached_state \<Rightarrow> (addr, 'p cached_state) outcome" where
  "tca_allocate P t sz al s =
     (case registry_get t s of
        (Inl e, s1) \<Rightarrow> (Inl e, s1)
      | (Inr bins, (w, x)) \<Rightarrow>
          (case tc_allocate P t bins sz al (w, tca_state x) of (r, y) \<Rightarrow> (r, put_cache t x y)))"

text \<open>The two overloads of \<^verbatim>\<open>deallocate\<close>; \<open>sized\<close> is present in the one that takes a size and an alignment.\<close>

definition tca_deallocate ::
  "'p provider \<Rightarrow> thread_id \<Rightarrow> addr \<Rightarrow> (size_t \<times> size_t) option \<Rightarrow> 'p cached_state \<Rightarrow> (unit, 'p cached_state) outcome" where
  "tca_deallocate P t pointer sized s =
     (if pointer = nullptr then (Inr (), s)
      else case registry_get t s of
        (Inl e, s1) \<Rightarrow> (Inl e, s1)
      | (Inr bins, (w, x)) \<Rightarrow>
          (case tc_deallocate P t bins pointer sized (w, tca_state x) of (r, y) \<Rightarrow> (r, put_cache t x y)))"

definition release_current_thread_cache ::
  "'p provider \<Rightarrow> thread_id \<Rightarrow> 'p cached_state \<Rightarrow> (size_t, 'p cached_state) outcome" where
  "release_current_thread_cache P t s = registry_release P t s"

definition tca_owns :: "thread_cached \<Rightarrow> addr \<Rightarrow> bool" where
  "tca_owns x pointer \<longleftrightarrow> tc_owns (tca_state x) pointer"

text \<open>The destructor: the cache of the calling thread is released, exceptions are swallowed, and the shared state goes.\<close>

definition tca_destroy :: "'p provider \<Rightarrow> thread_id \<Rightarrow> 'p cached_state \<Rightarrow> 'p world" where
  "tca_destroy P t s =
     (case registry_release P t s of (_, (w, x)) \<Rightarrow> segregated_destroy P (tc_central (tca_state x)) w)"

end
