(* ===== verification/Thread_Cache_Steps.thy ===== *)
theory Thread_Cache_Steps
  imports Thread_Cached_Allocator
begin

text \<open>
  The calls of \<^verbatim>\<open>ThreadCachedAllocator\<close> cut at their critical sections. A thread is at one of the points between two
  critical sections of \<^verbatim>\<open>allocate\<close>, \<^verbatim>\<open>deallocate\<close>, \<^verbatim>\<open>flush_bin\<close> and the registry; \<open>tc_step\<close> runs it to the next one. The mutexes of the
  record shards are explicit, since \<^verbatim>\<open>deallocate\<close> and \<^verbatim>\<open>flush_bin\<close> hold one while they call the central allocator. The section under
  \<^verbatim>\<open>central_mutex_\<close> contains no other section and is one step. Bins belong to one thread, so the code between two
  sections is part of a step. Counters are updated in the step of the code beside them.
\<close>

section \<open>Points of a call\<close>

datatype tc_answer =
    AnsPointer addr
  | AnsUnit
  | AnsCount size_t

text \<open>
  What a flush is part of: \<^verbatim>\<open>deallocate\<close>, which empties one bin to the low watermark, or \<^verbatim>\<open>flush_bins\<close>, which empties all and
  counts; the flag says that the thread ends, so that exceptions are swallowed.
\<close>

datatype flush_goal =
    FlushBin
  | FlushAll size_t bool

datatype tc_point =
    TIdle
  | TAllocate size_t size_t
  | TFallbackCentral size_t size_t
  | TFallbackRecord addr size_t size_t
  | TFallbackUndo addr size_t size_t exn
  | THit addr nat size_t size_t
  | TRefill nat size_t size_t nat "addr option"
  | TRefillRecord addr nat size_t size_t nat "addr option"
  | TRefillUndo addr exn nat size_t size_t "addr option"
  | TDeallocate addr "(size_t \<times> size_t) option"
  | TFreeRecord addr "(size_t \<times> size_t) option"
  | TFreeCentral addr "(size_t \<times> size_t) option" bool
  | TFreeErase addr bool
  | TPush addr nat
  | TFlush flush_goal nat size_t
  | TFlushCentral flush_goal nat addr size_t
  | TFlushErase flush_goal nat addr size_t
  | TRelease bool
  | TDone "tc_answer result"

text \<open>
  What a step does to the blocks that are out with the clients: it hands one out, or takes one back. \<open>Returned\<close> is the end of the call.
\<close>

datatype tc_event =
    Silent
  | Acquired addr size_t size_t
  | Dropped addr
  | Returned "tc_answer result"

record 'p tc_config =
  cf_state :: "'p cached_state"
  cf_mutex :: "nat \<Rightarrow> thread_id option"
  cf_point :: "thread_id \<Rightarrow> tc_point"

definition goto :: "thread_id \<Rightarrow> tc_point \<Rightarrow> 'p cached_state \<Rightarrow> 'p tc_config \<Rightarrow> 'p tc_config" where
  "goto t pc s c = c\<lparr>cf_state := s, cf_point := (cf_point c)(t := pc)\<rparr>"

definition lock_shard :: "thread_id \<Rightarrow> addr \<Rightarrow> 'p tc_config \<Rightarrow> 'p tc_config" where
  "lock_shard t pointer c = c\<lparr>cf_mutex := (cf_mutex c)(shard_for pointer := Some t)\<rparr>"

definition unlock_shard :: "addr \<Rightarrow> 'p tc_config \<Rightarrow> 'p tc_config" where
  "unlock_shard pointer c = c\<lparr>cf_mutex := (cf_mutex c)(shard_for pointer := None)\<rparr>"

definition shard_free :: "addr \<Rightarrow> 'p tc_config \<Rightarrow> bool" where
  "shard_free pointer c \<longleftrightarrow> cf_mutex c (shard_for pointer) = None"

definition share :: "thread_cached \<Rightarrow> 'p cache_state \<Rightarrow> 'p cached_state" where
  "share x s = (case s of (w, tc) \<Rightarrow> (w, x\<lparr>tca_state := tc\<rparr>))"

definition local_bins :: "thread_id \<Rightarrow> thread_cached \<Rightarrow> cache_bins" where
  "local_bins t x = (case tca_caches x t of None \<Rightarrow> [] | Some bins \<Rightarrow> bins)"

section \<open>The steps\<close>

definition step_allocate :: "thread_id \<Rightarrow> size_t \<Rightarrow> size_t \<Rightarrow> 'p tc_config \<Rightarrow> 'p tc_config" where
  "step_allocate t sz al c =
     (case registry_get t (cf_state c) of
        (Inl e, s) \<Rightarrow> goto t (TDone (Inl e)) s c
      | (Inr bins, (w, x)) \<Rightarrow>
          let tc = tc_count (\<lambda>s. s\<lparr>tcs_allocation_requests := tcs_allocation_requests s + 1\<rparr>) (tca_state x)
          in case selector_select (tc_selector tc) (normalize_size sz) al of
               Inl e \<Rightarrow> goto t (TDone (Inl e)) (share x (w, tc)) c
             | Inr None \<Rightarrow> goto t (TFallbackCentral sz al) (share x (w, tc)) c
             | Inr (Some i) \<Rightarrow>
                 if bins ! i \<noteq> []
                 then goto t (THit (last (bins ! i)) i sz al) (put_cache t x (bins[i := butlast (bins ! i)], (w, tc))) c
                 else goto t (TRefill i sz al (unat (tco_refill_batch (tc_cache_options tc))) None)
                        (share x (w, tc_count (\<lambda>s. s\<lparr>tcs_batch_refills := tcs_batch_refills s + 1\<rparr>) tc)) c)"

definition step_fallback_central :: "'p provider \<Rightarrow> thread_id \<Rightarrow> size_t \<Rightarrow> size_t \<Rightarrow> 'p tc_config \<Rightarrow> 'p tc_config" where
  "step_fallback_central P t sz al c =
     (case cf_state c of (w, x) \<Rightarrow>
        case central_allocate P (normalize_size sz) al (w, tca_state x) of
          (Inl e, s) \<Rightarrow> goto t (TDone (Inl e)) (share x s) c
        | (Inr pointer, s) \<Rightarrow> goto t (TFallbackRecord pointer sz al) (share x s) c)"

definition step_fallback_record :: "thread_id \<Rightarrow> addr \<Rightarrow> size_t \<Rightarrow> size_t \<Rightarrow> 'p tc_config \<Rightarrow> tc_event \<times> 'p tc_config" where
  "step_fallback_record t pointer sz al c =
     (case cf_state c of (w, x) \<Rightarrow>
        case record_allocation pointer
               \<lparr>arec_class_index = fallback_class, arec_requested_size = normalize_size sz, arec_alignment = al,
                arec_owner_thread = t, arec_active = True\<rparr> (w, tca_state x) of
          (Inl e, s) \<Rightarrow> (Silent, goto t (TFallbackUndo pointer sz al e) (share x s) c)
        | (Inr _, (w', tc)) \<Rightarrow>
            (Acquired pointer sz al, goto t (TDone (Inr (AnsPointer pointer))) (share x (w', note_live_allocation tc)) c))"

definition step_fallback_undo :: "'p provider \<Rightarrow> thread_id \<Rightarrow> addr \<Rightarrow> size_t \<Rightarrow> size_t \<Rightarrow> exn \<Rightarrow> 'p tc_config \<Rightarrow> 'p tc_config" where
  "step_fallback_undo P t pointer sz al e c =
     (case cf_state c of (w, x) \<Rightarrow>
        case central_deallocate_sized P pointer (normalize_size sz) al (w, tca_state x) of
          (Inl e', s) \<Rightarrow> goto t (TDone (Inl e')) (share x s) c
        | (Inr _, s) \<Rightarrow> goto t (TDone (Inl e)) (share x s) c)"

definition step_hit :: "thread_id \<Rightarrow> addr \<Rightarrow> size_t \<Rightarrow> size_t \<Rightarrow> 'p tc_config \<Rightarrow> tc_event \<times> 'p tc_config" where
  "step_hit t pointer sz al c =
     (case cf_state c of (w, x) \<Rightarrow>
        case find_record (tca_state x) pointer of
          None \<Rightarrow> (Silent, goto t (TDone (Inl LogicError)) (w, x) c)
        | Some r \<Rightarrow>
            if arec_active r then (Silent, goto t (TDone (Inl LogicError)) (w, x) c)
            else (Acquired pointer sz al,
                  goto t (TDone (Inr (AnsPointer pointer)))
                    (share x (w, note_live_allocation
                       (tc_count (\<lambda>s. s\<lparr>tcs_cache_hits := tcs_cache_hits s + 1,
                                         tcs_cached_blocks := tcs_cached_blocks s - 1\<rparr>)
                          (put_record pointer
                             (r\<lparr>arec_requested_size := normalize_size sz, arec_alignment := al,
                                arec_owner_thread := t, arec_active := True\<rparr>) (tca_state x))))) c))"

text \<open>
  The loop of the refill. The number of iterations that are left is zero when the loop ends, also by \<^verbatim>\<open>break\<close>; the last component is the block for
  the caller, none in the first iteration.
\<close>

definition step_refill ::
  "'p provider \<Rightarrow> thread_id \<Rightarrow> nat \<Rightarrow> size_t \<Rightarrow> size_t \<Rightarrow> nat \<Rightarrow> addr option \<Rightarrow> 'p tc_config \<Rightarrow> 'p tc_config" where
  "step_refill P t i sz al k result c =
     (case cf_state c of (w, x) \<Rightarrow>
        case k of
          0 \<Rightarrow> goto t (TDone (Inr (AnsPointer (case result of None \<Rightarrow> nullptr | Some pointer \<Rightarrow> pointer))))
                 (share x (w, note_live_allocation (tca_state x))) c
        | Suc j \<Rightarrow>
            (case central_allocate P (normalize_size sz) al (w, tca_state x) of
               (Inl e, s) \<Rightarrow>
                 (case result of
                    None \<Rightarrow> goto t (TDone (Inl e)) (share x s) c
                  | Some _ \<Rightarrow> goto t (TRefill i sz al 0 result) (share x s) c)
             | (Inr pointer, s) \<Rightarrow> goto t (TRefillRecord pointer i sz al j result) (share x s) c))"

definition step_refill_record ::
  "thread_id \<Rightarrow> addr \<Rightarrow> nat \<Rightarrow> size_t \<Rightarrow> size_t \<Rightarrow> nat \<Rightarrow> addr option \<Rightarrow> 'p tc_config \<Rightarrow> tc_event \<times> 'p tc_config" where
  "step_refill_record t pointer i sz al k result c =
     (case cf_state c of (w, x) \<Rightarrow>
        case record_allocation pointer
               \<lparr>arec_class_index = of_nat i, arec_requested_size = normalize_size sz, arec_alignment = al,
                arec_owner_thread = t, arec_active = (result = None)\<rparr> (w, tca_state x) of
          (Inl e, s) \<Rightarrow> (Silent, goto t (TRefillUndo pointer e i sz al result) (share x s) c)
        | (Inr _, (w', tc)) \<Rightarrow>
            (case result of
               None \<Rightarrow> (Acquired pointer sz al, goto t (TRefill i sz al k (Some pointer)) (share x (w', tc)) c)
             | Some _ \<Rightarrow>
                 (Silent,
                  goto t (TRefill i sz al k result)
                    (put_cache t x ((local_bins t x)[i := local_bins t x ! i @ [pointer]], (w', note_cached_block tc))) c)))"

definition step_refill_undo ::
  "'p provider \<Rightarrow> thread_id \<Rightarrow> addr \<Rightarrow> exn \<Rightarrow> nat \<Rightarrow> size_t \<Rightarrow> size_t \<Rightarrow> addr option \<Rightarrow> 'p tc_config \<Rightarrow> 'p tc_config" where
  "step_refill_undo P t pointer e i sz al result c =
     (case cf_state c of (w, x) \<Rightarrow>
        case (if pointer \<noteq> nullptr then central_deallocate_sized P pointer (normalize_size sz) al (w, tca_state x)
              else (Inr (), (w, tca_state x))) of
          (Inl e', s) \<Rightarrow> goto t (TDone (Inl e')) (share x s) c
        | (Inr _, s) \<Rightarrow>
            (case result of
               None \<Rightarrow> goto t (TDone (Inl e)) (share x s) c
             | Some _ \<Rightarrow> goto t (TRefill i sz al 0 result) (share x s) c))"

definition step_deallocate :: "thread_id \<Rightarrow> addr \<Rightarrow> (size_t \<times> size_t) option \<Rightarrow> 'p tc_config \<Rightarrow> 'p tc_config" where
  "step_deallocate t pointer sized c =
     (if pointer = nullptr then goto t (TDone (Inr AnsUnit)) (cf_state c) c
      else case registry_get t (cf_state c) of
        (Inl e, s) \<Rightarrow> goto t (TDone (Inl e)) s c
      | (Inr _, (w, x)) \<Rightarrow>
          goto t (TFreeRecord pointer sized)
            (share x (w, tc_count (\<lambda>s. s\<lparr>tcs_deallocation_requests := tcs_deallocation_requests s + 1\<rparr>) (tca_state x))) c)"

text \<open>The section under the lock of the shard; for blocks of other threads and direct allocations it stays locked.\<close>

definition step_free_record :: "thread_id \<Rightarrow> addr \<Rightarrow> (size_t \<times> size_t) option \<Rightarrow> 'p tc_config \<Rightarrow> tc_event \<times> 'p tc_config" where
  "step_free_record t pointer sized c =
     (case cf_state c of (w, x) \<Rightarrow>
        case find_record (tca_state x) pointer of
          None \<Rightarrow> (Silent, goto t (TDone (Inl InvalidPoolPointer)) (w, x) c)
        | Some r \<Rightarrow>
            if \<not> arec_active r then (Silent, goto t (TDone (Inl DoubleFreeError)) (w, x) c)
            else case (case sized of
                         Some (sz, al) \<Rightarrow> validate_sized_deallocation (tca_state x) r sz al
                       | None \<Rightarrow> Inr ()) of
              Inl e \<Rightarrow> (Silent, goto t (TDone (Inl e)) (w, x) c)
            | Inr _ \<Rightarrow>
                let remote = arec_owner_thread r \<noteq> t; fallback = arec_class_index r = fallback_class
                in if remote \<or> fallback
                   then (Silent, goto t (TFreeCentral pointer sized remote) (w, x) (lock_shard t pointer c))
                   else (Dropped pointer,
                         goto t (TPush pointer (unat (arec_class_index r)))
                           (share x (w, note_cached_block
                              (tc_count (\<lambda>s. s\<lparr>tcs_local_deallocations := tcs_local_deallocations s + 1,
                                                tcs_live_allocations := tcs_live_allocations s - 1\<rparr>)
                                 (put_record pointer (r\<lparr>arec_active := False\<rparr>) (tca_state x))))) c))"

definition step_free_central ::
  "'p provider \<Rightarrow> thread_id \<Rightarrow> addr \<Rightarrow> (size_t \<times> size_t) option \<Rightarrow> bool \<Rightarrow> 'p tc_config \<Rightarrow> tc_event \<times> 'p tc_config" where
  "step_free_central P t pointer sized remote c =
     (case cf_state c of (w, x) \<Rightarrow>
        case (case sized of
                Some (sz, al) \<Rightarrow> central_deallocate_sized P pointer sz al (w, tca_state x)
              | None \<Rightarrow> central_deallocate P pointer (w, tca_state x)) of
          (Inl e, s) \<Rightarrow> (Silent, goto t (TDone (Inl e)) (share x s) (unlock_shard pointer c))
        | (Inr _, s) \<Rightarrow> (Dropped pointer, goto t (TFreeErase pointer remote) (share x s) c))"

definition step_free_erase :: "thread_id \<Rightarrow> addr \<Rightarrow> bool \<Rightarrow> 'p tc_config \<Rightarrow> 'p tc_config" where
  "step_free_erase t pointer remote c =
     (case cf_state c of (w, x) \<Rightarrow>
        goto t (TDone (Inr AnsUnit))
          (share x (w, tc_count (\<lambda>s. s\<lparr>tcs_remote_deallocations := tcs_remote_deallocations s + (if remote then 1 else 0),
                                        tcs_live_allocations := tcs_live_allocations s - 1\<rparr>)
                          (erase_record pointer (tca_state x)))) (unlock_shard pointer c))"

definition step_push :: "thread_id \<Rightarrow> addr \<Rightarrow> nat \<Rightarrow> 'p tc_config \<Rightarrow> 'p tc_config" where
  "step_push t pointer i c =
     (case cf_state c of (w, x) \<Rightarrow>
        let bin = local_bins t x ! i @ [pointer]; s = put_cache t x ((local_bins t x)[i := bin], (w, tca_state x))
        in if unat (tco_high_watermark (tc_cache_options (tca_state x))) < length bin
           then goto t (TFlush FlushBin i 0) s c
           else goto t (TDone (Inr AnsUnit)) s c)"

definition flush_target :: "flush_goal \<Rightarrow> thread_cache \<Rightarrow> size_t" where
  "flush_target goal tc = (case goal of FlushBin \<Rightarrow> tco_low_watermark (tc_cache_options tc) | FlushAll _ _ \<Rightarrow> 0)"

text \<open>An exception in a flush: at the end of a thread it is swallowed and the cache goes.\<close>

definition flush_failed :: "thread_id \<Rightarrow> flush_goal \<Rightarrow> exn \<Rightarrow> 'p cached_state \<Rightarrow> 'p tc_config \<Rightarrow> 'p tc_config" where
  "flush_failed t goal e s c =
     (case goal of
        FlushAll _ True \<Rightarrow>
          (case s of (w, x) \<Rightarrow> goto t (TDone (Inr AnsUnit)) (w, x\<lparr>tca_caches := (tca_caches x)(t := None)\<rparr>) c)
      | _ \<Rightarrow> goto t (TDone (Inl e)) s c)"

definition flush_next :: "thread_id \<Rightarrow> flush_goal \<Rightarrow> nat \<Rightarrow> size_t \<Rightarrow> 'p cached_state \<Rightarrow> 'p tc_config \<Rightarrow> 'p tc_config" where
  "flush_next t goal i released s c =
     (case s of (w, x) \<Rightarrow>
        let s' = share x (w, if released \<noteq> 0
                             then tc_count (\<lambda>s. s\<lparr>tcs_batch_flushes := tcs_batch_flushes s + 1\<rparr>) (tca_state x)
                             else tca_state x)
        in case goal of
             FlushBin \<Rightarrow> goto t (TDone (Inr AnsUnit)) s' c
           | FlushAll all_released ending \<Rightarrow> goto t (TFlush (FlushAll (all_released + released) ending) (Suc i) 0) s' c)"

text \<open>The test of the loop and, when a block has to go, the look at its record; the step waits for the lock of its shard.\<close>

definition step_flush_bin :: "thread_id \<Rightarrow> flush_goal \<Rightarrow> nat \<Rightarrow> size_t \<Rightarrow> 'p tc_config \<Rightarrow> 'p tc_config option" where
  "step_flush_bin t goal i released c =
     (case cf_state c of (w, x) \<Rightarrow>
        let bin = local_bins t x ! i; pointer = last bin in
        if unat (flush_target goal (tca_state x)) < length bin
        then (if \<not> shard_free pointer c then None
              else case find_record (tca_state x) pointer of
                None \<Rightarrow> Some (flush_failed t goal LogicError (w, x) c)
              | Some r \<Rightarrow>
                  if arec_active r then Some (flush_failed t goal LogicError (w, x) c)
                  else Some (goto t (TFlushCentral goal i pointer released) (w, x) (lock_shard t pointer c)))
        else Some (flush_next t goal i released (w, x) c))"

definition step_flush :: "thread_id \<Rightarrow> flush_goal \<Rightarrow> nat \<Rightarrow> size_t \<Rightarrow> 'p tc_config \<Rightarrow> 'p tc_config option" where
  "step_flush t goal i released c =
     (case cf_state c of (w, x) \<Rightarrow>
        case goal of
          FlushAll all_released ending \<Rightarrow>
            if length (local_bins t x) \<le> i
            then Some (goto t (TDone (Inr (AnsCount all_released))) (w, x\<lparr>tca_caches := (tca_caches x)(t := None)\<rparr>) c)
            else step_flush_bin t goal i released c
        | FlushBin \<Rightarrow> step_flush_bin t goal i released c)"

definition step_flush_central ::
  "'p provider \<Rightarrow> thread_id \<Rightarrow> flush_goal \<Rightarrow> nat \<Rightarrow> addr \<Rightarrow> size_t \<Rightarrow> 'p tc_config \<Rightarrow> 'p tc_config" where
  "step_flush_central P t goal i pointer released c =
     (case cf_state c of (w, x) \<Rightarrow>
        case central_deallocate P pointer (w, tca_state x) of
          (Inl e, s) \<Rightarrow> flush_failed t goal e (share x s) (unlock_shard pointer c)
        | (Inr _, s) \<Rightarrow> goto t (TFlushErase goal i pointer released) (share x s) c)"

definition step_flush_erase :: "thread_id \<Rightarrow> flush_goal \<Rightarrow> nat \<Rightarrow> addr \<Rightarrow> size_t \<Rightarrow> 'p tc_config \<Rightarrow> 'p tc_config" where
  "step_flush_erase t goal i pointer released c =
     (case cf_state c of (w, x) \<Rightarrow>
        goto t (TFlush goal i (released + 1))
          (put_cache t x ((local_bins t x)[i := butlast (local_bins t x ! i)],
             (w, tc_count (\<lambda>s. s\<lparr>tcs_cached_blocks := tcs_cached_blocks s - 1\<rparr>) (erase_record pointer (tca_state x)))))
          (unlock_shard pointer c))"

definition step_release :: "thread_id \<Rightarrow> bool \<Rightarrow> 'p tc_config \<Rightarrow> 'p tc_config" where
  "step_release t ending c =
     (case tca_caches (snd (cf_state c)) t of
        None \<Rightarrow> goto t (TDone (Inr (AnsCount 0))) (cf_state c) c
      | Some _ \<Rightarrow> goto t (TFlush (FlushAll 0 ending) 0 0) (cf_state c) c)"

text \<open>The next step of a thread at a point; none when it waits for a mutex or makes no call.\<close>

fun tc_step :: "'p provider \<Rightarrow> thread_id \<Rightarrow> tc_point \<Rightarrow> 'p tc_config \<Rightarrow> (tc_event \<times> 'p tc_config) option" where
  "tc_step P t TIdle c = None"
| "tc_step P t (TAllocate sz al) c = Some (Silent, step_allocate t sz al c)"
| "tc_step P t (TFallbackCentral sz al) c = Some (Silent, step_fallback_central P t sz al c)"
| "tc_step P t (TFallbackRecord p sz al) c = (if shard_free p c then Some (step_fallback_record t p sz al c) else None)"
| "tc_step P t (TFallbackUndo p sz al e) c = Some (Silent, step_fallback_undo P t p sz al e c)"
| "tc_step P t (THit p i sz al) c = (if shard_free p c then Some (step_hit t p sz al c) else None)"
| "tc_step P t (TRefill i sz al k result) c = Some (Silent, step_refill P t i sz al k result c)"
| "tc_step P t (TRefillRecord p i sz al k result) c =
     (if shard_free p c then Some (step_refill_record t p i sz al k result c) else None)"
| "tc_step P t (TRefillUndo p e i sz al result) c = Some (Silent, step_refill_undo P t p e i sz al result c)"
| "tc_step P t (TDeallocate p sized) c = Some (Silent, step_deallocate t p sized c)"
| "tc_step P t (TFreeRecord p sized) c = (if shard_free p c then Some (step_free_record t p sized c) else None)"
| "tc_step P t (TFreeCentral p sized remote) c = Some (step_free_central P t p sized remote c)"
| "tc_step P t (TFreeErase p remote) c = Some (Silent, step_free_erase t p remote c)"
| "tc_step P t (TPush p i) c = Some (Silent, step_push t p i c)"
| "tc_step P t (TFlush goal i released) c = map_option (Pair Silent) (step_flush t goal i released c)"
| "tc_step P t (TFlushCentral goal i p released) c = Some (Silent, step_flush_central P t goal i p released c)"
| "tc_step P t (TFlushErase goal i p released) c = Some (Silent, step_flush_erase t goal i p released c)"
| "tc_step P t (TRelease ending) c = Some (Silent, step_release t ending c)"
| "tc_step P t (TDone r) c = Some (Returned r, goto t TIdle (cf_state c) c)"

section \<open>Executions\<close>

text \<open>The calls a thread may make, and where they begin; \<open>CallRelease True\<close> is the end of the thread.\<close>

datatype tc_call =
    CallAllocate size_t size_t
  | CallDeallocate addr "(size_t \<times> size_t) option"
  | CallRelease bool

fun tc_entry :: "tc_call \<Rightarrow> tc_point" where
  "tc_entry (CallAllocate sz al) = TAllocate sz al"
| "tc_entry (CallDeallocate p sized) = TDeallocate p sized"
| "tc_entry (CallRelease ending) = TRelease ending"

text \<open>What the clients see of an execution: calls and returns, each with its thread, in their order.\<close>

datatype tc_visible =
    Called tc_call
  | Answered "tc_answer result"

type_synonym tc_history = "(thread_id \<times> tc_visible) list"

definition visible :: "thread_id \<Rightarrow> tc_event \<Rightarrow> tc_history" where
  "visible t ev = (case ev of Returned r \<Rightarrow> [(t, Answered r)] | _ \<Rightarrow> [])"

definition tc_start :: "'p cached_state \<Rightarrow> 'p tc_config" where
  "tc_start s = \<lparr>cf_state = s, cf_mutex = (\<lambda>_. None), cf_point = (\<lambda>_. TIdle)\<rparr>"

fun apply_event :: "tc_event \<Rightarrow> (addr \<times> size_t \<times> size_t) set \<Rightarrow> (addr \<times> size_t \<times> size_t) set" where
  "apply_event (Acquired p n a) K = insert (p, n, a) K"
| "apply_event (Dropped p) K = {k \<in> K. fst k \<noteq> p}"
| "apply_event _ K = K"

text \<open>
  \<open>tc_exec P s0 c K h\<close>: the threads can get from \<open>s0\<close> to \<open>c\<close> with the requests \<open>K\<close> out and the history \<open>h\<close>. Any thread may call anything at any
  time, also return what is not its own or return a block twice; writes go only into blocks that are out.
\<close>

inductive tc_exec ::
  "'p provider \<Rightarrow> 'p cached_state \<Rightarrow> 'p tc_config \<Rightarrow> (addr \<times> size_t \<times> size_t) set \<Rightarrow> tc_history \<Rightarrow> bool" for P s0 where
  exec_start: "tc_exec P s0 (tc_start s0) {} []"
| exec_call: "tc_exec P s0 c K h \<Longrightarrow> cf_point c t = TIdle \<Longrightarrow>
    tc_exec P s0 (goto t (tc_entry call) (cf_state c) c) K (h @ [(t, Called call)])"
| exec_step: "tc_exec P s0 c K h \<Longrightarrow> tc_step P t (cf_point c t) c = Some (ev, c') \<Longrightarrow>
    tc_exec P s0 c' (apply_event ev K) (h @ visible t ev)"
| exec_write: "tc_exec P s0 c K h \<Longrightarrow> (q, n, a) \<in> K \<Longrightarrow> y \<in> extent q n \<Longrightarrow> cf_state c = (w, x) \<Longrightarrow>
    tc_exec P s0 (c\<lparr>cf_state := (w\<lparr>w_mem := (w_mem w)(y := b)\<rparr>, x)\<rparr>) K h"

end
