(* ===== verification/Thread_Cache_Correct.thy ===== *)
theory Thread_Cache_Correct
  imports Thread_Cached_Allocator Classed_Source
begin

text \<open>
  The invariant of the thread-cached allocator. The records name exactly the blocks that the central
  allocator has handed out; the inactive ones are exactly the blocks in the bins, each in the bin of
  its owner and class; the active ones are exactly the requests the clients hold. Every
  operation is a sequence of insertions into and removals from the records, so the preservation lemmas
  are stated for these.
\<close>

section \<open>Records, bins and clients\<close>

type_synonym records = "addr \<rightharpoonup> allocation_record"
type_synonym bins = "thread_id \<Rightarrow> nat \<Rightarrow> addr list"

definition set_bin :: "bins \<Rightarrow> thread_id \<Rightarrow> nat \<Rightarrow> addr list \<Rightarrow> bins" where
  "set_bin B t i bin = B(t := (B t)(i := bin))"

lemma set_bin_simps [simp]:
  "set_bin B t i bin t i = bin" "set_bin (set_bin B t i b) t i b' = set_bin B t i b'" "set_bin B t i (B t i) = B"
  by (simp_all add: set_bin_def)

lemma set_bin_other: "set_bin B t i bin t' i' = (if t' = t \<and> i' = i then bin else B t' i')"
  by (simp add: set_bin_def)

definition record_request :: "addr \<Rightarrow> allocation_record \<Rightarrow> request" where
  "record_request p r = (p, arec_requested_size r, arec_alignment r)"

definition cache_requests :: "records \<Rightarrow> request set" where
  "cache_requests R = {record_request p r | p r. R p = Some r}"

definition records_ok :: "size_class_selector \<Rightarrow> records \<Rightarrow> bool" where
  "records_ok sel R \<longleftrightarrow>
     (\<forall>p r. R p = Some r \<longrightarrow>
        selector_select sel (arec_requested_size r) (arec_alignment r) =
          Inr (if arec_class_index r = fallback_class then None else Some (unat (arec_class_index r))))"

definition bins_ok :: "size_class_selector \<Rightarrow> records \<Rightarrow> bins \<Rightarrow> bool" where
  "bins_ok sel R B \<longleftrightarrow>
     (\<forall>t i p. p \<in> set (B t i) \<longrightarrow> i < length sel \<and>
        (\<exists>r. R p = Some r \<and> \<not> arec_active r \<and> arec_owner_thread r = t \<and> arec_class_index r = of_nat i)) \<and>
     (\<forall>t i. distinct (B t i)) \<and>
     (\<forall>p r. R p = Some r \<longrightarrow> \<not> arec_active r \<longrightarrow> p \<in> set (B (arec_owner_thread r) (unat (arec_class_index r))))"

definition clients_ok :: "records \<Rightarrow> request set \<Rightarrow> bool" where
  "clients_ok R K \<longleftrightarrow> inj_on fst K \<and>
     (\<forall>p n a. (p, n, a) \<in> K \<longrightarrow>
        (\<exists>r. R p = Some r \<and> arec_active r \<and> arec_requested_size r = normalize_size n \<and> arec_alignment r = a)) \<and>
     (\<forall>p r. R p = Some r \<longrightarrow> arec_active r \<longrightarrow> p \<in> fst ` K)"

lemma bins_okD:
  assumes "bins_ok sel R B"
  shows "\<And>t i p. p \<in> set (B t i) \<Longrightarrow> i < length sel \<and>
        (\<exists>r. R p = Some r \<and> \<not> arec_active r \<and> arec_owner_thread r = t \<and> arec_class_index r = of_nat i)"
    and "\<And>t i. distinct (B t i)"
    and "\<And>p r. R p = Some r \<Longrightarrow> \<not> arec_active r \<Longrightarrow> p \<in> set (B (arec_owner_thread r) (unat (arec_class_index r)))"
  using assms unfolding bins_ok_def by blast+

lemma clients_okD:
  assumes "clients_ok R K"
  shows "inj_on fst K"
    and "\<And>p n a. (p, n, a) \<in> K \<Longrightarrow>
        \<exists>r. R p = Some r \<and> arec_active r \<and> arec_requested_size r = normalize_size n \<and> arec_alignment r = a"
    and "\<And>p r. R p = Some r \<Longrightarrow> arec_active r \<Longrightarrow> p \<in> fst ` K"
  using assms unfolding clients_ok_def by blast+

text \<open>At most 64 size classes exist, so the sentinel is no class index and indices survive the conversion to \<^verbatim>\<open>size_t\<close>.\<close>

lemma selector_length:
  assumes "valid_selector sel"
  shows "length sel \<le> 64"
proof -
  have "unat ` set sel \<subseteq> (\<lambda>k. 2 ^ k) ` {..<64}"
  proof (rule image_subsetI)
    fix c assume "c \<in> set sel"
    then have "is_power_of_two c" using assms by (simp add: valid_selector_def)
    then obtain k where "k < 64" "unat c = 2 ^ k" by (rule is_power_of_twoE)
    then show "unat c \<in> (\<lambda>k. 2 ^ k) ` {..<64}" by blast
  qed
  then have "card (unat ` set sel) \<le> card ((\<lambda>k. 2 ^ k :: nat) ` {..<64 :: nat})" by (intro card_mono) simp_all
  also have "\<dots> \<le> 64" using card_image_le [of "{..<64 :: nat}" "\<lambda>k. 2 ^ k :: nat"] by simp
  also have "card (unat ` set sel) = card (set sel)" by (rule card_image) (simp add: inj_on_def unat_eq_size)
  finally show ?thesis using assms distinct_card [of sel] by (simp add: valid_selector_def)
qed

lemma class_index:
  assumes "valid_selector sel" and "i < length sel"
  shows "unat (of_nat i :: size_t) = i" and "(of_nat i :: size_t) \<noteq> fallback_class"
proof -
  have i: "i < 64" using selector_length [OF assms(1)] assms(2) by simp
  then show u: "unat (of_nat i :: size_t) = i" by (intro unat_of_nat_size) simp
  have "fallback_class = size_max" by (simp add: fallback_class_def size_max_def)
  then have "unat fallback_class = 18446744073709551615" by simp
  then show "(of_nat i :: size_t) \<noteq> fallback_class" using u i by auto
qed

section \<open>Insertion and removal\<close>

lemma cache_requests_iff: "(p, n, a) \<in> cache_requests R \<longleftrightarrow> (\<exists>r. R p = Some r \<and> n = arec_requested_size r \<and> a = arec_alignment r)"
  by (auto simp: cache_requests_def record_request_def)

lemma cache_requests_put:
  "R p = None \<Longrightarrow> cache_requests (R(p \<mapsto> r)) = insert (record_request p r) (cache_requests R)"
  by (rule set_eqI, rename_tac h, case_tac h) (auto simp: cache_requests_iff record_request_def)

lemma cache_requests_erase:
  "R p = Some r \<Longrightarrow> cache_requests (R(p := None)) = cache_requests R - {record_request p r}"
  by (rule set_eqI, rename_tac h, case_tac h) (auto simp: cache_requests_iff record_request_def)

lemma cache_requests_fst: "fst ` cache_requests R = dom R"
  by (force simp: cache_requests_def record_request_def)

lemma record_request_mem: "R p = Some r \<Longrightarrow> record_request p r \<in> cache_requests R"
  by (auto simp: cache_requests_def)

lemma records_ok_put:
  assumes "records_ok sel R"
    and "selector_select sel (arec_requested_size r) (arec_alignment r) =
      Inr (if arec_class_index r = fallback_class then None else Some (unat (arec_class_index r)))"
  shows "records_ok sel (R(p \<mapsto> r))"
  using assms unfolding records_ok_def by auto

lemma records_ok_erase: "records_ok sel R \<Longrightarrow> records_ok sel (R(p := None))"
  unfolding records_ok_def by auto

lemma bins_put_active:
  assumes "bins_ok sel R B" and "R p = None" and "arec_active r"
  shows "bins_ok sel (R(p \<mapsto> r)) B"
proof -
  note d = bins_okD [OF assms(1)]
  have "p \<notin> set (B t i)" for t i using d(1) [of p t i] assms(2) by auto
  then show ?thesis using assms unfolding bins_ok_def by (auto split: if_splits)
qed

lemma bins_put_cached:
  assumes "bins_ok sel R B" and "R p = None" and "\<not> arec_active r" and "arec_owner_thread r = t"
    and "arec_class_index r = of_nat i" and "valid_selector sel" and "i < length sel"
  shows "bins_ok sel (R(p \<mapsto> r)) (set_bin B t i (B t i @ [p]))"
proof -
  note d = bins_okD [OF assms(1)]
  have np: "p \<notin> set (B t' i')" for t' i' using d(1) [of p t' i'] assms(2) by auto
  have u: "unat (arec_class_index r) = i" using class_index(1) [OF assms(6,7)] assms(5) by simp
  show ?thesis
    unfolding bins_ok_def
  proof (intro conjI allI impI)
    fix t' i' q assume q: "q \<in> set (set_bin B t i (B t i @ [p]) t' i')"
    then consider "q = p" "t' = t" "i' = i" | "q \<in> set (B t' i')" "q \<noteq> p" using np by (auto simp: set_bin_other split: if_splits)
    then show "i' < length sel" "\<exists>r'. (R(p \<mapsto> r)) q = Some r' \<and> \<not> arec_active r' \<and> arec_owner_thread r' = t' \<and> arec_class_index r' = of_nat i'"
      using assms(3-5,7) d(1) [of q t' i'] by (cases; auto)+
  next
    fix t' i' show "distinct (set_bin B t i (B t i @ [p]) t' i')" using d(2) np by (simp add: set_bin_other)
  next
    fix q r' assume q: "(R(p \<mapsto> r)) q = Some r'" "\<not> arec_active r'"
    show "q \<in> set (set_bin B t i (B t i @ [p]) (arec_owner_thread r') (unat (arec_class_index r')))"
      using q d(3) [of q r'] u assms(4) by (cases "q = p") (auto simp: set_bin_other)
  qed
qed

lemma bins_erase_active:
  assumes "bins_ok sel R B" and "R p = Some r" and "arec_active r"
  shows "bins_ok sel (R(p := None)) B"
proof -
  note d = bins_okD [OF assms(1)]
  have "p \<notin> set (B t i)" for t i using d(1) [of p t i] assms(2,3) by auto
  then show ?thesis using assms unfolding bins_ok_def by (auto split: if_splits)
qed

lemma bins_pop:
  assumes "bins_ok sel R B" and "B t i \<noteq> []" and "valid_selector sel"
  defines "p \<equiv> last (B t i)"
  shows "bins_ok sel (R(p := None)) (set_bin B t i (butlast (B t i)))"
    and "\<exists>r. R p = Some r \<and> \<not> arec_active r \<and> arec_owner_thread r = t \<and> arec_class_index r = of_nat i \<and> i < length sel"
proof -
  note d = bins_okD [OF assms(1)]
  have pm: "p \<in> set (B t i)" using assms(2) by (simp add: p_def)
  show ex: "\<exists>r. R p = Some r \<and> \<not> arec_active r \<and> arec_owner_thread r = t \<and> arec_class_index r = of_nat i \<and> i < length sel"
    using d(1) [OF pm] by blast
  have bin: "B t i = butlast (B t i) @ [p]" using assms(2) by (simp add: p_def)
  have "distinct (butlast (B t i) @ [p])" using d(2) [of t i] by (subst (asm) bin)
  then have nb: "p \<notin> set (butlast (B t i))" by simp
  have only: "t' = t \<and> i' = i" if "p \<in> set (B t' i')" for t' i'
  proof -
    obtain r where r: "R p = Some r" "arec_owner_thread r = t" "arec_class_index r = of_nat i" "i < length sel" using ex by blast
    then have s: "arec_owner_thread r = t'" "arec_class_index r = of_nat i'" "i' < length sel" using d(1) [OF that] by auto
    have "i' = i" using class_index(1) [OF assms(3) r(4)] class_index(1) [OF assms(3) s(3)] r(3) s(2) by simp
    then show ?thesis using r(2) s(1) by simp
  qed
  show "bins_ok sel (R(p := None)) (set_bin B t i (butlast (B t i)))"
    unfolding bins_ok_def
  proof (intro conjI allI impI)
    fix t' i' q assume q: "q \<in> set (set_bin B t i (butlast (B t i)) t' i')"
    have "q \<in> set (B t' i') \<and> q \<noteq> p"
    proof (cases "t' = t \<and> i' = i")
      case True
      then have "q \<in> set (butlast (B t i))" using q by (simp add: set_bin_other)
      then show ?thesis using nb in_set_butlastD True by metis
    next
      case False
      then have "set_bin B t i (butlast (B t i)) t' i' = B t' i'" by (auto simp: set_bin_other)
      then show ?thesis using q only [of t' i'] False by auto
    qed
    then show "i' < length sel" "\<exists>r. (R(p := None)) q = Some r \<and> \<not> arec_active r \<and> arec_owner_thread r = t' \<and> arec_class_index r = of_nat i'"
      using d(1) [of q t' i'] by auto
  next
    fix t' i' show "distinct (set_bin B t i (butlast (B t i)) t' i')" using d(2) by (simp add: set_bin_other distinct_butlast)
  next
    fix q r assume q: "(R(p := None)) q = Some r" "\<not> arec_active r"
    then have m: "q \<in> set (B (arec_owner_thread r) (unat (arec_class_index r)))" and np: "q \<noteq> p"
      using d(3) [of q r] by (auto split: if_splits)
    have "set (B t i) = insert p (set (butlast (B t i)))" by (subst bin) simp
    then show "q \<in> set (set_bin B t i (butlast (B t i)) (arec_owner_thread r) (unat (arec_class_index r)))"
      using m np by (auto simp: set_bin_other)
  qed
qed

lemma clients_put_active:
  assumes "clients_ok R K" and "R p = None" and "arec_active r" and "arec_requested_size r = normalize_size n" and "arec_alignment r = a"
  shows "clients_ok (R(p \<mapsto> r)) (insert (p, n, a) K)" and "p \<notin> fst ` K"
proof -
  note d = clients_okD [OF assms(1)]
  show np: "p \<notin> fst ` K" using d(2) assms(2) by fastforce
  show "clients_ok (R(p \<mapsto> r)) (insert (p, n, a) K)"
    unfolding clients_ok_def
  proof (intro conjI allI impI)
    show "inj_on fst (insert (p, n, a) K)" using d(1) np by (auto simp: inj_on_insert)
    fix q n' a' assume q: "(q, n', a') \<in> insert (p, n, a) K"
    show "\<exists>r'. (R(p \<mapsto> r)) q = Some r' \<and> arec_active r' \<and> arec_requested_size r' = normalize_size n' \<and> arec_alignment r' = a'"
    proof (cases "q = p")
      case True
      then have "n' = n" "a' = a" using q np by force+
      then show ?thesis using True assms(3-5) by auto
    next
      case False
      then show ?thesis using d(2) [of q n' a'] q by auto
    qed
  next
    fix q r' assume q: "(R(p \<mapsto> r)) q = Some r'" "arec_active r'"
    then show "q \<in> fst ` insert (p, n, a) K" using d(3) [of q r'] by (cases "q = p") auto
  qed
qed

lemma clients_put_cached:
  assumes "clients_ok R K" and "R p = None" and "\<not> arec_active r"
  shows "clients_ok (R(p \<mapsto> r)) K"
proof -
  note d = clients_okD [OF assms(1)]
  have "(R(p \<mapsto> r)) q = R q" if "(q, n, a) \<in> K" for q n a using d(2) [OF that] assms(2) by auto
  then show ?thesis using d assms(3) unfolding clients_ok_def by (auto split: if_splits)
qed

lemma clients_erase_active:
  assumes "clients_ok R K" and "(p, n, a) \<in> K"
  shows "clients_ok (R(p := None)) (K - {(p, n, a)})"
proof -
  note d = clients_okD [OF assms(1)]
  note im = fst_image_remove [OF d(1) assms(2), unfolded fst_conv]
  have ne: "q \<noteq> p" if "(q, n', a') \<in> K - {(p, n, a)}" for q n' a'
  proof -
    have "q \<in> fst ` (K - {(p, n, a)})" using that by force
    then show ?thesis unfolding im by blast
  qed
  show ?thesis
    unfolding clients_ok_def
  proof (intro conjI allI impI)
    show "inj_on fst (K - {(p, n, a)})" by (rule inj_on_diff [OF d(1)])
    fix q n' a' assume q: "(q, n', a') \<in> K - {(p, n, a)}"
    then show "\<exists>r. (R(p := None)) q = Some r \<and> arec_active r \<and> arec_requested_size r = normalize_size n' \<and> arec_alignment r = a'"
      using d(2) [of q n' a'] ne [OF q] by auto
  next
    fix q r assume "(R(p := None)) q = Some r" "arec_active r"
    then show "q \<in> fst ` (K - {(p, n, a)})" unfolding im using d(3) [of q r] by (auto split: if_splits)
  qed
qed

lemma clients_erase_cached:
  assumes "clients_ok R K" and "R p = Some r" and "\<not> arec_active r"
  shows "clients_ok (R(p := None)) K"
proof -
  note d = clients_okD [OF assms(1)]
  have "(R(p := None)) q = R q" if "(q, n, a) \<in> K" for q n a using d(2) [OF that] assms(2,3) by auto
  then show ?thesis using d unfolding clients_ok_def by (auto split: if_splits)
qed

section \<open>The invariant\<close>

lemma find_record_put [simp]: "find_record (put_record p r tc) = (find_record tc)(p \<mapsto> r)"
  by (rule ext) (simp add: find_record_def put_record_def)

lemma find_record_erase [simp]: "find_record (erase_record p tc) = (find_record tc)(p := None)"
  by (rule ext) (simp add: find_record_def erase_record_def)

lemma find_record_fields [simp]:
  "find_record (tc\<lparr>tc_statistics := x\<rparr>) = find_record tc" "find_record (tc\<lparr>tc_central := sa\<rparr>) = find_record tc"
  "find_record (note_live_allocation tc) = find_record tc" "find_record (note_cached_block tc) = find_record tc"
  by (simp_all add: fun_eq_iff find_record_def note_live_allocation_def note_cached_block_def)

lemma tc_fields [simp]:
  "tc_central (put_record p r tc) = tc_central tc" "tc_central (erase_record p tc) = tc_central tc"
  "tc_central (note_live_allocation tc) = tc_central tc" "tc_central (note_cached_block tc) = tc_central tc"
  "tc_selector (put_record p r tc) = tc_selector tc" "tc_selector (erase_record p tc) = tc_selector tc"
  "tc_selector (note_live_allocation tc) = tc_selector tc" "tc_selector (note_cached_block tc) = tc_selector tc"
  "tc_cache_options (put_record p r tc) = tc_cache_options tc" "tc_cache_options (erase_record p tc) = tc_cache_options tc"
  "tc_cache_options (note_live_allocation tc) = tc_cache_options tc" "tc_cache_options (note_cached_block tc) = tc_cache_options tc"
  by (simp_all add: put_record_def erase_record_def note_live_allocation_def note_cached_block_def)

definition same_setup :: "thread_cache \<Rightarrow> thread_cache \<Rightarrow> bool" where
  "same_setup tc tc' \<longleftrightarrow> tc_cache_options tc' = tc_cache_options tc \<and> tc_selector tc' = tc_selector tc"

lemma same_setup_refl [simp]: "same_setup tc tc" by (simp add: same_setup_def)

lemma same_setup_trans: "same_setup a b \<Longrightarrow> same_setup b c \<Longrightarrow> same_setup a c" by (simp add: same_setup_def)

text \<open>\<open>X\<close> are blocks that the central allocator has handed out and that have no record yet.\<close>

definition cache_ok ::
  "('p \<Rightarrow> grant set) \<Rightarrow> ('p \<Rightarrow> bool) \<Rightarrow> grant set \<Rightarrow> request set \<Rightarrow> 'p cache_state \<Rightarrow> bins \<Rightarrow> request set \<Rightarrow> bool" where
  "cache_ok live ok L X s B K \<longleftrightarrow>
     (case s of (w, tc) \<Rightarrow>
        segregated_holds live ok L (w, tc_central tc) (cache_requests (find_record tc) \<union> X) \<and>
        tc_selector tc = sa_selector (tc_central tc) \<and> records_ok (tc_selector tc) (find_record tc) \<and>
        bins_ok (tc_selector tc) (find_record tc) B \<and> clients_ok (find_record tc) K \<and>
        validate_cache_options (tc_cache_options tc) = Inr (tc_cache_options tc))"

lemma cache_okD:
  assumes "cache_ok live ok L X (w, tc) B K"
  shows "segregated_holds live ok L (w, tc_central tc) (cache_requests (find_record tc) \<union> X)"
    and "tc_selector tc = sa_selector (tc_central tc)" and "records_ok (tc_selector tc) (find_record tc)"
    and "bins_ok (tc_selector tc) (find_record tc) B" and "clients_ok (find_record tc) K"
    and "validate_cache_options (tc_cache_options tc) = Inr (tc_cache_options tc)"
  using assms unfolding cache_ok_def prod.case by blast+

lemma cache_ok_central:
  assumes c: "cache_ok live ok L X (w, tc) B K" and e: "find_record tc' = find_record tc" and s: "same_setup tc tc'"
    and sel: "tc_selector tc = sa_selector (tc_central tc')"
    and h: "segregated_holds live ok L (w', tc_central tc') (cache_requests (find_record tc) \<union> X')"
  shows "cache_ok live ok L X' (w', tc') B K"
proof -
  have "tc_selector tc' = tc_selector tc" "tc_cache_options tc' = tc_cache_options tc" using s by (simp_all add: same_setup_def)
  then show ?thesis using cache_okD(3-6) [OF c] h sel e unfolding cache_ok_def prod.case by metis
qed

lemma cache_ok_cong:
  assumes "cache_ok live ok L X (w, tc) B K" and "find_record tc' = find_record tc" and "tc_central tc' = tc_central tc"
    and "same_setup tc tc'"
  shows "cache_ok live ok L X (w, tc') B K"
  using cache_okD(1,2) [OF assms(1)] assms(3) by (intro cache_ok_central [OF assms(1,2,4)]) simp_all

lemma record_class:
  assumes "records_ok sel R" and "R p = Some r"
  shows "selector_select sel (arec_requested_size r) (arec_alignment r) =
     Inr (if arec_class_index r = fallback_class then None else Some (unat (arec_class_index r)))"
  using assms unfolding records_ok_def by blast

context memory_provider begin

lemma segregated_holds_tick:
  assumes "segregated_holds live ok L (w, sa) H" and "meta_alloc w = (b, w1)"
  shows "segregated_holds live ok L (w1, sa) H"
proof -
  from assms(1) obtain Fss where F: "segregated_inv live ok L (w, sa) Fss" "\<forall>h \<in> H. served sa Fss h" "inj_on fst H"
    "fst ` H = segregated_blocks sa Fss" by (auto simp: segregated_holds_def)
  have "ok (w_prov w)" by (rule pools_invD(1) [OF segregated_invD(1) [OF F(1)]])
  then have "segregated_inv live ok L (w1, sa) Fss"
    using meta_alloc_world [OF assms(2)] by (intro segregated_same_live [OF F(1)]) simp_all
  then show ?thesis unfolding segregated_holds_def snd_conv using F(2-4) by blast
qed

lemma cache_ok_tick:
  "cache_ok live ok L X (w, tc) B K \<Longrightarrow> meta_alloc w = (b, w1) \<Longrightarrow> cache_ok live ok L X (w1, tc) B K"
  using segregated_holds_tick unfolding cache_ok_def by auto

lemma cache_ok_valid: "cache_ok live ok L X (w, tc) B K \<Longrightarrow> valid_selector (tc_selector tc)"
  using segregated_holds_selector cache_okD(1,2) by metis

section \<open>Central storage\<close>

lemma central_allocate_ok:
  assumes c: "cache_ok live ok L X (w, tc) B K" and al: "central_allocate P n a (w, tc) = (x, (w', tc'))"
  shows "find_record tc' = find_record tc" and "same_setup tc tc'"
    and "case x of
       Inl e \<Rightarrow> e \<noteq> UndefinedBehaviour \<and> e \<noteq> Terminate \<and> cache_ok live ok L X (w', tc') B K
     | Inr p \<Rightarrow> cache_ok live ok L (insert (p, n, a) X) (w', tc') B K \<and> p \<noteq> 0 \<and> unat a dvd unat p \<and> find_record tc p = None \<and> p \<notin> fst ` X"
proof -
  note d = cache_okD [OF c]
  note h = d(1)
  obtain y w1 sa where sg: "segregated_allocate P n a (w, tc_central tc) = (y, (w1, sa))" by (metis prod_cases3)
  have sel: "sa_selector sa = sa_selector (tc_central tc)"
  proof -
    from h obtain Fss where "segregated_inv live ok L (w, tc_central tc) Fss" by (rule segregated_holdsE)
    from segregated_allocate_inv [OF this sg] show ?thesis by blast
  qed
  have "find_record tc' = find_record tc \<and> same_setup tc tc' \<and> (case x of
       Inl e \<Rightarrow> e \<noteq> UndefinedBehaviour \<and> e \<noteq> Terminate \<and> cache_ok live ok L X (w', tc') B K
     | Inr p \<Rightarrow> cache_ok live ok L (insert (p, n, a) X) (w', tc') B K \<and> p \<noteq> 0 \<and> unat a dvd unat p \<and> find_record tc p = None \<and> p \<notin> fst ` X)"
  proof (cases y)
    case (Inl e)
    then have r: "x = Inl e" "w' = w1" "tc' = tc\<lparr>tc_central := sa\<rparr>" using al sg by (auto simp: central_allocate_def)
    have f: "find_record tc' = find_record tc" "same_setup tc tc'" using r(3) by (simp_all add: same_setup_def)
    note t = central_alloc_throws [OF h sg [unfolded Inl]]
    have "cache_ok live ok L X (w', tc') B K"
      using t sel d(2) r(2,3) by (intro cache_ok_central [OF c f]) simp_all
    then show ?thesis using r(1) f t by simp
  next
    case (Inr p)
    then have r: "x = Inr p" "w' = w1" "find_record tc' = find_record tc" "tc_central tc' = sa" "same_setup tc tc'"
      using al sg by (auto simp: central_allocate_def same_setup_def)
    note f = central_alloc_fresh [OF h sg [unfolded Inr]]
    have "find_record tc p = None" using f cache_requests_fst [of "find_record tc"] by auto
    moreover have "cache_ok live ok L (insert (p, n, a) X) (w', tc') B K"
      using f sel d(2) r(2,4) by (intro cache_ok_central [OF c r(3,5)]) simp_all
    ultimately show ?thesis using r(1,3,5) f by (simp add: image_Un)
  qed
  then show "find_record tc' = find_record tc" and "same_setup tc tc'"
    and "case x of
       Inl e \<Rightarrow> e \<noteq> UndefinedBehaviour \<and> e \<noteq> Terminate \<and> cache_ok live ok L X (w', tc') B K
     | Inr p \<Rightarrow> cache_ok live ok L (insert (p, n, a) X) (w', tc') B K \<and> p \<noteq> 0 \<and> unat a dvd unat p \<and> find_record tc p = None \<and> p \<notin> fst ` X"
    by blast+
qed

lemma central_release_fields:
  assumes "central_release (Inr u, (w1, sa)) tc = (x, (w', tc'))"
  shows "x = Inr ()" and "w' = w1" and "tc_central tc' = sa" and "find_record tc' = find_record tc" and "same_setup tc tc'"
  using assms by (auto simp: central_release_def same_setup_def)

text \<open>The block of a record goes back: what remains is as if the record had been erased.\<close>

lemma release_record:
  assumes c: "cache_ok live ok L X (w, tc) B K" and r: "find_record tc p = Some r" and nx: "p \<notin> fst ` X"
    and op: "s = central_deallocate P p (w, tc) \<or>
      (s = central_deallocate_sized P p n a (w, tc) \<and>
       selector_select (tc_selector tc) n a = selector_select (tc_selector tc) (arec_requested_size r) (arec_alignment r) \<and>
       (arec_class_index r \<noteq> fallback_class \<or> max n 1 = max (arec_requested_size r) 1 \<and> a = arec_alignment r))"
  shows "\<exists>w' tc'. s = (Inr (), (w', tc')) \<and> find_record tc' = find_record tc \<and> same_setup tc tc' \<and>
     tc_selector tc' = sa_selector (tc_central tc') \<and>
     segregated_holds live ok L (w', tc_central tc') (cache_requests ((find_record tc)(p := None)) \<union> X)"
proof -
  note d = cache_okD [OF c]
  note h = d(1)
  have m: "(p, arec_requested_size r, arec_alignment r) \<in> cache_requests (find_record tc) \<union> X"
    using r by (simp add: cache_requests_iff)
  obtain w1 sa where rl: "segregated_deallocate P p (w, tc_central tc) = (Inr (), (w1, sa))"
      "segregated_holds live ok L (w1, sa) (cache_requests (find_record tc) \<union> X - {(p, arec_requested_size r, arec_alignment r)})"
      "sa_selector sa = sa_selector (tc_central tc)"
    using segregated_release_accepts [OF h m] by auto
  have "s = central_release (Inr (), (w1, sa)) tc"
    using op
  proof
    assume "s = central_deallocate P p (w, tc)"
    then show ?thesis using rl(1) by (simp add: central_deallocate_def)
  next
    assume o2: "s = central_deallocate_sized P p n a (w, tc) \<and>
       selector_select (tc_selector tc) n a = selector_select (tc_selector tc) (arec_requested_size r) (arec_alignment r) \<and>
       (arec_class_index r \<noteq> fallback_class \<or> max n 1 = max (arec_requested_size r) 1 \<and> a = arec_alignment r)"
    have "segregated_deallocate_sized P p n a (w, tc_central tc) = segregated_deallocate P p (w, tc_central tc)"
      using o2 record_class [OF d(3) r] d(2) by (intro central_free_matching [OF h m]) (auto split: if_splits)
    then show ?thesis using o2 rl(1) by (simp add: central_deallocate_sized_def)
  qed
  moreover obtain x w' tc' where cr: "central_release (Inr (), (w1, sa)) tc = (x, (w', tc'))" by (metis prod_cases3)
  note f = central_release_fields [OF cr]
  moreover have "cache_requests ((find_record tc)(p := None)) \<union> X =
      cache_requests (find_record tc) \<union> X - {(p, arec_requested_size r, arec_alignment r)}"
    using cache_requests_erase [of "find_record tc" p r, OF r] nx by (force simp: record_request_def)
  ultimately show ?thesis using cr rl(2,3) d(2) by (simp add: same_setup_def)
qed

text \<open>A block without a record goes back.\<close>

lemma release_pending:
  assumes c: "cache_ok live ok L (insert (p, n, a) X) (w, tc) B K" and np: "find_record tc p = None" and nx: "p \<notin> fst ` X"
  shows "\<exists>w' tc'. central_deallocate_sized P p n a (w, tc) = (Inr (), (w', tc')) \<and> cache_ok live ok L X (w', tc') B K \<and>
     find_record tc' = find_record tc \<and> same_setup tc tc'"
proof -
  note d = cache_okD [OF c]
  have "(p, n, a) \<in> cache_requests (find_record tc) \<union> insert (p, n, a) X" by simp
  from central_free_same [OF d(1) this] obtain w1 sa where
    rl: "segregated_deallocate_sized P p n a (w, tc_central tc) = (Inr (), (w1, sa))"
      "segregated_holds live ok L (w1, sa) (cache_requests (find_record tc) \<union> insert (p, n, a) X - {(p, n, a)})"
    by auto
  have sel: "sa_selector sa = sa_selector (tc_central tc)"
  proof -
    from d(1) obtain Fss where F: "segregated_inv live ok L (w, tc_central tc) Fss"
      "\<And>h. h \<in> cache_requests (find_record tc) \<union> insert (p, n, a) X \<Longrightarrow> served (tc_central tc) Fss h" by (rule segregated_holdsE) blast
    have sv: "served (tc_central tc) Fss (p, n, a)" by (rule F(2)) simp
    show ?thesis by (rule segregated_deallocate_statistics(2) [OF F(1) sv rl(1)])
  qed
  have "(p, n, a) \<notin> cache_requests (find_record tc)" "(p, n, a) \<notin> X" using np nx by (force simp: cache_requests_iff)+
  then have h': "segregated_holds live ok L (w1, sa) (cache_requests (find_record tc) \<union> X)" using rl(2) by simp
  obtain x w' tc' where cr: "central_release (Inr (), (w1, sa)) tc = (x, (w', tc'))" by (metis prod_cases3)
  note f = central_release_fields [OF cr]
  have "cache_ok live ok L X (w', tc') B K" using h' sel d(2) f(2,3) by (intro cache_ok_central [OF c f(4,5)]) simp_all
  then show ?thesis using cr f rl(1) by (simp add: central_deallocate_sized_def)
qed

lemma record_allocation_ok:
  assumes c: "cache_ok live ok L X (w, tc) B K" and np: "find_record tc p = None"
    and ra: "record_allocation p r (w, tc) = (x, (w', tc'))"
  shows "(\<exists>e. x = Inl e \<and> e = BadAlloc \<and> tc' = tc \<and> cache_ok live ok L X (w', tc) B K) \<or>
     (x = Inr () \<and> tc' = put_record p r tc \<and> cache_ok live ok L X (w', tc) B K)"
proof -
  obtain b w1 where m: "meta_alloc w = (b, w1)" by (cases "meta_alloc w")
  show ?thesis using ra m np cache_ok_tick [OF c m] by (cases b) (auto simp: record_allocation_def)
qed

text \<open>A pending block gets its record.\<close>

lemma put_pending_active:
  assumes c: "cache_ok live ok L (insert (record_request p r) X) (w, tc) B K" and np: "find_record tc p = None" and "arec_active r"
    and "arec_requested_size r = normalize_size n" and "arec_alignment r = a"
    and "selector_select (tc_selector tc) (arec_requested_size r) (arec_alignment r) =
      Inr (if arec_class_index r = fallback_class then None else Some (unat (arec_class_index r)))"
  shows "cache_ok live ok L X (w, put_record p r tc) B (insert (p, n, a) K)" and "p \<notin> fst ` K"
proof -
  note d = cache_okD [OF c]
  show "p \<notin> fst ` K" by (rule clients_put_active(2) [OF d(5) np assms(3-5)])
  show "cache_ok live ok L X (w, put_record p r tc) B (insert (p, n, a) K)"
    using d cache_requests_put [of "find_record tc" p r, OF np] records_ok_put [OF d(3) assms(6)] bins_put_active [OF d(4) np assms(3)]
      clients_put_active(1) [OF d(5) np assms(3-5)]
    unfolding cache_ok_def by simp
qed

lemma put_pending_cached:
  assumes c: "cache_ok live ok L (insert (record_request p r) X) (w, tc) B K" and np: "find_record tc p = None" and "\<not> arec_active r"
    and "arec_owner_thread r = t" and "arec_class_index r = of_nat i" and "i < length (tc_selector tc)"
    and "selector_select (tc_selector tc) (arec_requested_size r) (arec_alignment r) = Inr (Some i)"
  shows "cache_ok live ok L X (w, put_record p r tc) (set_bin B t i (B t i @ [p])) K"
proof -
  note d = cache_okD [OF c]
  note v = cache_ok_valid [OF c]
  have "selector_select (tc_selector tc) (arec_requested_size r) (arec_alignment r) =
      Inr (if arec_class_index r = fallback_class then None else Some (unat (arec_class_index r)))"
    using class_index [OF v assms(6)] assms(5,7) by simp
  then show ?thesis
    using d cache_requests_put [of "find_record tc" p r, OF np] records_ok_put [OF d(3)]
      bins_put_cached [OF d(4) np assms(3-5) v assms(6)] clients_put_cached [OF d(5) np assms(3)]
    unfolding cache_ok_def by simp
qed

end

end
