(* ===== verification/Thread_Cache_Operations.thy ===== *)
theory Thread_Cache_Operations
  imports Thread_Cache_Correct
begin

text \<open>
  Every operation of the thread-cached allocator keeps the invariant; the internal consistency checks (the
  \<^verbatim>\<open>logic_error\<close>s of \<^verbatim>\<open>allocate\<close> and \<^verbatim>\<open>flush_bin\<close>) never fire, and the bins stay below the high watermark.
\<close>

context memory_provider begin

section \<open>Flushing\<close>

lemma flush_step:
  assumes c: "cache_ok live ok L X (w, tc) (set_bin B t i bin) K" and ne: "bin \<noteq> []" and nx: "last bin \<notin> fst ` X"
  shows "\<exists>r w' tc'. find_record tc (last bin) = Some r \<and> \<not> arec_active r \<and>
     central_deallocate P (last bin) (w, tc) = (Inr (), (w', tc')) \<and> same_setup tc tc' \<and>
     cache_ok live ok L X (w', erase_record (last bin) tc') (set_bin B t i (butlast bin)) K"
proof -
  let ?p = "last bin"
  note d = cache_okD [OF c]
  have "set_bin B t i bin t i \<noteq> []" using ne by simp
  note pop = bins_pop [OF d(4) this cache_ok_valid [OF c], unfolded set_bin_simps]
  obtain r where r: "find_record tc ?p = Some r" "\<not> arec_active r" using pop(2) by blast
  obtain w' tc' where rl: "central_deallocate P ?p (w, tc) = (Inr (), (w', tc'))" "find_record tc' = find_record tc" "same_setup tc tc'"
      "tc_selector tc' = sa_selector (tc_central tc')"
      "segregated_holds live ok L (w', tc_central tc') (cache_requests ((find_record tc)(?p := None)) \<union> X)"
    using release_record [OF c r(1) nx disjI1 [OF refl]] by blast
  have s: "tc_selector tc' = tc_selector tc" "tc_cache_options tc' = tc_cache_options tc" using rl(3) by (simp_all add: same_setup_def)
  have "cache_ok live ok L X (w', erase_record ?p tc') (set_bin B t i (butlast bin)) K"
    unfolding cache_ok_def prod.case
    using rl(2,4,5) pop(1) records_ok_erase [OF d(3)] clients_erase_cached [OF d(5) r] d(6) s by simp
  then show ?thesis using r rl(1,3) by blast
qed

lemma flush_loop_ok:
  assumes "cache_ok live ok L {} (w, tc) (set_bin B t i bin) K"
  shows "\<exists>w' tc'. flush_loop P target bin released (w, tc) =
       (Inr (released + of_nat (length bin - length (take (unat target) bin))), (take (unat target) bin, (w', tc'))) \<and>
     cache_ok live ok L {} (w', tc') (set_bin B t i (take (unat target) bin)) K \<and> same_setup tc tc'"
  using assms
proof (induction bin arbitrary: w tc released rule: rev_induct)
  case Nil
  then show ?case by (simp add: flush_loop.simps)
next
  case (snoc p bin)
  show ?case
  proof (cases "unat target < length (bin @ [p])")
    case False
    then show ?thesis using snoc.prems by (simp add: flush_loop.simps)
  next
    case True
    obtain r w1 tc1 where st: "find_record tc p = Some r" "\<not> arec_active r" "central_deallocate P p (w, tc) = (Inr (), (w1, tc1))"
        "same_setup tc tc1" "cache_ok live ok L {} (w1, erase_record p tc1) (set_bin B t i bin) K"
      using flush_step [OF snoc.prems] by auto
    let ?tc = "(erase_record p tc1)\<lparr>tc_statistics := (tc_statistics (erase_record p tc1))
        \<lparr>tcs_cached_blocks := tcs_cached_blocks (tc_statistics (erase_record p tc1)) - 1\<rparr>\<rparr>"
    have c1: "cache_ok live ok L {} (w1, ?tc) (set_bin B t i bin) K"
      by (rule cache_ok_cong [OF st(5)]) (simp_all add: same_setup_def)
    have s1: "same_setup tc ?tc" using st(4) by (simp add: same_setup_def)
    have step: "flush_loop P target (bin @ [p]) released (w, tc) = flush_loop P target bin (released + 1) (w1, ?tc)"
      using True st(1-3) by (subst flush_loop.simps) simp
    have le: "unat target \<le> length bin" using True by simp
    have num: "released + 1 + of_nat (length bin - length (take (unat target) bin)) =
        released + of_nat (length (bin @ [p]) - length (take (unat target) (bin @ [p])))"
      using le by (simp add: Suc_diff_le)
    from snoc.IH [OF c1, of "released + 1"] show ?thesis
      unfolding step num using le s1 same_setup_trans by fastforce
  qed
qed

lemma flush_bin_ok:
  assumes "cache_ok live ok L {} (w, tc) (set_bin B t i bin) K"
  shows "\<exists>n w' tc'. flush_bin P bin target (w, tc) = (Inr n, (take (unat target) bin, (w', tc'))) \<and>
     cache_ok live ok L {} (w', tc') (set_bin B t i (take (unat target) bin)) K \<and> same_setup tc tc'"
proof -
  obtain n w' tc' where f: "flush_loop P target bin 0 (w, tc) = (Inr n, (take (unat target) bin, (w', tc')))"
      "cache_ok live ok L {} (w', tc') (set_bin B t i (take (unat target) bin)) K" "same_setup tc tc'"
    using flush_loop_ok [OF assms, of target 0] by auto
  let ?tc = "tc'\<lparr>tc_statistics := (tc_statistics tc')\<lparr>tcs_batch_flushes := tcs_batch_flushes (tc_statistics tc') + 1\<rparr>\<rparr>"
  have "cache_ok live ok L {} (w', ?tc) (set_bin B t i (take (unat target) bin)) K" "same_setup tc ?tc"
    using f(3) cache_ok_cong [OF f(2), of ?tc] by (simp_all add: same_setup_def)
  then show ?thesis using f by (cases "n = 0") (auto simp: flush_bin_def)
qed

lemma flush_bins_ok:
  assumes "cache_ok live ok L {} (w, tc) B K" and "\<And>k. k < length bins \<Longrightarrow> B t (i + k) = bins ! k"
  shows "\<exists>n w' tc'. flush_bins P bins released (w, tc) = (Inr n, (replicate (length bins) [], (w', tc'))) \<and>
     cache_ok live ok L {} (w', tc') (B(t := (\<lambda>j. if i \<le> j \<and> j < i + length bins then [] else B t j))) K \<and> same_setup tc tc'"
  using assms
proof (induction bins arbitrary: w tc B i released)
  case Nil
  have "B(t := (\<lambda>j. if i \<le> j \<and> j < i + length ([] :: addr list list) then [] else B t j)) = B" by (auto simp: fun_eq_iff)
  then show ?case using Nil.prems(1) by simp
next
  case (Cons bin bins)
  have b: "set_bin B t i bin = B" using Cons.prems(2) [of 0] by (auto simp: set_bin_def)
  obtain n w1 tc1 where f: "flush_bin P bin 0 (w, tc) = (Inr n, ([], (w1, tc1)))"
      "cache_ok live ok L {} (w1, tc1) (set_bin B t i []) K" "same_setup tc tc1"
    using flush_bin_ok [of L w tc B t i bin K 0] Cons.prems(1) b by auto
  have nx: "set_bin B t i [] t (Suc i + k) = bins ! k" if "k < length bins" for k
    using Cons.prems(2) [of "Suc k"] that by (simp add: set_bin_other)
  obtain m w2 tc2 where g: "flush_bins P bins (released + n) (w1, tc1) = (Inr m, (replicate (length bins) [], (w2, tc2)))"
      "cache_ok live ok L {} (w2, tc2) ((set_bin B t i [])(t := (\<lambda>j. if Suc i \<le> j \<and> j < Suc i + length bins then [] else set_bin B t i [] t j))) K"
      "same_setup tc1 tc2"
    using Cons.IH [OF f(2) nx] by blast
  have eq: "(set_bin B t i [])(t := (\<lambda>j. if Suc i \<le> j \<and> j < Suc i + length bins then [] else set_bin B t i [] t j)) =
      B(t := (\<lambda>j. if i \<le> j \<and> j < i + length (bin # bins) then [] else B t j))"
    by (auto simp: fun_eq_iff set_bin_other)
  have "flush_bins P (bin # bins) released (w, tc) = (Inr m, (replicate (length (bin # bins)) [], (w2, tc2)))" using f(1) g(1) by simp
  then show ?case using g(2) [unfolded eq] same_setup_trans [OF f(3) g(3)] by blast
qed

section \<open>Allocation\<close>

lemma tc_allocate_fallback_ok:
  assumes c: "cache_ok live ok L {} (w, tc) B K" and sel: "selector_select (tc_selector tc) (normalize_size n) a = Inr None"
    and op: "tc_allocate_fallback P t (normalize_size n) a (w, tc) = (x, (w', tc'))"
  shows "same_setup tc tc' \<and> (case x of
       Inl e \<Rightarrow> e \<noteq> UndefinedBehaviour \<and> e \<noteq> Terminate \<and> cache_ok live ok L {} (w', tc') B K
     | Inr q \<Rightarrow> cache_ok live ok L {} (w', tc') B (insert (q, n, a) K) \<and> q \<notin> fst ` K)"
proof -
  obtain y w1 tc1 where ca: "central_allocate P (normalize_size n) a (w, tc) = (y, (w1, tc1))" by (metis prod_cases3)
  note a1 = central_allocate_ok [OF c ca]
  show ?thesis
  proof (cases y)
    case (Inl e)
    then have "x = Inl e" "w' = w1" "tc' = tc1" using op ca by (auto simp: tc_allocate_fallback_def)
    then show ?thesis using a1 Inl by simp
  next
    case (Inr p)
    let ?r = "\<lparr>arec_class_index = fallback_class, arec_requested_size = normalize_size n, arec_alignment = a,
        arec_owner_thread = t, arec_active = True\<rparr>"
    have pend: "cache_ok live ok L {(p, normalize_size n, a)} (w1, tc1) B K" and np: "find_record tc1 p = None"
      using a1 Inr by simp_all
    obtain z w2 tc2 where ra: "record_allocation p ?r (w1, tc1) = (z, (w2, tc2))" by (metis prod_cases3)
    from record_allocation_ok [OF pend np ra] show ?thesis
    proof (elim disjE exE conjE)
      fix e assume e: "z = Inl e" "e = BadAlloc" "tc2 = tc1" "cache_ok live ok L {(p, normalize_size n, a)} (w2, tc1) B K"
      obtain w3 tc3 where rp: "central_deallocate_sized P p (normalize_size n) a (w2, tc1) = (Inr (), (w3, tc3))"
          "cache_ok live ok L {} (w3, tc3) B K" "same_setup tc1 tc3"
        using release_pending [OF e(4) np] by auto
      have "x = Inl BadAlloc" "w' = w3" "tc' = tc3" using op ca Inr ra e(1-3) rp(1) by (auto simp: tc_allocate_fallback_def)
      then show ?thesis using rp(2) same_setup_trans [OF a1(2) rp(3)] by simp
    next
      assume z: "z = Inr ()" "tc2 = put_record p ?r tc1" "cache_ok live ok L {(p, normalize_size n, a)} (w2, tc1) B K"
      have c2: "cache_ok live ok L {record_request p ?r} (w2, tc1) B K" using z(3) by (simp add: record_request_def)
      have s: "selector_select (tc_selector tc1) (arec_requested_size ?r) (arec_alignment ?r) =
          Inr (if arec_class_index ?r = fallback_class then None else Some (unat (arec_class_index ?r)))"
        using sel a1(2) by (simp add: same_setup_def)
      note pa = put_pending_active [OF c2 np _ _ _ s, of n a]
      have "x = Inr p" "w' = w2" "tc' = note_live_allocation tc2" using op ca Inr ra z(1) by (auto simp: tc_allocate_fallback_def)
      moreover have "cache_ok live ok L {} (w2, tc2) B (insert (p, n, a) K)" using pa(1) z(2) by simp
      then have "cache_ok live ok L {} (w2, note_live_allocation tc2) B (insert (p, n, a) K)"
        by (rule cache_ok_cong) (simp_all add: same_setup_def)
      moreover have "same_setup tc (note_live_allocation tc2)" using a1(2) z(2) by (simp add: same_setup_def)
      ultimately show ?thesis using pa(2) by simp
    qed
  qed
qed

text \<open>A cached block changes hands: it leaves the bin, and its record and the central request take the new size.\<close>

lemma reactivate_ok:
  assumes c: "cache_ok live ok L X (w, tc) (set_bin B t i bin) K" and ne: "bin \<noteq> []" and nx: "last bin \<notin> fst ` X"
    and sel: "selector_select (tc_selector tc) (normalize_size n) a = Inr (Some i)"
  obtains r where "find_record tc (last bin) = Some r" "\<not> arec_active r" "last bin \<notin> fst ` K"
    "cache_ok live ok L X
       (w, put_record (last bin) (r\<lparr>arec_requested_size := normalize_size n, arec_alignment := a, arec_owner_thread := t', arec_active := True\<rparr>) tc)
       (set_bin B t i (butlast bin)) (insert (last bin, n, a) K)"
proof -
  let ?p = "last bin" and ?R = "find_record tc"
  note d = cache_okD [OF c]
  note v = cache_ok_valid [OF c]
  have "set_bin B t i bin t i \<noteq> []" using ne by simp
  note pop = bins_pop [OF d(4) this v, unfolded set_bin_simps]
  obtain r where r: "?R ?p = Some r" "\<not> arec_active r" "arec_class_index r = of_nat i" "i < length (tc_selector tc)" using pop(2) by blast
  let ?r = "r\<lparr>arec_requested_size := normalize_size n, arec_alignment := a, arec_owner_thread := t', arec_active := True\<rparr>"
  let ?Rm = "?R(?p := None)"
  have eq: "?R(?p \<mapsto> ?r) = ?Rm(?p \<mapsto> ?r)" by simp
  have n0: "?Rm ?p = None" by simp
  note ci = class_index [OF v r(4)]
  have cl: "selector_select (tc_selector tc) (arec_requested_size r) (arec_alignment r) = Inr (Some i)"
    using record_class [OF d(3) r(1)] r(3) ci by simp
  have "(?p, arec_requested_size r, arec_alignment r) \<in> cache_requests ?R \<union> X" unfolding Un_iff cache_requests_iff using r(1) by blast
  then have "segregated_holds live ok L (w, tc_central tc)
      (insert (?p, normalize_size n, a) (cache_requests ?R \<union> X - {(?p, arec_requested_size r, arec_alignment r)}))"
    using cl sel d(1,2) by (intro central_reissue) simp_all
  moreover have "insert (?p, normalize_size n, a) (cache_requests ?R \<union> X - {(?p, arec_requested_size r, arec_alignment r)}) =
      cache_requests (?Rm(?p \<mapsto> ?r)) \<union> X"
    using cache_requests_put [of ?Rm ?p ?r, OF n0] cache_requests_erase [of ?R ?p r, OF r(1)] nx by (force simp: record_request_def)
  ultimately have h: "segregated_holds live ok L (w, tc_central tc) (cache_requests (?R(?p \<mapsto> ?r)) \<union> X)" by simp
  have rec: "records_ok (tc_selector tc) (?R(?p \<mapsto> ?r))"
    using records_ok_put [OF d(3), of ?r ?p] r(3) ci sel by simp
  have bin: "bins_ok (tc_selector tc) (?R(?p \<mapsto> ?r)) (set_bin B t i (butlast bin))"
    unfolding eq by (rule bins_put_active [OF pop(1) n0]) simp
  have ce: "clients_ok ?Rm K" by (rule clients_erase_cached [OF d(5) r(1,2)])
  have clients: "clients_ok (?R(?p \<mapsto> ?r)) (insert (?p, n, a) K)"
    unfolding eq by (rule clients_put_active(1) [OF ce n0]) simp_all
  have nk: "?p \<notin> fst ` K" by (rule clients_put_active(2) [OF ce n0, of ?r n a]) simp_all
  have "cache_ok live ok L X (w, put_record ?p ?r tc) (set_bin B t i (butlast bin)) (insert (?p, n, a) K)"
    unfolding cache_ok_def prod.case using h rec bin clients d(2,6) by simp
  then show thesis by (rule that [OF r(1,2) nk])
qed

lemma tc_allocate_cached_ok:
  assumes c: "cache_ok live ok L {} (w, tc) (set_bin B t i bin) K" and ne: "bin \<noteq> []"
    and sel: "selector_select (tc_selector tc) (normalize_size n) a = Inr (Some i)"
  shows "\<exists>q tc'. tc_allocate_cached t bin (normalize_size n) a (w, tc) = (Inr q, (butlast bin, (w, tc'))) \<and> same_setup tc tc' \<and>
     cache_ok live ok L {} (w, tc') (set_bin B t i (butlast bin)) (insert (q, n, a) K) \<and> q \<notin> fst ` K"
proof -
  let ?p = "last bin"
  have nx: "?p \<notin> fst ` {}" by simp
  obtain r where r: "find_record tc ?p = Some r" "\<not> arec_active r" "?p \<notin> fst ` K"
      "cache_ok live ok L {} (w, put_record ?p (r\<lparr>arec_requested_size := normalize_size n, arec_alignment := a,
         arec_owner_thread := t, arec_active := True\<rparr>) tc) (set_bin B t i (butlast bin)) (insert (?p, n, a) K)"
    by (rule reactivate_ok [OF c ne nx sel])
  let ?r = "r\<lparr>arec_requested_size := normalize_size n, arec_alignment := a, arec_owner_thread := t, arec_active := True\<rparr>"
  let ?tc = "note_live_allocation ((put_record ?p ?r tc)\<lparr>tc_statistics := (tc_statistics (put_record ?p ?r tc))
      \<lparr>tcs_cache_hits := tcs_cache_hits (tc_statistics (put_record ?p ?r tc)) + 1,
       tcs_cached_blocks := tcs_cached_blocks (tc_statistics (put_record ?p ?r tc)) - 1\<rparr>\<rparr>)"
  have "tc_allocate_cached t bin (normalize_size n) a (w, tc) = (Inr ?p, (butlast bin, (w, ?tc)))"
    using r(1,2) by (simp add: tc_allocate_cached_def Let_def)
  moreover have "cache_ok live ok L {} (w, ?tc) (set_bin B t i (butlast bin)) (insert (?p, n, a) K)"
    by (rule cache_ok_cong [OF r(4)]) (simp_all add: same_setup_def)
  moreover have "same_setup tc ?tc" by (simp add: same_setup_def)
  ultimately show ?thesis using r(3) by blast
qed

lemma refill_rest:
  assumes "cache_ok live ok L {} (w, tc) (set_bin B t i bin) K" and "i < length (tc_selector tc)"
    and "selector_select (tc_selector tc) rs a = Inr (Some i)"
  shows "\<exists>bin' w' tc'. refill_loop P t i rs a k False result bin (w, tc) = (Inr result, (bin', (w', tc'))) \<and>
     cache_ok live ok L {} (w', tc') (set_bin B t i bin') K \<and> length bin' \<le> length bin + k \<and> same_setup tc tc'"
  using assms
proof (induction k arbitrary: bin w tc)
  case 0
  then show ?case by simp
next
  case (Suc k)
  obtain y w1 tc1 where ca: "central_allocate P rs a (w, tc) = (y, (w1, tc1))" by (metis prod_cases3)
  note a1 = central_allocate_ok [OF Suc.prems(1) ca]
  show ?case
  proof (cases y)
    case (Inl e)
    then show ?thesis using ca a1 by auto
  next
    case (Inr p)
    let ?r = "\<lparr>arec_class_index = of_nat i, arec_requested_size = rs, arec_alignment = a, arec_owner_thread = t, arec_active = False\<rparr>"
    have pend: "cache_ok live ok L {(p, rs, a)} (w1, tc1) (set_bin B t i bin) K" and np: "find_record tc1 p = None" and p0: "p \<noteq> 0"
      using a1 Inr by simp_all
    have s1: "tc_selector tc1 = tc_selector tc" using a1(2) by (simp add: same_setup_def)
    obtain z w2 tc2 where ra: "record_allocation p ?r (w1, tc1) = (z, (w2, tc2))" by (metis prod_cases3)
    from record_allocation_ok [OF pend np ra] show ?thesis
    proof (elim disjE exE conjE)
      fix e assume e: "z = Inl e" "tc2 = tc1" "cache_ok live ok L {(p, rs, a)} (w2, tc1) (set_bin B t i bin) K"
      obtain w3 tc3 where rp: "central_deallocate_sized P p rs a (w2, tc1) = (Inr (), (w3, tc3))"
          "cache_ok live ok L {} (w3, tc3) (set_bin B t i bin) K" "same_setup tc1 tc3"
        using release_pending [OF e(3) np] by auto
      have "refill_loop P t i rs a (Suc k) False result bin (w, tc) = (Inr result, (bin, (w3, tc3)))"
        using ca Inr ra e(1,2) rp(1) p0 by simp
      then show ?thesis using rp(2) same_setup_trans [OF a1(2) rp(3)] le_add1 by blast
    next
      assume z: "z = Inr ()" "tc2 = put_record p ?r tc1" "cache_ok live ok L {(p, rs, a)} (w2, tc1) (set_bin B t i bin) K"
      have "cache_ok live ok L {} (w2, tc2) (set_bin B t i (bin @ [p])) K"
        using put_pending_cached [of L p ?r "{}" w2 tc1 "set_bin B t i bin" K t i] z(2,3) np Suc.prems(2,3) s1
        by (simp add: record_request_def)
      then have c2: "cache_ok live ok L {} (w2, note_cached_block tc2) (set_bin B t i (bin @ [p])) K"
        by (rule cache_ok_cong) (simp_all add: same_setup_def)
      have sel: "tc_selector (note_cached_block tc2) = tc_selector tc" "same_setup tc (note_cached_block tc2)"
        using z(2) s1 a1(2) by (simp_all add: same_setup_def)
      obtain bin' w' tc' where "refill_loop P t i rs a k False result (bin @ [p]) (w2, note_cached_block tc2) = (Inr result, (bin', (w', tc')))"
          "cache_ok live ok L {} (w', tc') (set_bin B t i bin') K" "length bin' \<le> length (bin @ [p]) + k" "same_setup (note_cached_block tc2) tc'"
        using Suc.IH [OF c2] Suc.prems(2,3) sel(1) by auto
      then show ?thesis using ca Inr ra z(1) same_setup_trans [OF sel(2)] by auto
    qed
  qed
qed

lemma tc_allocate_refill_ok:
  assumes c: "cache_ok live ok L {} (w, tc) (set_bin B t i []) K" and i: "i < length (tc_selector tc)"
    and sel: "selector_select (tc_selector tc) (normalize_size n) a = Inr (Some i)"
    and op: "tc_allocate_refill P t i [] (normalize_size n) a (w, tc) = (x, (bin', (w', tc')))"
  shows "same_setup tc tc' \<and> length bin' < unat (tco_refill_batch (tc_cache_options tc)) \<and> (case x of
       Inl e \<Rightarrow> e \<noteq> UndefinedBehaviour \<and> e \<noteq> Terminate \<and> cache_ok live ok L {} (w', tc') (set_bin B t i bin') K
     | Inr q \<Rightarrow> cache_ok live ok L {} (w', tc') (set_bin B t i bin') (insert (q, n, a) K) \<and> q \<notin> fst ` K)"
proof -
  let ?rs = "normalize_size n"
  let ?tc = "tc\<lparr>tc_statistics := (tc_statistics tc)\<lparr>tcs_batch_refills := tcs_batch_refills (tc_statistics tc) + 1\<rparr>\<rparr>"
  have c0: "cache_ok live ok L {} (w, ?tc) (set_bin B t i []) K" by (rule cache_ok_cong [OF c]) (simp_all add: same_setup_def)
  have "tco_refill_batch (tc_cache_options tc) \<noteq> 0"
    using cache_okD(6) [OF c] by (auto simp: validate_cache_options_def split: if_splits)
  then obtain k where k: "unat (tco_refill_batch (tc_cache_options tc)) = Suc k" by (metis unat_eq_zero not0_implies_Suc)
  obtain y w1 tc1 where ca: "central_allocate P ?rs a (w, ?tc) = (y, (w1, tc1))" by (metis prod_cases3)
  note a1 = central_allocate_ok [OF c0 ca]
  have s1: "same_setup tc tc1" using a1(2) by (simp add: same_setup_def)
  show ?thesis
  proof (cases y)
    case (Inl e)
    then have "x = Inl e" "bin' = []" "w' = w1" "tc' = tc1" using op ca k by (auto simp: tc_allocate_refill_def Let_def)
    then show ?thesis using a1 Inl s1 k by simp
  next
    case (Inr p)
    let ?r = "\<lparr>arec_class_index = of_nat i, arec_requested_size = ?rs, arec_alignment = a, arec_owner_thread = t, arec_active = True\<rparr>"
    have pend: "cache_ok live ok L {(p, ?rs, a)} (w1, tc1) (set_bin B t i []) K" and np: "find_record tc1 p = None" and p0: "p \<noteq> 0"
      using a1 Inr by simp_all
    obtain z w2 tc2 where ra: "record_allocation p ?r (w1, tc1) = (z, (w2, tc2))" by (metis prod_cases3)
    from record_allocation_ok [OF pend np ra] show ?thesis
    proof (elim disjE exE conjE)
      fix e assume e: "z = Inl e" "e = BadAlloc" "tc2 = tc1" "cache_ok live ok L {(p, ?rs, a)} (w2, tc1) (set_bin B t i []) K"
      obtain w3 tc3 where rp: "central_deallocate_sized P p ?rs a (w2, tc1) = (Inr (), (w3, tc3))"
          "cache_ok live ok L {} (w3, tc3) (set_bin B t i []) K" "same_setup tc1 tc3"
        using release_pending [OF e(4) np] by auto
      have "x = Inl BadAlloc" "bin' = []" "w' = w3" "tc' = tc3"
        using op ca Inr ra e(1-3) rp(1) p0 k by (auto simp: tc_allocate_refill_def Let_def)
      then show ?thesis using rp(2) same_setup_trans [OF s1 rp(3)] k by simp
    next
      assume z: "z = Inr ()" "tc2 = put_record p ?r tc1" "cache_ok live ok L {(p, ?rs, a)} (w2, tc1) (set_bin B t i []) K"
      have c2: "cache_ok live ok L {record_request p ?r} (w2, tc1) (set_bin B t i []) K" using z(3) by (simp add: record_request_def)
      have s: "selector_select (tc_selector tc1) (arec_requested_size ?r) (arec_alignment ?r) =
          Inr (if arec_class_index ?r = fallback_class then None else Some (unat (arec_class_index ?r)))"
        using sel s1 class_index [OF cache_ok_valid [OF c] i] by (simp add: same_setup_def)
      note pa = put_pending_active [OF c2 np _ _ _ s, of n a]
      have c3: "cache_ok live ok L {} (w2, tc2) (set_bin B t i []) (insert (p, n, a) K)" using pa(1) z(2) by simp
      have s2: "tc_selector tc2 = tc_selector tc" "same_setup tc tc2" using z(2) s1 by (simp_all add: same_setup_def)
      obtain bn w3 tc3 where rr: "refill_loop P t i ?rs a k False p [] (w2, tc2) = (Inr p, (bn, (w3, tc3)))"
          "cache_ok live ok L {} (w3, tc3) (set_bin B t i bn) (insert (p, n, a) K)" "length bn \<le> k" "same_setup tc2 tc3"
        using refill_rest [OF c3, of ?rs a k p] i sel s2(1) by auto
      have "x = Inr p" "bin' = bn" "w' = w3" "tc' = note_live_allocation tc3"
        using op ca Inr ra z(1) k rr(1) by (auto simp: tc_allocate_refill_def Let_def)
      moreover have "cache_ok live ok L {} (w3, note_live_allocation tc3) (set_bin B t i bn) (insert (p, n, a) K)"
        by (rule cache_ok_cong [OF rr(2)]) (simp_all add: same_setup_def)
      moreover have "same_setup tc (note_live_allocation tc3)"
        using same_setup_trans [OF s2(2) rr(4)] by (simp add: same_setup_def)
      ultimately show ?thesis using pa(2) rr(3) k by simp
    qed
  qed
qed

end

end
