(* ===== verification/Thread_Cache_Runs.thy ===== *)
theory Thread_Cache_Runs
  imports Thread_Cache_Operations
begin

text \<open>
  The public operations, the registry of the threads, and runs in which any thread may call any operation at
  any time, blocks may be returned by other threads than they were served to, and threads come and go.
\<close>

section \<open>The bins of a thread\<close>

definition nth_bin :: "cache_bins \<Rightarrow> nat \<Rightarrow> addr list" where
  "nth_bin bins i = (if i < length bins then bins ! i else [])"

lemma nth_bin_update:
  "i < length bins \<Longrightarrow> B(t := nth_bin (bins[i := b])) = set_bin (B(t := nth_bin bins)) t i b"
  by (auto simp: fun_eq_iff set_bin_other nth_bin_def nth_list_update)

lemma nth_bin_same: "i < length bins \<Longrightarrow> B(t := nth_bin bins) = set_bin (B(t := nth_bin bins)) t i (bins ! i)"
  by (auto simp: fun_eq_iff set_bin_other nth_bin_def)

definition bins_bounded :: "thread_cache \<Rightarrow> cache_bins \<Rightarrow> bool" where
  "bins_bounded tc bins \<longleftrightarrow>
     length bins = class_count tc \<and> (\<forall>b \<in> set bins. length b \<le> unat (tco_high_watermark (tc_cache_options tc)))"

lemma bins_bounded_setup: "same_setup tc tc' \<Longrightarrow> bins_bounded tc' = bins_bounded tc"
  by (auto simp: fun_eq_iff bins_bounded_def same_setup_def class_count_def)

lemma bins_bounded_update:
  "bins_bounded tc bins \<Longrightarrow> length b \<le> unat (tco_high_watermark (tc_cache_options tc)) \<Longrightarrow> bins_bounded tc (bins[i := b])"
  by (auto simp: bins_bounded_def dest!: set_update_subset_insert [THEN subsetD])

lemma selector_select_Inl: "selector_select sel n a = Inl e \<Longrightarrow> e = InvalidArgument"
  by (auto simp: selector_select_def Let_def split: if_splits)

lemma valid_watermarks:
  assumes "validate_cache_options options = Inr options"
  shows "unat (tco_low_watermark options) \<le> unat (tco_high_watermark options)"
    and "unat (tco_refill_batch options) \<le> unat (tco_high_watermark options)"
  using assms by (auto simp: validate_cache_options_def word_le_nat_alt word_less_nat_alt not_less split: if_splits)

text \<open>The size and alignment given by the caller, if any, were accepted for the record.\<close>

definition size_check :: "thread_cache \<Rightarrow> allocation_record \<Rightarrow> (size_t \<times> size_t) option \<Rightarrow> unit result" where
  "size_check tc r sized = (case sized of Some (sz, al) \<Rightarrow> validate_sized_deallocation tc r sz al | None \<Rightarrow> Inr ())"

lemma size_check_accepts:
  assumes "valid_selector (tc_selector tc)" and "records_ok (tc_selector tc) (find_record tc)" and "find_record tc p = Some r"
    and "validate_sized_deallocation tc r n a = Inr ()"
  shows "selector_select (tc_selector tc) n a = selector_select (tc_selector tc) (arec_requested_size r) (arec_alignment r)"
    and "arec_class_index r \<noteq> fallback_class \<or> max n 1 = max (arec_requested_size r) 1 \<and> a = arec_alignment r"
proof -
  note rc = record_class [OF assms(2,3)]
  have "selector_select (tc_selector tc) n a = selector_select (tc_selector tc) (arec_requested_size r) (arec_alignment r) \<and>
    (arec_class_index r \<noteq> fallback_class \<or> max n 1 = max (arec_requested_size r) 1 \<and> a = arec_alignment r)"
  proof (cases "arec_class_index r = fallback_class")
    case True
    then have "arec_requested_size r = normalize_size n" "arec_alignment r = a"
      using assms(4) by (auto simp: validate_sized_deallocation_def Let_def split: if_splits)
    then show ?thesis by simp (simp add: normalize_size_def)
  next
    case False
    then obtain i where i: "selector_select (tc_selector tc) n a = Inr (Some i)" "of_nat i = arec_class_index r"
      using assms(4) by (auto simp: validate_sized_deallocation_def Let_def split: sum.splits option.splits if_splits)
    have "i = unat (arec_class_index r)"
      using class_index [OF assms(1) selector_select_Some(1) [OF assms(1) i(1)]] i(2) by simp
    then show ?thesis using i(1) rc False by simp
  qed
  then show "selector_select (tc_selector tc) n a = selector_select (tc_selector tc) (arec_requested_size r) (arec_alignment r)"
    and "arec_class_index r \<noteq> fallback_class \<or> max n 1 = max (arec_requested_size r) 1 \<and> a = arec_alignment r" by blast+
qed

text \<open>What is rejected changes only the count of requests.\<close>

lemma tc_deallocate_rejected:
  assumes "case find_record tc p of None \<Rightarrow> e = InvalidPoolPointer | Some r \<Rightarrow>
     (if arec_active r then size_check tc r sized = Inl e else e = DoubleFreeError)"
  shows "tc_deallocate P t bins p sized (w, tc) =
     (Inl e, (bins, (w, tc\<lparr>tc_statistics := (tc_statistics tc)
        \<lparr>tcs_deallocation_requests := tcs_deallocation_requests (tc_statistics tc) + 1\<rparr>\<rparr>)))"
  using assms
  by (auto simp: tc_deallocate_def Let_def size_check_def validate_sized_deallocation_def split: option.splits if_splits)

context memory_provider begin

section \<open>Allocation\<close>

lemma tc_allocate_ok:
  assumes c: "cache_ok live ok L {} (w, tc) (B(t := nth_bin bins)) K" and bb: "bins_bounded tc bins"
    and op: "tc_allocate P t bins n a (w, tc) = (x, (bins', (w', tc')))"
  shows "same_setup tc tc' \<and> bins_bounded tc bins' \<and> (case x of
       Inl e \<Rightarrow> e \<noteq> UndefinedBehaviour \<and> e \<noteq> Terminate \<and> cache_ok live ok L {} (w', tc') (B(t := nth_bin bins')) K
     | Inr q \<Rightarrow> cache_ok live ok L {} (w', tc') (B(t := nth_bin bins')) (insert (q, n, a) K) \<and> q \<notin> fst ` K)"
proof -
  let ?tc = "tc\<lparr>tc_statistics := (tc_statistics tc)\<lparr>tcs_allocation_requests := tcs_allocation_requests (tc_statistics tc) + 1\<rparr>\<rparr>"
  let ?high = "unat (tco_high_watermark (tc_cache_options tc))"
  have c0: "cache_ok live ok L {} (w, ?tc) (B(t := nth_bin bins)) K" by (rule cache_ok_cong [OF c]) (simp_all add: same_setup_def)
  have s0: "same_setup tc ?tc" by (simp add: same_setup_def)
  consider (bad) e where "selector_select (tc_selector tc) (normalize_size n) a = Inl e"
    | (none) "selector_select (tc_selector tc) (normalize_size n) a = Inr None"
    | (some) i where "selector_select (tc_selector tc) (normalize_size n) a = Inr (Some i)"
    by (cases "selector_select (tc_selector tc) (normalize_size n) a"; metis option.exhaust)
  then show ?thesis
  proof cases
    case (bad e)
    then have "x = Inl e" "bins' = bins" "w' = w" "tc' = ?tc" using op by (auto simp: tc_allocate_def Let_def)
    then show ?thesis using c0 s0 bb selector_select_Inl [OF bad] by simp
  next
    case none
    obtain y w1 tc1 where fb: "tc_allocate_fallback P t (normalize_size n) a (w, ?tc) = (y, (w1, tc1))" by (metis prod_cases3)
    then have "x = y" "bins' = bins" "w' = w1" "tc' = tc1" using op none by (auto simp: tc_allocate_def Let_def)
    then show ?thesis using tc_allocate_fallback_ok [OF c0 _ fb] none same_setup_trans [OF s0] bb by (cases y) simp_all
  next
    case (some i)
    have i: "i < length (tc_selector tc)" by (rule selector_select_Some(1) [OF cache_ok_valid [OF c] some])
    then have ib: "i < length bins" using bb by (simp add: bins_bounded_def class_count_def)
    have cb: "cache_ok live ok L {} (w, ?tc) (set_bin (B(t := nth_bin bins)) t i (bins ! i)) K"
      by (subst nth_bin_same [OF ib, symmetric]) (rule c0)
    have len: "length (bins ! i) \<le> ?high" using bb ib nth_mem by (auto simp: bins_bounded_def)
    show ?thesis
    proof (cases "bins ! i = []")
      case False
      from tc_allocate_cached_ok [OF cb False, of n a] some
      obtain q tc1 where h: "tc_allocate_cached t (bins ! i) (normalize_size n) a (w, ?tc) = (Inr q, (butlast (bins ! i), (w, tc1)))"
        "same_setup ?tc tc1" "cache_ok live ok L {} (w, tc1) (set_bin (B(t := nth_bin bins)) t i (butlast (bins ! i))) (insert (q, n, a) K)"
        "q \<notin> fst ` K" by auto
      have "x = Inr q" "bins' = bins[i := butlast (bins ! i)]" "w' = w" "tc' = tc1" using op some False h(1) by (auto simp: tc_allocate_def Let_def)
      then show ?thesis
        using h(3,4) nth_bin_update [OF ib, of B t] same_setup_trans [OF s0 h(2)] bins_bounded_update [OF bb, of "butlast (bins ! i)" i] len by simp
    next
      case True
      obtain y b w1 tc1 where rf: "tc_allocate_refill P t i [] (normalize_size n) a (w, ?tc) = (y, (b, (w1, tc1)))" by (metis prod_cases4)
      note r = tc_allocate_refill_ok [OF cb [unfolded True] _ _ rf]
      have "x = y" "bins' = bins[i := b]" "w' = w1" "tc' = tc1" using op some True rf by (auto simp: tc_allocate_def Let_def)
      moreover have "length b \<le> ?high" using r i some valid_watermarks(2) [OF cache_okD(6) [OF c]] by simp
      ultimately show ?thesis
        using r i some nth_bin_update [OF ib, of B t b] same_setup_trans [OF s0] bins_bounded_update [OF bb, of b i] by (cases y) simp_all
    qed
  qed
qed

section \<open>Deallocation\<close>

text \<open>A block of a client becomes a cached block of its owner; the central allocator is not involved.\<close>

lemma deactivate_ok:
  assumes c: "cache_ok live ok L X (w, tc) B K" and k: "(p, n, a) \<in> K" and r: "find_record tc p = Some r" "arec_active r"
    and cl: "arec_class_index r \<noteq> fallback_class" and ow: "arec_owner_thread r = t"
  defines "i \<equiv> unat (arec_class_index r)"
  shows "i < length (tc_selector tc)"
    and "cache_ok live ok L X (w, put_record p (r\<lparr>arec_active := False\<rparr>) tc) (set_bin B t i (B t i @ [p])) (K - {(p, n, a)})"
proof -
  note d = cache_okD [OF c] and v = cache_ok_valid [OF c]
  let ?R = "find_record tc" and ?r = "r\<lparr>arec_active := False\<rparr>"
  let ?Rm = "?R(p := None)"
  have sel: "selector_select (tc_selector tc) (arec_requested_size r) (arec_alignment r) = Inr (Some i)"
    using record_class [OF d(3) r(1)] cl by (simp add: i_def)
  show i: "i < length (tc_selector tc)" by (rule selector_select_Some(1) [OF v sel])
  have eq: "?R(p \<mapsto> ?r) = ?Rm(p \<mapsto> ?r)" by simp
  have n0: "?Rm p = None" by simp
  have "(p, arec_requested_size r, arec_alignment r) \<in> cache_requests ?R" unfolding cache_requests_iff using r(1) by blast
  then have req: "cache_requests (?R(p \<mapsto> ?r)) = cache_requests ?R"
    unfolding eq using cache_requests_put [of ?Rm p ?r, OF n0] cache_requests_erase [of ?R p r, OF r(1)]
    by (simp add: record_request_def insert_absorb)
  have ix: "arec_class_index ?r = of_nat i" by (simp add: i_def)
  have bins: "bins_ok (tc_selector tc) (?R(p \<mapsto> ?r)) (set_bin B t i (B t i @ [p]))"
    unfolding eq using ow by (intro bins_put_cached [OF bins_erase_active [OF d(4) r] n0 _ _ ix v i]) simp_all
  have cls: "clients_ok (?R(p \<mapsto> ?r)) (K - {(p, n, a)})"
    unfolding eq by (rule clients_put_cached [OF clients_erase_active [OF d(5) k] n0]) simp
  have rec: "records_ok (tc_selector tc) (?R(p \<mapsto> ?r))" using records_ok_put [OF d(3), of ?r p] record_class [OF d(3) r(1)] by simp
  show "cache_ok live ok L X (w, put_record p ?r tc) (set_bin B t i (B t i @ [p])) (K - {(p, n, a)})"
    unfolding cache_ok_def prod.case using d(1,2,6) req bins cls rec by simp
qed

text \<open>The block of a client goes back to the central allocator, and its record goes.\<close>

lemma retire_ok:
  assumes c: "cache_ok live ok L X (w, tc) B K" and k: "(p, n, a) \<in> K" and r: "find_record tc p = Some r"
    and nx: "p \<notin> fst ` X" and sz: "size_check tc r sized = Inr ()"
  obtains w' tc' where
    "(case sized of Some (sz, al) \<Rightarrow> central_deallocate_sized P p sz al (w, tc) | None \<Rightarrow> central_deallocate P p (w, tc)) = (Inr (), (w', tc'))"
    and "same_setup tc tc'" and "find_record tc' = find_record tc"
    and "cache_ok live ok L X (w', erase_record p tc') B (K - {(p, n, a)})"
proof -
  note d = cache_okD [OF c]
  have rk: "arec_active r" using clients_okD(2) [OF d(5) k] r by auto
  let ?op = "case sized of Some (sz, al) \<Rightarrow> central_deallocate_sized P p sz al (w, tc) | None \<Rightarrow> central_deallocate P p (w, tc)"
  obtain n' a' where cases: "?op = central_deallocate P p (w, tc) \<or>
      (?op = central_deallocate_sized P p n' a' (w, tc) \<and>
       selector_select (tc_selector tc) n' a' = selector_select (tc_selector tc) (arec_requested_size r) (arec_alignment r) \<and>
       (arec_class_index r \<noteq> fallback_class \<or> max n' 1 = max (arec_requested_size r) 1 \<and> a' = arec_alignment r))"
  proof (cases sized)
    case (Some na)
    obtain n' a' where na: "na = (n', a')" by (cases na)
    then have "validate_sized_deallocation tc r n' a' = Inr ()" using sz Some by (simp add: size_check_def)
    from size_check_accepts [OF cache_ok_valid [OF c] d(3) r this] show ?thesis using that [of n' a'] Some na by simp
  qed (use that in simp)
  obtain w' tc' where rl: "?op = (Inr (), (w', tc'))" "find_record tc' = find_record tc" "same_setup tc tc'"
      "tc_selector tc' = sa_selector (tc_central tc')"
      "segregated_holds live ok L (w', tc_central tc') (cache_requests ((find_record tc)(p := None)) \<union> X)"
    using release_record [OF c r nx cases] by blast
  have s: "tc_selector tc' = tc_selector tc" "tc_cache_options tc' = tc_cache_options tc" using rl(3) by (simp_all add: same_setup_def)
  have "cache_ok live ok L X (w', erase_record p tc') B (K - {(p, n, a)})"
    unfolding cache_ok_def prod.case
    using rl(2,4,5) records_ok_erase [OF d(3)] bins_erase_active [OF d(4) r rk] clients_erase_active [OF d(5) k] d(6) s by simp
  then show thesis by (rule that [OF rl(1,3,2)])
qed

lemma tc_deallocate_central_ok:
  assumes c: "cache_ok live ok L {} (w, tc) B K" and k: "(p, n, a) \<in> K" and r: "find_record tc p = Some r"
    and sz: "size_check tc r sized = Inr ()"
  shows "\<exists>w' tc'. tc_deallocate_central P p sized remote (w, tc) = (Inr (), (w', tc')) \<and> same_setup tc tc' \<and>
     cache_ok live ok L {} (w', tc') B (K - {(p, n, a)})"
proof -
  have nx: "p \<notin> fst ` {}" by simp
  obtain w' tc' where rl:
    "(case sized of Some (sz, al) \<Rightarrow> central_deallocate_sized P p sz al (w, tc) | None \<Rightarrow> central_deallocate P p (w, tc)) = (Inr (), (w', tc'))"
    "same_setup tc tc'" "cache_ok live ok L {} (w', erase_record p tc') B (K - {(p, n, a)})"
    by (rule retire_ok [OF c k r nx sz])
  let ?tc = "(erase_record p tc')\<lparr>tc_statistics := (tc_statistics (erase_record p tc'))
      \<lparr>tcs_remote_deallocations := tcs_remote_deallocations (tc_statistics (erase_record p tc')) + (if remote then 1 else 0),
       tcs_live_allocations := tcs_live_allocations (tc_statistics (erase_record p tc')) - 1\<rparr>\<rparr>"
  have "cache_ok live ok L {} (w', ?tc) B (K - {(p, n, a)})" by (rule cache_ok_cong [OF rl(3)]) (simp_all add: same_setup_def)
  moreover have "same_setup tc ?tc" using rl(2) by (simp add: same_setup_def)
  moreover have "tc_deallocate_central P p sized remote (w, tc) = (Inr (), (w', ?tc))" using rl(1) by (simp add: tc_deallocate_central_def)
  ultimately show ?thesis by blast
qed

lemma tc_deallocate_local_ok:
  assumes c: "cache_ok live ok L {} (w, tc) (B(t := nth_bin bins)) K" and bb: "bins_bounded tc bins" and k: "(p, n, a) \<in> K"
    and r: "find_record tc p = Some r" "arec_active r" "arec_class_index r \<noteq> fallback_class" "arec_owner_thread r = t"
  shows "\<exists>bins' w' tc'. tc_deallocate_local P bins p r (w, tc) = (Inr (), (bins', (w', tc'))) \<and> same_setup tc tc' \<and>
     bins_bounded tc bins' \<and> cache_ok live ok L {} (w', tc') (B(t := nth_bin bins')) (K - {(p, n, a)})"
proof -
  let ?i = "unat (arec_class_index r)" and ?o = "tc_cache_options tc"
  let ?t0 = "put_record p (r\<lparr>arec_active := False\<rparr>) tc"
  let ?tc = "note_cached_block (?t0\<lparr>tc_statistics := (tc_statistics ?t0)
      \<lparr>tcs_local_deallocations := tcs_local_deallocations (tc_statistics ?t0) + 1,
       tcs_live_allocations := tcs_live_allocations (tc_statistics ?t0) - 1\<rparr>\<rparr>)"
  note da = deactivate_ok [OF c k r]
  have ib: "?i < length bins" using da(1) bb by (simp add: bins_bounded_def class_count_def)
  have bi: "(B(t := nth_bin bins)) t ?i = bins ! ?i" using ib by (simp add: nth_bin_def)
  let ?bin = "bins ! ?i @ [p]"
  have c1: "cache_ok live ok L {} (w, ?tc) (set_bin (B(t := nth_bin bins)) t ?i ?bin) (K - {(p, n, a)})"
    by (rule cache_ok_cong [OF da(2) [unfolded bi]]) (simp_all add: same_setup_def)
  have s1: "same_setup tc ?tc" by (simp add: same_setup_def)
  note wm = valid_watermarks(1) [OF cache_okD(6) [OF c]]
  show ?thesis
  proof (cases "unat (tco_high_watermark ?o) < length ?bin")
    case True
    let ?bin' = "take (unat (tco_low_watermark ?o)) ?bin"
    obtain m w' tc' where f: "flush_bin P ?bin (tco_low_watermark ?o) (w, ?tc) = (Inr m, (?bin', (w', tc')))"
        "cache_ok live ok L {} (w', tc') (set_bin (B(t := nth_bin bins)) t ?i ?bin') (K - {(p, n, a)})" "same_setup ?tc tc'"
      using flush_bin_ok [OF c1] by blast
    have "tc_deallocate_local P bins p r (w, tc) = (Inr (), (bins[?i := ?bin'], (w', tc')))"
      using True f(1) by (simp add: tc_deallocate_local_def Let_def)
    moreover have "bins_bounded tc (bins[?i := ?bin'])" using bins_bounded_update [OF bb] wm by (simp add: min.coboundedI2)
    ultimately show ?thesis using f(2) nth_bin_update [OF ib] same_setup_trans [OF s1 f(3)] by metis
  next
    case False
    then have "tc_deallocate_local P bins p r (w, tc) = (Inr (), (bins[?i := ?bin], (w, ?tc)))"
      by (simp add: tc_deallocate_local_def Let_def)
    moreover have "bins_bounded tc (bins[?i := ?bin])" using bins_bounded_update [OF bb, of ?bin] False by simp
    ultimately show ?thesis using c1 nth_bin_update [OF ib] s1 by metis
  qed
qed

lemma tc_deallocate_ok:
  assumes c: "cache_ok live ok L {} (w, tc) (B(t := nth_bin bins)) K" and bb: "bins_bounded tc bins" and k: "(p, n, a) \<in> K"
    and r: "find_record tc p = Some r" and sz: "size_check tc r sized = Inr ()"
  shows "\<exists>bins' w' tc'. tc_deallocate P t bins p sized (w, tc) = (Inr (), (bins', (w', tc'))) \<and> same_setup tc tc' \<and>
     bins_bounded tc bins' \<and> cache_ok live ok L {} (w', tc') (B(t := nth_bin bins')) (K - {(p, n, a)})"
proof -
  let ?tc = "tc\<lparr>tc_statistics := (tc_statistics tc)\<lparr>tcs_deallocation_requests := tcs_deallocation_requests (tc_statistics tc) + 1\<rparr>\<rparr>"
  have c0: "cache_ok live ok L {} (w, ?tc) (B(t := nth_bin bins)) K" by (rule cache_ok_cong [OF c]) (simp_all add: same_setup_def)
  have s0: "same_setup tc ?tc" by (simp add: same_setup_def)
  note d = cache_okD [OF c]
  have act: "arec_active r" using clients_okD(2) [OF d(5) k] r by auto
  have r0: "find_record ?tc p = Some r" using r by simp
  have bb0: "bins_bounded ?tc bins" using bb bins_bounded_setup [OF s0] by simp
  have sz0: "size_check ?tc r sized = Inr ()"
    using sz by (auto simp: size_check_def validate_sized_deallocation_def Let_def split: option.splits)
  then have val: "(case sized of Some (sz, al) \<Rightarrow> validate_sized_deallocation ?tc r sz al | None \<Rightarrow> Inr ()) = Inr ()"
    by (simp add: size_check_def)
  show ?thesis
  proof (cases "arec_owner_thread r \<noteq> t \<or> arec_class_index r = fallback_class")
    case True
    obtain w' tc' where e: "tc_deallocate_central P p sized (arec_owner_thread r \<noteq> t) (w, ?tc) = (Inr (), (w', tc'))" "same_setup ?tc tc'"
        "cache_ok live ok L {} (w', tc') (B(t := nth_bin bins)) (K - {(p, n, a)})"
      using tc_deallocate_central_ok [OF c0 k r0 sz0] by blast
    have "tc_deallocate P t bins p sized (w, tc) = (Inr (), (bins, (w', tc')))"
      using act r0 val True e(1) by (simp add: tc_deallocate_def Let_def)
    then show ?thesis using e(3) same_setup_trans [OF s0 e(2)] bb by blast
  next
    case False
    obtain bins' w' tc' where e: "tc_deallocate_local P bins p r (w, ?tc) = (Inr (), (bins', (w', tc')))" "same_setup ?tc tc'"
        "bins_bounded ?tc bins'" "cache_ok live ok L {} (w', tc') (B(t := nth_bin bins')) (K - {(p, n, a)})"
      using tc_deallocate_local_ok [OF c0 bb0 k r0 act] False by blast
    have "tc_deallocate P t bins p sized (w, tc) = (Inr (), (bins', (w', tc')))"
      using act r0 val False e(1) by (simp add: tc_deallocate_def Let_def)
    then show ?thesis using e(3,4) same_setup_trans [OF s0 e(2)] bins_bounded_setup [OF s0] by metis
  qed
qed

text \<open>The size and alignment the client asked for are always accepted.\<close>

lemma size_check_same:
  assumes "cache_ok live ok L {} (w, tc) B K" and "(p, n, a) \<in> K" and "find_record tc p = Some r"
    and "sized = None \<or> sized = Some (n, a)"
  shows "size_check tc r sized = Inr ()"
proof -
  note d = cache_okD [OF assms(1)]
  have "arec_requested_size r = normalize_size n" "arec_alignment r = a" using clients_okD(2) [OF d(5) assms(2)] assms(3) by auto
  then show ?thesis
    using record_class [OF d(3) assms(3)] assms(4) by (auto simp: size_check_def validate_sized_deallocation_def Let_def)
qed

end

end
