(* ===== verification/Thread_Cached_Runs.thy ===== *)
theory Thread_Cached_Runs
  imports Thread_Cache_Runs
begin

text \<open>
  The public operations of \<^verbatim>\<open>ThreadCachedAllocator\<close> and runs of any number of threads. A call is one step: the steps of the
  threads interleave call by call.
\<close>

section \<open>The invariant of the allocator\<close>

definition bins_of :: "thread_cached \<Rightarrow> bins" where
  "bins_of x t = (case tca_caches x t of None \<Rightarrow> (\<lambda>_. []) | Some bs \<Rightarrow> nth_bin bs)"

lemma bins_of_Some: "tca_caches x t = Some bs \<Longrightarrow> bins_of x = (bins_of x)(t := nth_bin bs)"
  by (auto simp: fun_eq_iff bins_of_def)

lemma bins_of_put: "bins_of (x\<lparr>tca_state := tc, tca_caches := (tca_caches x)(t \<mapsto> bs)\<rparr>) = (bins_of x)(t := nth_bin bs)"
  by (auto simp: fun_eq_iff bins_of_def)

definition cached_ok ::
  "('p \<Rightarrow> grant set) \<Rightarrow> ('p \<Rightarrow> bool) \<Rightarrow> grant set \<Rightarrow> 'p cached_state \<Rightarrow> request set \<Rightarrow> bool" where
  "cached_ok live ok L s K \<longleftrightarrow>
     (case s of (w, x) \<Rightarrow>
        cache_ok live ok L {} (w, tca_state x) (bins_of x) K \<and>
        (\<forall>t bs. tca_caches x t = Some bs \<longrightarrow> bins_bounded (tca_state x) bs))"

lemma cached_okD:
  assumes "cached_ok live ok L (w, x) K"
  shows "cache_ok live ok L {} (w, tca_state x) (bins_of x) K"
    and "\<And>t bs. tca_caches x t = Some bs \<Longrightarrow> bins_bounded (tca_state x) bs"
  using assms unfolding cached_ok_def by blast+

lemma cached_ok_put:
  assumes c: "cached_ok live ok L (w, x) K" and s: "same_setup (tca_state x) tc" and bb: "bins_bounded (tca_state x) bs"
    and c': "cache_ok live ok L {} (w', tc) ((bins_of x)(t := nth_bin bs)) K'"
  shows "cached_ok live ok L (put_cache t x (bs, (w', tc))) K'"
proof -
  let ?x = "x\<lparr>tca_state := tc, tca_caches := (tca_caches x)(t \<mapsto> bs)\<rparr>"
  have "cache_ok live ok L {} (w', tca_state ?x) (bins_of ?x) K'" using c' by (simp only: bins_of_put) simp
  moreover have "bins_bounded (tca_state ?x) bs'" if "tca_caches ?x t' = Some bs'" for t' bs'
    using that bb cached_okD(2) [OF c, of t' bs'] bins_bounded_setup [OF s] by (cases "t' = t") auto
  ultimately show ?thesis unfolding cached_ok_def put_cache_def by simp
qed

definition tca_poke :: "addr \<Rightarrow> byte \<Rightarrow> 'p cached_state \<Rightarrow> 'p cached_state" where
  "tca_poke y b s = ((fst s)\<lparr>w_mem := (w_mem (fst s))(y := b)\<rparr>, snd s)"

text \<open>
  \<open>tca_run P s0 s K\<close>: threads that return what some thread holds, write only into storage they hold, release
  their caches and end can lead from \<open>s0\<close> to \<open>s\<close> with the requests \<open>K\<close> held. A deallocation that throws takes nothing.
\<close>

inductive tca_run :: "'p provider \<Rightarrow> 'p cached_state \<Rightarrow> 'p cached_state \<Rightarrow> request set \<Rightarrow> bool" for P s0 where
  tca_start: "tca_run P s0 s0 {}"
| tca_alloc: "tca_run P s0 s K \<Longrightarrow> tca_allocate P t n a s = (Inr q, s') \<Longrightarrow> tca_run P s0 s' (insert (q, n, a) K)"
| tca_alloc_throw: "tca_run P s0 s K \<Longrightarrow> tca_allocate P t n a s = (Inl e, s') \<Longrightarrow> tca_run P s0 s' K"
| tca_free: "tca_run P s0 s K \<Longrightarrow> (q, n, a) \<in> K \<Longrightarrow>
    tca_deallocate P t q sized s = (Inr (), s') \<Longrightarrow> tca_run P s0 s' (K - {(q, n, a)})"
| tca_free_throw: "tca_run P s0 s K \<Longrightarrow> tca_deallocate P t q sized s = (Inl e, s') \<Longrightarrow> tca_run P s0 s' K"
| tca_write: "tca_run P s0 s K \<Longrightarrow> (q, n, a) \<in> K \<Longrightarrow> y \<in> extent q n \<Longrightarrow> tca_run P s0 (tca_poke y b s) K"
| tca_flush: "tca_run P s0 s K \<Longrightarrow> release_current_thread_cache P t s = (r, s') \<Longrightarrow> tca_run P s0 s' K"
| tca_exit: "tca_run P s0 s K \<Longrightarrow> tca_run P s0 (registry_exit P t s) K"

context memory_provider begin

section \<open>The registry\<close>

lemma reserve_bins_ok:
  assumes "cache_ok live ok L X (w, tc) B K" and "reserve_bins c n w = (r, w')"
  shows "cache_ok live ok L X (w', tc) B K" and "r = Inl e \<Longrightarrow> e = BadAlloc \<or> e = LengthError"
proof -
  have "cache_ok live ok L X (w', tc) B K \<and> (r = Inl e \<longrightarrow> e = BadAlloc \<or> e = LengthError)"
    using assms
  proof (induction n arbitrary: w)
    case (Suc n)
    obtain b w1 where m: "meta_alloc w = (b, w1)" by (cases "meta_alloc w")
    note c1 = cache_ok_tick [OF Suc.prems(1) m]
    show ?case
    proof (cases "vector_max_size < c \<or> \<not> b")
      case True
      then show ?thesis using Suc.prems m c1 by (auto split: if_splits)
    next
      case False
      then have "reserve_bins c n w1 = (r, w')" using Suc.prems(2) m by simp
      from Suc.IH [OF c1 this] show ?thesis .
    qed
  qed auto
  then show "cache_ok live ok L X (w', tc) B K" and "r = Inl e \<Longrightarrow> e = BadAlloc \<or> e = LengthError" by blast+
qed

lemma registry_get_ok:
  assumes c: "cached_ok live ok L (w, x) K" and op: "registry_get t (w, x) = (r, (w', x'))"
  shows "cached_ok live ok L (w', x') K" and "tca_state x' = tca_state x"
    and "r = Inr bs \<Longrightarrow> tca_caches x' t = Some bs"
    and "r = Inl e \<Longrightarrow> tca_caches x t = None \<and> x' = x \<and> (e = BadAlloc \<or> e = LengthError)"
proof -
  note d = cached_okD [OF c]
  have keep: "cached_ok live ok L (v, x) K" if "cache_ok live ok L {} (v, tca_state x) (bins_of x) K" for v
    using that d(2) unfolding cached_ok_def by blast
  have "cached_ok live ok L (w', x') K \<and> tca_state x' = tca_state x \<and> (r = Inr bs \<longrightarrow> tca_caches x' t = Some bs) \<and>
      (r = Inl e \<longrightarrow> tca_caches x t = None \<and> x' = x \<and> (e = BadAlloc \<or> e = LengthError))"
  proof (cases "tca_caches x t")
    case (Some b)
    then show ?thesis using op c by (auto simp: registry_get_def)
  next
    case None
    let ?n = "class_count (tca_state x)" and ?cap = "cache_capacity (tca_state x)"
    obtain b1 w1 where m1: "meta_alloc w = (b1, w1)" by (cases "meta_alloc w")
    note c1 = cache_ok_tick [OF d(1) m1]
    obtain y w2 where rs: "reserve_bins ?cap ?n w1 = (y, w2)" by (cases "reserve_bins ?cap ?n w1")
    note c2 = reserve_bins_ok [OF c1 rs]
    obtain b3 w3 where m3: "meta_alloc w2 = (b3, w3)" by (cases "meta_alloc w2")
    note c3 = cache_ok_tick [OF c2(1) m3]
    let ?x = "x\<lparr>tca_caches := (tca_caches x)(t \<mapsto> replicate ?n [])\<rparr>"
    have "bins_of ?x = bins_of x" using None by (auto simp: fun_eq_iff bins_of_def nth_bin_def)
    moreover have "bins_bounded (tca_state x) (replicate ?n [])" by (auto simp: bins_bounded_def)
    ultimately have new: "cached_ok live ok L (w3, ?x) K"
      using c3 d(2) unfolding cached_ok_def by (auto split: if_splits)
    consider "\<not> b1" | f where b1 "y = Inl f" | b1 "y = Inr ()" "\<not> b3" | b1 "y = Inr ()" b3 by (cases y) auto
    then show ?thesis
    proof cases
      case 1
      then show ?thesis using op None m1 keep [OF c1] by (auto simp: registry_get_def)
    next
      case 2
      then show ?thesis using op None m1 rs keep [OF c2(1)] c2(2) [of f] by (auto simp: registry_get_def)
    next
      case 3
      then show ?thesis using op None m1 rs m3 keep [OF c3] by (auto simp: registry_get_def)
    next
      case 4
      then show ?thesis using op None m1 rs m3 new by (auto simp: registry_get_def Let_def)
    qed
  qed
  then show "cached_ok live ok L (w', x') K" and "tca_state x' = tca_state x"
    and "r = Inr bs \<Longrightarrow> tca_caches x' t = Some bs"
    and "r = Inl e \<Longrightarrow> tca_caches x t = None \<and> x' = x \<and> (e = BadAlloc \<or> e = LengthError)" by blast+
qed

text \<open>Emptying the cache of a thread.\<close>

lemma flush_cache_ok:
  assumes c: "cached_ok live ok L (w, x) K" and b: "tca_caches x t = Some bs"
  shows "\<exists>n w' tc. flush_bins P bs 0 (w, tca_state x) = (Inr n, (replicate (length bs) [], (w', tc))) \<and>
     cached_ok live ok L (w', x\<lparr>tca_state := tc, tca_caches := (tca_caches x)(t := None)\<rparr>) K"
proof -
  note d = cached_okD [OF c]
  have "bins_of x t (0 + k) = bs ! k" if "k < length bs" for k using that b by (simp add: bins_of_def nth_bin_def)
  from flush_bins_ok [OF d(1) this] obtain n w' tc where
    f: "flush_bins P bs 0 (w, tca_state x) = (Inr n, (replicate (length bs) [], (w', tc)))"
      "cache_ok live ok L {} (w', tc) ((bins_of x)(t := (\<lambda>j. if 0 \<le> j \<and> j < 0 + length bs then [] else bins_of x t j))) K"
      "same_setup (tca_state x) tc" by blast
  let ?x = "x\<lparr>tca_state := tc, tca_caches := (tca_caches x)(t := None)\<rparr>"
  have "(bins_of x)(t := (\<lambda>j. if 0 \<le> j \<and> j < 0 + length bs then [] else bins_of x t j)) = bins_of ?x"
    using b by (auto simp: fun_eq_iff bins_of_def nth_bin_def)
  moreover have "bins_bounded (tca_state ?x) bs'" if "tca_caches ?x t' = Some bs'" for t' bs'
    using that d(2) [of t' bs'] bins_bounded_setup [OF f(3)] by (auto split: if_splits)
  ultimately have "cached_ok live ok L (w', ?x) K" using f(2) unfolding cached_ok_def by simp
  then show ?thesis using f(1) by blast
qed

lemma registry_release_ok:
  assumes c: "cached_ok live ok L (w, x) K"
  shows "\<exists>n w' x'. registry_release P t (w, x) = (Inr n, (w', x')) \<and> registry_exit P t (w, x) = (w', x') \<and>
     cached_ok live ok L (w', x') K \<and> tca_caches x' = (tca_caches x)(t := None)"
proof (cases "tca_caches x t")
  case None
  then have "(tca_caches x)(t := None) = tca_caches x" by (simp add: fun_upd_idem)
  then show ?thesis using None c by (simp add: registry_release_def registry_exit_def)
next
  case (Some bs)
  obtain n w' tc where "flush_bins P bs 0 (w, tca_state x) = (Inr n, (replicate (length bs) [], (w', tc)))"
     "cached_ok live ok L (w', x\<lparr>tca_state := tc, tca_caches := (tca_caches x)(t := None)\<rparr>) K"
    using flush_cache_ok [OF c Some] by blast
  then show ?thesis using Some by (simp add: registry_release_def registry_exit_def put_cache_def)
qed

section \<open>Allocation and deallocation\<close>

lemma tca_allocate_ok:
  assumes c: "cached_ok live ok L s K" and op: "tca_allocate P t n a s = (r, s')"
  shows "case r of
       Inl e \<Rightarrow> e \<noteq> UndefinedBehaviour \<and> e \<noteq> Terminate \<and> cached_ok live ok L s' K
     | Inr q \<Rightarrow> cached_ok live ok L s' (insert (q, n, a) K) \<and> q \<notin> fst ` K"
proof -
  obtain w x where s: "s = (w, x)" by (cases s)
  obtain y w1 x1 where g: "registry_get t (w, x) = (y, (w1, x1))" by (metis prod_cases3)
  note rg = registry_get_ok [OF c [unfolded s] g]
  show ?thesis
  proof (cases y)
    case (Inl e)
    then show ?thesis using op s g rg(1) rg(4) [of e] by (auto simp: tca_allocate_def)
  next
    case (Inr bs)
    note b = rg(3) [OF Inr]
    note d = cached_okD [OF rg(1)]
    obtain z bs' w2 tc2 where al: "tc_allocate P t bs n a (w1, tca_state x1) = (z, (bs', (w2, tc2)))" by (metis prod_cases4)
    have "cache_ok live ok L {} (w1, tca_state x1) ((bins_of x1)(t := nth_bin bs)) K" by (subst bins_of_Some [OF b, symmetric]) (rule d(1))
    note ta = tc_allocate_ok [OF this d(2) [OF b] al]
    have res: "r = z" "s' = put_cache t x1 (bs', (w2, tc2))" using op s g Inr al by (auto simp: tca_allocate_def)
    show ?thesis
      using ta res cached_ok_put [OF rg(1), of tc2 bs' w2 t] by (cases z) simp_all
  qed
qed

text \<open>
  What the registry did before the call of the shared state; the bins are then those of the calling thread.
\<close>

lemma tca_deallocate_enters:
  assumes c: "cached_ok live ok L (w, x) K" and q: "q \<noteq> 0" and op: "tca_deallocate P t q sized (w, x) = (r, s')"
  obtains (failed) e where "r = Inl e" "tca_caches x t = None" "snd s' = x" "e = BadAlloc \<or> e = LengthError" "cached_ok live ok L s' K"
  | (entered) bs w1 x1 where "tca_caches x1 t = Some bs" "tca_state x1 = tca_state x" "cached_ok live ok L (w1, x1) K"
      "(r, s') = (case tc_deallocate P t bs q sized (w1, tca_state x) of (r, y) \<Rightarrow> (r, put_cache t x1 y))"
proof -
  obtain y w1 x1 where g: "registry_get t (w, x) = (y, (w1, x1))" by (metis prod_cases3)
  note rg = registry_get_ok [OF c g]
  show thesis
  proof (cases y)
    case (Inl e)
    then have "r = Inl e" "s' = (w1, x1)" using op g q by (auto simp: tca_deallocate_def)
    then show thesis using failed rg(1) rg(4) [OF Inl] by auto
  next
    case (Inr bs)
    then have "(r, s') = (case tc_deallocate P t bs q sized (w1, tca_state x1) of (r, y) \<Rightarrow> (r, put_cache t x1 y))"
      using op g q by (simp add: tca_deallocate_def)
    then show thesis using entered [OF rg(3) [OF Inr] rg(2,1)] rg(2) by simp
  qed
qed

lemma cached_ok_bins:
  assumes "cached_ok live ok L (w, x) K" and "tca_caches x t = Some bs"
  shows "cache_ok live ok L {} (w, tca_state x) ((bins_of x)(t := nth_bin bs)) K" and "bins_bounded (tca_state x) bs"
  using cached_okD [OF assms(1)] assms(2) by (simp_all add: bins_of_Some [OF assms(2), symmetric])

lemma cache_client:
  assumes c: "cache_ok live ok L X (w, tc) B K" and k: "(q, n, a) \<in> K"
  obtains r where "find_record tc q = Some r" "arec_active r" "arec_requested_size r = normalize_size n" "arec_alignment r = a"
    and "(q, normalize_size n, a) \<in> cache_requests (find_record tc) \<union> X" and "q \<noteq> 0" and "unat a dvd unat q"
proof -
  obtain r where r: "find_record tc q = Some r" "arec_active r" "arec_requested_size r = normalize_size n" "arec_alignment r = a"
    using clients_okD(2) [OF cache_okD(5) [OF c] k] by blast
  then have m: "(q, normalize_size n, a) \<in> cache_requests (find_record tc) \<union> X" by (auto simp: cache_requests_iff)
  then have "q \<noteq> 0 \<and> unat a dvd unat q" using central_held_nonnull [OF cache_okD(1) [OF c]] by blast
  then show thesis using that [OF r m] by blast
qed

lemma client_record:
  assumes "cached_ok live ok L (w, x) K" and "(q, n, a) \<in> K"
  obtains r where "find_record (tca_state x) q = Some r" "arec_active r" "arec_requested_size r = normalize_size n" "arec_alignment r = a"
    and "q \<noteq> 0" and "unat a dvd unat q"
  by (rule cache_client [OF cached_okD(1) [OF assms(1)] assms(2)]) (rule that)

text \<open>
  A block that a client holds goes back, whatever thread returns it, when its size is accepted; the only failures are those of the
  registry for a thread without a cache.
\<close>

lemma tca_deallocate_ok:
  assumes c: "cached_ok live ok L (w, x) K" and k: "(q, n, a) \<in> K"
    and fr: "find_record (tca_state x) q = Some r0" and sz: "size_check (tca_state x) r0 sized = Inr ()"
    and op: "tca_deallocate P t q sized (w, x) = (r, s')"
  shows "case r of
       Inl e \<Rightarrow> tca_caches x t = None \<and> snd s' = x \<and> (e = BadAlloc \<or> e = LengthError) \<and> cached_ok live ok L s' K
     | Inr _ \<Rightarrow> cached_ok live ok L s' (K - {(q, n, a)})"
proof -
  have q0: "q \<noteq> 0" by (rule client_record [OF c k])
  from c q0 op show ?thesis
  proof (cases rule: tca_deallocate_enters)
    case (failed e)
    then show ?thesis by simp
  next
    case (entered bs w1 x1)
    note b = cached_ok_bins [OF entered(3,1), unfolded entered(2)]
    obtain bs' w2 tc2 where
      de: "tc_deallocate P t bs q sized (w1, tca_state x) = (Inr (), (bs', (w2, tc2)))" "same_setup (tca_state x) tc2"
        "bins_bounded (tca_state x) bs'" "cache_ok live ok L {} (w2, tc2) ((bins_of x1)(t := nth_bin bs')) (K - {(q, n, a)})"
      using tc_deallocate_ok [OF b k fr sz] by blast
    have "r = Inr ()" "s' = put_cache t x1 (bs', (w2, tc2))" using entered(4) de(1) by simp_all
    then show ?thesis using cached_ok_put [OF entered(3), unfolded entered(2), OF de(2-4)] by simp
  qed
qed

text \<open>What is rejected leaves the client with what it held.\<close>

lemma tca_deallocate_rejected:
  assumes c: "cached_ok live ok L (w, x) K" and q: "q \<noteq> 0"
    and rej: "case find_record (tca_state x) q of None \<Rightarrow> e = InvalidPoolPointer | Some r \<Rightarrow>
       (if arec_active r then size_check (tca_state x) r sized = Inl e else e = DoubleFreeError)"
    and op: "tca_deallocate P t q sized (w, x) = (r, s')"
  shows "cached_ok live ok L s' K" and "r = Inl e \<or> tca_caches x t = None \<and> (r = Inl BadAlloc \<or> r = Inl LengthError)"
    and "tc_central (tca_state (snd s')) = tc_central (tca_state x)" and "find_record (tca_state (snd s')) = find_record (tca_state x)"
proof -
  have "cached_ok live ok L s' K \<and> (r = Inl e \<or> tca_caches x t = None \<and> (r = Inl BadAlloc \<or> r = Inl LengthError)) \<and>
    tc_central (tca_state (snd s')) = tc_central (tca_state x) \<and> find_record (tca_state (snd s')) = find_record (tca_state x)"
    using c q op
  proof (cases rule: tca_deallocate_enters)
    case (failed e)
    then show ?thesis by auto
  next
    case (entered bs w1 x1)
    note b = cached_ok_bins [OF entered(3,1), unfolded entered(2)]
    let ?tc = "(tca_state x)\<lparr>tc_statistics := (tc_statistics (tca_state x))
        \<lparr>tcs_deallocation_requests := tcs_deallocation_requests (tc_statistics (tca_state x)) + 1\<rparr>\<rparr>"
    have s: "same_setup (tca_state x) ?tc" by (simp add: same_setup_def)
    have "r = Inl e" "s' = put_cache t x1 (bs, (w1, ?tc))" using entered(4) tc_deallocate_rejected [OF rej, of P t bs w1] by simp_all
    moreover have "cache_ok live ok L {} (w1, ?tc) ((bins_of x1)(t := nth_bin bs)) K"
      by (rule cache_ok_cong [OF b(1)]) (simp_all add: same_setup_def)
    ultimately show ?thesis using cached_ok_put [OF entered(3), unfolded entered(2), OF s b(2)] by (simp add: put_cache_def)
  qed
  then show "cached_ok live ok L s' K" and "r = Inl e \<or> tca_caches x t = None \<and> (r = Inl BadAlloc \<or> r = Inl LengthError)"
    and "tc_central (tca_state (snd s')) = tc_central (tca_state x)" and "find_record (tca_state (snd s')) = find_record (tca_state x)"
    by blast+
qed

end

end
