(* ===== verification/Thread_Cached_Histories.thy ===== *)
theory Thread_Cached_Histories
  imports Thread_Cached_Runs
begin

text \<open>
  Construction and destruction of the thread-cached allocator, and the invariant along every run of its threads.
\<close>

lemma extent_normalize: "extent q n \<subseteq> extent q (normalize_size n)"
proof -
  have "n \<le> normalize_size n" by (simp add: normalize_size_def)
  then show ?thesis by (auto simp: extent_def intro: less_le_trans)
qed

context memory_provider begin

section \<open>What the clients hold\<close>

lemma cache_clients_apart:
  assumes c: "cache_ok live ok L X (w, tc) B K" and k: "(q, n, a) \<in> K" "(q', n', a') \<in> K" and ne: "(q, n, a) \<noteq> (q', n', a')"
  shows "extent q n \<inter> extent q' n' = {}"
proof -
  note d = cache_okD [OF c]
  have m: "(q, normalize_size n, a) \<in> cache_requests (find_record tc) \<union> X" by (rule cache_client [OF c k(1)])
  have m': "(q', normalize_size n', a') \<in> cache_requests (find_record tc) \<union> X" by (rule cache_client [OF c k(2)])
  have "q \<noteq> q'" using inj_onD [OF clients_okD(1) [OF d(5)] _ k] ne by auto
  then have "extent q (normalize_size n) \<inter> extent q' (normalize_size n') = {}"
    using central_holds_apart [OF d(1) m m'] by blast
  then show ?thesis using extent_normalize [of q n] extent_normalize [of q' n'] by blast
qed

text \<open>The check of a size and alignment accepts what serves the request just as well, and tells what is wrong otherwise.\<close>

lemma size_check_value:
  assumes c: "cache_ok live ok L X (w, tc) B K" and k: "(q, n, a) \<in> K" and r: "find_record tc q = Some r"
  shows "size_check tc r (Some (n', a')) =
     (if request_matches (tc_selector tc) n a n' a' then Inr ()
      else Inl (if is_power_of_two a' \<or> selector_select (tc_selector tc) n a = Inr None then AllocationMismatchError else InvalidArgument))"
proof -
  let ?sel = "tc_selector tc"
  note d = cache_okD [OF c] and v = cache_ok_valid [OF c]
  have na: "arec_requested_size r = normalize_size n" "arec_alignment r = a" using clients_okD(2) [OF d(5) k] r by auto
  have rc: "selector_select ?sel n a = Inr (if arec_class_index r = fallback_class then None else Some (unat (arec_class_index r)))"
    using record_class [OF d(3) r] na by simp
  have bad: "\<not> is_power_of_two a' \<Longrightarrow> selector_select ?sel n' a' = Inl InvalidArgument"
    and good: "is_power_of_two a' \<Longrightarrow> selector_select ?sel n' a' \<noteq> Inl e" for e
    by (auto simp: selector_select_def Let_def)
  have ix: "of_nat j = arec_class_index r \<longleftrightarrow> j = unat (arec_class_index r)" if "selector_select ?sel n' a' = Inr (Some j)" for j
    using class_index(1) [OF v selector_select_Some(1) [OF v that]] by auto
  have same: "normalize_size n' = normalize_size n \<Longrightarrow> selector_select ?sel n' a = selector_select ?sel n a"
    by (metis selector_select_normalize)
  show ?thesis
  proof (cases "arec_class_index r = fallback_class")
    case True
    then show ?thesis
      using rc na same by (auto simp: size_check_def validate_sized_deallocation_def request_matches_def Let_def)
  next
    case False
    then show ?thesis
      using rc ix bad good by (cases "is_power_of_two a'") (auto simp: size_check_def validate_sized_deallocation_def request_matches_def Let_def split: sum.splits option.splits)
  qed
qed

section \<open>Writes into held storage\<close>

lemma cache_poke_ok:
  assumes c: "cache_ok live ok L X (w, tc) B K" and k: "(q, n, a) \<in> K" and y: "y \<in> extent q n"
  shows "cache_ok live ok L X (w\<lparr>w_mem := (w_mem w)(y := b)\<rparr>, tc) B K"
proof -
  note e = cache_okD [OF c]
  have m: "(q, normalize_size n, a) \<in> cache_requests (find_record tc) \<union> X" by (rule cache_client [OF c k])
  have "segregated_holds live ok L (segregated_poke y b (w, tc_central tc)) (cache_requests (find_record tc) \<union> X)"
    by (rule central_poke_keeps [OF e(1) m]) (use y extent_normalize in blast)
  then show ?thesis using e(2) by (intro cache_ok_central [OF c]) (simp_all add: segregated_poke_def)
qed

lemma tca_poke_ok:
  assumes c: "cached_ok live ok L s K" and k: "(q, n, a) \<in> K" and y: "y \<in> extent q n"
  shows "cached_ok live ok L (tca_poke y b s) K"
proof -
  obtain w x where s: "s = (w, x)" by (cases s)
  note d = cached_okD [OF c [unfolded s]]
  show ?thesis using cache_poke_ok [OF d(1) k y] d(2) s unfolding cached_ok_def tca_poke_def by simp
qed

section \<open>Construction and destruction\<close>

lemma tc_create_ok:
  assumes "ok (w_prov w)" and "tc_create P i so co w = (r, w')"
  shows "case r of
       Inl e \<Rightarrow> e \<noteq> UndefinedBehaviour \<and> e \<noteq> Terminate \<and> ok (w_prov w') \<and> live (w_prov w') = live (w_prov w)
     | Inr tc \<Rightarrow> cache_ok live ok (live (w_prov w)) {} (w', tc) (\<lambda>_ _. []) {} \<and>
         tc_cache_options tc = co \<and> tc_selector tc = sgo_size_classes so \<and> tc_statistics tc = zero_cache_statistics"
proof (cases "validate_cache_options co")
  case (Inl e)
  then show ?thesis using assms by (auto simp: tc_create_def validate_cache_options_def split: if_splits)
next
  case (Inr co')
  then have v: "validate_cache_options co = Inr co" by (auto simp: validate_cache_options_def split: if_splits)
  obtain b w1 where m: "meta_alloc w = (b, w1)" by (cases "meta_alloc w")
  note w1 = meta_alloc_world [OF m]
  obtain y w2 where sg: "segregated_create P so w1 = (y, w2)" by (cases "segregated_create P so w1")
  have ok1: "ok (w_prov w1)" using assms(1) w1 by simp
  note cr = segregated_create_inv [OF ok1 sg]
  consider "\<not> b" | e where b "selector_create (sgo_size_classes so) = Inl e" | sel e where b "selector_create (sgo_size_classes so) = Inr sel" "y = Inl e"
    | sel sa where b "selector_create (sgo_size_classes so) = Inr sel" "y = Inr sa"
    by (cases "selector_create (sgo_size_classes so)"; cases y) auto
  then show ?thesis
  proof cases
    case 1
    then show ?thesis using assms v m w1 by (auto simp: tc_create_def)
  next
    case 2
    then show ?thesis using assms v m w1 by (auto simp: tc_create_def selector_create_iff split: if_splits)
  next
    case 3
    then have "r = Inl e" "w' = w2" using assms(2) v m sg by (auto simp: tc_create_def)
    then show ?thesis using cr 3(3) w1 by simp
  next
    case 4
    have sel: "sel = sgo_size_classes so" using 4(2) by (auto simp: selector_create_iff split: if_splits)
    let ?tc = "\<lparr>tc_id = i, tc_cache_options = co, tc_selector = sel, tc_central = sa, tc_shards = (\<lambda>_. Map.empty),
        tc_statistics = zero_cache_statistics\<rparr>"
    have r: "r = Inr ?tc" "w' = w2" using assms(2) v m sg 4 by (auto simp: tc_create_def)
    have f: "find_record ?tc = Map.empty" by (simp add: fun_eq_iff find_record_def)
    have "cache_requests Map.empty = {}" by (simp add: cache_requests_def)
    then have "cache_ok live ok (live (w_prov w)) {} (w2, ?tc) (\<lambda>_ _. []) {}"
      using cr 4(3) sel w1 v f unfolding cache_ok_def by (simp add: records_ok_def bins_ok_def clients_ok_def)
    then show ?thesis using r sel by simp
  qed
qed

lemma tca_create_ok:
  assumes "ok (w_prov w)" and "tca_create P i so co w = (r, w')"
  shows "case r of
       Inl e \<Rightarrow> e \<noteq> UndefinedBehaviour \<and> e \<noteq> Terminate \<and> ok (w_prov w') \<and> live (w_prov w') = live (w_prov w)
     | Inr x \<Rightarrow> cached_ok live ok (live (w_prov w)) (w', x) {} \<and> tc_statistics (tca_state x) = zero_cache_statistics \<and>
         tca_caches x = Map.empty \<and> tc_cache_options (tca_state x) = co \<and> tc_selector (tca_state x) = sgo_size_classes so"
proof -
  obtain b1 w1 where m1: "meta_alloc w = (b1, w1)" by (cases "meta_alloc w")
  obtain b2 w2 where m2: "meta_alloc w1 = (b2, w2)" by (cases "meta_alloc w1")
  note ws = meta_alloc_world [OF m1] meta_alloc_world [OF m2]
  obtain y w3 where tc: "tc_create P i so co w2 = (y, w3)" by (cases "tc_create P i so co w2")
  have ok2: "ok (w_prov w2)" using assms(1) ws by simp
  note cr = tc_create_ok [OF ok2 tc]
  consider "\<not> b1" | b1 "\<not> b2" | e where b1 b2 "y = Inl e" | t where b1 b2 "y = Inr t" by (cases y) auto
  then show ?thesis
  proof cases
    case 1
    then show ?thesis using assms m1 ws by (auto simp: tca_create_def)
  next
    case 2
    then show ?thesis using assms m1 m2 ws by (auto simp: tca_create_def)
  next
    case 3
    then have "r = Inl e" "w' = w3" using assms(2) m1 m2 tc by (auto simp: tca_create_def)
    then show ?thesis using cr 3(3) ws by simp
  next
    case 4
    let ?x = "\<lparr>tca_state = t, tca_caches = (\<lambda>_. None)\<rparr>"
    have r: "r = Inr ?x" "w' = w3" using assms(2) m1 m2 tc 4 by (auto simp: tca_create_def)
    have "bins_of ?x = (\<lambda>_ _. [])" by (simp add: fun_eq_iff bins_of_def)
    then show ?thesis using cr 4(3) r ws by (simp add: cached_ok_def)
  qed
qed

lemma tca_destroy_ok:
  assumes c: "cached_ok live ok L s K"
  shows "ok (w_prov (tca_destroy P t s))" and "live (w_prov (tca_destroy P t s)) = L"
proof -
  obtain w x where s: "s = (w, x)" by (cases s)
  obtain n w' x' where r: "registry_release P t (w, x) = (Inr n, (w', x'))" "cached_ok live ok L (w', x') K"
    using registry_release_ok [OF c [unfolded s]] by blast
  obtain Fss where F: "segregated_inv live ok L (w', tc_central (tca_state x')) Fss"
    using cache_okD(1) [OF cached_okD(1) [OF r(2)]] by (rule segregated_holdsE)
  have "tca_destroy P t s = segregated_destroy P (tc_central (tca_state x')) w'" using s r(1) by (simp add: tca_destroy_def)
  then show "ok (w_prov (tca_destroy P t s))" and "live (w_prov (tca_destroy P t s)) = L" using segregated_destroy_inv [OF F] by simp_all
qed

section \<open>Every run keeps the invariant\<close>

text \<open>A call of \<^verbatim>\<open>deallocate\<close>, with any arguments, by any thread.\<close>

lemma tca_deallocate_any:
  assumes c: "cached_ok live ok L s K" and op: "tca_deallocate P t q sized s = (r, s')"
  shows "case r of
       Inl e \<Rightarrow> e \<noteq> UndefinedBehaviour \<and> e \<noteq> Terminate \<and> cached_ok live ok L s' K
     | Inr _ \<Rightarrow> (q = 0 \<and> s' = s) \<or> (\<exists>n a. (q, n, a) \<in> K \<and> cached_ok live ok L s' (K - {(q, n, a)}))"
proof -
  obtain w x where s: "s = (w, x)" by (cases s)
  note c' = c [unfolded s] and op' = op [unfolded s]
  consider "q = 0" | e where "q \<noteq> 0" "e \<noteq> UndefinedBehaviour" "e \<noteq> Terminate"
      "case find_record (tca_state x) q of None \<Rightarrow> e = InvalidPoolPointer | Some r \<Rightarrow>
       (if arec_active r then size_check (tca_state x) r sized = Inl e else e = DoubleFreeError)"
    | r0 n a where "q \<noteq> 0" "find_record (tca_state x) q = Some r0" "size_check (tca_state x) r0 sized = Inr ()" "(q, n, a) \<in> K"
  proof (cases "find_record (tca_state x) q")
    case None
    then show thesis using that(1) that(2) [of InvalidPoolPointer] by auto
  next
    case (Some r0)
    have act: "\<exists>n a. (q, n, a) \<in> K" if "arec_active r0"
      using clients_okD(3) [OF cache_okD(5) [OF cached_okD(1) [OF c']] Some that] by (metis imageE prod.collapse)
    have er: "e = InvalidArgument \<or> e = AllocationMismatchError" if "size_check (tca_state x) r0 sized = Inl e" for e
      using that by (auto simp: size_check_def validate_sized_deallocation_def Let_def selector_select_Inl
          split: option.splits sum.splits if_splits dest: selector_select_Inl)
    show thesis
      using that(1) that(2) [of DoubleFreeError] that(2) [of "projl (size_check (tca_state x) r0 sized)"] that(3) [OF _ Some] act er Some
      by (cases "arec_active r0"; cases "size_check (tca_state x) r0 sized"; cases "q = 0") auto
  qed
  then show ?thesis
  proof cases
    case 1
    then show ?thesis using op by (auto simp: tca_deallocate_def)
  next
    case (2 e)
    note rj = tca_deallocate_rejected [OF c' 2(1,4) op']
    show ?thesis using rj(1,2) 2(2,3) by auto
  next
    case (3 r0 n a)
    from tca_deallocate_ok [OF c' 3(4,2,3) op'] 3(4) show ?thesis by (cases r) auto
  qed
qed

lemma cached_clients_inj: "cached_ok live ok L s K \<Longrightarrow> inj_on fst K"
  using clients_okD(1) [OF cache_okD(5) [OF cached_okD(1)]] by (cases s) blast

lemma tca_run_ok:
  assumes "tca_run P s0 s K" and "cached_ok live ok L s0 {}"
  shows "cached_ok live ok L s K"
  using assms
proof (induction rule: tca_run.induct)
  case (tca_alloc s K t n a q s')
  then show ?case using tca_allocate_ok [OF tca_alloc.IH [OF tca_alloc.prems] tca_alloc.hyps(2)] by simp
next
  case (tca_alloc_throw s K t n a e s')
  then show ?case using tca_allocate_ok [OF tca_alloc_throw.IH [OF tca_alloc_throw.prems] tca_alloc_throw.hyps(2)] by simp
next
  case (tca_free s K q n a t sized s')
  note c = tca_free.IH [OF tca_free.prems]
  obtain w x where sx: "s = (w, x)" by (cases s)
  have q0: "q \<noteq> 0" by (rule client_record [OF c [unfolded sx] tca_free.hyps(2)])
  then obtain n' a' where "(q, n', a') \<in> K" "cached_ok live ok L s' (K - {(q, n', a')})"
    using tca_deallocate_any [OF c tca_free.hyps(3)] by auto
  moreover have "n' = n" "a' = a"
    using inj_onD [OF cached_clients_inj [OF c] _ calculation(1) tca_free.hyps(2)] by simp_all
  ultimately show ?case by simp
next
  case (tca_free_throw s K t q sized e s')
  then show ?case using tca_deallocate_any [OF tca_free_throw.IH [OF tca_free_throw.prems] tca_free_throw.hyps(2)] by simp
next
  case (tca_write s K q n a y b)
  then show ?case using tca_poke_ok by blast
next
  case (tca_flush s K t r s')
  then show ?case using registry_release_ok [of L "fst s" "snd s" K t] by (auto simp: release_current_thread_cache_def)
next
  case (tca_exit s K t)
  then show ?case using registry_release_ok [of L "fst s" "snd s" K t] by auto
qed

end

end
