(* ===== verification/Thread_Cache_Interleaving.thy ===== *)
theory Thread_Cache_Interleaving
  imports Thread_Cache_Steps Thread_Cached_Histories
begin

text \<open>
  The invariant of the interleaved calls. Between its critical sections a thread may hold a block that has no record yet (\<open>pend\<close>), a
  record whose block is already back in the central allocator (\<open>gone\<close>), or a cached block that is not in its bin (\<open>shown\<close>). The state
  with these differences undone satisfies the invariant of the calls, and the mutexes of the shards keep every other thread from
  the records in between.
\<close>

section \<open>What a thread holds at a point\<close>

fun pend :: "tc_point \<Rightarrow> request set" where
  "pend (TFallbackRecord p n a) = {(p, normalize_size n, a)}"
| "pend (TFallbackUndo p n a e) = {(p, normalize_size n, a)}"
| "pend (TRefillRecord p i n a k res) = {(p, normalize_size n, a)}"
| "pend (TRefillUndo p e i n a res) = {(p, normalize_size n, a)}"
| "pend _ = {}"

fun gone :: "tc_point \<Rightarrow> addr set" where
  "gone (TFreeErase p remote) = {p}"
| "gone (TFlushErase goal i p rel) = {p}"
| "gone _ = {}"

fun locked :: "tc_point \<Rightarrow> addr option" where
  "locked (TFreeCentral p sized remote) = Some p"
| "locked (TFreeErase p remote) = Some p"
| "locked (TFlushCentral goal i p rel) = Some p"
| "locked (TFlushErase goal i p rel) = Some p"
| "locked _ = None"

fun shown :: "tc_point \<Rightarrow> (nat \<Rightarrow> addr list) \<Rightarrow> nat \<Rightarrow> addr list" where
  "shown (THit p i n a) b = b(i := b i @ [p])"
| "shown (TPush p i) b = b(i := b i @ [p])"
| "shown (TFlushErase goal i p rel) b = b(i := butlast (b i))"
| "shown _ b = b"

fun slack :: "tc_point \<Rightarrow> nat \<Rightarrow> nat" where
  "slack (TFlush FlushBin i rel) j = (if j = i then 1 else 0)"
| "slack (TFlushCentral FlushBin i p rel) j = (if j = i then 1 else 0)"
| "slack (TFlushErase FlushBin i p rel) j = (if j = i then 1 else 0)"
| "slack _ j = 0"

fun entered :: "tc_point \<Rightarrow> bool" where
  "entered (TAllocate n a) = True"
| "entered (TDeallocate p sized) = True"
| "entered (TRelease ending) = True"
| "entered _ = False"

definition sound_exn :: "exn \<Rightarrow> bool" where
  "sound_exn e \<longleftrightarrow> e \<noteq> UndefinedBehaviour \<and> e \<noteq> Terminate"

definition emptied :: "flush_goal \<Rightarrow> nat \<Rightarrow> cache_bins \<Rightarrow> bool" where
  "emptied goal i bs = (goal = FlushBin \<or> (\<forall>j < i. j < length bs \<longrightarrow> bs ! j = []))"

definition bins_within :: "thread_cache \<Rightarrow> (nat \<Rightarrow> nat) \<Rightarrow> cache_bins \<Rightarrow> bool" where
  "bins_within tc extra bs \<longleftrightarrow> length bs = class_count tc \<and>
     (\<forall>j < length bs. length (bs ! j) \<le> unat (tco_high_watermark (tc_cache_options tc)) + extra j)"

definition refill_ok :: "thread_cache \<Rightarrow> cache_bins option \<Rightarrow> nat \<Rightarrow> size_t \<Rightarrow> size_t \<Rightarrow> nat \<Rightarrow> bool" where
  "refill_ok tc c i n a k \<longleftrightarrow> (\<exists>bs. c = Some bs \<and> i < length bs \<and> selector_select (tc_selector tc) n a = Inr (Some i) \<and>
     length (bs ! i) + k \<le> unat (tco_high_watermark (tc_cache_options tc)))"

fun point_ok :: "thread_cache \<Rightarrow> cache_bins option \<Rightarrow> tc_point \<Rightarrow> bool" where
  "point_ok tc c (TFallbackCentral n a) = (selector_select (tc_selector tc) n a = Inr None)"
| "point_ok tc c (TFallbackRecord p n a) = (selector_select (tc_selector tc) n a = Inr None)"
| "point_ok tc c (TFallbackUndo p n a e) = sound_exn e"
| "point_ok tc c (THit p i n a) = (\<exists>bs. c = Some bs \<and> i < length bs \<and> selector_select (tc_selector tc) n a = Inr (Some i))"
| "point_ok tc c (TRefill i n a k res) = (refill_ok tc c i n a k \<and> (res = None \<longrightarrow> k \<noteq> 0))"
| "point_ok tc c (TRefillRecord p i n a k res) = (refill_ok tc c i n a (Suc k) \<and> p \<noteq> 0)"
| "point_ok tc c (TRefillUndo p e i n a res) = (refill_ok tc c i n a 0 \<and> p \<noteq> 0 \<and> sound_exn e)"
| "point_ok tc c (TFreeRecord p sized) = (c \<noteq> None \<and> p \<noteq> 0)"
| "point_ok tc c (TFreeCentral p sized remote) = (\<exists>r. find_record tc p = Some r \<and> arec_active r \<and> size_check tc r sized = Inr ())"
| "point_ok tc c (TPush p i) = (\<exists>bs. c = Some bs \<and> i < length bs)"
| "point_ok tc c (TFlush goal i rel) = (\<exists>bs. c = Some bs \<and> emptied goal i bs \<and> (goal = FlushBin \<longrightarrow> i < length bs))"
| "point_ok tc c (TFlushCentral goal i p rel) = (\<exists>bs. c = Some bs \<and> emptied goal i bs \<and> i < length bs \<and> bs ! i \<noteq> [] \<and> last (bs ! i) = p)"
| "point_ok tc c (TFlushErase goal i p rel) = (\<exists>bs. c = Some bs \<and> emptied goal i bs \<and> i < length bs \<and> bs ! i \<noteq> [] \<and> last (bs ! i) = p)"
| "point_ok tc c (TDone r) = (\<forall>e. r = Inl e \<longrightarrow> sound_exn e)"
| "point_ok tc c _ = True"

section \<open>The state without the records that are gone\<close>

definition without :: "addr set \<Rightarrow> thread_cache \<Rightarrow> thread_cache" where
  "without Z tc = tc\<lparr>tc_shards := (\<lambda>i. tc_shards tc i |` (- Z))\<rparr>"

lemma without_fields [simp]:
  "find_record (without Z tc) p = (if p \<in> Z then None else find_record tc p)" "tc_central (without Z tc) = tc_central tc"
  "tc_selector (without Z tc) = tc_selector tc" "tc_cache_options (without Z tc) = tc_cache_options tc"
  by (simp_all add: without_def find_record_def restrict_map_def)

lemma without_setup [simp]: "same_setup (without Z tc) tc' = same_setup tc tc'" "same_setup tc (without Z tc') = same_setup tc tc'"
  by (simp_all add: same_setup_def)

lemma without_update:
  "without Z (tc\<lparr>tc_central := sa\<rparr>) = (without Z tc)\<lparr>tc_central := sa\<rparr>"
  "without Z (tc\<lparr>tc_statistics := st\<rparr>) = (without Z tc)\<lparr>tc_statistics := st\<rparr>" "tc_statistics (without Z tc) = tc_statistics tc"
  by (simp_all add: without_def)

lemma find_record_without: "find_record (without Z tc) = find_record tc |` (- Z)"
  by (simp add: fun_eq_iff restrict_map_def)

lemma central_without:
  "central_allocate P n a (w, without Z tc) = (case central_allocate P n a (w, tc) of (r, (w', tc')) \<Rightarrow> (r, (w', without Z tc')))"
  "central_deallocate P p (w, without Z tc) = (case central_deallocate P p (w, tc) of (r, (w', tc')) \<Rightarrow> (r, (w', without Z tc')))"
  "central_deallocate_sized P p n a (w, without Z tc) =
     (case central_deallocate_sized P p n a (w, tc) of (r, (w', tc')) \<Rightarrow> (r, (w', without Z tc')))"
  by (simp_all add: central_allocate_def central_deallocate_def central_deallocate_sized_def central_release_def without_update
      split: prod.split sum.split)

section \<open>The invariant\<close>

definition interleaved_ok ::
  "('p \<Rightarrow> grant set) \<Rightarrow> ('p \<Rightarrow> bool) \<Rightarrow> grant set \<Rightarrow> 'p tc_config \<Rightarrow> request set \<Rightarrow> bool" where
  "interleaved_ok live ok L c K \<longleftrightarrow>
     (case cf_state c of (w, x) \<Rightarrow>
        let pc = cf_point c; R = find_record (without (\<Union>u. gone (pc u)) (tca_state x)) in
        cache_ok live ok L (\<Union>u. pend (pc u)) (w, without (\<Union>u. gone (pc u)) (tca_state x)) (\<lambda>u. shown (pc u) (bins_of x u)) K \<and>
        (\<forall>u. point_ok (tca_state x) (tca_caches x u) (pc u)) \<and>
        (\<forall>u bs. tca_caches x u = Some bs \<longrightarrow> bins_within (tca_state x) (slack (pc u)) bs) \<and>
        (\<forall>u v. u \<noteq> v \<longrightarrow> fst ` pend (pc u) \<inter> fst ` pend (pc v) = {}) \<and>
        (\<forall>u. \<forall>q \<in> fst ` pend (pc u). R q = None) \<and>
        (\<forall>u q. locked (pc u) = Some q \<longrightarrow> cf_mutex c (shard_for q) = Some u) \<and>
        (\<forall>u i. cf_mutex c i = Some u \<longrightarrow> (\<exists>q. locked (pc u) = Some q \<and> shard_for q = i)))"

lemma interleaved_okD:
  assumes "interleaved_ok live ok L c K" and "cf_state c = (w, x)"
  shows "cache_ok live ok L (\<Union>u. pend (cf_point c u)) (w, without (\<Union>u. gone (cf_point c u)) (tca_state x))
      (\<lambda>u. shown (cf_point c u) (bins_of x u)) K"
    and "\<And>u. point_ok (tca_state x) (tca_caches x u) (cf_point c u)"
    and "\<And>u bs. tca_caches x u = Some bs \<Longrightarrow> bins_within (tca_state x) (slack (cf_point c u)) bs"
    and "\<And>u v. u \<noteq> v \<Longrightarrow> fst ` pend (cf_point c u) \<inter> fst ` pend (cf_point c v) = {}"
    and "\<And>u q. q \<in> fst ` pend (cf_point c u) \<Longrightarrow> find_record (without (\<Union>u. gone (cf_point c u)) (tca_state x)) q = None"
    and "\<And>u q. locked (cf_point c u) = Some q \<Longrightarrow> cf_mutex c (shard_for q) = Some u"
    and "\<And>u i. cf_mutex c i = Some u \<Longrightarrow> \<exists>q. locked (cf_point c u) = Some q \<and> shard_for q = i"
proof -
  note I1 = assms(1) [unfolded interleaved_ok_def assms(2) prod.case Let_def]
  note I2 = I1 [THEN conjunct2] note I3 = I2 [THEN conjunct2] note I4 = I3 [THEN conjunct2]
  note I5 = I4 [THEN conjunct2] note I6 = I5 [THEN conjunct2]
  show "cache_ok live ok L (\<Union>u. pend (cf_point c u)) (w, without (\<Union>u. gone (cf_point c u)) (tca_state x))
      (\<lambda>u. shown (cf_point c u) (bins_of x u)) K" by (rule I1 [THEN conjunct1])
  show "\<And>u. point_ok (tca_state x) (tca_caches x u) (cf_point c u)" by (rule I2 [THEN conjunct1, rule_format])
  show "\<And>u bs. tca_caches x u = Some bs \<Longrightarrow> bins_within (tca_state x) (slack (cf_point c u)) bs"
    by (rule I3 [THEN conjunct1, rule_format])
  show "\<And>u v. u \<noteq> v \<Longrightarrow> fst ` pend (cf_point c u) \<inter> fst ` pend (cf_point c v) = {}" by (rule I4 [THEN conjunct1, rule_format])
  show "\<And>u q. q \<in> fst ` pend (cf_point c u) \<Longrightarrow> find_record (without (\<Union>u. gone (cf_point c u)) (tca_state x)) q = None"
    by (rule I5 [THEN conjunct1, rule_format])
  show "\<And>u q. locked (cf_point c u) = Some q \<Longrightarrow> cf_mutex c (shard_for q) = Some u" by (rule I6 [THEN conjunct1, rule_format])
  show "\<And>u i. cf_mutex c i = Some u \<Longrightarrow> \<exists>q. locked (cf_point c u) = Some q \<and> shard_for q = i"
    by (rule I6 [THEN conjunct2, rule_format])
qed

text \<open>What the threads other than \<open>t\<close> hold.\<close>

definition pend_others :: "'p tc_config \<Rightarrow> thread_id \<Rightarrow> request set" where
  "pend_others c t = (\<Union>u \<in> - {t}. pend (cf_point c u))"

definition gone_others :: "'p tc_config \<Rightarrow> thread_id \<Rightarrow> addr set" where
  "gone_others c t = (\<Union>u \<in> - {t}. gone (cf_point c u))"

definition shown_bins :: "'p tc_config \<Rightarrow> bins" where
  "shown_bins c = (\<lambda>u. shown (cf_point c u) (bins_of (snd (cf_state c)) u))"

lemma UN_split: "(\<Union>u. f (g u)) = f (g t) \<union> (\<Union>u \<in> - {t}. f (g u))"
  by auto

lemma UN_update: "(\<Union>u. f ((g(t := x)) u)) = f x \<union> (\<Union>u \<in> - {t}. f (g u))"
  by (auto split: if_splits)

lemma gone_locked: "q \<in> gone pc \<Longrightarrow> locked pc = Some q"
  by (cases pc) auto

lemma interleaved_view:
  assumes inv: "interleaved_ok live ok L c K" and s: "cf_state c = (w, x)" and pc: "cf_point c t = pc"
  shows "cache_ok live ok L (pend pc \<union> pend_others c t) (w, without (gone pc \<union> gone_others c t) (tca_state x)) (shown_bins c) K"
    and "point_ok (tca_state x) (tca_caches x t) pc"
    and "\<And>bs. tca_caches x t = Some bs \<Longrightarrow> bins_within (tca_state x) (slack pc) bs"
    and "fst ` pend pc \<inter> fst ` pend_others c t = {}"
    and "\<And>q. q \<in> fst ` (pend pc \<union> pend_others c t) \<Longrightarrow> q \<notin> gone pc \<union> gone_others c t \<Longrightarrow> find_record (tca_state x) q = None"
    and "\<And>q. q \<in> gone_others c t \<Longrightarrow> \<exists>u. u \<noteq> t \<and> cf_mutex c (shard_for q) = Some u"
    and "\<And>q. locked pc = Some q \<Longrightarrow> cf_mutex c (shard_for q) = Some t"
proof -
  note d = interleaved_okD [OF inv s]
  have X: "(\<Union>u. pend (cf_point c u)) = pend pc \<union> pend_others c t"
    unfolding pend_others_def pc [symmetric] by (rule UN_split)
  have Z: "(\<Union>u. gone (cf_point c u)) = gone pc \<union> gone_others c t"
    unfolding gone_others_def pc [symmetric] by (rule UN_split)
  show "cache_ok live ok L (pend pc \<union> pend_others c t) (w, without (gone pc \<union> gone_others c t) (tca_state x)) (shown_bins c) K"
    using d(1) unfolding X Z shown_bins_def s snd_conv .
  show "point_ok (tca_state x) (tca_caches x t) pc" "\<And>bs. tca_caches x t = Some bs \<Longrightarrow> bins_within (tca_state x) (slack pc) bs"
    "\<And>q. locked pc = Some q \<Longrightarrow> cf_mutex c (shard_for q) = Some t"
    using d(2) [of t] d(3) [of t] d(6) [of t] pc by simp_all
  have "fst ` pend pc \<inter> fst ` pend (cf_point c u) = {}" if "u \<noteq> t" for u using d(4) [of t u] that pc by auto
  then show "fst ` pend pc \<inter> fst ` pend_others c t = {}" unfolding pend_others_def by blast
  show "find_record (tca_state x) q = None" if "q \<in> fst ` (pend pc \<union> pend_others c t)" "q \<notin> gone pc \<union> gone_others c t" for q
  proof -
    have "q \<in> fst ` (\<Union>u. pend (cf_point c u))" using that(1) X by simp
    then obtain u where "q \<in> fst ` pend (cf_point c u)" by blast
    then have "find_record (without (\<Union>u. gone (cf_point c u)) (tca_state x)) q = None" by (rule d(5))
    then show ?thesis using that(2) Z by (simp split: if_splits)
  qed
  show "\<exists>u. u \<noteq> t \<and> cf_mutex c (shard_for q) = Some u" if "q \<in> gone_others c t" for q
  proof -
    from that obtain u where "u \<noteq> t" "q \<in> gone (cf_point c u)" unfolding gone_others_def by blast
    then show ?thesis using d(6) [OF gone_locked] by blast
  qed
qed

lemma point_ok_stable:
  assumes "point_ok tc c pc" and "same_setup tc tc'" and "\<And>q. locked pc = Some q \<Longrightarrow> find_record tc' q = find_record tc q"
  shows "point_ok tc' c pc"
proof -
  have "tc_selector tc' = tc_selector tc" "tc_cache_options tc' = tc_cache_options tc" using assms(2) by (simp_all add: same_setup_def)
  moreover from this have "size_check tc' r z = size_check tc r z" for r z
    by (simp add: size_check_def validate_sized_deallocation_def Let_def split: option.split)
  ultimately show ?thesis using assms(1,3) by (cases pc) (simp_all add: refill_ok_def)
qed

lemma interleaved_move:
  assumes inv: "interleaved_ok live ok L c K" and s: "cf_state c = (w, x)" and s': "cf_state c' = (w', x')"
    and pc': "cf_point c' = (cf_point c)(t := pc')"
    and su: "same_setup (tca_state x) (tca_state x')" and ca: "\<And>u. u \<noteq> t \<Longrightarrow> tca_caches x' u = tca_caches x u"
    and rec: "\<And>q u. u \<noteq> t \<Longrightarrow> cf_mutex c (shard_for q) = Some u \<Longrightarrow> find_record (tca_state x') q = find_record (tca_state x) q"
    and ok: "cache_ok live ok L (pend pc' \<union> pend_others c t) (w', without (gone pc' \<union> gone_others c t) (tca_state x'))
      ((shown_bins c)(t := shown pc' (bins_of x' t))) K'"
    and pt: "point_ok (tca_state x') (tca_caches x' t) pc'"
    and bw: "\<And>bs. tca_caches x' t = Some bs \<Longrightarrow> bins_within (tca_state x') (slack pc') bs"
    and pd: "fst ` pend pc' \<inter> fst ` pend_others c t = {}"
    and pr: "\<And>q. q \<in> fst ` (pend pc' \<union> pend_others c t) \<Longrightarrow> find_record (without (gone pc' \<union> gone_others c t) (tca_state x')) q = None"
    and m1: "\<And>q. locked pc' = Some q \<Longrightarrow> cf_mutex c' (shard_for q) = Some t"
    and m2: "\<And>i. cf_mutex c' i = Some t \<Longrightarrow> \<exists>q. locked pc' = Some q \<and> shard_for q = i"
    and m3: "\<And>i u. u \<noteq> t \<Longrightarrow> cf_mutex c' i = Some u \<longleftrightarrow> cf_mutex c i = Some u"
  shows "interleaved_ok live ok L c' K'"
proof -
  note d = interleaved_okD [OF inv s]
  have X: "(\<Union>u. pend (cf_point c' u)) = pend pc' \<union> pend_others c t" unfolding pc' pend_others_def by (rule UN_update)
  have Z: "(\<Union>u. gone (cf_point c' u)) = gone pc' \<union> gone_others c t" unfolding pc' gone_others_def by (rule UN_update)
  have bo: "bins_of x' u = bins_of x u" if "u \<noteq> t" for u using ca [OF that] by (simp add: fun_eq_iff bins_of_def)
  have B: "(\<lambda>u. shown (cf_point c' u) (bins_of x' u)) = (shown_bins c)(t := shown pc' (bins_of x' t))"
    using s by (intro ext [where 'a = thread_id]) (simp add: pc' shown_bins_def bo)
  have su2: "tc_selector (tca_state x') = tc_selector (tca_state x)" "tc_cache_options (tca_state x') = tc_cache_options (tca_state x)"
    using su by (simp_all add: same_setup_def)
  have P: "point_ok (tca_state x') (tca_caches x' u) (cf_point c' u)" for u
  proof (cases "u = t")
    case False
    then have "point_ok (tca_state x) (tca_caches x' u) (cf_point c u)" using d(2) [of u] ca [OF False] by simp
    moreover have "find_record (tca_state x') q = find_record (tca_state x) q" if "locked (cf_point c u) = Some q" for q
      by (rule rec [OF False d(6) [OF that]])
    ultimately show ?thesis using False su pc' by (auto intro: point_ok_stable)
  qed (use pt pc' in simp)
  have W: "bins_within (tca_state x') (slack (cf_point c' u)) bs" if "tca_caches x' u = Some bs" for u bs
  proof (cases "u = t")
    case False
    then have "bins_within (tca_state x) (slack (cf_point c u)) bs" using d(3) [of u bs] ca [OF False] that by simp
    then show ?thesis using False pc' su2 by (simp add: bins_within_def class_count_def)
  qed (use bw that pc' in simp)
  have D: "fst ` pend (cf_point c' u) \<inter> fst ` pend (cf_point c' v) = {}" if "u \<noteq> v" for u v
  proof -
    have "fst ` pend pc' \<inter> fst ` pend (cf_point c z) = {}" if "z \<noteq> t" for z using pd that unfolding pend_others_def by blast
    moreover have "fst ` pend (cf_point c u) \<inter> fst ` pend (cf_point c v) = {}" by (rule d(4) [OF that])
    ultimately show ?thesis using that pc' by (cases "u = t"; cases "v = t") (simp_all add: Int_commute)
  qed
  have N: "find_record (without (\<Union>u. gone (cf_point c' u)) (tca_state x')) q = None" if "q \<in> fst ` pend (cf_point c' u)" for q u
  proof -
    have "q \<in> fst ` (\<Union>u. pend (cf_point c' u))" using that by blast
    then show ?thesis unfolding X Z by (rule pr)
  qed
  have M1: "cf_mutex c' (shard_for q) = Some u" if "locked (cf_point c' u) = Some q" for u q
    using that m1 m3 [of u "shard_for q"] d(6) [of u q] pc' by (cases "u = t") auto
  have M2: "\<exists>q. locked (cf_point c' u) = Some q \<and> shard_for q = i" if "cf_mutex c' i = Some u" for u i
    using that m2 [of i] m3 [of u i] d(7) [of i u] pc' by (cases "u = t") auto
  show ?thesis unfolding interleaved_ok_def s' prod.case Let_def X Z B 
    by (intro conjI allI impI ballI, rule ok, rule P, erule W, erule D, erule N [unfolded Z], erule M1, erule M2)
qed

end
