(* ===== verification/Thread_Cache_Step_Correct.thy ===== *)
theory Thread_Cache_Step_Correct
  imports Thread_Cache_Interleaving
begin

text \<open>
  Every step of every thread keeps the invariant of the interleaved calls.
\<close>

section \<open>Kinds of steps\<close>

lemma gone_unlocked: "locked pc = None \<Longrightarrow> gone pc = {}"
  by (cases pc) auto

lemma goto_fields [simp]:
  "cf_state (goto t pc s c) = s" "cf_point (goto t pc s c) = (cf_point c)(t := pc)" "cf_mutex (goto t pc s c) = cf_mutex c"
  by (simp_all add: goto_def)

lemma shard_lock_fields [simp]:
  "cf_mutex (lock_shard t p c) = (cf_mutex c)(shard_for p := Some t)" "cf_mutex (unlock_shard p c) = (cf_mutex c)(shard_for p := None)"
  "cf_point (lock_shard t p c) = cf_point c" "cf_point (unlock_shard p c) = cf_point c"
  "cf_state (lock_shard t p c) = cf_state c" "cf_state (unlock_shard p c) = cf_state c"
  by (simp_all add: lock_shard_def unlock_shard_def)

lemma share_fields [simp]: "share x (w, tc) = (w, x\<lparr>tca_state := tc\<rparr>)"
  by (simp add: share_def)

lemma bins_of_state [simp]: "bins_of (x\<lparr>tca_state := tc\<rparr>) = bins_of x"
  by (simp add: fun_eq_iff bins_of_def)

lemma shown_bins_self: "cf_state c = (w, x) \<Longrightarrow> (shown_bins c)(t := shown (cf_point c t) (bins_of x t)) = shown_bins c"
  by (auto simp: fun_eq_iff shown_bins_def)

text \<open>A step outside the locked sections; it may change records of free shards.\<close>

lemma move_free:
  assumes inv: "interleaved_ok live ok L c K" and s: "cf_state c = (w, x)" and pc: "cf_point c t = pc"
    and lk: "locked pc = None" "locked pc' = None"
    and su: "same_setup (tca_state x) (tca_state x')" and ca: "\<And>u. u \<noteq> t \<Longrightarrow> tca_caches x' u = tca_caches x u"
    and rec: "\<And>q. cf_mutex c (shard_for q) \<noteq> None \<Longrightarrow> find_record (tca_state x') q = find_record (tca_state x) q"
    and ok: "cache_ok live ok L (pend pc' \<union> pend_others c t) (w', without (gone_others c t) (tca_state x'))
      ((shown_bins c)(t := shown pc' (bins_of x' t))) K'"
    and pt: "point_ok (tca_state x') (tca_caches x' t) pc'"
    and bw: "\<And>bs. tca_caches x' t = Some bs \<Longrightarrow> bins_within (tca_state x') (slack pc') bs"
    and pd: "fst ` pend pc' \<inter> fst ` pend_others c t = {}"
    and pr: "\<And>q. q \<in> fst ` (pend pc' \<union> pend_others c t) \<Longrightarrow> q \<notin> gone_others c t \<Longrightarrow> find_record (tca_state x') q = None"
  shows "interleaved_ok live ok L (goto t pc' (w', x') c) K'"
proof -
  have g: "gone pc' = {}" by (rule gone_unlocked [OF lk(2)])
  have nm: "cf_mutex c i \<noteq> Some t" for i using interleaved_okD(7) [OF inv s, of i t] pc lk(1) by auto
  show ?thesis
    by (rule interleaved_move [OF inv s, where t = t and pc' = pc' and w' = w' and x' = x'])
      (use su ca rec ok pt bw pd pr lk(2) nm g in auto)
qed

text \<open>The block under the lock of its shard goes back to the central allocator.\<close>

lemma move_held:
  assumes inv: "interleaved_ok live ok L c K" and s: "cf_state c = (w, x)" and pc: "cf_point c t = pc"
    and lk: "locked pc = Some p" "locked pc' = Some p" and gn: "gone pc' = {p}" and pn: "pend pc' = {}"
    and su: "same_setup (tca_state x) tc'" and rec: "find_record tc' = find_record (tca_state x)"
    and ok: "cache_ok live ok L (pend_others c t) (w', without (insert p (gone_others c t)) tc')
      ((shown_bins c)(t := shown pc' (bins_of x t))) K'"
    and pt: "point_ok tc' (tca_caches x t) pc'"
    and bw: "\<And>bs. tca_caches x t = Some bs \<Longrightarrow> bins_within tc' (slack pc') bs"
    and gp: "gone pc = {}"
  shows "interleaved_ok live ok L (goto t pc' (w', x\<lparr>tca_state := tc'\<rparr>) c) K'"
proof -
  note v = interleaved_view [OF inv s pc]
  have m: "cf_mutex c i = Some t \<longleftrightarrow> shard_for p = i" for i
    using interleaved_okD(7) [OF inv s, of i t] v(7) [OF lk(1)] pc lk(1) by auto
  have pr: "find_record (without (insert p (gone_others c t)) tc') q = None" if "q \<in> fst ` pend_others c t" for q
    using v(5) [of q] that gp rec by (auto simp: image_Un)
  show ?thesis
    by (rule interleaved_move [OF inv s, where t = t and pc' = pc' and w' = w' and x' = "x\<lparr>tca_state := tc'\<rparr>"])
      (use su rec ok pt bw pr lk(2) m gn pn in auto)
qed

text \<open>The lock is taken, or given back with the record.\<close>

lemma move_lock:
  assumes inv: "interleaved_ok live ok L c K" and s: "cf_state c = (w, x)" and pc: "cf_point c t = pc"
    and lk: "locked pc = None" "locked pc' = Some p" and fr: "shard_free p c" and gn: "gone pc' = {}" and pn: "pend pc' = {}" "pend pc = {}"
    and sh: "shown pc' (bins_of x t) = shown pc (bins_of x t)" and pt: "point_ok (tca_state x) (tca_caches x t) pc'"
    and bw: "\<And>bs. tca_caches x t = Some bs \<Longrightarrow> bins_within (tca_state x) (slack pc') bs"
  shows "interleaved_ok live ok L (goto t pc' (w, x) (lock_shard t p c)) K"
proof -
  note v = interleaved_view [OF inv s pc]
  have g: "gone pc = {}" by (rule gone_unlocked [OF lk(1)])
  have nm: "cf_mutex c i \<noteq> Some t" for i using interleaved_okD(7) [OF inv s, of i t] pc lk(1) by auto
  have B: "(shown_bins c)(t := shown pc' (bins_of x t)) = shown_bins c" using shown_bins_self [OF s, of t] sh pc by simp
  have pr: "find_record (without (gone_others c t) (tca_state x)) q = None" if "q \<in> fst ` pend_others c t" for q
    using v(5) [of q] that g by (auto simp: image_Un)
  show ?thesis
    by (rule interleaved_move [OF inv s, where t = t and pc' = pc' and w' = w and x' = x])
      (use v(1) B pt bw pr lk(2) nm gn pn g fr in \<open>auto simp: shard_free_def split: if_splits\<close>)
qed

lemma move_unlock:
  assumes inv: "interleaved_ok live ok L c K" and s: "cf_state c = (w, x)" and pc: "cf_point c t = pc"
    and lk: "locked pc = Some p" "locked pc' = None" and gp: "gone pc = {p}" and pn: "pend pc' = {}"
    and su: "same_setup (tca_state x) (tca_state x')" and ca: "\<And>u. u \<noteq> t \<Longrightarrow> tca_caches x' u = tca_caches x u"
    and rec: "find_record (tca_state x') = (find_record (tca_state x))(p := None)"
    and ct: "tc_central (tca_state x') = tc_central (tca_state x)"
    and sh: "shown pc' (bins_of x' t) = shown pc (bins_of x t)" and pt: "point_ok (tca_state x') (tca_caches x' t) pc'"
    and bw: "\<And>bs. tca_caches x' t = Some bs \<Longrightarrow> bins_within (tca_state x') (slack pc') bs"
  shows "interleaved_ok live ok L (goto t pc' (w, x') (unlock_shard p c)) K"
proof -
  note v = interleaved_view [OF inv s pc]
  have g: "gone pc' = {}" by (rule gone_unlocked [OF lk(2)])
  have m: "cf_mutex c i = Some t \<longleftrightarrow> shard_for p = i" for i
    using interleaved_okD(7) [OF inv s, of i t] v(7) [OF lk(1)] pc lk(1) by auto
  have B: "(shown_bins c)(t := shown pc' (bins_of x' t)) = shown_bins c" using shown_bins_self [OF s, of t] sh pc by simp
  have R: "find_record (without (gone_others c t) (tca_state x')) = find_record (without (insert p (gone_others c t)) (tca_state x))"
    using rec by (auto simp: fun_eq_iff)
  have pn0: "pend pc = {}" using lk(1) by (cases pc) auto
  have "cache_ok live ok L (pend_others c t) (w, without (insert p (gone_others c t)) (tca_state x)) (shown_bins c) K"
    using v(1) pn0 gp by simp
  then have "cache_ok live ok L (pend_others c t) (w, without (gone_others c t) (tca_state x')) (shown_bins c) K"
    by (rule cache_ok_cong [OF _ R]) (simp_all add: ct su)
  moreover have pr: "find_record (without (gone_others c t) (tca_state x')) q = None" if "q \<in> fst ` pend_others c t" for q
    unfolding R using v(5) [of q] that gp by (auto simp: image_Un)
  moreover have rec': "find_record (tca_state x') q = find_record (tca_state x) q" if "u \<noteq> t" "cf_mutex c (shard_for q) = Some u" for q u
    using rec m [of "shard_for q"] that by (auto split: if_splits)
  moreover have "cf_mutex (unlock_shard p c) i \<noteq> Some t" for i using m [of i] by auto
  moreover have "cf_mutex (unlock_shard p c) i = Some u \<longleftrightarrow> cf_mutex c i = Some u" if "u \<noteq> t" for i u
    using that v(7) [OF lk(1)] by auto
  ultimately show ?thesis
    by (intro interleaved_move [OF inv s, where t = t and pc' = pc' and w' = w and x' = x']) (use su ca B pt bw lk(2) g pn in simp_all)
qed

section \<open>The registry\<close>

lemma reserve_bins_world: "reserve_bins c n w = (r, w') \<Longrightarrow> w_mem w' = w_mem w \<and> w_prov w' = w_prov w"
  by (induction c n w rule: reserve_bins.induct) (auto simp: meta_alloc_def split: if_splits)

lemma reserve_bins_error: "reserve_bins c n w = (Inl e, w') \<Longrightarrow> e = BadAlloc \<or> e = LengthError"
  by (induction c n w rule: reserve_bins.induct) (auto split: if_splits prod.splits)

lemma registry_get_effect:
  assumes "registry_get t (w, x) = (r, (w', x'))"
  shows "w_mem w' = w_mem w" and "w_prov w' = w_prov w" and "tca_state x' = tca_state x"
    and "\<And>u. u \<noteq> t \<Longrightarrow> tca_caches x' u = tca_caches x u" and "bins_of x' = bins_of x"
    and "case r of
        Inl e \<Rightarrow> x' = x \<and> (e = BadAlloc \<or> e = LengthError)
      | Inr bs \<Rightarrow> tca_caches x' t = Some bs \<and> (tca_caches x t = Some bs \<or> bs = replicate (class_count (tca_state x)) [])"
proof -
  have "w_mem w' = w_mem w \<and> w_prov w' = w_prov w \<and> tca_state x' = tca_state x \<and> (\<forall>u. u \<noteq> t \<longrightarrow> tca_caches x' u = tca_caches x u) \<and>
    bins_of x' = bins_of x \<and> (case r of
        Inl e \<Rightarrow> x' = x \<and> (e = BadAlloc \<or> e = LengthError)
      | Inr bs \<Rightarrow> tca_caches x' t = Some bs \<and> (tca_caches x t = Some bs \<or> bs = replicate (class_count (tca_state x)) []))"
  proof (cases "tca_caches x t")
    case (Some bs)
    then show ?thesis using assms by (auto simp: registry_get_def)
  next
    case None
    let ?bs = "replicate (class_count (tca_state x)) []"
    have eb: "bins_of (x\<lparr>tca_caches := (tca_caches x)(t \<mapsto> ?bs)\<rparr>) = bins_of x"
      using None by (auto simp: fun_eq_iff bins_of_def nth_bin_def)
    obtain b1 w1 where m1: "meta_alloc w = (b1, w1)" by (cases "meta_alloc w")
    obtain y w2 where rs: "reserve_bins (cache_capacity (tca_state x)) (class_count (tca_state x)) w1 = (y, w2)"
      by (cases "reserve_bins (cache_capacity (tca_state x)) (class_count (tca_state x)) w1")
    obtain b3 w3 where m3: "meta_alloc w2 = (b3, w3)" by (cases "meta_alloc w2")
    have re: "y = Inl e \<Longrightarrow> e = BadAlloc \<or> e = LengthError" for e using rs reserve_bins_error by blast
    note ws = meta_alloc_world [OF m1] reserve_bins_world [OF rs] meta_alloc_world [OF m3]
    show ?thesis using assms None m1 rs m3 ws re eb
      by (cases b1; cases y; cases b3) (auto simp: registry_get_def Let_def)
  qed
  then show "w_mem w' = w_mem w" and "w_prov w' = w_prov w" and "tca_state x' = tca_state x"
    and "\<And>u. u \<noteq> t \<Longrightarrow> tca_caches x' u = tca_caches x u" and "bins_of x' = bins_of x"
    and "case r of
        Inl e \<Rightarrow> x' = x \<and> (e = BadAlloc \<or> e = LengthError)
      | Inr bs \<Rightarrow> tca_caches x' t = Some bs \<and> (tca_caches x t = Some bs \<or> bs = replicate (class_count (tca_state x)) [])"
    by blast+
qed

context memory_provider begin

lemma cache_ok_world:
  assumes "cache_ok live ok L X (w, tc) B K" and "w_mem w' = w_mem w" and "w_prov w' = w_prov w"
  shows "cache_ok live ok L X (w', tc) B K"
proof -
  note d = cache_okD [OF assms(1)]
  from d(1) obtain Fss where F: "segregated_inv live ok L (w, tc_central tc) Fss"
    "\<forall>h \<in> cache_requests (find_record tc) \<union> X. served (tc_central tc) Fss h" "inj_on fst (cache_requests (find_record tc) \<union> X)"
    "fst ` (cache_requests (find_record tc) \<union> X) = segregated_blocks (tc_central tc) Fss" by (auto simp: segregated_holds_def)
  have "ok (w_prov w)" by (rule pools_invD(1) [OF segregated_invD(1) [OF F(1)]])
  then have "segregated_inv live ok L (w', tc_central tc) Fss" using assms(2,3) by (intro segregated_same_live [OF F(1)]) simp_all
  then have "segregated_holds live ok L (w', tc_central tc) (cache_requests (find_record tc) \<union> X)"
    unfolding segregated_holds_def snd_conv using F(2-4) by blast
  then show ?thesis using d(2-6) unfolding cache_ok_def by simp
qed

text \<open>
  A step that changes neither the records nor the bins nor what the thread holds, other than its counters and its cache entry.
\<close>

lemma move_quiet:
  assumes inv: "interleaved_ok live ok L c K" and s: "cf_state c = (w, x)" and pc: "cf_point c t = pc"
    and lk: "locked pc = None" "locked pc' = None" and pn: "pend pc = {}" "pend pc' = {}"
    and w: "w_mem w' = w_mem w" "w_prov w' = w_prov w"
    and su: "same_setup (tca_state x) (tca_state x')" and ca: "\<And>u. u \<noteq> t \<Longrightarrow> tca_caches x' u = tca_caches x u"
    and rec: "find_record (tca_state x') = find_record (tca_state x)" and ct: "tc_central (tca_state x') = tc_central (tca_state x)"
    and sh: "shown pc' (bins_of x' t) = shown pc (bins_of x t)" and pt: "point_ok (tca_state x') (tca_caches x' t) pc'"
    and bw: "\<And>bs. tca_caches x' t = Some bs \<Longrightarrow> bins_within (tca_state x') (slack pc') bs"
  shows "interleaved_ok live ok L (goto t pc' (w', x') c) K"
proof -
  note v = interleaved_view [OF inv s pc]
  have g: "gone pc = {}" by (rule gone_unlocked [OF lk(1)])
  have B: "(shown_bins c)(t := shown pc' (bins_of x' t)) = shown_bins c" using shown_bins_self [OF s, of t] sh pc by simp
  have "cache_ok live ok L (pend_others c t) (w, without (gone_others c t) (tca_state x)) (shown_bins c) K" using v(1) pn g by simp
  from cache_ok_world [OF this w]
  have ok: "cache_ok live ok L (pend_others c t) (w', without (gone_others c t) (tca_state x')) (shown_bins c) K"
    by (rule cache_ok_cong) (simp_all add: ct su find_record_without rec)
  have pr: "find_record (tca_state x') q = None" if "q \<in> fst ` pend_others c t" "q \<notin> gone_others c t" for q
    using v(5) [of q] that g rec by (simp add: image_Un)
  show ?thesis
    by (rule move_free [OF inv s pc lk su ca]) (use rec ok B pt bw pr pn in simp_all)
qed

section \<open>Entering the calls\<close>

lemma interleaved_selector:
  assumes "interleaved_ok live ok L c K" and "cf_state c = (w, x)"
  shows "valid_selector (tc_selector (tca_state x))"
    and "validate_cache_options (tc_cache_options (tca_state x)) = Inr (tc_cache_options (tca_state x))"
  using cache_ok_valid [OF interleaved_okD(1) [OF assms]] cache_okD(6) [OF interleaved_okD(1) [OF assms]] by simp_all

lemma registry_bins_within:
  assumes inv: "interleaved_ok live ok L c K" and s: "cf_state c = (w, x)" and pc: "cf_point c t = pc" "slack pc = (\<lambda>_. 0)"
    and g: "registry_get t (w, x) = (r, (w1, x1))" and b: "tca_caches x1 t = Some bs"
  shows "bins_within (tca_state x) (\<lambda>_. 0) bs"
proof (cases "tca_caches x t = Some bs")
  case True
  then show ?thesis using interleaved_view(3) [OF inv s pc(1) True] pc(2) by simp
next
  case False
  note e = registry_get_effect(6) [OF g]
  have "bs = replicate (class_count (tca_state x)) []" using e b False by (cases r) auto
  then show ?thesis by (simp add: bins_within_def)
qed

text \<open>The entry of a call: the registry may have made a cache, and counters may have changed.\<close>

lemma enter_quiet:
  assumes inv: "interleaved_ok live ok L c K" and s: "cf_state c = (w, x)" and pc: "cf_point c t = pc" "entered pc"
    and g: "registry_get t (w, x) = (r, (w1, x1))"
    and pc': "locked pc' = None" "pend pc' = {}" "slack pc' = (\<lambda>_. 0)"
    and st: "same_setup (tca_state x) (tca_state x2)" "find_record (tca_state x2) = find_record (tca_state x)"
      "tc_central (tca_state x2) = tc_central (tca_state x)" and ca: "\<And>u. u \<noteq> t \<Longrightarrow> tca_caches x2 u = tca_caches x1 u"
    and sh: "shown pc' (bins_of x2 t) = bins_of x t" and pt: "point_ok (tca_state x2) (tca_caches x2 t) pc'"
    and bw: "\<And>bs. tca_caches x2 t = Some bs \<Longrightarrow> bins_within (tca_state x) (\<lambda>_. 0) bs"
  shows "interleaved_ok live ok L (goto t pc' (w1, x2) c) K"
proof -
  note e = registry_get_effect [OF g]
  have e': "locked pc = None" "pend pc = {}" "shown pc (bins_of x t) = bins_of x t" using pc(2) by (cases pc; simp)+
  have bw': "bins_within (tca_state x2) (slack pc') bs" if "tca_caches x2 t = Some bs" for bs
    using bw [OF that] st(1) pc'(3) by (simp add: bins_within_def same_setup_def class_count_def)
  have ca': "tca_caches x2 u = tca_caches x u" if "u \<noteq> t" for u using ca [OF that] e(4) [OF that] by simp
  show ?thesis by (rule move_quiet [OF inv s pc(1) e'(1) pc'(1) e'(2) pc'(2) e(1,2) st(1) ca' st(2,3) _ pt bw']) (simp_all add: sh e'(3))
qed

lemma bins_of_cache: "tca_caches x t = Some bs \<Longrightarrow> bins_of x t = nth_bin bs"
  by (simp add: bins_of_def fun_eq_iff)

lemma step_allocate_ok:
  assumes inv: "interleaved_ok live ok L c K" and pc: "cf_point c t = TAllocate n a"
  shows "interleaved_ok live ok L (step_allocate t n a c) K"
proof -
  obtain w x where s: "cf_state c = (w, x)" by (cases "cf_state c")
  obtain r w1 x1 where g: "registry_get t (w, x) = (r, (w1, x1))" by (metis prod_cases3)
  note e = registry_get_effect [OF g] and sel = interleaved_selector [OF inv s]
  have W: "bins_within (tca_state x) (\<lambda>_. 0) bs" if "tca_caches x1 t = Some bs" for bs
    by (rule registry_bins_within [OF inv s pc _ g that]) (simp add: fun_eq_iff)
  note quiet = enter_quiet [OF inv s pc _ g]
  show ?thesis
  proof (cases r)
    case (Inl ex)
    then have "step_allocate t n a c = goto t (TDone (Inl ex)) (w1, x1) c" using s g by (simp add: step_allocate_def)
    moreover have "interleaved_ok live ok L (goto t (TDone (Inl ex)) (w1, x1) c) K"
      using e Inl W by (intro quiet) (auto simp: sound_exn_def fun_eq_iff)
    ultimately show ?thesis by simp
  next
    case (Inr bs)
    have b: "tca_caches x1 t = Some bs" using e(6) Inr by simp
    then have nb: "bins_of x t = nth_bin bs" using e(5) bins_of_cache [of x1] by simp
    let ?f = "\<lambda>s. s\<lparr>tcs_allocation_requests := tcs_allocation_requests s + 1\<rparr>"
    let ?tc = "(tca_state x1)\<lparr>tc_statistics := ?f (tc_statistics (tca_state x1))\<rparr>"
    consider (bad) ex where "selector_select (tc_selector (tca_state x)) n a = Inl ex"
      | (none) "selector_select (tc_selector (tca_state x)) n a = Inr None"
      | (some) i where "selector_select (tc_selector (tca_state x)) n a = Inr (Some i)"
      by (cases "selector_select (tc_selector (tca_state x)) n a"; metis option.exhaust)
    then show ?thesis
    proof cases
      case (bad ex)
      have "step_allocate t n a c = goto t (TDone (Inl ex)) (w1, x1\<lparr>tca_state := ?tc\<rparr>) c"
        using s g Inr bad e(3) by (simp add: step_allocate_def Let_def)
      then show ?thesis
        using e W selector_select_Inl [OF bad] by (simp, intro quiet) (auto simp: sound_exn_def fun_eq_iff same_setup_def)
    next
      case none
      have "step_allocate t n a c = goto t (TFallbackCentral n a) (w1, x1\<lparr>tca_state := ?tc\<rparr>) c"
        using s g Inr none e(3) by (simp add: step_allocate_def Let_def)
      then show ?thesis using e W none by (simp, intro quiet) (auto simp: fun_eq_iff same_setup_def)
    next
      case (some i)
      have ib: "i < length bs"
        using selector_select_Some(1) [OF sel(1) some] W [OF b] by (simp add: bins_within_def class_count_def)
      show ?thesis
      proof (cases "bs ! i = []")
        case False
        let ?x = "x1\<lparr>tca_state := ?tc, tca_caches := (tca_caches x1)(t \<mapsto> bs[i := butlast (bs ! i)])\<rparr>"
        have "step_allocate t n a c = goto t (THit (last (bs ! i)) i n a) (w1, ?x) c"
          using s g Inr some e(3) False by (simp add: step_allocate_def Let_def put_cache_def)
        moreover have "shown (THit (last (bs ! i)) i n a) (bins_of ?x t) = bins_of x t"
          using ib False nb by (auto simp: fun_eq_iff bins_of_def nth_bin_def)
        moreover have "bins_within (tca_state x) (\<lambda>_. 0) (bs[i := butlast (bs ! i)])"
          using W [OF b] ib by (auto simp: bins_within_def nth_list_update diff_le_self intro: le_trans [OF diff_le_self])
        ultimately show ?thesis using e some ib by (simp only:) (intro quiet; auto simp: fun_eq_iff same_setup_def)
      next
        case True
        let ?tc2 = "?tc\<lparr>tc_statistics := (tc_statistics ?tc)\<lparr>tcs_batch_refills := tcs_batch_refills (tc_statistics ?tc) + 1\<rparr>\<rparr>"
        let ?k = "unat (tco_refill_batch (tc_cache_options (tca_state x)))"
        have "step_allocate t n a c = goto t (TRefill i n a ?k None) (w1, x1\<lparr>tca_state := ?tc2\<rparr>) c"
          using s g Inr some e(3) True by (simp add: step_allocate_def Let_def)
        moreover have "?k \<le> unat (tco_high_watermark (tc_cache_options (tca_state x)))" "?k \<noteq> 0"
          using valid_watermarks(2) [OF sel(2)] sel(2) by (auto simp: validate_cache_options_def unat_eq_0 split: if_splits)
        ultimately show ?thesis
          using e W b some ib True by (simp only:) (intro quiet; auto simp: fun_eq_iff same_setup_def refill_ok_def)
      qed
    qed
  qed
qed

lemma step_deallocate_ok:
  assumes inv: "interleaved_ok live ok L c K" and pc: "cf_point c t = TDeallocate q sized"
  shows "interleaved_ok live ok L (step_deallocate t q sized c) K"
proof -
  obtain w x where s: "cf_state c = (w, x)" by (cases "cf_state c")
  show ?thesis
  proof (cases "q = 0")
    case True
    then have "step_deallocate t q sized c = goto t (TDone (Inr AnsUnit)) (w, x) c" using s by (simp add: step_deallocate_def)
    moreover have "interleaved_ok live ok L (goto t (TDone (Inr AnsUnit)) (w, x) c) K"
      using interleaved_view(3) [OF inv s pc] by (intro move_quiet [OF inv s pc]) (simp_all add: bins_within_def)
    ultimately show ?thesis by simp
  next
    case False
    obtain r w1 x1 where g: "registry_get t (w, x) = (r, (w1, x1))" by (metis prod_cases3)
    note e = registry_get_effect [OF g] and quiet = enter_quiet [OF inv s pc _ g]
    have W: "bins_within (tca_state x) (\<lambda>_. 0) bs" if "tca_caches x1 t = Some bs" for bs
      by (rule registry_bins_within [OF inv s pc _ g that]) (simp add: fun_eq_iff)
    show ?thesis
    proof (cases r)
      case (Inl ex)
      then have "step_deallocate t q sized c = goto t (TDone (Inl ex)) (w1, x1) c" using s g False by (simp add: step_deallocate_def)
      moreover have "interleaved_ok live ok L (goto t (TDone (Inl ex)) (w1, x1) c) K"
        using e Inl W by (intro quiet) (auto simp: sound_exn_def fun_eq_iff)
      ultimately show ?thesis by simp
    next
      case (Inr bs)
      let ?tc = "(tca_state x1)\<lparr>tc_statistics := (tc_statistics (tca_state x1))
          \<lparr>tcs_deallocation_requests := tcs_deallocation_requests (tc_statistics (tca_state x1)) + 1\<rparr>\<rparr>"
      have "step_deallocate t q sized c = goto t (TFreeRecord q sized) (w1, x1\<lparr>tca_state := ?tc\<rparr>) c"
        using s g Inr False by (simp add: step_deallocate_def)
      moreover have "interleaved_ok live ok L (goto t (TFreeRecord q sized) (w1, x1\<lparr>tca_state := ?tc\<rparr>) c) K"
        using e Inr W False by (intro quiet) (auto simp: fun_eq_iff same_setup_def)
      ultimately show ?thesis by simp
    qed
  qed
qed

lemma step_release_ok:
  assumes inv: "interleaved_ok live ok L c K" and pc: "cf_point c t = TRelease ending"
  shows "interleaved_ok live ok L (step_release t ending c) K"
proof -
  obtain w x where s: "cf_state c = (w, x)" by (cases "cf_state c")
  note W = interleaved_view(3) [OF inv s pc]
  show ?thesis
  proof (cases "tca_caches x t")
    case None
    then have "step_release t ending c = goto t (TDone (Inr (AnsCount 0))) (w, x) c" using s by (simp add: step_release_def)
    moreover have "interleaved_ok live ok L (goto t (TDone (Inr (AnsCount 0))) (w, x) c) K"
      using W by (intro move_quiet [OF inv s pc]) (simp_all add: bins_within_def)
    ultimately show ?thesis by simp
  next
    case (Some bs)
    then have "step_release t ending c = goto t (TFlush (FlushAll 0 ending) 0 0) (w, x) c" using s by (simp add: step_release_def)
    moreover have "interleaved_ok live ok L (goto t (TFlush (FlushAll 0 ending) 0 0) (w, x) c) K"
      using W Some by (intro move_quiet [OF inv s pc]) (simp_all add: bins_within_def emptied_def)
    ultimately show ?thesis by simp
  qed
qed

lemma step_return_ok:
  assumes inv: "interleaved_ok live ok L c K" and pc: "cf_point c t = TDone r"
  shows "interleaved_ok live ok L (goto t TIdle (cf_state c) c) K"
proof -
  obtain w x where s: "cf_state c = (w, x)" by (cases "cf_state c")
  have "interleaved_ok live ok L (goto t TIdle (w, x) c) K"
    using interleaved_view(3) [OF inv s pc] by (intro move_quiet [OF inv s pc]) (simp_all add: bins_within_def)
  then show ?thesis using s by simp
qed

lemma call_ok:
  assumes inv: "interleaved_ok live ok L c K" and pc: "cf_point c t = TIdle" and "entered pc'"
  shows "interleaved_ok live ok L (goto t pc' (cf_state c) c) K"
proof -
  obtain w x where s: "cf_state c = (w, x)" by (cases "cf_state c")
  have e: "locked pc' = None" "pend pc' = {}" "shown pc' (bins_of x t) = bins_of x t" "slack pc' j = 0"
    "point_ok (tca_state x) (tca_caches x t) pc'" for j using assms(3) by (cases pc'; simp)+
  have "interleaved_ok live ok L (goto t pc' (w, x) c) K"
    using interleaved_view(3) [OF inv s pc] e by (intro move_quiet [OF inv s pc]) (simp_all add: bins_within_def)
  then show ?thesis using s by simp
qed

end

end
