(* ===== verification/Thread_Cache_Step_Allocate.thy ===== *)
theory Thread_Cache_Step_Allocate
  imports Thread_Cache_Step_Correct
begin

text \<open>The critical sections of \<^verbatim>\<open>allocate\<close> keep the invariant of the interleaved calls.\<close>

section \<open>Steps that leave the bins alone\<close>

text \<open>Points of a call at which the bins are what they seem and no lock is held.\<close>

definition plain :: "tc_point \<Rightarrow> bool" where
  "plain pc \<longleftrightarrow> locked pc = None \<and> (\<forall>b. shown pc b = b) \<and> slack pc = (\<lambda>_. 0)"

lemma plain_points [simp]:
  "plain (TDone r)" "plain (TFallbackCentral n a)" "plain (TFallbackRecord p n a)" "plain (TFallbackUndo p n a e)"
  "plain (TRefill i n a k res)" "plain (TRefillRecord p i n a k res)" "plain (TRefillUndo p e i n a res)" "plain (TFreeRecord p sized)"
  by (simp_all add: plain_def fun_eq_iff)

lemma plain_view:
  assumes inv: "interleaved_ok live ok L c K" and s: "cf_state c = (w, x)" and pc: "cf_point c t = pc" "plain pc"
  shows "cache_ok live ok L (pend pc \<union> pend_others c t) (w, without (gone_others c t) (tca_state x)) (shown_bins c) K"
    and "(shown_bins c)(t := bins_of x t) = shown_bins c"
    and "\<And>bs. tca_caches x t = Some bs \<Longrightarrow> bins_within (tca_state x) (\<lambda>_. 0) bs"
    and "\<And>q. q \<in> fst ` (pend pc \<union> pend_others c t) \<Longrightarrow> q \<notin> gone_others c t \<Longrightarrow> find_record (tca_state x) q = None"
    and "\<And>q. shard_free q c \<Longrightarrow> q \<notin> gone_others c t"
proof -
  note v = interleaved_view [OF inv s pc(1)]
  have g: "gone pc = {}" using pc(2) by (simp add: plain_def gone_unlocked)
  show "cache_ok live ok L (pend pc \<union> pend_others c t) (w, without (gone_others c t) (tca_state x)) (shown_bins c) K" using v(1) g by simp
  show "(shown_bins c)(t := bins_of x t) = shown_bins c" using shown_bins_self [OF s, of t] pc by (simp add: plain_def)
  show "\<And>bs. tca_caches x t = Some bs \<Longrightarrow> bins_within (tca_state x) (\<lambda>_. 0) bs" using v(3) pc(2) by (simp add: plain_def)
  show "\<And>q. q \<in> fst ` (pend pc \<union> pend_others c t) \<Longrightarrow> q \<notin> gone_others c t \<Longrightarrow> find_record (tca_state x) q = None" using v(5) g by simp
  show "q \<notin> gone_others c t" if "shard_free q c" for q using v(6) [of q] that by (auto simp: shard_free_def)
qed

lemma plain_move:
  assumes inv: "interleaved_ok live ok L c K" and s: "cf_state c = (w, x)" and pc: "cf_point c t = pc" "plain pc" "plain pc'"
    and su: "same_setup (tca_state x) tc'"
    and rec: "\<And>q. \<not> shard_free q c \<Longrightarrow> find_record tc' q = find_record (tca_state x) q"
    and ok: "cache_ok live ok L (pend pc' \<union> pend_others c t) (w', without (gone_others c t) tc') (shown_bins c) K'"
    and pt: "point_ok tc' (tca_caches x t) pc'"
    and pd: "fst ` pend pc' \<inter> fst ` pend_others c t = {}"
    and pr: "\<And>q. q \<in> fst ` (pend pc' \<union> pend_others c t) \<Longrightarrow> q \<notin> gone_others c t \<Longrightarrow> find_record tc' q = None"
  shows "interleaved_ok live ok L (goto t pc' (w', x\<lparr>tca_state := tc'\<rparr>) c) K'"
proof -
  note v = plain_view [OF inv s pc(1,2)]
  have l: "locked pc = None" "locked pc' = None" "\<And>b. shown pc' b = b" "slack pc' = (\<lambda>_. 0)" using pc by (simp_all add: plain_def)
  have bw: "bins_within tc' (slack pc') bs" if "tca_caches x t = Some bs" for bs
    using v(3) [OF that] su l(4) by (simp add: bins_within_def same_setup_def class_count_def)
  show ?thesis
    by (rule move_free [OF inv s pc(1) l(1,2)]) (use su rec ok pt bw pd pr v(2) l(3) in \<open>simp_all add: shard_free_def\<close>)
qed

lemma central_allocate_records:
  "central_allocate P n a (w, tc) = (r, (w', tc')) \<Longrightarrow> find_record tc' = find_record tc \<and> same_setup tc tc'"
  by (auto simp: central_allocate_def same_setup_def split: prod.splits sum.splits)

lemma central_deallocate_sized_records:
  "central_deallocate_sized P p n a (w, tc) = (r, (w', tc')) \<Longrightarrow> find_record tc' = find_record tc \<and> same_setup tc tc'"
  by (auto simp: central_deallocate_sized_def central_release_def same_setup_def split: prod.splits sum.splits)

lemma central_deallocate_records:
  "central_deallocate P p (w, tc) = (r, (w', tc')) \<Longrightarrow> find_record tc' = find_record tc \<and> same_setup tc tc'"
  by (auto simp: central_deallocate_def central_release_def same_setup_def split: prod.splits sum.splits)

lemma without_put: "p \<notin> Z \<Longrightarrow> find_record (without Z (put_record p r tc)) = find_record (put_record p r (without Z tc))"
  by (simp add: fun_eq_iff)

context memory_provider begin

section \<open>Calls of the central allocator\<close>

lemma central_allocate_step:
  assumes inv: "interleaved_ok live ok L c K" and s: "cf_state c = (w, x)" and pc: "cf_point c t = pc" "plain pc" "pend pc = {}"
    and al: "central_allocate P n a (w, tca_state x) = (y, (w1, tc1))"
  shows "case y of
       Inl e \<Rightarrow> sound_exn e \<and> (\<forall>pc'. plain pc' \<longrightarrow> pend pc' = {} \<longrightarrow> point_ok tc1 (tca_caches x t) pc' \<longrightarrow>
         interleaved_ok live ok L (goto t pc' (w1, x\<lparr>tca_state := tc1\<rparr>) c) K)
     | Inr p \<Rightarrow> p \<noteq> 0 \<and> (\<forall>pc'. plain pc' \<longrightarrow> pend pc' = {(p, n, a)} \<longrightarrow> point_ok tc1 (tca_caches x t) pc' \<longrightarrow>
         interleaved_ok live ok L (goto t pc' (w1, x\<lparr>tca_state := tc1\<rparr>) c) K)"
proof -
  note v = plain_view [OF inv s pc(1,2)]
  have c0: "cache_ok live ok L (pend_others c t) (w, without (gone_others c t) (tca_state x)) (shown_bins c) K" using v(1) pc(3) by simp
  have alw: "central_allocate P n a (w, without (gone_others c t) (tca_state x)) = (y, (w1, without (gone_others c t) tc1))"
    using al by (simp add: central_without)
  note ca = central_allocate_ok [OF c0 alw] and cr = central_allocate_records [OF al]
  have old: "find_record tc1 q = None" if "q \<in> fst ` pend_others c t" "q \<notin> gone_others c t" for q
    using v(4) [of q] that cr pc(3) by simp
  have rec: "\<And>q. \<not> shard_free q c \<Longrightarrow> find_record tc1 q = find_record (tca_state x) q" using cr by simp
  show ?thesis
  proof (cases y)
    case (Inl e)
    have "interleaved_ok live ok L (goto t pc' (w1, x\<lparr>tca_state := tc1\<rparr>) c) K"
      if "plain pc'" "pend pc' = {}" "point_ok tc1 (tca_caches x t) pc'" for pc'
      by (rule plain_move [OF inv s pc(1,2) that(1) conjunct2 [OF cr] rec]) (use ca(3) Inl that old in auto)
    then show ?thesis using ca(3) Inl by (simp add: sound_exn_def)
  next
    case (Inr p)
    have f: "cache_ok live ok L (insert (p, n, a) (pend_others c t)) (w1, without (gone_others c t) tc1) (shown_bins c) K" "p \<noteq> 0"
      "p \<notin> gone_others c t \<Longrightarrow> find_record tc1 p = None" "p \<notin> fst ` pend_others c t"
      using ca(3) Inr cr by (simp_all split: if_splits)
    have "interleaved_ok live ok L (goto t pc' (w1, x\<lparr>tca_state := tc1\<rparr>) c) K"
      if "plain pc'" "pend pc' = {(p, n, a)}" "point_ok tc1 (tca_caches x t) pc'" for pc'
      by (rule plain_move [OF inv s pc(1,2) that(1) conjunct2 [OF cr] rec]) (use f that old in auto)
    then show ?thesis using f(2) Inr by simp
  qed
qed

text \<open>A block without a record goes back.\<close>

lemma central_undo_step:
  assumes inv: "interleaved_ok live ok L c K" and s: "cf_state c = (w, x)" and pc: "cf_point c t = pc" "plain pc" "pend pc = {(p, n, a)}"
    and de: "central_deallocate_sized P p n a (w, tca_state x) = (y, (w1, tc1))"
  shows "y = Inr ()" and "plain pc' \<Longrightarrow> pend pc' = {} \<Longrightarrow> point_ok tc1 (tca_caches x t) pc' \<Longrightarrow>
      interleaved_ok live ok L (goto t pc' (w1, x\<lparr>tca_state := tc1\<rparr>) c) K"
proof -
  note v = plain_view [OF inv s pc(1,2)]
  have c0: "cache_ok live ok L (insert (p, n, a) (pend_others c t)) (w, without (gone_others c t) (tca_state x)) (shown_bins c) K"
    using v(1) pc(3) by simp
  have np: "find_record (without (gone_others c t) (tca_state x)) p = None" using v(4) [of p] pc(3) by simp
  have nx: "p \<notin> fst ` pend_others c t" using interleaved_view(4) [OF inv s pc(1)] pc(3) by auto
  have "central_deallocate_sized P p n a (w, without (gone_others c t) (tca_state x)) = (y, (w1, without (gone_others c t) tc1))"
    using de by (simp add: central_without)
  then have r: "y = Inr ()" "cache_ok live ok L (pend_others c t) (w1, without (gone_others c t) tc1) (shown_bins c) K"
    using release_pending [OF c0 np nx] by auto
  show "y = Inr ()" by (rule r(1))
  note cr = central_deallocate_sized_records [OF de]
  have old: "find_record tc1 q = None" if "q \<in> fst ` pend_others c t" "q \<notin> gone_others c t" for q
    using v(4) [of q] that cr by (simp add: image_Un)
  show "interleaved_ok live ok L (goto t pc' (w1, x\<lparr>tca_state := tc1\<rparr>) c) K"
    if "plain pc'" "pend pc' = {}" "point_ok tc1 (tca_caches x t) pc'"
    by (rule plain_move [OF inv s pc(1,2) that(1) conjunct2 [OF cr]]) (use r(2) that cr old in auto)
qed

section \<open>Records\<close>

lemma record_allocation_effect:
  assumes "record_allocation p r (w, tc) = (y, (w1, tc1))" and "find_record tc p = None"
  shows "w_mem w1 = w_mem w \<and> w_prov w1 = w_prov w \<and> ((y = Inl BadAlloc \<and> tc1 = tc) \<or> (y = Inr () \<and> tc1 = put_record p r tc))"
  using assms by (auto simp: record_allocation_def meta_alloc_def split: if_splits)

text \<open>The block of the thread gets its record, while nobody holds the shard, or memory for the record runs out.\<close>

lemma record_step:
  assumes inv: "interleaved_ok live ok L c K" and s: "cf_state c = (w, x)" and pc: "cf_point c t = pc" "plain pc" "pend pc = {record_request p r}"
    and fr: "shard_free p c" and ra: "record_allocation p r (w, tca_state x) = (y, (w1, tc1))"
  shows "find_record (tca_state x) p = None" and "p \<notin> gone_others c t" and "p \<notin> fst ` pend_others c t"
    and "cache_ok live ok L (insert (record_request p r) (pend_others c t)) (w1, without (gone_others c t) (tca_state x)) (shown_bins c) K"
    and "(y = Inl BadAlloc \<and> tc1 = tca_state x) \<or> (y = Inr () \<and> tc1 = put_record p r (tca_state x))"
    and "y = Inl e \<Longrightarrow> plain pc' \<Longrightarrow> pend pc' = pend pc \<Longrightarrow> point_ok (tca_state x) (tca_caches x t) pc' \<Longrightarrow>
      interleaved_ok live ok L (goto t pc' (w1, x\<lparr>tca_state := tc1\<rparr>) c) K"
proof -
  note v = plain_view [OF inv s pc(1,2)]
  show nz: "p \<notin> gone_others c t" by (rule v(5) [OF fr])
  then show np: "find_record (tca_state x) p = None" using v(4) [of p] pc(3) by (simp add: record_request_def)
  show nx: "p \<notin> fst ` pend_others c t" using interleaved_view(4) [OF inv s pc(1)] pc(3) by (auto simp: record_request_def)
  note e = record_allocation_effect [OF ra np]
  have c0: "cache_ok live ok L (insert (record_request p r) (pend_others c t)) (w, without (gone_others c t) (tca_state x)) (shown_bins c) K"
    using v(1) pc(3) by simp
  show c1: "cache_ok live ok L (insert (record_request p r) (pend_others c t)) (w1, without (gone_others c t) (tca_state x)) (shown_bins c) K"
    by (rule cache_ok_world [OF c0]) (simp_all add: e)
  show "(y = Inl BadAlloc \<and> tc1 = tca_state x) \<or> (y = Inr () \<and> tc1 = put_record p r (tca_state x))" using e by blast
  show "interleaved_ok live ok L (goto t pc' (w1, x\<lparr>tca_state := tc1\<rparr>) c) K"
    if "y = Inl e" "plain pc'" "pend pc' = pend pc" "point_ok (tca_state x) (tca_caches x t) pc'"
  proof -
    have [simp]: "tc1 = tca_state x" using e that(1) by auto
    show ?thesis
      by (rule plain_move [OF inv s pc(1,2) that(2)]) (use c1 that(3,4) pc(3) v(4) nx in \<open>auto simp: record_request_def\<close>)
  qed
qed

lemma record_active_step:
  assumes inv: "interleaved_ok live ok L c K" and s: "cf_state c = (w, x)" and pc: "cf_point c t = pc" "plain pc" "pend pc = {record_request p r}"
    and fr: "shard_free p c" and ra: "record_allocation p r (w, tca_state x) = (Inr (), (w1, tc1))"
    and r: "arec_active r" "arec_requested_size r = normalize_size n" "arec_alignment r = a"
      "selector_select (tc_selector (tca_state x)) n a =
        Inr (if arec_class_index r = fallback_class then None else Some (unat (arec_class_index r)))"
    and tc2: "find_record tc2 = find_record tc1" "tc_central tc2 = tc_central tc1" "same_setup tc1 tc2"
    and pc': "plain pc'" "pend pc' = {}" "point_ok tc2 (tca_caches x t) pc'"
  shows "interleaved_ok live ok L (goto t pc' (w1, x\<lparr>tca_state := tc2\<rparr>) c) (insert (p, n, a) K)"
proof -
  note v = plain_view [OF inv s pc(1,2)] and rs = record_step [OF inv s pc fr ra]
  have tc1: "tc1 = put_record p r (tca_state x)" using rs(5) by simp
  have su: "same_setup (tca_state x) tc2" using tc2(3) tc1 by (simp add: same_setup_def)
  have np: "find_record (without (gone_others c t) (tca_state x)) p = None" using rs(1) by simp
  have sel: "selector_select (tc_selector (without (gone_others c t) (tca_state x))) (arec_requested_size r) (arec_alignment r) =
      Inr (if arec_class_index r = fallback_class then None else Some (unat (arec_class_index r)))" using r by simp
  note pa = put_pending_active(1) [OF rs(4) np r(1-3) sel]
  have R: "find_record (without (gone_others c t) tc2) = find_record (put_record p r (without (gone_others c t) (tca_state x)))"
    using tc2(1) tc1 rs(2) by (auto simp: fun_eq_iff)
  have ok: "cache_ok live ok L (pend_others c t) (w1, without (gone_others c t) tc2) (shown_bins c) (insert (p, n, a) K)"
    by (rule cache_ok_cong [OF pa R]) (use tc2(2,3) tc1 su in \<open>simp_all add: same_setup_def\<close>)
  have old: "find_record tc2 q = None" if "q \<in> fst ` pend_others c t" "q \<notin> gone_others c t" for q
    using v(4) [of q] that tc2(1) tc1 rs(3) by (auto simp: image_Un)
  have rec: "find_record tc2 q = find_record (tca_state x) q" if "\<not> shard_free q c" for q
    using tc2(1) tc1 that fr by auto
  show ?thesis by (rule plain_move [OF inv s pc(1,2) pc'(1) su rec]) (use ok pc' old in auto)
qed

lemma step_fallback_central_ok:
  assumes inv: "interleaved_ok live ok L c K" and pc: "cf_point c t = TFallbackCentral n a"
  shows "interleaved_ok live ok L (step_fallback_central P t n a c) K"
proof -
  obtain w x where s: "cf_state c = (w, x)" by (cases "cf_state c")
  obtain y w1 tc1 where al: "central_allocate P (normalize_size n) a (w, tca_state x) = (y, (w1, tc1))" by (metis prod_cases3)
  have sel: "selector_select (tc_selector tc1) n a = Inr None"
    using interleaved_view(2) [OF inv s pc] central_allocate_records [OF al] by (simp add: same_setup_def)
  show ?thesis using central_allocate_step [OF inv s pc _ _ al] s al sel by (cases y) (simp_all add: step_fallback_central_def)
qed

lemma step_fallback_record_ok:
  assumes inv: "interleaved_ok live ok L c K" and pc: "cf_point c t = TFallbackRecord p n a" and fr: "shard_free p c"
    and st: "step_fallback_record t p n a c = (ev, c')"
  shows "interleaved_ok live ok L c' (apply_event ev K)"
proof -
  obtain w x where s: "cf_state c = (w, x)" by (cases "cf_state c")
  let ?r = "\<lparr>arec_class_index = fallback_class, arec_requested_size = normalize_size n, arec_alignment = a,
      arec_owner_thread = t, arec_active = True\<rparr>"
  obtain y w1 tc1 where ra: "record_allocation p ?r (w, tca_state x) = (y, (w1, tc1))" by (metis prod_cases3)
  have pn: "pend (TFallbackRecord p n a) = {record_request p ?r}" by (simp add: record_request_def)
  note rs = record_step [OF inv s pc _ pn fr ra]
  have pt: "selector_select (tc_selector (tca_state x)) n a = Inr None" using interleaved_view(2) [OF inv s pc] by simp
  show ?thesis
  proof (cases y)
    case (Inl e)
    then have ev: "ev = Silent" "c' = goto t (TFallbackUndo p n a e) (w1, x\<lparr>tca_state := tc1\<rparr>) c"
      using st s ra by (auto simp: step_fallback_record_def)
    have "interleaved_ok live ok L c' K" unfolding ev(2) by (rule rs(6) [OF _ Inl]) (use Inl rs(5) in \<open>auto simp: sound_exn_def\<close>)
    then show ?thesis using ev(1) by simp
  next
    case (Inr u)
    then have ev: "ev = Acquired p n a" "c' = goto t (TDone (Inr (AnsPointer p))) (w1, x\<lparr>tca_state := note_live_allocation tc1\<rparr>) c"
      using st s ra by (auto simp: step_fallback_record_def)
    have "interleaved_ok live ok L c' (insert (p, n, a) K)"
      unfolding ev(2) by (rule record_active_step [OF inv s pc _ pn fr ra [unfolded Inr, simplified]])
        (use pt in \<open>simp_all add: same_setup_def note_live_allocation_def\<close>)
    then show ?thesis using ev(1) by simp
  qed
qed

lemma step_fallback_undo_ok:
  assumes inv: "interleaved_ok live ok L c K" and pc: "cf_point c t = TFallbackUndo p n a e"
  shows "interleaved_ok live ok L (step_fallback_undo P t p n a e c) K"
proof -
  obtain w x where s: "cf_state c = (w, x)" by (cases "cf_state c")
  obtain y w1 tc1 where de: "central_deallocate_sized P p (normalize_size n) a (w, tca_state x) = (y, (w1, tc1))" by (metis prod_cases3)
  note u = central_undo_step [OF inv s pc _ _ de]
  have "sound_exn e" using interleaved_view(2) [OF inv s pc] by simp
  then show ?thesis using u s de by (simp add: step_fallback_undo_def)
qed

end

end
