(* ===== verification/Thread_Cache_Step_Refill.thy ===== *)
theory Thread_Cache_Step_Refill
  imports Thread_Cache_Step_Allocate
begin

text \<open>Cache hits and the refill loop of \<^verbatim>\<open>allocate\<close> keep the invariant of the interleaved calls.\<close>

context memory_provider begin

section \<open>Hits\<close>

lemma step_hit_ok:
  assumes inv: "interleaved_ok live ok L c K" and pc: "cf_point c t = THit p i n a" and fr: "shard_free p c"
    and st: "step_hit t p n a c = (ev, c')"
  shows "ev = Acquired p n a" and "p \<notin> fst ` K" and "interleaved_ok live ok L c' (apply_event ev K)"
proof -
  obtain w x where s: "cf_state c = (w, x)" by (cases "cf_state c")
  note v = interleaved_view [OF inv s pc]
  let ?Z = "gone_others c t" and ?X = "pend_others c t" and ?b = "bins_of x t"
  let ?T = "without ?Z (tca_state x)"
  have pt: "selector_select (tc_selector (tca_state x)) (normalize_size n) a = Inr (Some i)" using v(2) by auto
  have pZ: "p \<notin> ?Z" using v(6) [of p] fr by (auto simp: shard_free_def)
  have Bt: "shown_bins c t i = ?b i @ [p]" using s pc by (simp add: shown_bins_def)
  have c0: "cache_ok live ok L ?X (w, ?T) (set_bin (shown_bins c) t i (shown_bins c t i)) K" using v(1) by simp
  have ne: "shown_bins c t i \<noteq> []" "last (shown_bins c t i) = p" using Bt by simp_all
  have "set_bin (shown_bins c) t i (shown_bins c t i) t i \<noteq> []" using ne(1) by simp
  note pop = bins_pop [OF cache_okD(4) [OF c0] this cache_ok_valid [OF c0], unfolded set_bin_simps ne(2)]
  have nx: "p \<notin> fst ` ?X"
  proof
    assume "p \<in> fst ` ?X"
    then have "find_record (tca_state x) p = None" using v(5) [of p] pZ by (simp add: image_Un)
    then show False using pop(2) pZ by simp
  qed
  obtain r where r: "find_record ?T p = Some r" "\<not> arec_active r" "p \<notin> fst ` K"
      "cache_ok live ok L ?X (w, put_record p (r\<lparr>arec_requested_size := normalize_size n, arec_alignment := a,
         arec_owner_thread := t, arec_active := True\<rparr>) ?T) (set_bin (shown_bins c) t i (butlast (shown_bins c t i))) (insert (p, n, a) K)"
    using reactivate_ok [OF c0 ne(1), unfolded ne(2), OF nx, of n a t] pt by auto
  let ?r = "r\<lparr>arec_requested_size := normalize_size n, arec_alignment := a, arec_owner_thread := t, arec_active := True\<rparr>"
  let ?t0 = "put_record p ?r (tca_state x)"
  let ?tc = "note_live_allocation (?t0\<lparr>tc_statistics := (tc_statistics ?t0)
      \<lparr>tcs_cache_hits := tcs_cache_hits (tc_statistics ?t0) + 1, tcs_cached_blocks := tcs_cached_blocks (tc_statistics ?t0) - 1\<rparr>\<rparr>)"
  have fr0: "find_record (tca_state x) p = Some r" using r(1) pZ by simp
  then have ev: "ev = Acquired p n a" "c' = goto t (TDone (Inr (AnsPointer p))) (w, x\<lparr>tca_state := ?tc\<rparr>) c"
    using st s r(2) by (simp_all add: step_hit_def)
  show "ev = Acquired p n a" "p \<notin> fst ` K" using ev r(3) by simp_all
  have B: "set_bin (shown_bins c) t i (butlast (shown_bins c t i)) = (shown_bins c)(t := ?b)"
    using s pc Bt by (auto simp: fun_eq_iff set_bin_other shown_bins_def)
  have "cache_ok live ok L ?X (w, without ?Z ?tc) ((shown_bins c)(t := ?b)) (insert (p, n, a) K)"
    unfolding B [symmetric] by (rule cache_ok_cong [OF r(4)]) (use pZ in \<open>auto simp: same_setup_def fun_eq_iff\<close>)
  moreover have "find_record ?tc q = None" if "q \<in> fst ` ?X" "q \<notin> ?Z" for q
    using v(5) [of q] that nx by (auto simp: image_Un)
  moreover have "bins_within ?tc (\<lambda>_. 0) bs" if "tca_caches x t = Some bs" for bs
    using v(3) [OF that] by (simp add: bins_within_def class_count_def)
  ultimately have "interleaved_ok live ok L c' (insert (p, n, a) K)"
    unfolding ev(2) by (intro move_free [OF inv s pc]) (use fr in \<open>auto simp: same_setup_def shard_free_def bins_within_def\<close>)
  then show "interleaved_ok live ok L c' (apply_event ev K)" using ev(1) by simp
qed

section \<open>Refill\<close>

lemma step_refill_ok:
  assumes inv: "interleaved_ok live ok L c K" and pc: "cf_point c t = TRefill i n a k res"
  shows "interleaved_ok live ok L (step_refill P t i n a k res c) K"
proof -
  obtain w x where s: "cf_state c = (w, x)" by (cases "cf_state c")
  have pt: "refill_ok (tca_state x) (tca_caches x t) i n a k" "res = None \<longrightarrow> k \<noteq> 0" using interleaved_view(2) [OF inv s pc] by auto
  show ?thesis
  proof (cases k)
    case 0
    have "interleaved_ok live ok L
        (goto t (TDone (Inr (AnsPointer (case res of None \<Rightarrow> nullptr | Some p \<Rightarrow> p)))) (w, x\<lparr>tca_state := note_live_allocation (tca_state x)\<rparr>) c) K"
      using interleaved_view(3) [OF inv s pc] by (intro move_quiet [OF inv s pc]) (simp_all add: same_setup_def bins_within_def class_count_def note_live_allocation_def)
    then show ?thesis using 0 s by (simp add: step_refill_def)
  next
    case (Suc j)
    obtain y w1 tc1 where al: "central_allocate P (normalize_size n) a (w, tca_state x) = (y, (w1, tc1))" by (metis prod_cases3)
    note cs = central_allocate_step [OF inv s pc _ _ al]
    have rf: "refill_ok tc1 (tca_caches x t) i n a m" if "m \<le> Suc j" for m
      using pt(1) Suc that central_allocate_records [OF al] by (auto simp: refill_ok_def same_setup_def)
    show ?thesis
    proof (cases y)
      case (Inl e)
      then show ?thesis using cs s al Suc rf [of 0] by (cases res) (simp_all add: step_refill_def)
    next
      case (Inr p)
      then show ?thesis using cs s al Suc rf [of "Suc j"] by (simp add: step_refill_def)
    qed
  qed
qed

lemma step_refill_undo_ok:
  assumes inv: "interleaved_ok live ok L c K" and pc: "cf_point c t = TRefillUndo p e i n a res"
  shows "interleaved_ok live ok L (step_refill_undo P t p e i n a res c) K"
proof -
  obtain w x where s: "cf_state c = (w, x)" by (cases "cf_state c")
  obtain y w1 tc1 where de: "central_deallocate_sized P p (normalize_size n) a (w, tca_state x) = (y, (w1, tc1))" by (metis prod_cases3)
  note u = central_undo_step [OF inv s pc _ _ de]
  have pt: "refill_ok (tca_state x) (tca_caches x t) i n a 0" "p \<noteq> 0" "sound_exn e" using interleaved_view(2) [OF inv s pc] by simp_all
  have "refill_ok tc1 (tca_caches x t) i n a 0"
    using pt(1) central_deallocate_sized_records [OF de] by (simp add: refill_ok_def same_setup_def)
  then show ?thesis using u s de pt(2,3) by (cases res) (simp_all add: step_refill_undo_def)
qed

text \<open>A further block of the refill goes into the bin.\<close>

lemma refill_push_ok:
  assumes inv: "interleaved_ok live ok L c K" and s: "cf_state c = (w, x)" and pc: "cf_point c t = TRefillRecord p i n a k (Some q0)"
    and fr: "shard_free p c" and b: "tca_caches x t = Some bs"
    and r: "r = \<lparr>arec_class_index = of_nat i, arec_requested_size = normalize_size n, arec_alignment = a, arec_owner_thread = t, arec_active = False\<rparr>"
    and ra: "record_allocation p r (w, tca_state x) = (Inr (), (w1, tc1))"
  shows "interleaved_ok live ok L (goto t (TRefill i n a k (Some q0))
     (w1, x\<lparr>tca_state := note_cached_block tc1, tca_caches := (tca_caches x)(t \<mapsto> bs[i := bs ! i @ [p]])\<rparr>) c) K"
proof -
  let ?Z = "gone_others c t" and ?X = "pend_others c t"
  let ?T = "without ?Z (tca_state x)" and ?tc = "note_cached_block tc1"
  let ?x = "x\<lparr>tca_state := ?tc, tca_caches := (tca_caches x)(t \<mapsto> bs[i := bs ! i @ [p]])\<rparr>"
  have pn: "pend (TRefillRecord p i n a k (Some q0)) = {record_request p r}" by (simp add: r record_request_def)
  note rs = record_step [OF inv s pc _ pn fr ra] and v = interleaved_view [OF inv s pc]
  have pl: "plain (TRefillRecord p i n a k (Some q0))" by simp
  have tc1: "tc1 = put_record p r (tca_state x)" using rs(5) [OF pl] by simp
  have pt: "i < length bs" "selector_select (tc_selector (tca_state x)) n a = Inr (Some i)"
      "length (bs ! i) + Suc k \<le> unat (tco_high_watermark (tc_cache_options (tca_state x)))"
    using v(2) b by (auto simp: refill_ok_def)
  have il: "i < length (tc_selector ?T)" using selector_select_Some(1) [OF interleaved_selector(1) [OF inv s] pt(2)] by simp
  have np: "find_record ?T p = None" using rs(1) [OF pl] by simp
  have bt: "shown_bins c t = nth_bin bs" using s pc bins_of_cache [OF b] by (simp add: shown_bins_def)
  have "cache_ok live ok L ?X (w1, put_record p r ?T) (set_bin (shown_bins c) t i (shown_bins c t i @ [p])) K"
    by (rule put_pending_cached [OF rs(4) [OF pl] np]) (use r pt il in simp_all)
  moreover have "set_bin (shown_bins c) t i (shown_bins c t i @ [p]) = (shown_bins c)(t := bins_of ?x t)"
    using pt(1) bt by (auto simp: fun_eq_iff set_bin_other bins_of_def nth_bin_def nth_list_update)
  ultimately have "cache_ok live ok L ?X (w1, put_record p r ?T) ((shown_bins c)(t := bins_of ?x t)) K" by simp
  then have "cache_ok live ok L ?X (w1, without ?Z ?tc) ((shown_bins c)(t := bins_of ?x t)) K"
    by (rule cache_ok_cong) (use tc1 rs(2) [OF pl] in \<open>auto simp: fun_eq_iff same_setup_def note_cached_block_def\<close>)
  moreover have "find_record ?tc q = None" if "q \<in> fst ` ?X" "q \<notin> ?Z" for q
    using v(5) [of q] that tc1 rs(3) [OF pl] by (auto simp: image_Un)
  moreover have "bins_within ?tc (\<lambda>_. 0) (bs[i := bs ! i @ [p]])"
    using v(3) [OF b] pt(1,3) tc1 by (auto simp: bins_within_def class_count_def nth_list_update)
  moreover have "refill_ok ?tc (Some (bs[i := bs ! i @ [p]])) i n a k" using pt tc1 by (simp add: refill_ok_def)
  ultimately show ?thesis
    by (intro move_free [OF inv s pc]) (use fr tc1 in \<open>auto simp: same_setup_def shard_free_def bins_within_def\<close>)
qed

lemma step_refill_record_ok:
  assumes inv: "interleaved_ok live ok L c K" and pc: "cf_point c t = TRefillRecord p i n a k res" and fr: "shard_free p c"
    and st: "step_refill_record t p i n a k res c = (ev, c')"
  shows "interleaved_ok live ok L c' (apply_event ev K)"
proof -
  obtain w x where s: "cf_state c = (w, x)" by (cases "cf_state c")
  let ?r = "\<lparr>arec_class_index = of_nat i, arec_requested_size = normalize_size n, arec_alignment = a,
      arec_owner_thread = t, arec_active = (res = None)\<rparr>"
  obtain y w1 tc1 where ra: "record_allocation p ?r (w, tca_state x) = (y, (w1, tc1))" by (metis prod_cases3)
  have pn: "pend (TRefillRecord p i n a k res) = {record_request p ?r}" by (simp add: record_request_def)
  note rs = record_step [OF inv s pc _ pn fr ra] and v = interleaved_view [OF inv s pc]
  obtain bs where b: "tca_caches x t = Some bs" and pt: "refill_ok (tca_state x) (tca_caches x t) i n a (Suc k)" "p \<noteq> 0"
    using v(2) by (auto simp: refill_ok_def)
  have sel: "selector_select (tc_selector (tca_state x)) n a = Inr (Some i)" using pt(1) by (auto simp: refill_ok_def)
  note ci = class_index [OF interleaved_selector(1) [OF inv s] selector_select_Some(1) [OF interleaved_selector(1) [OF inv s] sel]]
  consider (failed) e where "y = Inl e" | (first) "y = Inr ()" "res = None" | (further) q0 where "y = Inr ()" "res = Some q0"
    by (cases y; cases res) auto
  then show ?thesis
  proof cases
    case (failed e)
    then have ev: "ev = Silent" "c' = goto t (TRefillUndo p e i n a res) (w1, x\<lparr>tca_state := tc1\<rparr>) c"
      using st s ra by (auto simp: step_refill_record_def)
    have "refill_ok (tca_state x) (tca_caches x t) i n a 0" using pt(1) by (auto simp: refill_ok_def)
    then have "interleaved_ok live ok L c' K"
      unfolding ev(2) by (intro rs(6) [OF _ failed]) (use failed rs(5) pt(2) in \<open>auto simp: sound_exn_def\<close>)
    then show ?thesis using ev(1) by simp
  next
    case first
    then have ev: "ev = Acquired p n a" "c' = goto t (TRefill i n a k (Some p)) (w1, x\<lparr>tca_state := tc1\<rparr>) c"
      using st s ra by (auto simp: step_refill_record_def)
    have tc1: "tc1 = put_record p ?r (tca_state x)" using rs(5) first by simp
    have "interleaved_ok live ok L c' (insert (p, n, a) K)"
      unfolding ev(2) by (rule record_active_step [OF inv s pc _ pn fr ra [unfolded first(1)]])
        (use first ci sel pt(1) tc1 in \<open>auto simp: refill_ok_def\<close>)
    then show ?thesis using ev(1) by simp
  next
    case (further q0)
    then have "ev = Silent" "c' = goto t (TRefill i n a k (Some q0))
       (w1, x\<lparr>tca_state := note_cached_block tc1, tca_caches := (tca_caches x)(t \<mapsto> bs[i := bs ! i @ [p]])\<rparr>) c"
      using st s ra b by (auto simp: step_refill_record_def local_bins_def put_cache_def)
    then show ?thesis using refill_push_ok [OF inv s pc [unfolded further(2)] fr b refl] ra further by simp
  qed
qed

end

end
