(* ===== verification/Thread_Cache_Step_Free.thy ===== *)
theory Thread_Cache_Step_Free
  imports Thread_Cache_Step_Refill
begin

text \<open>The critical sections of \<^verbatim>\<open>deallocate\<close> keep the invariant of the interleaved calls.\<close>

lemma dropped_client:
  assumes "inj_on fst K" and "(p, n, a) \<in> K"
  shows "apply_event (Dropped p) K = K - {(p, n, a)}"
proof (rule set_eqI)
  fix k
  have "fst k = p \<longleftrightarrow> k = (p, n, a)" if "k \<in> K" using inj_on_eq_iff [OF assms(1) that assms(2)] by simp
  then show "k \<in> apply_event (Dropped p) K \<longleftrightarrow> k \<in> K - {(p, n, a)}" by (cases "k \<in> K") simp_all
qed

context memory_provider begin

lemma record_active_client:
  assumes "cache_ok live ok L X (w, tc) B K" and "find_record tc p = Some r" and "arec_active r"
  obtains n a where "(p, n, a) \<in> K" "apply_event (Dropped p) K = K - {(p, n, a)}"
proof -
  note d = clients_okD [OF cache_okD(5) [OF assms(1)]]
  have "p \<in> fst ` K" by (rule d(3) [OF assms(2,3)])
  then obtain n a where k: "(p, n, a) \<in> K" by auto
  show thesis by (rule that [OF k dropped_client [OF d(1) k]])
qed

lemma free_reject_ok:
  assumes inv: "interleaved_ok live ok L c K" and s: "cf_state c = (w, x)" and pc: "cf_point c t = TFreeRecord p sized" and "sound_exn e"
  shows "interleaved_ok live ok L (goto t (TDone (Inl e)) (w, x) c) K"
  using interleaved_view(3) [OF inv s pc] assms(4) by (intro move_quiet [OF inv s pc]) (simp_all add: bins_within_def)

lemma free_lock_ok:
  assumes inv: "interleaved_ok live ok L c K" and s: "cf_state c = (w, x)" and pc: "cf_point c t = TFreeRecord p sized"
    and fr: "shard_free p c" and r: "find_record (tca_state x) p = Some r" "arec_active r" "size_check (tca_state x) r sized = Inr ()"
  shows "interleaved_ok live ok L (goto t (TFreeCentral p sized remote) (w, x) (lock_shard t p c)) K"
  using interleaved_view(3) [OF inv s pc] r by (intro move_lock [OF inv s pc _ _ fr]) (simp_all add: bins_within_def)

text \<open>A block of the thread itself: its record becomes inactive, and the block is on its way into the bin.\<close>

lemma free_local_ok:
  assumes inv: "interleaved_ok live ok L c K" and s: "cf_state c = (w, x)" and pc: "cf_point c t = TFreeRecord p sized"
    and fr: "shard_free p c" and r: "find_record (tca_state x) p = Some r" "arec_active r" "arec_class_index r \<noteq> fallback_class"
      "arec_owner_thread r = t"
    and tc: "find_record tc' = (find_record (tca_state x))(p \<mapsto> r\<lparr>arec_active := False\<rparr>)" "tc_central tc' = tc_central (tca_state x)"
      "same_setup (tca_state x) tc'"
  shows "interleaved_ok live ok L (goto t (TPush p (unat (arec_class_index r))) (w, x\<lparr>tca_state := tc'\<rparr>) c) (apply_event (Dropped p) K)"
proof -
  note v = interleaved_view [OF inv s pc]
  let ?Z = "gone_others c t" and ?X = "pend_others c t" and ?i = "unat (arec_class_index r)"
  let ?T = "without ?Z (tca_state x)"
  have pZ: "p \<notin> ?Z" using v(6) [of p] fr by (auto simp: shard_free_def)
  have c0: "cache_ok live ok L ?X (w, ?T) (shown_bins c) K" using v(1) by simp
  have rT: "find_record ?T p = Some r" using r(1) pZ by simp
  obtain n a where k: "(p, n, a) \<in> K" "apply_event (Dropped p) K = K - {(p, n, a)}" by (rule record_active_client [OF c0 rT r(2)])
  note da = deactivate_ok [OF c0 k(1) rT r(2-4)]
  obtain bs where b: "tca_caches x t = Some bs" using v(2) by auto
  have il: "?i < length bs" using da(1) v(3) [OF b] by (simp add: bins_within_def class_count_def)
  have nx: "p \<notin> fst ` ?X" using v(5) [of p] pZ r(1) by (auto simp: image_Un)
  have B: "set_bin (shown_bins c) t ?i (shown_bins c t ?i @ [p]) = (shown_bins c)(t := shown (TPush p ?i) (bins_of x t))"
    using s pc by (auto simp: fun_eq_iff set_bin_other shown_bins_def)
  have "cache_ok live ok L ?X (w, without ?Z tc') ((shown_bins c)(t := shown (TPush p ?i) (bins_of x t))) (K - {(p, n, a)})"
    unfolding B [symmetric] by (rule cache_ok_cong [OF da(2)]) (use tc pZ in \<open>auto simp: fun_eq_iff same_setup_def\<close>)
  moreover have "find_record tc' q = None" if "q \<in> fst ` ?X" "q \<notin> ?Z" for q
    using v(5) [of q] that nx tc(1) by (auto simp: image_Un)
  moreover have "bins_within tc' (\<lambda>_. 0) bs" using v(3) [OF b] tc(3) by (simp add: bins_within_def class_count_def same_setup_def)
  ultimately show ?thesis
    unfolding k(2) by (intro move_free [OF inv s pc]) (use fr tc b il in \<open>auto simp: shard_free_def bins_within_def\<close>)
qed

lemma step_free_record_ok:
  assumes inv: "interleaved_ok live ok L c K" and pc: "cf_point c t = TFreeRecord p sized" and fr: "shard_free p c"
    and st: "step_free_record t p sized c = (ev, c')"
  shows "interleaved_ok live ok L c' (apply_event ev K)"
proof -
  obtain w x where s: "cf_state c = (w, x)" by (cases "cf_state c")
  note reject = free_reject_ok [OF inv s pc]
  consider (none) "find_record (tca_state x) p = None"
    | (cached) r where "find_record (tca_state x) p = Some r" "\<not> arec_active r"
    | (size) r e where "find_record (tca_state x) p = Some r" "arec_active r" "size_check (tca_state x) r sized = Inl e"
    | (central) r where "find_record (tca_state x) p = Some r" "arec_active r" "size_check (tca_state x) r sized = Inr ()"
        "arec_owner_thread r \<noteq> t \<or> arec_class_index r = fallback_class"
    | (own) r where "find_record (tca_state x) p = Some r" "arec_active r" "size_check (tca_state x) r sized = Inr ()"
        "arec_owner_thread r = t" "arec_class_index r \<noteq> fallback_class"
    by (metis (full_types) old.unit.exhaust option.exhaust sum.exhaust)
  then show ?thesis
  proof cases
    case none
    then show ?thesis using st s reject by (auto simp: step_free_record_def sound_exn_def)
  next
    case (cached r)
    then show ?thesis using st s reject by (auto simp: step_free_record_def sound_exn_def)
  next
    case (size r e)
    then have "e = AllocationMismatchError \<or> e = InvalidArgument"
      by (auto simp: size_check_def validate_sized_deallocation_def Let_def split: option.splits sum.splits if_splits dest: selector_select_Inl)
    moreover have "ev = Silent" "c' = goto t (TDone (Inl e)) (w, x) c" using st s size by (auto simp: step_free_record_def size_check_def)
    ultimately show ?thesis using reject [of e] by (auto simp: sound_exn_def)
  next
    case (central r)
    then have "ev = Silent" "c' = goto t (TFreeCentral p sized (arec_owner_thread r \<noteq> t)) (w, x) (lock_shard t p c)"
      using st s by (auto simp: step_free_record_def size_check_def Let_def)
    then show ?thesis using free_lock_ok [OF inv s pc fr central(1-3)] by simp
  next
    case (own r)
    let ?t0 = "put_record p (r\<lparr>arec_active := False\<rparr>) (tca_state x)"
    let ?tc = "note_cached_block (?t0\<lparr>tc_statistics := (tc_statistics ?t0)
        \<lparr>tcs_local_deallocations := tcs_local_deallocations (tc_statistics ?t0) + 1,
         tcs_live_allocations := tcs_live_allocations (tc_statistics ?t0) - 1\<rparr>\<rparr>)"
    have "ev = Dropped p" "c' = goto t (TPush p (unat (arec_class_index r))) (w, x\<lparr>tca_state := ?tc\<rparr>) c"
      using st s own by (auto simp: step_free_record_def size_check_def Let_def)
    moreover have "interleaved_ok live ok L (goto t (TPush p (unat (arec_class_index r))) (w, x\<lparr>tca_state := ?tc\<rparr>) c) (apply_event (Dropped p) K)"
      by (rule free_local_ok [OF inv s pc fr own(1,2,5,4)]) (simp_all add: same_setup_def)
    ultimately show ?thesis by simp
  qed
qed

lemma step_free_central_ok:
  assumes inv: "interleaved_ok live ok L c K" and pc: "cf_point c t = TFreeCentral p sized remote"
    and st: "step_free_central P t p sized remote c = (ev, c')"
  shows "ev = Dropped p" and "p \<in> fst ` K" and "interleaved_ok live ok L c' (apply_event ev K)"
proof -
  obtain w x where s: "cf_state c = (w, x)" by (cases "cf_state c")
  note v = interleaved_view [OF inv s pc]
  let ?Z = "gone_others c t" and ?X = "pend_others c t"
  let ?T = "without ?Z (tca_state x)"
  have pZ: "p \<notin> ?Z" using v(6) [of p] v(7) [of p] by auto
  have c0: "cache_ok live ok L ?X (w, ?T) (shown_bins c) K" using v(1) by simp
  obtain r where r: "find_record (tca_state x) p = Some r" "arec_active r" "size_check (tca_state x) r sized = Inr ()" using v(2) by auto
  have rT: "find_record ?T p = Some r" using r(1) pZ by simp
  have sT: "size_check ?T r sized = Inr ()"
    using r(3) by (cases sized) (auto simp: size_check_def validate_sized_deallocation_def Let_def)
  have nx: "p \<notin> fst ` ?X" using v(5) [of p] pZ r(1) by (auto simp: image_Un)
  obtain n a where k: "(p, n, a) \<in> K" "apply_event (Dropped p) K = K - {(p, n, a)}" by (rule record_active_client [OF c0 rT r(2)])
  let ?op = "\<lambda>tc. case sized of Some (sz, al) \<Rightarrow> central_deallocate_sized P p sz al (w, tc) | None \<Rightarrow> central_deallocate P p (w, tc)"
  obtain w' T' where rl: "?op ?T = (Inr (), (w', T'))" "cache_ok live ok L ?X (w', erase_record p T') (shown_bins c) (K - {(p, n, a)})"
    by (rule retire_ok [OF c0 k(1) rT nx sT])
  obtain y w1 tc1 where op: "?op (tca_state x) = (y, (w1, tc1))" by (metis prod_cases3)
  have y: "y = Inr ()" "w' = w1" "T' = without ?Z tc1" using rl(1) op by (auto simp: central_without split: option.splits prod.splits)
  have cr: "find_record tc1 = find_record (tca_state x)" "same_setup (tca_state x) tc1"
    using op by (auto split: option.splits prod.splits dest: central_deallocate_records central_deallocate_sized_records)
  have ev: "ev = Dropped p" "c' = goto t (TFreeErase p remote) (w1, x\<lparr>tca_state := tc1\<rparr>) c"
    using st s op y(1) by (auto simp: step_free_central_def)
  show "ev = Dropped p" "p \<in> fst ` K" using ev k(1) by force+
  have B: "(shown_bins c)(t := bins_of x t) = shown_bins c" using shown_bins_self [OF s, of t] pc by simp
  have "cache_ok live ok L ?X (w1, without (insert p ?Z) tc1) ((shown_bins c)(t := bins_of x t)) (K - {(p, n, a)})"
    unfolding B by (rule cache_ok_cong [OF rl(2) [unfolded y(2,3)]]) (auto simp: fun_eq_iff same_setup_def)
  moreover have "bins_within tc1 (\<lambda>_. 0) bs" if "tca_caches x t = Some bs" for bs
    using v(3) [OF that] cr(2) by (simp add: bins_within_def class_count_def same_setup_def)
  ultimately have "interleaved_ok live ok L c' (K - {(p, n, a)})"
    unfolding ev(2) by (intro move_held [OF inv s pc]) (use cr in \<open>simp_all add: bins_within_def\<close>)
  then show "interleaved_ok live ok L c' (apply_event ev K)" unfolding ev(1) k(2) .
qed

lemma step_free_erase_ok:
  assumes inv: "interleaved_ok live ok L c K" and pc: "cf_point c t = TFreeErase p remote"
  shows "interleaved_ok live ok L (step_free_erase t p remote c) K"
proof -
  obtain w x where s: "cf_state c = (w, x)" by (cases "cf_state c")
  let ?t0 = "erase_record p (tca_state x)"
  let ?tc = "?t0\<lparr>tc_statistics := (tc_statistics ?t0)\<lparr>tcs_remote_deallocations := tcs_remote_deallocations (tc_statistics ?t0) + (if remote then 1 else 0),
      tcs_live_allocations := tcs_live_allocations (tc_statistics ?t0) - 1\<rparr>\<rparr>"
  have "step_free_erase t p remote c = goto t (TDone (Inr AnsUnit)) (w, x\<lparr>tca_state := ?tc\<rparr>) (unlock_shard p c)"
    using s by (simp add: step_free_erase_def)
  moreover have "interleaved_ok live ok L (goto t (TDone (Inr AnsUnit)) (w, x\<lparr>tca_state := ?tc\<rparr>) (unlock_shard p c)) K"
    using interleaved_view(3) [OF inv s pc]
    by (intro move_unlock [OF inv s pc]) (simp_all add: same_setup_def bins_within_def class_count_def)
  ultimately show ?thesis by simp
qed

text \<open>The block arrives in its bin; from now on the bin may be one too long, until the flush has run.\<close>

lemma step_push_ok:
  assumes inv: "interleaved_ok live ok L c K" and pc: "cf_point c t = TPush p i"
  shows "interleaved_ok live ok L (step_push t p i c) K"
proof -
  obtain w x where s: "cf_state c = (w, x)" by (cases "cf_state c")
  note v = interleaved_view [OF inv s pc]
  obtain bs where b: "tca_caches x t = Some bs" and i: "i < length bs" using v(2) by auto
  let ?bin = "bs ! i @ [p]"
  let ?x = "x\<lparr>tca_caches := (tca_caches x)(t \<mapsto> bs[i := ?bin])\<rparr>"
  let ?pc = "if unat (tco_high_watermark (tc_cache_options (tca_state x))) < length ?bin then TFlush FlushBin i 0 else TDone (Inr AnsUnit)"
  have "step_push t p i c = goto t ?pc (w, ?x) c" using s b by (simp add: step_push_def local_bins_def put_cache_def Let_def)
  moreover have "interleaved_ok live ok L (goto t ?pc (w, ?x) c) K"
  proof (rule move_quiet [OF inv s pc])
    show "shown ?pc (bins_of ?x t) = shown (TPush p i) (bins_of x t)"
      using i b by (auto simp: fun_eq_iff bins_of_def nth_bin_def nth_list_update)
    show "point_ok (tca_state ?x) (tca_caches ?x t) ?pc" using i by (simp add: emptied_def)
    show "bins_within (tca_state ?x) (slack ?pc) bs'" if "tca_caches ?x t = Some bs'" for bs'
      using that v(3) [OF b] i by (auto simp: bins_within_def nth_list_update)
  qed simp_all
  ultimately show ?thesis by simp
qed

end

end
