(* ===== verification/Thread_Cache_Step_Flush.thy ===== *)
theory Thread_Cache_Step_Flush
  imports Thread_Cache_Step_Free
begin

text \<open>
  The loop of \<^verbatim>\<open>flush_bin\<close>, and of \<^verbatim>\<open>flush_bins\<close> around it, keeps the invariant of the interleaved calls; its consistency check never fires.
\<close>

lemma slack_flush [simp]:
  "slack (TFlushCentral goal i p rel) = slack (TFlush goal i rel)" "slack (TFlushErase goal i p rel) = slack (TFlush goal i rel)"
  by (cases goal; simp add: fun_eq_iff)+

lemma slack_released: "slack (TFlush goal i rel') = slack (TFlush goal i rel)"
  by (cases goal) (simp_all add: fun_eq_iff)

lemma bins_within_pop: "bins_within tc f bs \<Longrightarrow> i < length bs \<Longrightarrow> bins_within tc f (bs[i := butlast (bs ! i)])"
  by (auto simp: bins_within_def nth_list_update intro: le_trans [OF diff_le_self])

context memory_provider begin

text \<open>The last block of a bin has an inactive record, which is not gone, unless another thread holds the lock of its shard.\<close>

lemma flush_block:
  assumes inv: "interleaved_ok live ok L c K" and s: "cf_state c = (w, x)" and pc: "cf_point c t = pc"
    and pn: "pend pc = {}" "gone pc = {}" and sh: "shown pc (bins_of x t) = bins_of x t"
    and b: "tca_caches x t = Some bs" and i: "i < length bs" "bs ! i \<noteq> []"
    and m: "cf_mutex c (shard_for (last (bs ! i))) = None \<or> cf_mutex c (shard_for (last (bs ! i))) = Some t"
  shows "last (bs ! i) \<notin> gone_others c t" and "last (bs ! i) \<notin> fst ` pend_others c t"
    and "cache_ok live ok L (pend_others c t) (w, without (gone_others c t) (tca_state x)) (set_bin (shown_bins c) t i (bs ! i)) K"
    and "\<exists>r. find_record (tca_state x) (last (bs ! i)) = Some r \<and> \<not> arec_active r"
proof -
  note v = interleaved_view [OF inv s pc]
  have "shown_bins c t i = bs ! i" using s pc sh b i(1) by (simp add: shown_bins_def bins_of_cache nth_bin_def)
  then have B: "set_bin (shown_bins c) t i (bs ! i) = shown_bins c" by (metis set_bin_simps(3))
  show pZ: "last (bs ! i) \<notin> gone_others c t" using v(6) [of "last (bs ! i)"] m by auto
  show c0: "cache_ok live ok L (pend_others c t) (w, without (gone_others c t) (tca_state x)) (set_bin (shown_bins c) t i (bs ! i)) K"
    unfolding B using v(1) pn by simp
  have "set_bin (shown_bins c) t i (bs ! i) t i \<noteq> []" using i(2) by simp
  note pop = bins_pop(2) [OF cache_okD(4) [OF c0] this cache_ok_valid [OF c0], unfolded set_bin_simps]
  then show ex: "\<exists>r. find_record (tca_state x) (last (bs ! i)) = Some r \<and> \<not> arec_active r" using pZ by auto
  show "last (bs ! i) \<notin> fst ` pend_others c t" using v(5) [of "last (bs ! i)"] pZ pn ex by (fastforce simp del: split_paired_Ex)
qed

lemma flush_next_ok:
  assumes inv: "interleaved_ok live ok L c K" and s: "cf_state c = (w, x)" and pc: "cf_point c t = TFlush goal i rel"
    and b: "tca_caches x t = Some bs" and i: "i < length bs" and le: "length (bs ! i) \<le> unat (flush_target goal (tca_state x))"
  shows "interleaved_ok live ok L (flush_next t goal i rel (w, x) c) K"
proof -
  note v = interleaved_view [OF inv s pc]
  let ?tc = "if rel \<noteq> 0 then (tca_state x)\<lparr>tc_statistics := (tc_statistics (tca_state x))
      \<lparr>tcs_batch_flushes := tcs_batch_flushes (tc_statistics (tca_state x)) + 1\<rparr>\<rparr> else tca_state x"
  have tc: "same_setup (tca_state x) ?tc" "find_record ?tc = find_record (tca_state x)" "tc_central ?tc = tc_central (tca_state x)"
    by (simp_all add: same_setup_def)
  have em: "emptied goal i bs" using v(2) b by simp
  show ?thesis
  proof (cases goal)
    case FlushBin
    have le': "length (bs ! i) \<le> unat (tco_high_watermark (tc_cache_options (tca_state x)))"
      using le FlushBin valid_watermarks(1) [OF interleaved_selector(2) [OF inv s]] by (simp add: flush_target_def)
    have "interleaved_ok live ok L (goto t (TDone (Inr AnsUnit)) (w, x\<lparr>tca_state := ?tc\<rparr>) c) K"
      by (rule move_quiet [OF inv s pc])
        (use tc le' v(3) [OF b] b FlushBin in \<open>auto simp: bins_within_def same_setup_def class_count_def split: if_splits\<close>)
    then show ?thesis using FlushBin by (simp add: flush_next_def)
  next
    case (FlushAll n e)
    have "bs ! i = []" using le FlushAll by (simp add: flush_target_def)
    then have em': "emptied (FlushAll (n + rel) e) (Suc i) bs" using em FlushAll by (auto simp: emptied_def less_Suc_eq)
    have "interleaved_ok live ok L (goto t (TFlush (FlushAll (n + rel) e) (Suc i) 0) (w, x\<lparr>tca_state := ?tc\<rparr>) c) K"
      by (rule move_quiet [OF inv s pc])
        (use tc em' v(3) [OF b] b FlushAll in \<open>auto simp: bins_within_def same_setup_def class_count_def\<close>)
    then show ?thesis using FlushAll by (simp add: flush_next_def)
  qed
qed

lemma step_flush_bin_ok:
  assumes inv: "interleaved_ok live ok L c K" and s: "cf_state c = (w, x)" and pc: "cf_point c t = TFlush goal i rel"
    and b: "tca_caches x t = Some bs" and i: "i < length bs"
    and st: "step_flush_bin t goal i rel c = Some c'"
  shows "interleaved_ok live ok L c' K"
proof (cases "unat (flush_target goal (tca_state x)) < length (bs ! i)")
  case False
  then have "c' = flush_next t goal i rel (w, x) c" using st s b by (simp add: step_flush_bin_def local_bins_def Let_def)
  then show ?thesis using flush_next_ok [OF inv s pc b i] False by simp
next
  case True
  let ?p = "last (bs ! i)"
  note v = interleaved_view [OF inv s pc]
  have fr: "shard_free ?p c" using st s b True by (simp add: step_flush_bin_def local_bins_def Let_def split: if_splits)
  have ne: "bs ! i \<noteq> []" using True by auto
  have "\<exists>r. find_record (tca_state x) ?p = Some r \<and> \<not> arec_active r"
    by (rule flush_block(4) [OF inv s pc _ _ _ b i ne]) (use fr in \<open>simp_all add: shard_free_def\<close>)
  then have "c' = goto t (TFlushCentral goal i ?p rel) (w, x) (lock_shard t ?p c)"
    using st s b True fr by (auto simp: step_flush_bin_def local_bins_def Let_def)
  moreover have "interleaved_ok live ok L (goto t (TFlushCentral goal i ?p rel) (w, x) (lock_shard t ?p c)) K"
    by (rule move_lock [OF inv s pc _ _ fr]) (use v(2,3) b i ne in simp_all)
  ultimately show ?thesis by simp
qed

lemma step_flush_ok:
  assumes inv: "interleaved_ok live ok L c K" and pc: "cf_point c t = TFlush goal i rel" and st: "step_flush t goal i rel c = Some c'"
  shows "interleaved_ok live ok L c' K"
proof -
  obtain w x where s: "cf_state c = (w, x)" by (cases "cf_state c")
  note v = interleaved_view [OF inv s pc]
  obtain bs where b: "tca_caches x t = Some bs" and em: "emptied goal i bs" "goal = FlushBin \<longrightarrow> i < length bs" using v(2) by auto
  show ?thesis
  proof (cases "i < length bs")
    case True
    then have "step_flush_bin t goal i rel c = Some c'" using st s b by (cases goal) (simp_all add: step_flush_def local_bins_def)
    then show ?thesis by (rule step_flush_bin_ok [OF inv s pc b True])
  next
    case False
    then obtain n e where g: "goal = FlushAll n e" using em(2) by (cases goal) auto
    let ?x = "x\<lparr>tca_caches := (tca_caches x)(t := None)\<rparr>"
    have "c' = goto t (TDone (Inr (AnsCount n))) (w, ?x) c" using st s b False g by (simp add: step_flush_def local_bins_def)
    moreover have "bins_of ?x t = bins_of x t" using b em(1) g False by (auto simp: fun_eq_iff bins_of_def nth_bin_def emptied_def)
    then have "interleaved_ok live ok L (goto t (TDone (Inr (AnsCount n))) (w, ?x) c) K"
      by (intro move_quiet [OF inv s pc]) (simp_all add: g)
    ultimately show ?thesis by simp
  qed
qed

lemma step_flush_central_ok:
  assumes inv: "interleaved_ok live ok L c K" and pc: "cf_point c t = TFlushCentral goal i p rel"
  shows "interleaved_ok live ok L (step_flush_central P t goal i p rel c) K"
proof -
  obtain w x where s: "cf_state c = (w, x)" by (cases "cf_state c")
  note v = interleaved_view [OF inv s pc]
  obtain bs where b: "tca_caches x t = Some bs" and em: "emptied goal i bs" "i < length bs" "bs ! i \<noteq> []" "last (bs ! i) = p" using v(2) by auto
  let ?Z = "gone_others c t" and ?X = "pend_others c t"
  note fb = flush_block [OF inv s pc _ _ _ b em(2,3), unfolded em(4)]
  have m: "cf_mutex c (shard_for p) = Some t" using v(7) by simp
  have f: "p \<notin> ?Z" "p \<notin> fst ` ?X" "cache_ok live ok L ?X (w, without ?Z (tca_state x)) (set_bin (shown_bins c) t i (bs ! i)) K"
    using fb(1-3) m by simp_all
  obtain w' T' where rl: "central_deallocate P p (w, without ?Z (tca_state x)) = (Inr (), (w', T'))"
      "cache_ok live ok L ?X (w', erase_record p T') (set_bin (shown_bins c) t i (butlast (bs ! i))) K"
    using flush_step [OF f(3) em(3), unfolded em(4), OF f(2)] by auto
  obtain y w1 tc1 where op: "central_deallocate P p (w, tca_state x) = (y, (w1, tc1))" by (metis prod_cases3)
  have y: "y = Inr ()" "w' = w1" "T' = without ?Z tc1" using rl(1) op by (auto simp: central_without)
  note cr = central_deallocate_records [OF op]
  let ?pc = "TFlushErase goal i p rel"
  have B: "set_bin (shown_bins c) t i (butlast (bs ! i)) = (shown_bins c)(t := shown ?pc (bins_of x t))"
    using s pc b em(2) by (auto simp: fun_eq_iff set_bin_other shown_bins_def bins_of_def nth_bin_def)
  have "cache_ok live ok L ?X (w1, without (insert p ?Z) tc1) ((shown_bins c)(t := shown ?pc (bins_of x t))) K"
    unfolding B [symmetric]
    by (rule cache_ok_cong [OF rl(2) [unfolded y(2,3)]]) (auto simp: fun_eq_iff same_setup_def)
  then have "interleaved_ok live ok L (goto t ?pc (w1, x\<lparr>tca_state := tc1\<rparr>) c) K"
    by (intro move_held [OF inv s pc])
      (use cr v(3) [OF b] b em in \<open>auto simp: bins_within_def same_setup_def class_count_def simp del: shown.simps\<close>)
  then show ?thesis using s op y(1) by (simp add: step_flush_central_def)
qed

lemma step_flush_erase_ok:
  assumes inv: "interleaved_ok live ok L c K" and pc: "cf_point c t = TFlushErase goal i p rel"
  shows "interleaved_ok live ok L (step_flush_erase t goal i p rel c) K"
proof -
  obtain w x where s: "cf_state c = (w, x)" by (cases "cf_state c")
  note v = interleaved_view [OF inv s pc]
  obtain bs where b: "tca_caches x t = Some bs" and em: "emptied goal i bs" "i < length bs" using v(2) by auto
  let ?t0 = "erase_record p (tca_state x)"
  let ?tc = "?t0\<lparr>tc_statistics := (tc_statistics ?t0)\<lparr>tcs_cached_blocks := tcs_cached_blocks (tc_statistics ?t0) - 1\<rparr>\<rparr>"
  let ?x = "x\<lparr>tca_state := ?tc, tca_caches := (tca_caches x)(t \<mapsto> bs[i := butlast (bs ! i)])\<rparr>"
  have "step_flush_erase t goal i p rel c = goto t (TFlush goal i (rel + 1)) (w, ?x) (unlock_shard p c)"
    using s b by (simp add: step_flush_erase_def local_bins_def put_cache_def)
  moreover have "interleaved_ok live ok L (goto t (TFlush goal i (rel + 1)) (w, ?x) (unlock_shard p c)) K"
  proof (rule move_unlock [OF inv s pc])
    show "shown (TFlush goal i (rel + 1)) (bins_of ?x t) = shown (TFlushErase goal i p rel) (bins_of x t)"
      using b em(2) by (auto simp: fun_eq_iff bins_of_def nth_bin_def nth_list_update)
    show "point_ok (tca_state ?x) (tca_caches ?x t) (TFlush goal i (rel + 1))" using em by (auto simp: emptied_def nth_list_update)
    show "bins_within (tca_state ?x) (slack (TFlush goal i (rel + 1))) bs'" if "tca_caches ?x t = Some bs'" for bs'
      using that bins_within_pop [OF v(3) [OF b] em(2)] slack_released [of goal i "rel + 1" rel] by (simp add: bins_within_def class_count_def)
  qed (simp_all add: same_setup_def)
  ultimately show ?thesis by simp
qed

end

end
