(* ===== verification/Thread_Cache_Executions.thy ===== *)
theory Thread_Cache_Executions
  imports Thread_Cache_Step_Flush
begin

text \<open>
  Every execution keeps the invariant of the interleaved calls, whatever the threads call and in whatever order their critical
  sections run. When no call is under way, it is the invariant of the allocator between two calls.
\<close>

lemma entered_entry [simp]: "entered (tc_entry call)"
  by (cases call) simp_all

context memory_provider begin

section \<open>One step\<close>

lemma tc_step_ok:
  assumes inv: "interleaved_ok live ok L c K" and st: "tc_step P t (cf_point c t) c = Some (ev, c')"
  shows "interleaved_ok live ok L c' (apply_event ev K)"
proof (cases "cf_point c t")
  case (TFlush goal i rel)
  then show ?thesis using st step_flush_ok [OF inv TFlush] by (auto simp: map_option_case split: option.splits)
qed (use st step_allocate_ok [OF inv] step_fallback_central_ok [OF inv] step_fallback_record_ok [OF inv] step_fallback_undo_ok [OF inv]
    step_hit_ok(3) [OF inv] step_refill_ok [OF inv] step_refill_record_ok [OF inv] step_refill_undo_ok [OF inv] step_deallocate_ok [OF inv]
    step_free_record_ok [OF inv] step_free_central_ok(3) [OF inv] step_free_erase_ok [OF inv] step_push_ok [OF inv]
    step_flush_central_ok [OF inv] step_flush_erase_ok [OF inv] step_release_ok [OF inv] step_return_ok [OF inv] in \<open>auto split: if_splits\<close>)

lemma write_ok:
  assumes inv: "interleaved_ok live ok L c K" and k: "(q, n, a) \<in> K" and y: "y \<in> extent q n" and s: "cf_state c = (w, x)"
  shows "interleaved_ok live ok L (c\<lparr>cf_state := (w\<lparr>w_mem := (w_mem w)(y := b)\<rparr>, x)\<rparr>) K"
  using inv cache_poke_ok [OF interleaved_okD(1) [OF inv s] k y, of b] unfolding interleaved_ok_def by (simp add: s Let_def)

section \<open>Executions\<close>

lemma start_ok:
  assumes "cached_ok live ok L s K"
  shows "interleaved_ok live ok L (tc_start s) K"
proof -
  obtain w x where s: "s = (w, x)" by (cases s)
  note d = cached_okD [OF assms [unfolded s]]
  have T: "without {} (tca_state x) = tca_state x" by (simp add: without_def restrict_map_def)
  have bw: "bins_within (tca_state x) (slack TIdle) bs" if "tca_caches x u = Some bs" for u bs
    using d(2) [OF that] by (auto simp: bins_within_def bins_bounded_def)
  show ?thesis unfolding interleaved_ok_def tc_start_def using d(1) bw by (simp add: s T)
qed

lemma tc_exec_ok:
  assumes "tc_exec P s0 c K h" and "cached_ok live ok L s0 {}"
  shows "interleaved_ok live ok L c K"
  using assms
proof (induction rule: tc_exec.induct)
  case exec_start
  then show ?case by (rule start_ok)
next
  case (exec_call c K h t call)
  show ?case by (rule call_ok [OF exec_call.IH [OF exec_call.prems] exec_call.hyps(2)]) simp
next
  case (exec_step c K h t ev c')
  show ?case by (rule tc_step_ok [OF exec_step.IH [OF exec_step.prems] exec_step.hyps(2)])
next
  case (exec_write c K h q n a y w x b)
  show ?case by (rule write_ok [OF exec_write.IH [OF exec_write.prems] exec_write.hyps(2-4)])
qed

lemma quiescent_ok:
  assumes inv: "interleaved_ok live ok L c K" and idle: "\<And>u. cf_point c u = TIdle"
  shows "cached_ok live ok L (cf_state c) K" and "cf_mutex c = Map.empty"
proof -
  obtain w x where s: "cf_state c = (w, x)" by (cases "cf_state c")
  note d = interleaved_okD [OF inv s]
  have T: "without {} (tca_state x) = tca_state x" by (simp add: without_def restrict_map_def)
  have c: "cache_ok live ok L {} (w, tca_state x) (bins_of x) K" using d(1) idle T by simp
  have b: "bins_bounded (tca_state x) bs" if "tca_caches x u = Some bs" for u bs
    using d(3) [OF that] idle by (auto simp: bins_within_def bins_bounded_def in_set_conv_nth)
  show "cached_ok live ok L (cf_state c) K" using c b s by (simp add: cached_ok_def)
  show "cf_mutex c = Map.empty" using d(7) idle by (intro ext) (metis locked.simps(5) not_Some_eq option.distinct(1))
qed

section \<open>What the clients hold during an execution\<close>

lemma exec_client:
  assumes inv: "interleaved_ok live ok L c K" and k: "(q, n, a) \<in> K"
  shows "q \<noteq> 0" and "unat a dvd unat q" and "tca_owns (snd (cf_state c)) q"
    and "(q', n', a') \<in> K \<Longrightarrow> (q', n', a') \<noteq> (q, n, a) \<Longrightarrow> extent q n \<inter> extent q' n' = {}"
proof -
  obtain w x where s: "cf_state c = (w, x)" by (cases "cf_state c")
  note c0 = interleaved_okD(1) [OF inv s]
  show q0: "q \<noteq> 0" and "unat a dvd unat q" by (rule cache_client [OF c0 k], assumption)+
  have "find_record (tca_state x) q \<noteq> None" by (rule cache_client [OF c0 k]) (auto split: if_splits)
  then show "tca_owns (snd (cf_state c)) q" using s q0 by (auto simp: tca_owns_def tc_owns_def)
  show "extent q n \<inter> extent q' n' = {}" if "(q', n', a') \<in> K" "(q', n', a') \<noteq> (q, n, a)"
    by (rule cache_clients_apart [OF c0 k that(1)]) (use that(2) in auto)
qed

end

end
