(* ===== verification/Thread_Cache_Atomic.thy ===== *)
theory Thread_Cache_Atomic
  imports Thread_Cache_Executions
begin

text \<open>
  The atomic allocator: what the thread-cached allocator promises its clients, without threads, caches, records or locks. A call
  waits, takes effect in one indivisible step on the set of requests that are out, and returns the answer of that step. Every history of
  the critical sections is a history of this allocator: the calls are linearizable.
\<close>

section \<open>The specification\<close>

datatype tc_status =
    Resting
  | Waiting tc_call
  | Finished "tc_answer result"

text \<open>
  \<open>atomic_step sel K s K' s'\<close>: a call takes effect. A request is served with storage that is non-null, aligned and disjoint from all that
  is out, or refused; a block is taken back when it is out and the size and alignment, if given, serve its request just as well.
\<close>

inductive atomic_step :: "size_class_selector \<Rightarrow> request set \<Rightarrow> tc_status \<Rightarrow> request set \<Rightarrow> tc_status \<Rightarrow> bool" for sel where
  atomic_serve: "q \<noteq> 0 \<Longrightarrow> is_power_of_two a \<Longrightarrow> unat a dvd unat q \<Longrightarrow>
    (\<forall>q' n' a'. (q', n', a') \<in> K \<longrightarrow> q' \<noteq> q \<and> extent q n \<inter> extent q' n' = {}) \<Longrightarrow>
    atomic_step sel K (Waiting (CallAllocate n a)) (insert (q, n, a) K) (Finished (Inr (AnsPointer q)))"
| atomic_refuse: "e \<noteq> UndefinedBehaviour \<Longrightarrow> e \<noteq> Terminate \<Longrightarrow>
    atomic_step sel K (Waiting (CallAllocate n a)) K (Finished (Inl e))"
| atomic_null: "atomic_step sel K (Waiting (CallDeallocate 0 sized)) K (Finished (Inr AnsUnit))"
| atomic_take: "(q, n, a) \<in> K \<Longrightarrow> (\<forall>n' a'. sized = Some (n', a') \<longrightarrow> request_matches sel n a n' a') \<Longrightarrow>
    atomic_step sel K (Waiting (CallDeallocate q sized)) (K - {(q, n, a)}) (Finished (Inr AnsUnit))"
| atomic_reject_pointer: "q \<noteq> 0 \<Longrightarrow> q \<notin> fst ` K \<Longrightarrow> e = InvalidPoolPointer \<or> e = DoubleFreeError \<Longrightarrow>
    atomic_step sel K (Waiting (CallDeallocate q sized)) K (Finished (Inl e))"
| atomic_reject_size: "(q, n, a) \<in> K \<Longrightarrow> \<not> request_matches sel n a n' a' \<Longrightarrow>
    e = (if is_power_of_two a' \<or> selector_select sel n a = Inr None then AllocationMismatchError else InvalidArgument) \<Longrightarrow>
    atomic_step sel K (Waiting (CallDeallocate q (Some (n', a')))) K (Finished (Inl e))"
| atomic_no_cache: "q \<noteq> 0 \<Longrightarrow> e = BadAlloc \<or> e = LengthError \<Longrightarrow>
    atomic_step sel K (Waiting (CallDeallocate q sized)) K (Finished (Inl e))"
| atomic_release: "atomic_step sel K (Waiting (CallRelease ending)) K (Finished (Inr (AnsCount m)))"

inductive atomic_run :: "size_class_selector \<Rightarrow> request set \<Rightarrow> (thread_id \<Rightarrow> tc_status) \<Rightarrow> tc_history \<Rightarrow> bool" for sel where
  atomic_start: "atomic_run sel {} (\<lambda>_. Resting) []"
| atomic_call: "atomic_run sel K st h \<Longrightarrow> st t = Resting \<Longrightarrow> atomic_run sel K (st(t := Waiting call)) (h @ [(t, Called call)])"
| atomic_effect: "atomic_run sel K st h \<Longrightarrow> atomic_step sel K (st t) K' s \<Longrightarrow> atomic_run sel K' (st(t := s)) h"
| atomic_return: "atomic_run sel K st h \<Longrightarrow> st t = Finished r \<Longrightarrow> atomic_run sel K (st(t := Resting)) (h @ [(t, Answered r)])"

section \<open>The refinement map\<close>

text \<open>
  A point of a call lies before the step in which the call takes effect, or after it with the answer fixed. An allocation takes effect when the
  record of its block becomes active, a deallocation when the record becomes inactive or the central allocator accepts the block.
\<close>

fun allocating :: "size_t \<Rightarrow> size_t \<Rightarrow> addr option \<Rightarrow> tc_status" where
  "allocating n a None = Waiting (CallAllocate n a)"
| "allocating n a (Some p) = Finished (Inr (AnsPointer p))"

fun flushing :: "flush_goal \<Rightarrow> tc_status" where
  "flushing FlushBin = Finished (Inr AnsUnit)"
| "flushing (FlushAll n ending) = Waiting (CallRelease ending)"

fun status :: "tc_point \<Rightarrow> tc_status" where
  "status TIdle = Resting"
| "status (TAllocate n a) = Waiting (CallAllocate n a)"
| "status (TFallbackCentral n a) = Waiting (CallAllocate n a)"
| "status (TFallbackRecord p n a) = Waiting (CallAllocate n a)"
| "status (TFallbackUndo p n a e) = Waiting (CallAllocate n a)"
| "status (THit p i n a) = Waiting (CallAllocate n a)"
| "status (TRefill i n a k res) = allocating n a res"
| "status (TRefillRecord p i n a k res) = allocating n a res"
| "status (TRefillUndo p e i n a res) = allocating n a res"
| "status (TDeallocate p sized) = Waiting (CallDeallocate p sized)"
| "status (TFreeRecord p sized) = Waiting (CallDeallocate p sized)"
| "status (TFreeCentral p sized remote) = Waiting (CallDeallocate p sized)"
| "status (TFreeErase p remote) = Finished (Inr AnsUnit)"
| "status (TPush p i) = Finished (Inr AnsUnit)"
| "status (TFlush goal i rel) = flushing goal"
| "status (TFlushCentral goal i p rel) = flushing goal"
| "status (TFlushErase goal i p rel) = flushing goal"
| "status (TRelease ending) = Waiting (CallRelease ending)"
| "status (TDone r) = Finished r"

lemma status_entry [simp]: "status (tc_entry call) = Waiting call"
  by (cases call) simp_all

section \<open>What a step leaves alone\<close>

text \<open>The moving thread changes its own point only, and nobody changes the size classes or the watermarks.\<close>

definition stays :: "thread_id \<Rightarrow> 'p tc_config \<Rightarrow> 'p tc_config \<Rightarrow> bool" where
  "stays t c c' \<longleftrightarrow> cf_point c' = (cf_point c)(t := cf_point c' t) \<and>
     same_setup (tca_state (snd (cf_state c))) (tca_state (snd (cf_state c'))) \<and>
     (\<forall>u. u \<noteq> t \<longrightarrow> tca_caches (snd (cf_state c')) u = tca_caches (snd (cf_state c)) u)"

lemma stays_goto:
  "stays t c (goto t pc s c) \<longleftrightarrow> same_setup (tca_state (snd (cf_state c))) (tca_state (snd s)) \<and>
     (\<forall>u. u \<noteq> t \<longrightarrow> tca_caches (snd s) u = tca_caches (snd (cf_state c)) u)"
  "stays t c (goto t pc s (lock_shard t p c)) = stays t c (goto t pc s c)"
  "stays t c (goto t pc s (unlock_shard p c)) = stays t c (goto t pc s c)"
  by (simp_all add: stays_def)

lemma same_setup_fields [simp]:
  "same_setup tc (tc'\<lparr>tc_statistics := y\<rparr>) = same_setup tc tc'" "same_setup tc (put_record p r tc') = same_setup tc tc'"
  "same_setup tc (erase_record p tc') = same_setup tc tc'" "same_setup tc (note_live_allocation tc') = same_setup tc tc'"
  "same_setup tc (note_cached_block tc') = same_setup tc tc'"
  by (simp_all add: same_setup_def)

lemma central_setup:
  "central_allocate P n a (w, tc) = (r, (w', tc')) \<Longrightarrow> same_setup tc tc'"
  "central_deallocate P p (w, tc) = (r', (w', tc')) \<Longrightarrow> same_setup tc tc'"
  "central_deallocate_sized P p n a (w, tc) = (r', (w', tc')) \<Longrightarrow> same_setup tc tc'"
  "record_allocation p rec (w, tc) = (r', (w', tc')) \<Longrightarrow> same_setup tc tc'"
  by (auto dest: central_allocate_records central_deallocate_records central_deallocate_sized_records)
    (auto simp: record_allocation_def same_setup_def split: prod.splits if_splits)

lemma registry_stays:
  assumes "registry_get t s = (r, (w', x'))"
  shows "tca_state x' = tca_state (snd s)" and "u \<noteq> t \<Longrightarrow> tca_caches x' u = tca_caches (snd s) u"
  using registry_get_effect(3,4) [of t "fst s" "snd s" r w' x'] assms by simp_all

lemma step_allocate_stays: "stays t c (step_allocate t n a c)"
  by (auto simp: step_allocate_def stays_goto put_cache_def Let_def registry_stays split: prod.split sum.split option.split)

lemma step_central_stays:
  "stays t c (step_fallback_central P t n a c)" "stays t c (step_fallback_undo P t p n a e c)"
  "stays t c (step_refill P t i n a k res c)" "stays t c (step_refill_undo P t p e i n a res c)"
  by (auto simp: step_fallback_central_def step_fallback_undo_def step_refill_def step_refill_undo_def stays_goto central_setup
      split: prod.split sum.split option.split nat.split if_splits)

lemma step_record_stays:
  "stays t c (snd (step_fallback_record t p n a c))" "stays t c (snd (step_hit t p n a c))"
  "stays t c (snd (step_refill_record t p i n a k res c))"
  by (auto simp: step_fallback_record_def step_hit_def step_refill_record_def stays_goto put_cache_def central_setup
      split: prod.split sum.split option.split)

lemma step_free_stays:
  "stays t c (step_deallocate t p sized c)" "stays t c (snd (step_free_record t p sized c))"
  "stays t c (snd (step_free_central P t p sized remote c))" "stays t c (step_free_erase t p remote c)" "stays t c (step_push t p i c)"
  by (auto simp: step_deallocate_def step_free_record_def step_free_central_def step_free_erase_def step_push_def stays_goto put_cache_def
      Let_def registry_stays central_setup split: prod.split sum.split option.split)

lemma step_flush_stays:
  "step_flush t goal i rel c = Some c' \<Longrightarrow> stays t c c'" "stays t c (step_flush_central P t goal i p rel c)"
  "stays t c (step_flush_erase t goal i p rel c)" "stays t c (step_release t ending c)"
  by (auto simp: step_flush_def step_flush_bin_def flush_next_def flush_failed_def step_flush_central_def step_flush_erase_def step_release_def
      stays_goto put_cache_def Let_def central_setup split: prod.splits sum.splits option.splits flush_goal.splits bool.splits if_splits)

lemma tc_step_stays:
  assumes "tc_step P t pc c = Some (ev, c')"
  shows "stays t c c'"
proof -
  have snd: "f = (ev, c') \<Longrightarrow> stays t c (snd f) \<Longrightarrow> stays t c c'" for f :: "tc_event \<times> 'a tc_config" by simp
  show ?thesis
  proof (cases pc)
    case TIdle
    then show ?thesis using assms by simp
  qed (use assms step_allocate_stays step_central_stays step_flush_stays step_free_stays(1,4,5)
      snd [OF _ step_record_stays(1)] snd [OF _ step_record_stays(2)] snd [OF _ step_record_stays(3)]
      snd [OF _ step_free_stays(2)] snd [OF _ step_free_stays(3)] in \<open>auto simp: stays_goto split: if_splits\<close>)
qed

section \<open>Every step is a step of the atomic allocator or none\<close>

definition simulates :: "size_class_selector \<Rightarrow> request set \<Rightarrow> tc_point \<Rightarrow> request set \<Rightarrow> tc_point \<Rightarrow> bool" where
  "simulates sel K pc K' pc' \<longleftrightarrow> (K' = K \<and> status pc' = status pc) \<or> atomic_step sel K (status pc) K' (status pc')"

lemma simulates_quiet: "status pc' = status pc \<Longrightarrow> simulates sel K pc K pc'"
  by (simp add: simulates_def)

lemma step_allocate_status:
  "status (cf_point (step_allocate t n a c) t) = Waiting (CallAllocate n a) \<or> (\<exists>e. cf_point (step_allocate t n a c) t = TDone (Inl e))"
  by (auto simp: step_allocate_def Let_def split: prod.split sum.split option.split)

lemma step_central_status:
  "status (cf_point (step_fallback_central P t n a c) t) = Waiting (CallAllocate n a) \<or>
     (\<exists>e. cf_point (step_fallback_central P t n a c) t = TDone (Inl e))"
  "\<exists>e. cf_point (step_fallback_undo P t p n a e' c) t = TDone (Inl e)"
  by (auto simp: step_fallback_central_def step_fallback_undo_def split: prod.split sum.split)

lemma step_refill_status:
  "status (cf_point (step_refill P t i n a k None c) t) = Waiting (CallAllocate n a) \<or>
     (\<exists>e. cf_point (step_refill P t i n a k None c) t = TDone (Inl e)) \<or> k = 0"
  "status (cf_point (step_refill P t i n a k (Some q) c) t) = Finished (Inr (AnsPointer q))"
  "\<exists>e. cf_point (step_refill_undo P t p e' i n a None c) t = TDone (Inl e)"
  "status (cf_point (step_refill_undo P t p e i n a (Some q) c) t) = Finished (Inr (AnsPointer q)) \<or>
     (\<exists>e. cf_point (step_refill_undo P t p e' i n a (Some q) c) t = TDone (Inl e))"
  by (auto simp: step_refill_def step_refill_undo_def split: prod.split sum.split nat.split if_splits)

context memory_provider begin

lemma pending_fresh:
  assumes "interleaved_ok live ok L c K" and "p \<in> fst ` pend (cf_point c t)"
  shows "p \<notin> fst ` K"
proof
  assume "p \<in> fst ` K"
  then obtain n a where k: "(p, n, a) \<in> K" by auto
  obtain w x where s: "cf_state c = (w, x)" by (cases "cf_state c")
  note d = interleaved_okD [OF assms(1) s]
  show False by (rule cache_client [OF d(1) k]) (use d(5) [OF assms(2)] in simp)
qed

lemma simulates_refuse:
  assumes "interleaved_ok live ok L c' K" and "status pc = Waiting (CallAllocate n a)" and "cf_point c' t = TDone (Inl e)"
  shows "simulates sel K pc K (cf_point c' t)"
proof -
  obtain w x where s: "cf_state c' = (w, x)" by (cases "cf_state c'")
  have "sound_exn e" using interleaved_okD(2) [OF assms(1) s, of t] assms(3) by simp
  then show ?thesis using assms(2,3) by (simp add: simulates_def sound_exn_def atomic_refuse)
qed

lemma simulates_serve:
  assumes inv: "interleaved_ok live ok L c' (insert (p, n, a) K)" and np: "p \<notin> fst ` K"
    and st: "status pc = Waiting (CallAllocate n a)" "status (cf_point c' t) = Finished (Inr (AnsPointer p))"
  shows "simulates sel K pc (insert (p, n, a) K) (cf_point c' t)"
proof -
  obtain w x where s: "cf_state c' = (w, x)" by (cases "cf_state c'")
  let ?K = "insert (p, n, a) K"
  have k: "(p, n, a) \<in> ?K" by simp
  note e = exec_client [OF inv k] and c0 = interleaved_okD(1) [OF inv s]
  have "is_power_of_two a"
  proof (rule cache_client [OF c0 k])
    fix r assume r: "find_record (without (\<Union>u. gone (cf_point c' u)) (tca_state x)) p = Some r" "arec_alignment r = a"
    show "is_power_of_two a" using record_class [OF cache_okD(3) [OF c0] r(1)] r(2) by (auto simp: selector_select_def split: if_splits)
  qed
  moreover have "q' \<noteq> p \<and> extent p n \<inter> extent q' n' = {}" if "(q', n', a') \<in> K" for q' n' a'
    using e(4) [of q' n' a'] that np by force
  ultimately show ?thesis using st e(1,2) unfolding simulates_def by (intro disjI2) (simp add: atomic_serve)
qed

lemma simulates_take:
  assumes c: "cache_ok live ok L X (w, tc) B K" and r: "find_record tc p = Some r" "arec_active r" "size_check tc r sized = Inr ()"
    and st: "status pc = Waiting (CallDeallocate p sized)" "status pc' = Finished (Inr AnsUnit)"
  shows "simulates (tc_selector tc) K pc (apply_event (Dropped p) K) pc'"
proof -
  obtain n a where k: "(p, n, a) \<in> K" "apply_event (Dropped p) K = K - {(p, n, a)}" by (rule record_active_client [OF c r(1,2)])
  have "request_matches (tc_selector tc) n a n' a'" if "sized = Some (n', a')" for n' a'
    using size_check_value [OF c k(1) r(1), of n' a'] r(3) that by (auto split: if_splits)
  then show ?thesis using st unfolding simulates_def k(2) by (intro disjI2) (simp add: atomic_take [OF k(1)])
qed

lemma size_check_without: "size_check (without Z tc) r sized = size_check tc r sized"
  by (cases sized) (auto simp: size_check_def validate_sized_deallocation_def Let_def)

lemma free_record_simulates:
  assumes inv: "interleaved_ok live ok L c K" and s: "cf_state c = (w, x)" and pc: "cf_point c t = TFreeRecord p sized"
    and fr: "shard_free p c" and st: "step_free_record t p sized c = (ev, c')"
  shows "simulates (tc_selector (tca_state x)) K (TFreeRecord p sized) (apply_event ev K) (cf_point c' t)"
proof -
  have pl: "plain (TFreeRecord p sized)" by simp
  note v = plain_view [OF inv s pc pl]
  let ?T = "without (gone_others c t) (tca_state x)"
  have c0: "cache_ok live ok L (pend_others c t) (w, ?T) (shown_bins c) K" using v(1) by simp
  have f: "find_record ?T p = find_record (tca_state x) p" using v(5) [OF fr] by simp
  have p0: "p \<noteq> 0" using interleaved_view(2) [OF inv s pc] by simp
  have out: "p \<notin> fst ` K" if "find_record (tca_state x) p = None \<or> (\<exists>r. find_record (tca_state x) p = Some r \<and> \<not> arec_active r)"
    using clients_okD(2) [OF cache_okD(5) [OF c0], of p] f that by (auto simp del: without_fields)
  have rej: "atomic_step sel K (Waiting (CallDeallocate p sized)) K (Finished (Inl e))"
    if "p \<notin> fst ` K" "e = InvalidPoolPointer \<or> e = DoubleFreeError" for sel e by (rule atomic_reject_pointer [OF p0 that])
  show ?thesis
  proof (cases "find_record (tca_state x) p")
    case None
    then show ?thesis using st s out rej [of InvalidPoolPointer] by (auto simp: step_free_record_def simulates_def)
  next
    case (Some r)
    note fT = f [unfolded Some]
    show ?thesis
    proof (cases "arec_active r")
      case False
      then show ?thesis using Some st s out rej [of DoubleFreeError] by (auto simp: step_free_record_def simulates_def)
    next
      case True
      obtain n a where k: "(p, n, a) \<in> K" by (rule record_active_client [OF c0 fT True])
      note ck = size_check_value [OF c0 k fT, unfolded size_check_without]
      show ?thesis
      proof (cases "size_check (tca_state x) r sized")
        case (Inl e)
        then obtain n' a' where z: "sized = Some (n', a')" by (cases sized) (auto simp: size_check_def)
        have m: "\<not> request_matches (tc_selector (tca_state x)) n a n' a'"
            "e = (if is_power_of_two a' \<or> selector_select (tc_selector (tca_state x)) n a = Inr None then AllocationMismatchError else InvalidArgument)"
          using ck [of n' a'] Inl z by (auto split: if_splits)
        moreover have "ev = Silent" "cf_point c' t = TDone (Inl e)" using st s Some True Inl by (auto simp: step_free_record_def size_check_def)
        ultimately show ?thesis using atomic_reject_size [OF k m] z unfolding simulates_def by (intro disjI2) (simp only: apply_event.simps status.simps)
      next
        case (Inr u)
        show ?thesis
        proof (cases "arec_owner_thread r \<noteq> t \<or> arec_class_index r = fallback_class")
          case True
          then show ?thesis using st s Some \<open>arec_active r\<close> Inr by (auto simp: step_free_record_def size_check_def Let_def simulates_def)
        next
          case False
          then have ev: "ev = Dropped p" "status (cf_point c' t) = Finished (Inr AnsUnit)"
            using st s Some True Inr by (auto simp: step_free_record_def size_check_def Let_def)
          have "simulates (tc_selector ?T) K (TFreeRecord p sized) (apply_event (Dropped p) K) (cf_point c' t)"
            by (rule simulates_take [OF c0 fT True _ _ ev(2)]) (use Inr in \<open>simp_all add: size_check_without\<close>)
          then show ?thesis using ev(1) by simp
        qed
      qed
    qed
  qed
qed

lemma free_central_simulates:
  assumes inv: "interleaved_ok live ok L c K" and s: "cf_state c = (w, x)" and pc: "cf_point c t = TFreeCentral p sized remote"
    and st: "step_free_central P t p sized remote c = (ev, c')"
  shows "simulates (tc_selector (tca_state x)) K (TFreeCentral p sized remote) (apply_event ev K) (cf_point c' t)"
proof -
  note v = interleaved_view [OF inv s pc] and ev = step_free_central_ok(1) [OF inv pc st]
  let ?T = "without (gone_others c t) (tca_state x)"
  have c0: "cache_ok live ok L (pend_others c t) (w, ?T) (shown_bins c) K" using v(1) by simp
  obtain r where r: "find_record (tca_state x) p = Some r" "arec_active r" "size_check (tca_state x) r sized = Inr ()" using v(2) by auto
  have "find_record ?T p = Some r" using v(6) [of p] v(7) [of p] r(1) by auto
  moreover have "status (cf_point c' t) = Finished (Inr AnsUnit)"
    using st s ev by (auto simp: step_free_central_def split: sum.splits prod.splits)
  ultimately have "simulates (tc_selector ?T) K (TFreeCentral p sized remote) (apply_event (Dropped p) K) (cf_point c' t)"
    using r by (intro simulates_take [OF c0]) (simp_all add: size_check_without)
  then show ?thesis using ev by simp
qed

lemma record_simulates:
  assumes inv: "interleaved_ok live ok L c' (apply_event ev K)" and np: "p \<notin> fst ` K" and st: "status pc = Waiting (CallAllocate n a)"
    and ev: "(ev = Silent \<and> status (cf_point c' t) = Waiting (CallAllocate n a)) \<or>
      (ev = Acquired p n a \<and> status (cf_point c' t) = Finished (Inr (AnsPointer p)))"
  shows "simulates sel K pc (apply_event ev K) (cf_point c' t)"
  using ev
proof
  assume "ev = Silent \<and> status (cf_point c' t) = Waiting (CallAllocate n a)"
  then show ?thesis using st by (simp add: simulates_def)
next
  assume e: "ev = Acquired p n a \<and> status (cf_point c' t) = Finished (Inr (AnsPointer p))"
  have "interleaved_ok live ok L c' (insert (p, n, a) K)" using inv e by simp
  from simulates_serve [OF this np st] show ?thesis using e by simp
qed

end

end
