(* ===== verification/Thread_Cache_Linearizable.thy ===== *)
theory Thread_Cache_Linearizable
  imports Thread_Cache_Atomic
begin

text \<open>
  The simulation: every step of a thread that is not a return is a step of the atomic allocator or none, so that every history of an execution is
  a history of the atomic allocator.
\<close>

lemma step_record_status:
  "step_fallback_record t p n a c = (ev, c') \<Longrightarrow> (ev = Silent \<and> status (cf_point c' t) = Waiting (CallAllocate n a)) \<or>
     (ev = Acquired p n a \<and> status (cf_point c' t) = Finished (Inr (AnsPointer p)))"
  "step_refill_record t p i n a k None c = (ev, c') \<Longrightarrow> (ev = Silent \<and> status (cf_point c' t) = Waiting (CallAllocate n a)) \<or>
     (ev = Acquired p n a \<and> status (cf_point c' t) = Finished (Inr (AnsPointer p)))"
  "step_refill_record t p i n a k (Some q) c = (ev, c') \<Longrightarrow> ev = Silent \<and> status (cf_point c' t) = Finished (Inr (AnsPointer q))"
  by (auto simp: step_fallback_record_def step_refill_record_def split: prod.splits sum.splits)

lemma step_deallocate_status:
  "(p = 0 \<and> cf_point (step_deallocate t p sized c) t = TDone (Inr AnsUnit)) \<or>
   (p \<noteq> 0 \<and> cf_point (step_deallocate t p sized c) t = TFreeRecord p sized) \<or>
   (p \<noteq> 0 \<and> (\<exists>e. cf_point (step_deallocate t p sized c) t = TDone (Inl e) \<and> (e = BadAlloc \<or> e = LengthError)))"
proof -
  obtain w x where s: "cf_state c = (w, x)" by (cases "cf_state c")
  obtain r w' x' where g: "registry_get t (w, x) = (r, (w', x'))" by (metis prod_cases3)
  show ?thesis using registry_get_effect(6) [OF g] g s by (cases r) (auto simp: step_deallocate_def)
qed

context memory_provider begin

lemma release_simulates:
  assumes "status pc' = flushing goal \<or> (case goal of FlushBin \<Rightarrow> pc' = TDone (Inr AnsUnit) | FlushAll n e \<Rightarrow> \<exists>m. pc' = TDone (Inr (AnsCount m)))"
    and "status pc = flushing goal"
  shows "simulates sel K pc K pc'"
  using assms by (cases goal) (auto simp: simulates_def intro: atomic_release)

lemma flush_simulates:
  assumes inv: "interleaved_ok live ok L c K" and s: "cf_state c = (w, x)" and pc: "cf_point c t = TFlush goal i rel"
    and st: "step_flush t goal i rel c = Some c'"
  shows "simulates sel K (TFlush goal i rel) K (cf_point c' t)"
proof -
  note v = interleaved_view [OF inv s pc]
  obtain bs where b: "tca_caches x t = Some bs" and em: "emptied goal i bs" "goal = FlushBin \<longrightarrow> i < length bs" using v(2) by auto
  have ok: "\<exists>r. find_record (tca_state x) (last (bs ! i)) = Some r \<and> \<not> arec_active r"
    if "i < length bs" "bs ! i \<noteq> []" "shard_free (last (bs ! i)) c"
    using flush_block(4) [OF inv s pc _ _ _ b that(1,2)] that(3) by (simp add: shard_free_def)
  have "status (cf_point c' t) = flushing goal \<or>
      (case goal of FlushBin \<Rightarrow> cf_point c' t = TDone (Inr AnsUnit) | FlushAll n e \<Rightarrow> \<exists>m. cf_point c' t = TDone (Inr (AnsCount m)))"
  proof (cases "i < length bs")
    case False
    then show ?thesis using st s b em(2) by (cases goal) (auto simp: step_flush_def local_bins_def)
  next
    case True
    then have "step_flush_bin t goal i rel c = Some c'" using st s b by (cases goal) (simp_all add: step_flush_def local_bins_def)
    then show ?thesis using ok [OF True] s b
      by (cases goal; cases "bs ! i = []") (auto simp: step_flush_bin_def flush_next_def local_bins_def Let_def split: if_splits)
  qed
  then show ?thesis by (rule release_simulates) simp
qed

lemma flush_central_simulates:
  assumes inv: "interleaved_ok live ok L c K" and s: "cf_state c = (w, x)" and pc: "cf_point c t = TFlushCentral goal i p rel"
  shows "simulates sel K (TFlushCentral goal i p rel) K (cf_point (step_flush_central P t goal i p rel c) t)"
proof -
  note v = interleaved_view [OF inv s pc]
  obtain bs where b: "tca_caches x t = Some bs" and em: "i < length bs" "bs ! i \<noteq> []" "last (bs ! i) = p" using v(2) by auto
  have m: "cf_mutex c (shard_for p) = Some t" using v(7) by simp
  note fb = flush_block [OF inv s pc _ _ _ b em(1,2), unfolded em(3)]
  have "cache_ok live ok L (pend_others c t) (w, without (gone_others c t) (tca_state x)) (set_bin (shown_bins c) t i (bs ! i)) K"
    "p \<notin> fst ` pend_others c t" using fb(2,3) m by simp_all
  from flush_step [OF this(1) em(2), unfolded em(3), OF this(2)]
  obtain w' T' where "central_deallocate P p (w, without (gone_others c t) (tca_state x)) = (Inr (), (w', T'))" by blast
  then have "fst (central_deallocate P p (w, tca_state x)) = Inr ()" by (auto simp: central_without split: prod.splits)
  then show ?thesis using s by (intro simulates_quiet) (auto simp: step_flush_central_def split: prod.splits)
qed

lemma undo_simulates:
  assumes inv: "interleaved_ok live ok L c K" and s: "cf_state c = (w, x)" and pc: "cf_point c t = TRefillUndo p e i n a (Some q)"
  shows "simulates sel K (TRefillUndo p e i n a (Some q)) K (cf_point (step_refill_undo P t p e i n a (Some q) c) t)"
proof -
  obtain y w1 tc1 where de: "central_deallocate_sized P p (normalize_size n) a (w, tca_state x) = (y, (w1, tc1))" by (metis prod_cases3)
  have "y = Inr ()" using central_undo_step(1) [OF inv s pc _ _ de] by simp
  then show ?thesis using s de by (intro simulates_quiet) (simp add: step_refill_undo_def)
qed

text \<open>The points of \<^verbatim>\<open>allocate\<close>.\<close>

lemma allocate_simulates:
  assumes inv: "interleaved_ok live ok L c K" and s: "cf_state c = (w, x)" and st: "tc_step P t (cf_point c t) c = Some (ev, c')"
    and al: "status (cf_point c t) = Waiting (CallAllocate n a)"
  shows "simulates sel K (cf_point c t) (apply_event ev K) (cf_point c' t)"
proof -
  note inv' = tc_step_ok [OF inv st]
  note v = interleaved_view(2) [OF inv s refl, of t]
  have one: ?thesis if "ev = Silent" "status (cf_point c' t) = Waiting (CallAllocate n a) \<or> (\<exists>e. cf_point c' t = TDone (Inl e))"
    using that simulates_refuse [OF _ al] inv' al by (auto intro: simulates_quiet)
  have rec: ?thesis if "p \<notin> fst ` K" "(ev = Silent \<and> status (cf_point c' t) = Waiting (CallAllocate n a)) \<or>
      (ev = Acquired p n a \<and> status (cf_point c' t) = Finished (Inr (AnsPointer p)))" for p
    by (rule record_simulates [OF inv' that(1) al that(2)])
  show ?thesis
  proof (cases "cf_point c t")
    case (THit p i n' a')
    then have h: "shard_free p c" "step_hit t p n a c = (ev, c')" using st al by (simp_all split: if_splits)
    note ok = step_hit_ok [OF inv _ h, of i] and na = THit al
    have "p \<notin> fst ` K" "ev = Acquired p n a" using ok na by simp_all
    moreover have "status (cf_point c' t) = Finished (Inr (AnsPointer p))"
      using h(2) calculation(2) s by (auto simp: step_hit_def split: option.splits if_splits)
    ultimately show ?thesis using rec by blast
  next
    case (TFallbackRecord p n' a')
    then show ?thesis using st al step_record_status(1) [of t p n a c ev c'] rec [of p] pending_fresh [OF inv, of p t]
      by (auto split: if_splits)
  next
    case (TRefillRecord p i n' a' k res)
    then have "res = None" "n' = n" "a' = a" using al by (cases res; simp)+
    then show ?thesis using TRefillRecord st step_record_status(2) [of t p i n a k c ev c'] rec [of p] pending_fresh [OF inv, of p t]
      by (auto split: if_splits)
  next
    case (TRefill i n' a' k res)
    then have "res = None" "n' = n" "a' = a" using al by (cases res; simp)+
    then show ?thesis using TRefill st v step_refill_status(1) [of P t i n a k c] by (intro one) auto
  next
    case (TRefillUndo p e i n' a' res)
    then have "res = None" "n' = n" "a' = a" using al by (cases res; simp)+
    then show ?thesis using TRefillUndo st step_refill_status(3) [of P t p e i n a c] by (intro one) auto
  next
    case (TAllocate n' a')
    then show ?thesis using st al step_allocate_status [of t n a c] by (intro one) auto
  next
    case (TFallbackCentral n' a')
    then show ?thesis using st al step_central_status(1) [of P t n a c] by (intro one) auto
  next
    case (TFallbackUndo p n' a' e)
    then show ?thesis using st al step_central_status(2) [of P t p n a e c] by (intro one) auto
  next
    case (TFlush goal i rel)
    then show ?thesis using al by (cases goal) simp_all
  next
    case (TFlushCentral goal i p rel)
    then show ?thesis using al by (cases goal) simp_all
  next
    case (TFlushErase goal i p rel)
    then show ?thesis using al by (cases goal) simp_all
  qed (use al in simp_all)
qed

lemma refill_simulates:
  assumes inv: "interleaved_ok live ok L c K" and s: "cf_state c = (w, x)" and st: "tc_step P t (cf_point c t) c = Some (ev, c')"
    and pc: "cf_point c t = TRefill i n a k (Some q) \<or> cf_point c t = TRefillRecord p i n a k (Some q) \<or>
      cf_point c t = TRefillUndo p e i n a (Some q)"
  shows "simulates sel K (cf_point c t) (apply_event ev K) (cf_point c' t)"
  using pc
proof (elim disjE)
  assume "cf_point c t = TRefill i n a k (Some q)"
  then show ?thesis using st step_refill_status(2) [of P t i n a k q c] by (auto intro: simulates_quiet)
next
  assume "cf_point c t = TRefillRecord p i n a k (Some q)"
  then show ?thesis using st step_record_status(3) [of t p i n a k q c ev c'] by (auto intro: simulates_quiet split: if_splits)
next
  assume pc: "cf_point c t = TRefillUndo p e i n a (Some q)"
  then show ?thesis using st undo_simulates [OF inv s pc] by auto
qed

lemma tc_step_simulates:
  assumes inv: "interleaved_ok live ok L c K" and s: "cf_state c = (w, x)" and st: "tc_step P t (cf_point c t) c = Some (ev, c')"
    and nr: "\<And>r. cf_point c t \<noteq> TDone r"
  shows "simulates (tc_selector (tca_state x)) K (cf_point c t) (apply_event ev K) (cf_point c' t)"
proof (cases "cf_point c t")
  case (TRefill i n a k res)
  then show ?thesis using allocate_simulates [OF inv s st] refill_simulates [OF inv s st] by (cases res) auto
next
  case (TRefillRecord p i n a k res)
  then show ?thesis using allocate_simulates [OF inv s st] refill_simulates [OF inv s st] by (cases res) auto
next
  case (TRefillUndo p e i n a res)
  then show ?thesis using allocate_simulates [OF inv s st] refill_simulates [OF inv s st] by (cases res) auto
next
  case (TDeallocate p sized)
  then show ?thesis
    using st step_deallocate_status [of p t sized c] by (auto simp: simulates_def intro: atomic_null atomic_no_cache)
next
  case (TFreeRecord p sized)
  then show ?thesis using st free_record_simulates [OF inv s TFreeRecord] by (auto split: if_splits)
next
  case (TFreeCentral p sized remote)
  then show ?thesis using st free_central_simulates [OF inv s TFreeCentral] by auto
next
  case (TFreeErase p remote)
  then show ?thesis using st s by (auto simp: step_free_erase_def intro: simulates_quiet)
next
  case (TPush p i)
  then show ?thesis using st s by (auto simp: step_push_def Let_def intro: simulates_quiet)
next
  case (TFlush goal i rel)
  then show ?thesis using st flush_simulates [OF inv s TFlush] by auto
next
  case (TFlushCentral goal i p rel)
  then show ?thesis using st flush_central_simulates [OF inv s TFlushCentral] by auto
next
  case (TFlushErase goal i p rel)
  then show ?thesis using st s by (auto simp: step_flush_erase_def intro: simulates_quiet)
next
  case (TRelease ending)
  then show ?thesis using st by (auto simp: step_release_def simulates_def intro: atomic_release split: option.splits)
qed (use st nr allocate_simulates [OF inv s st] in auto)

section \<open>Histories\<close>

lemma tc_step_visible: "tc_step P t pc c = Some (ev, c') \<Longrightarrow> (\<And>r. pc \<noteq> TDone r) \<Longrightarrow> visible t ev = []"
  by (cases pc) (auto simp: visible_def step_fallback_record_def step_hit_def step_refill_record_def step_free_record_def step_free_central_def
      Let_def split: prod.splits sum.splits option.splits if_splits)

lemma tc_exec_setup:
  assumes "tc_exec P s0 c K h"
  shows "same_setup (tca_state (snd s0)) (tca_state (snd (cf_state c)))"
  using assms
proof (induction rule: tc_exec.induct)
  case (exec_step c K h t ev c')
  then show ?case using tc_step_stays [OF exec_step.hyps(2)] same_setup_trans unfolding stays_def by blast
qed (simp_all add: tc_start_def)

lemma status_update: "(\<lambda>u. status ((f(t := pc)) u)) = (\<lambda>u. status (f u))(t := status pc)"
  by (simp add: fun_eq_iff)

lemma tc_exec_atomic:
  assumes "tc_exec P s0 c K h" and start: "cached_ok live ok L s0 {}"
  shows "atomic_run (tc_selector (tca_state (snd s0))) K (\<lambda>u. status (cf_point c u)) h"
  using assms(1)
proof (induction rule: tc_exec.induct)
  case exec_start
  then show ?case by (simp add: tc_start_def atomic_start)
next
  case (exec_call c K h t call)
  have "status (cf_point c t) = Resting" using exec_call.hyps(2) by simp
  from atomic_call [OF exec_call.IH this, of call] show ?case by (simp only: goto_fields status_update status_entry)
next
  case (exec_step c K h t ev c')
  note inv = tc_exec_ok [OF exec_step.hyps(1) start]
  have pt: "cf_point c' = (cf_point c)(t := cf_point c' t)" using tc_step_stays [OF exec_step.hyps(2)] by (simp add: stays_def)
  obtain w x where s: "cf_state c = (w, x)" by (cases "cf_state c")
  have sel: "tc_selector (tca_state x) = tc_selector (tca_state (snd s0))"
    using tc_exec_setup [OF exec_step.hyps(1)] s by (simp add: same_setup_def)
  show ?case
  proof (cases "\<exists>r. cf_point c t = TDone r")
    case True
    then obtain r where r: "cf_point c t = TDone r" by blast
    then have ev: "ev = Returned r" "c' = goto t TIdle (cf_state c) c" using exec_step.hyps(2) by auto
    have "status (cf_point c t) = Finished r" using r by simp
    from atomic_return [OF exec_step.IH this] show ?thesis
      by (simp only: ev goto_fields status_update status.simps visible_def tc_event.case apply_event.simps)
  next
    case False
    then have nr: "cf_point c t \<noteq> TDone r" for r by blast
    have vis: "visible t ev = []" by (rule tc_step_visible [OF exec_step.hyps(2) nr])
    have st: "(\<lambda>u. status (cf_point c' u)) = (\<lambda>u. status (cf_point c u))(t := status (cf_point c' t))"
      by (subst pt) (rule status_update)
    from tc_step_simulates [OF inv s exec_step.hyps(2) nr] show ?thesis
      unfolding simulates_def st vis sel
    proof (elim disjE conjE)
      assume "apply_event ev K = K" "status (cf_point c' t) = status (cf_point c t)"
      then show "atomic_run (tc_selector (tca_state (snd s0))) (apply_event ev K) ((\<lambda>u. status (cf_point c u))(t := status (cf_point c' t))) (h @ [])"
        using exec_step.IH by (simp add: fun_upd_idem)
    next
      assume "atomic_step (tc_selector (tca_state (snd s0))) K (status (cf_point c t)) (apply_event ev K) (status (cf_point c' t))"
      then show "atomic_run (tc_selector (tca_state (snd s0))) (apply_event ev K) ((\<lambda>u. status (cf_point c u))(t := status (cf_point c' t))) (h @ [])"
        using atomic_effect [OF exec_step.IH, of t] by simp
    qed
  qed
next
  case (exec_write c K h q n a y w x b)
  then show ?case by simp
qed

end

end
