(* ===== verification/Thread_Cache_Progress.thy ===== *)
theory Thread_Cache_Progress
  imports Thread_Cache_Atomic
begin

text \<open>
  Progress. The work that is left of a call decreases with every step of its thread and is not changed by others; a thread that waits for
  a mutex waits for a thread that can move. So the calls neither block each other forever nor run forever.
\<close>

section \<open>The work that is left\<close>

fun flush_work :: "flush_goal \<Rightarrow> nat \<Rightarrow> cache_bins \<Rightarrow> nat" where
  "flush_work FlushBin i bs = 3 * length (bs ! i) + 2"
| "flush_work (FlushAll n ending) i bs = 3 * sum_list (map length (drop i bs)) + length (drop i bs) + 2"

fun work_left :: "thread_cache_options \<Rightarrow> cache_bins \<Rightarrow> tc_point \<Rightarrow> nat" where
  "work_left co bs TIdle = 0"
| "work_left co bs (TAllocate n a) = 3 * unat (tco_refill_batch co) + 5"
| "work_left co bs (TFallbackCentral n a) = 4"
| "work_left co bs (TFallbackRecord p n a) = 3"
| "work_left co bs (TFallbackUndo p n a e) = 2"
| "work_left co bs (THit p i n a) = 2"
| "work_left co bs (TRefill i n a k res) = 3 * k + 2"
| "work_left co bs (TRefillRecord p i n a k res) = 3 * k + 4"
| "work_left co bs (TRefillUndo p e i n a res) = 3"
| "work_left co bs (TDeallocate p sized) = 3 * unat (tco_high_watermark co) + 8"
| "work_left co bs (TFreeRecord p sized) = 3 * unat (tco_high_watermark co) + 7"
| "work_left co bs (TFreeCentral p sized remote) = 3"
| "work_left co bs (TFreeErase p remote) = 2"
| "work_left co bs (TPush p i) = 3 * length (bs ! i) + 6"
| "work_left co bs (TFlush goal i rel) = flush_work goal i bs"
| "work_left co bs (TFlushCentral goal i p rel) = flush_work goal i bs - 1"
| "work_left co bs (TFlushErase goal i p rel) = flush_work goal i bs - 2"
| "work_left co bs (TRelease ending) = flush_work (FlushAll 0 ending) 0 bs + 1"
| "work_left co bs (TDone r) = 1"

definition work :: "thread_id \<Rightarrow> 'p tc_config \<Rightarrow> nat" where
  "work t c = (let x = snd (cf_state c) in work_left (tc_cache_options (tca_state x)) (local_bins t x) (cf_point c t))"

lemma work_others:
  assumes "stays t c c'" and "u \<noteq> t"
  shows "work u c' = work u c"
proof -
  have "cf_point c' u = ((cf_point c)(t := cf_point c' t)) u" using assms(1) unfolding stays_def by metis
  then show ?thesis using assms by (simp add: work_def stays_def same_setup_def local_bins_def Let_def)
qed

lemma work_goto [simp]:
  "work t (goto t pc s c) = work_left (tc_cache_options (tca_state (snd s))) (local_bins t (snd s)) pc"
  by (simp add: work_def Let_def)

lemma work_at: "cf_state c = (w, x) \<Longrightarrow> work t c = work_left (tc_cache_options (tca_state x)) (local_bins t x) (cf_point c t)"
  by (simp add: work_def Let_def)

lemma flush_work_ge: "2 \<le> flush_work goal i bs"
  by (cases goal) simp_all

lemma flush_work_pop:
  assumes "i < length bs" and "bs ! i \<noteq> []"
  shows "flush_work goal i (bs[i := butlast (bs ! i)]) + 3 = flush_work goal i bs"
proof -
  have l: "length (bs ! i) \<ge> 1" using assms(2) by (simp add: Suc_le_eq)
  have "drop i (bs[i := butlast (bs ! i)]) = butlast (bs ! i) # drop (Suc i) bs" "drop i bs = bs ! i # drop (Suc i) bs"
    using assms(1) by (simp_all add: Cons_nth_drop_Suc [symmetric])
  then show ?thesis using l assms(1) by (cases goal) simp_all
qed

lemma flush_work_bin: "i < length bs \<Longrightarrow> bs ! i \<noteq> [] \<Longrightarrow> 5 \<le> flush_work goal i bs"
  using flush_work_pop [of i bs goal] flush_work_ge [of goal i "bs[i := butlast (bs ! i)]"] by linarith

lemma flush_work_next: "i < length bs \<Longrightarrow> flush_work (FlushAll m e) (Suc i) bs < flush_work (FlushAll n e') i bs"
  by (simp add: Cons_nth_drop_Suc [symmetric])

section \<open>Steps decrease it\<close>

lemma step_allocate_work: "work t (step_allocate t n a c) < 3 * unat (tco_refill_batch (tc_cache_options (tca_state (snd (cf_state c))))) + 5"
  by (auto simp: step_allocate_def Let_def registry_stays split: prod.split sum.split option.split)

lemma step_central_work:
  "work t (step_fallback_central P t n a c) < 4" "work t (step_fallback_undo P t p n a e c) < 2"
  "work t (step_refill P t i n a k res c) < 3 * k + 2" "work t (step_refill_undo P t p e i n a res c) < 3"
  by (auto simp: step_fallback_central_def step_fallback_undo_def step_refill_def step_refill_undo_def
      split: prod.split sum.split option.split nat.split if_splits)

lemma step_record_work:
  "step_fallback_record t p n a c = (ev, c') \<Longrightarrow> work t c' < 3" "step_hit t p n a c = (ev, c') \<Longrightarrow> work t c' < 2"
  "step_refill_record t p i n a k res c = (ev, c') \<Longrightarrow> work t c' < 3 * k + 4"
  by (auto simp: step_fallback_record_def step_hit_def step_refill_record_def split: prod.splits sum.splits option.splits if_splits)

lemma step_free_work:
  "work t (step_deallocate t p sized c) < 3 * unat (tco_high_watermark (tc_cache_options (tca_state (snd (cf_state c))))) + 8"
  "step_free_central P t p sized remote c = (ev, c') \<Longrightarrow> work t c' < 3" "work t (step_free_erase t p remote c) < 2"
  by (auto simp: step_deallocate_def step_free_central_def step_free_erase_def Let_def registry_stays
      split: prod.splits sum.splits option.splits)

definition busy :: "'p tc_config \<Rightarrow> thread_id set" where
  "busy c = {t. cf_point c t \<noteq> TIdle}"

lemma busy_step:
  assumes "tc_step P t (cf_point c t) c = Some (ev, c')"
  shows "busy c' \<subseteq> busy c" and "t \<in> busy c"
proof -
  have p: "cf_point c' u = ((cf_point c)(t := cf_point c' t)) u" for u using tc_step_stays [OF assms] unfolding stays_def by metis
  show t: "t \<in> busy c" using assms by (auto simp: busy_def)
  show "busy c' \<subseteq> busy c"
  proof
    fix u assume "u \<in> busy c'"
    then show "u \<in> busy c" using p [of u] t by (cases "u = t") (simp_all add: busy_def)
  qed
qed

lemma busy_finite:
  assumes "tc_exec P s0 c K h"
  shows "finite (busy c)"
  using assms
proof (induction rule: tc_exec.induct)
  case (exec_call c K h t call)
  have "busy (goto t (tc_entry call) (cf_state c) c) \<subseteq> insert t (busy c)" by (auto simp: busy_def)
  from finite_subset [OF this] show ?case using exec_call.IH by simp
next
  case (exec_step c K h t ev c')
  show ?case by (rule finite_subset [OF busy_step(1) [OF exec_step.hyps(2)] exec_step.IH])
qed (simp_all add: tc_start_def busy_def)

context memory_provider begin

lemma free_record_work:
  assumes inv: "interleaved_ok live ok L c K" and s: "cf_state c = (w, x)" and pc: "cf_point c t = TFreeRecord p sized"
    and fr: "shard_free p c" and st: "step_free_record t p sized c = (ev, c')"
  shows "work t c' < 3 * unat (tco_high_watermark (tc_cache_options (tca_state x))) + 7"
proof -
  obtain w' x' where s': "cf_state c' = (w', x')" by (cases "cf_state c'")
  note inv' = step_free_record_ok [OF inv pc fr st]
  have "stays t c c'" using step_free_stays(2) [of t c p sized] st by simp
  then have co: "tc_cache_options (tca_state x') = tc_cache_options (tca_state x)" using s s' by (simp add: stays_def same_setup_def)
  have "(\<exists>r. cf_point c' t = TDone r) \<or> (\<exists>remote. cf_point c' t = TFreeCentral p sized remote) \<or> (\<exists>i. cf_point c' t = TPush p i)"
    using st s by (auto simp: step_free_record_def Let_def split: option.splits sum.splits if_splits)
  then show ?thesis
  proof (elim disjE exE)
    fix i assume pc': "cf_point c' t = TPush p i"
    note v = interleaved_view(2,3) [OF inv' s' pc']
    obtain bs where b: "tca_caches x' t = Some bs" "i < length bs" using v(1) by auto
    then have "length (bs ! i) \<le> unat (tco_high_watermark (tc_cache_options (tca_state x)))"
      using v(2) [OF b(1)] co by (simp add: bins_within_def)
    then show ?thesis using work_at [OF s', of t] pc' b(1) by (simp add: local_bins_def)
  qed (simp_all add: work_at [OF s'])
qed

lemma push_work:
  assumes s: "cf_state c = (w, x)" and pt: "point_ok (tca_state x) (tca_caches x t) (TPush p i)"
  shows "work t (step_push t p i c) < 3 * length (local_bins t x ! i) + 6"
proof -
  obtain bs where "tca_caches x t = Some bs" "i < length bs" using pt by auto
  then show ?thesis using s by (simp add: step_push_def local_bins_def put_cache_def Let_def)
qed

lemma flush_step_work:
  assumes s: "cf_state c = (w, x)" and pt: "point_ok (tca_state x) (tca_caches x t) (TFlush goal i rel)"
    and st: "step_flush t goal i rel c = Some c'"
  shows "work t c' < flush_work goal i (local_bins t x)"
proof -
  obtain bs where b: "tca_caches x t = Some bs" "goal = FlushBin \<longrightarrow> i < length bs" using pt by auto
  note ge = flush_work_ge [of goal i bs]
  show ?thesis
  proof (cases "i < length bs")
    case False
    then show ?thesis using st s b ge by (cases goal) (auto simp: step_flush_def local_bins_def)
  next
    case True
    then have "step_flush_bin t goal i rel c = Some c'" using st s b by (cases goal) (simp_all add: step_flush_def local_bins_def)
    then show ?thesis
      using s b(1) ge flush_work_next [OF True]
      by (cases goal) (auto simp: step_flush_bin_def flush_next_def flush_failed_def local_bins_def Let_def simp del: flush_work.simps
          split: if_splits option.splits bool.splits)
  qed
qed

lemma flush_rest_work:
  assumes s: "cf_state c = (w, x)" and pt: "point_ok (tca_state x) (tca_caches x t) (TFlushErase goal i p rel)"
  shows "work t (step_flush_central P t goal i p rel c) < flush_work goal i (local_bins t x) - 1"
    and "work t (step_flush_erase t goal i p rel c) < flush_work goal i (local_bins t x) - 2"
proof -
  obtain bs where b: "tca_caches x t = Some bs" "i < length bs" "bs ! i \<noteq> []" using pt by auto
  note ge = flush_work_bin [OF b(2,3), of goal] flush_work_pop [OF b(2,3), of goal]
  show "work t (step_flush_central P t goal i p rel c) < flush_work goal i (local_bins t x) - 1"
    using s b(1) ge by (auto simp: step_flush_central_def flush_failed_def local_bins_def simp del: flush_work.simps
        split: prod.split sum.split flush_goal.split bool.split)
  show "work t (step_flush_erase t goal i p rel c) < flush_work goal i (local_bins t x) - 2"
    using s b(1) ge by (simp add: step_flush_erase_def local_bins_def put_cache_def)
qed

lemma tc_step_work:
  assumes inv: "interleaved_ok live ok L c K" and st: "tc_step P t (cf_point c t) c = Some (ev, c')"
  shows "work t c' < work t c"
proof -
  obtain w x where s: "cf_state c = (w, x)" by (cases "cf_state c")
  note v = interleaved_view(2) [OF inv s refl, of t] and wa = work_at [OF s, of t]
  show ?thesis
  proof (cases "cf_point c t")
    case TIdle
    then show ?thesis using st by simp
  next
    case (TFreeRecord p sized)
    then show ?thesis using st wa free_record_work [OF inv s TFreeRecord] by (auto split: if_splits)
  next
    case (TPush p i)
    then show ?thesis using st wa push_work [OF s, of t p i] v by auto
  next
    case (TFlush goal i rel)
    then show ?thesis using st wa flush_step_work [OF s, of t goal i rel] v by (auto simp: map_option_case split: option.splits)
  next
    case (TFlushCentral goal i p rel)
    then show ?thesis using st wa flush_rest_work(1) [OF s, of t goal i p rel] v by auto
  next
    case (TFlushErase goal i p rel)
    then show ?thesis using st wa flush_rest_work(2) [OF s, of t goal i p rel] v by auto
  next
    case (TRelease ending)
    then show ?thesis using st wa s by (auto simp: step_release_def local_bins_def split: option.splits)
  qed (use st s wa step_allocate_work [of t _ _ c] step_central_work [where t = t and c = c] step_record_work [where t = t and c = c] step_free_work [where t = t and c = c] in \<open>auto split: if_splits\<close>)
qed

section \<open>Nobody waits for nothing\<close>

lemma holder_moves: "locked (cf_point c u) \<noteq> None \<Longrightarrow> tc_step P u (cf_point c u) c \<noteq> None"
  by (cases "cf_point c u") auto

lemma blocked_by_holder:
  assumes inv: "interleaved_ok live ok L c K" and bl: "cf_point c t \<noteq> TIdle" "tc_step P t (cf_point c t) c = None"
  obtains u p where "u \<noteq> t" and "locked (cf_point c u) = Some p" and "cf_mutex c (shard_for p) = Some u"
    and "tc_step P u (cf_point c u) c \<noteq> None"
proof -
  obtain w x where s: "cf_state c = (w, x)" by (cases "cf_state c")
  have nl: "locked (cf_point c t) = None" using holder_moves [of c t] bl(2) by blast
  obtain p where "\<not> shard_free p c"
  proof (cases "cf_point c t")
    case (TFlush goal i rel)
    then show ?thesis using that bl(2) s
      by (cases goal) (auto simp: step_flush_def step_flush_bin_def Let_def split: if_splits option.splits)
  qed (use that bl in \<open>auto split: if_splits\<close>)
  then obtain u where u: "cf_mutex c (shard_for p) = Some u" by (auto simp: shard_free_def)
  then obtain q where q: "locked (cf_point c u) = Some q" "shard_for q = shard_for p" using interleaved_okD(7) [OF inv s] by blast
  have "u \<noteq> t" using q(1) nl by auto
  moreover have "tc_step P u (cf_point c u) c \<noteq> None" using holder_moves [of c u] q(1) by simp
  ultimately show thesis using that q u by simp
qed

lemma stuck_idle:
  assumes inv: "interleaved_ok live ok L c K" and stuck: "\<And>t. tc_step P t (cf_point c t) c = None"
  shows "cf_point c t = TIdle"
proof (rule ccontr)
  assume "cf_point c t \<noteq> TIdle"
  from inv this stuck obtain u where "tc_step P u (cf_point c u) c \<noteq> None" by (rule blocked_by_holder)
  then show False using stuck by simp
qed

end

text \<open>\<open>tc_drain P ts c c'\<close>: the threads \<open>ts\<close> move in this order, and no new call begins.\<close>

inductive tc_drain :: "'p provider \<Rightarrow> thread_id list \<Rightarrow> 'p tc_config \<Rightarrow> 'p tc_config \<Rightarrow> bool" for P where
  drain_none: "tc_drain P [] c c"
| drain_step: "tc_step P t (cf_point c t) c = Some (ev, c1) \<Longrightarrow> tc_drain P ts c1 c' \<Longrightarrow> tc_drain P (t # ts) c c'"

context memory_provider begin

lemma drain_bound:
  assumes "tc_drain P ts c c'" and "interleaved_ok live ok L c K" and "finite (busy c)"
  shows "(\<exists>K'. interleaved_ok live ok L c' K') \<and> length ts \<le> (\<Sum>t \<in> busy c. work t c) \<and> (\<forall>t. count_list ts t \<le> work t c)"
  using assms
proof (induction arbitrary: K rule: tc_drain.induct)
  case (drain_none c)
  then show ?case by auto
next
  case (drain_step t c ev c1 ts c')
  note inv1 = tc_step_ok [OF drain_step.prems(1) drain_step.hyps(1)]
  note wk = tc_step_work [OF drain_step.prems(1) drain_step.hyps(1)] and bs = busy_step [OF drain_step.hyps(1)]
  have ot: "work u c1 = work u c" if "u \<noteq> t" for u by (rule work_others [OF tc_step_stays [OF drain_step.hyps(1)] that])
  have IH: "\<exists>K'. interleaved_ok live ok L c' K'" "length ts \<le> (\<Sum>u \<in> busy c1. work u c1)" "\<And>u. count_list ts u \<le> work u c1"
    using drain_step.IH [OF inv1 finite_subset [OF bs(1) drain_step.prems(2)]] by blast+
  have "(\<Sum>u \<in> busy c1. work u c1) \<le> (\<Sum>u \<in> busy c. work u c1)" by (rule sum_mono2 [OF drain_step.prems(2) bs(1)]) simp
  also have "\<dots> < (\<Sum>u \<in> busy c. work u c)"
  proof (rule sum_strict_mono_ex1 [OF drain_step.prems(2)])
    show "\<forall>u \<in> busy c. work u c1 \<le> work u c" using ot wk by (metis less_imp_le le_refl)
    show "\<exists>u \<in> busy c. work u c1 < work u c" using bs(2) wk by blast
  qed
  finally have "length (t # ts) \<le> (\<Sum>u \<in> busy c. work u c)" using IH(2) by simp
  moreover have "count_list (t # ts) u \<le> work u c" for u using IH(3) [of u] wk ot [of u] by (cases "u = t") auto
  ultimately show ?case using IH(1) by blast
qed

end

end
