(* ===== verification/Thread_Cache_Properties.thy ===== *)
theory Thread_Cache_Properties
  imports Thread_Cached_Histories
begin

text \<open>
  The properties of the thread-cached allocator, stated over runs of its threads from construction on.
\<close>

section \<open>A concrete allocator\<close>

definition demo_tc_options :: thread_cache_options where
  "demo_tc_options = \<lparr>tco_low_watermark = 1, tco_high_watermark = 2, tco_refill_batch = 1\<rparr>"

definition demo_tca :: thread_cached where
  "demo_tca = projr (fst (tca_create new_delete_provider 0 demo_sg_options demo_tc_options demo_world))"

definition demo_tca_world :: "sys_heap world" where
  "demo_tca_world = snd (tca_create new_delete_provider 0 demo_sg_options demo_tc_options demo_world)"

lemmas demo_tca_eval = tca_create_def tc_create_def validate_cache_options_def demo_tc_options_def size_max_def demo_sg_eval

lemma demo_tca_created:
  "tca_create new_delete_provider 0 demo_sg_options demo_tc_options demo_world = (Inr demo_tca, demo_tca_world)"
proof -
  have "\<not> isl (fst (tca_create new_delete_provider 0 demo_sg_options demo_tc_options demo_world))"
    by (simp add: demo_tca_eval split: prod.splits)
  then show ?thesis
    by (cases "tca_create new_delete_provider 0 demo_sg_options demo_tc_options demo_world")
      (auto simp: demo_tca_def demo_tca_world_def)
qed

lemma demo_tca_fields:
  "tc_selector (tca_state demo_tca) = [16]" "tc_cache_options (tca_state demo_tca) = demo_tc_options"
  "tca_caches demo_tca = Map.empty" "tc_shards (tca_state demo_tca) = (\<lambda>_. Map.empty)"
  "sa_selector (tc_central (tca_state demo_tca)) = [16]"
  "\<exists>cp c. sa_pools (tc_central (tca_state demo_tca)) = [cp] \<and> cm_chunks (cp_manager cp) = [c] \<and> mc_free_blocks c = 1 \<and>
     mc_free_head c = 4096 \<and> mc_storage c = 4096 \<and> mc_block_stride c = 16 \<and> mc_states c = [0]"
  "w_meta demo_tca_world = w_meta demo_world"
  by (simp_all add: demo_tca_def demo_tca_world_def demo_tca_eval push_free_def block_at_def split: prod.splits)

lemma demo_tca_meta: "w_meta demo_tca_world k"
  using demo_tca_fields(7) by (simp add: demo_world_def)

lemma demo_tca_alloc:
  "\<exists>w x. tca_allocate new_delete_provider 1 10 8 (demo_tca_world, demo_tca) = (Inr 4096, (w, x)) \<and>
     tca_caches x 1 = Some [[]] \<and> tc_selector (tca_state x) = [16] \<and> tc_cache_options (tca_state x) = demo_tc_options \<and>
     find_record (tca_state x) 4096 =
       Some \<lparr>arec_class_index = 0, arec_requested_size = 10, arec_alignment = 8, arec_owner_thread = 1, arec_active = True\<rparr> \<and>
     find_record (tca_state x) 64 = None"
proof -
  obtain cp c where "sa_pools (tc_central (tca_state demo_tca)) = [cp]" "cm_chunks (cp_manager cp) = [c]" "mc_free_blocks c = 1"
     "mc_free_head c = 4096" "mc_storage c = 4096" "mc_block_stride c = 16" "mc_states c = [0]" using demo_tca_fields(6) by blast
  then show ?thesis
    by (simp add: tca_allocate_def registry_get_def demo_tca_fields(1-5) class_count_def cache_capacity_def vector_max_size_def
        demo_tc_options_def meta_alloc_def demo_tca_meta tc_allocate_def normalize_size_def demo_sg_select tc_allocate_refill_def
        central_allocate_def record_allocation_def find_record_def put_record_def note_live_allocation_def put_cache_def
        segregated_allocate_def allocate_pooled_def chunk_pool_allocate_def manager_try_allocate_def
        chunk_allocate_def chunk_block_index_def Let_def)
qed

definition demo_tca_next :: "sys_heap cached_state" where
  "demo_tca_next = snd (tca_allocate new_delete_provider 1 10 8 (demo_tca_world, demo_tca))"

lemma demo_tca_allocates:
  "tca_allocate new_delete_provider 1 10 8 (demo_tca_world, demo_tca) = (Inr 4096, demo_tca_next)"
  using demo_tca_alloc by (auto simp: demo_tca_next_def)

lemma demo_tca_held:
  "tca_caches (snd demo_tca_next) 1 = Some [[]]" "tc_selector (tca_state (snd demo_tca_next)) = [16]"
  "tc_cache_options (tca_state (snd demo_tca_next)) = demo_tc_options"
  "find_record (tca_state (snd demo_tca_next)) 4096 =
     Some \<lparr>arec_class_index = 0, arec_requested_size = 10, arec_alignment = 8, arec_owner_thread = 1, arec_active = True\<rparr>"
  "find_record (tca_state (snd demo_tca_next)) 64 = None"
  using demo_tca_alloc by (auto simp: demo_tca_next_def)

lemma demo_tca_run: "tca_run new_delete_provider (demo_tca_world, demo_tca) demo_tca_next {(4096, 10, 8)}"
  by (rule tca_alloc [OF tca_start demo_tca_allocates])

section \<open>Every run\<close>

lemma tca_reachable:
  assumes "memory_provider P live ok" and "ok (w_prov w)" and "tca_create P i so co w = (Inr x0, w0)" and "tca_run P (w0, x0) s K"
  shows "cached_ok live ok (live (w_prov w)) s K"
  using memory_provider.tca_run_ok [OF assms(1,4)] memory_provider.tca_create_ok [OF assms(1-3)] by simp

lemma record_active_iff:
  assumes "cached_ok live ok L (w, x) K" and "find_record (tca_state x) p = Some r"
  shows "arec_active r = (p \<in> fst ` K)"
proof
  note d = cache_okD(5) [OF cached_okD(1) [OF assms(1)]]
  show "p \<in> fst ` K" if "arec_active r" by (rule clients_okD(3) [OF d assms(2) that])
  show "arec_active r" if "p \<in> fst ` K"
  proof -
    from that obtain n a where "(p, n, a) \<in> K" by (metis imageE prod.collapse)
    then show ?thesis using clients_okD(2) [OF d, of p n a] assms(2) by auto
  qed
qed

lemma cache_capacity_unat:
  assumes "validate_cache_options (tc_cache_options tc) = Inr (tc_cache_options tc)"
  shows "unat (cache_capacity tc) = unat (tco_high_watermark (tc_cache_options tc)) + 1"
proof -
  have "tco_high_watermark (tc_cache_options tc) \<noteq> - 1"
    using assms by (auto simp: validate_cache_options_def size_max_def split: if_splits)
  then show ?thesis
    using unatSuc [of "tco_high_watermark (tc_cache_options tc)"] by (auto simp: cache_capacity_def add.commute add_eq_0_iff)
qed

text \<open>
  C35: in every interleaving of the calls of any number of threads, what the clients hold is non-null, aligned as requested
  and pairwise disjoint, \<^verbatim>\<open>owns\<close> confirms it, and any thread may return it, with or without its size: the only
  exceptions are those of a thread that has no cache yet and gets no memory for one, and they take nothing from the client.
  An allocation returns a block that nobody holds or throws; it never reaches undefined behaviour.
\<close>

theorem tca_client_safety:
  assumes "memory_provider P live ok" and "ok (w_prov w)" and "tca_create P i so co w = (Inr x0, w0)"
    and "tca_run P (w0, x0) (w1, x1) K"
  shows "(\<forall>q n a. (q, n, a) \<in> K \<longrightarrow>
        q \<noteq> 0 \<and> unat a dvd unat q \<and> tca_owns x1 q \<and>
        (\<forall>q' n' a'. (q', n', a') \<in> K - {(q, n, a)} \<longrightarrow> extent q n \<inter> extent q' n' = {}) \<and>
        (\<forall>t sized. sized = None \<or> sized = Some (n, a) \<longrightarrow>
           (case tca_deallocate P t q sized (w1, x1) of
              (Inr _, _) \<Rightarrow> True
            | (Inl e, s') \<Rightarrow> tca_caches x1 t = None \<and> (e = BadAlloc \<or> e = LengthError) \<and> snd s' = x1))) \<and>
     (\<forall>t n a. case tca_allocate P t n a (w1, x1) of
        (Inr q, _) \<Rightarrow> q \<notin> fst ` K
      | (Inl e, _) \<Rightarrow> e \<noteq> UndefinedBehaviour \<and> e \<noteq> Terminate)"
proof -
  note p = assms(1)
  note c = tca_reachable [OF assms]
  have frees: "case tca_deallocate P t q sized (w1, x1) of (Inr _, _) \<Rightarrow> True
      | (Inl e, s') \<Rightarrow> tca_caches x1 t = None \<and> (e = BadAlloc \<or> e = LengthError) \<and> snd s' = x1"
    if k: "(q, n, a) \<in> K" and sz: "sized = None \<or> sized = Some (n, a)" for q n a t sized
  proof -
    obtain r where r: "find_record (tca_state x1) q = Some r" by (rule memory_provider.client_record [OF p c k])
    note ck = memory_provider.size_check_same [OF p cached_okD(1) [OF c] k r sz]
    obtain y s' where de: "tca_deallocate P t q sized (w1, x1) = (y, s')" by (cases "tca_deallocate P t q sized (w1, x1)")
    show ?thesis using memory_provider.tca_deallocate_ok [OF p c k r ck de] de by (cases y) auto
  qed
  have held: "q \<noteq> 0 \<and> unat a dvd unat q \<and> tca_owns x1 q" if k: "(q, n, a) \<in> K" for q n a
    by (rule memory_provider.client_record [OF p c k]) (simp add: tca_owns_def tc_owns_def)
  have allocs: "case tca_allocate P t n a (w1, x1) of (Inr q, _) \<Rightarrow> q \<notin> fst ` K
      | (Inl e, _) \<Rightarrow> e \<noteq> UndefinedBehaviour \<and> e \<noteq> Terminate" for t n a
  proof -
    obtain y s' where al: "tca_allocate P t n a (w1, x1) = (y, s')" by (cases "tca_allocate P t n a (w1, x1)")
    show ?thesis using memory_provider.tca_allocate_ok [OF p c al] al by (cases y) auto
  qed
  show ?thesis
  proof (intro conjI allI impI, goal_cases)
    case (4 q n a q' n' a')
    then show ?case using memory_provider.cache_clients_apart [OF p cached_okD(1) [OF c], of q n a q' n' a'] by blast
  next
    case (5 q n a t sized)
    then show ?case by (rule frees)
  next
    case (6 t n a)
    then show ?case by (rule allocs)
  qed (use held in blast)+
qed

theorem tca_client_safety_witness:
  "unat (8 :: size_t) dvd unat (4096 :: addr) \<and> tca_owns (snd demo_tca_next) 4096 \<and>
     \<not> isl (fst (tca_deallocate new_delete_provider 1 4096 (Some (10, 8)) demo_tca_next))"
proof -
  have run: "tca_run new_delete_provider (demo_tca_world, demo_tca) (fst demo_tca_next, snd demo_tca_next) {(4096, 10, 8)}"
    using demo_tca_run by simp
  note safe = tca_client_safety [OF new_delete.memory_provider_axioms demo_world_ok demo_tca_created run]
  note k = safe [THEN conjunct1, rule_format, of 4096 10 8]
  have "case tca_deallocate new_delete_provider 1 4096 (Some (10, 8)) demo_tca_next of (Inr _, _) \<Rightarrow> True
     | (Inl e, s') \<Rightarrow> tca_caches (snd demo_tca_next) 1 = None \<and> (e = BadAlloc \<or> e = LengthError) \<and> snd s' = snd demo_tca_next"
    using k by simp
  then have "\<not> isl (fst (tca_deallocate new_delete_provider 1 4096 (Some (10, 8)) demo_tca_next))"
    using demo_tca_held(1) by (auto split: prod.splits sum.splits)
  moreover have "unat (8 :: size_t) dvd unat (4096 :: addr)" "tca_owns (snd demo_tca_next) 4096" using k by blast+
  ultimately show ?thesis by blast
qed

text \<open>
  C36: the caches are well formed in every reachable state. The cache of a thread has one bin per size class; a bin
  has no duplicates and never more blocks than the high watermark, so the insertion of one more block stays within the
  capacity reserved for it and the noexcept paths never reallocate. A record is active exactly when a client holds
  its block; otherwise the block is in the bin of its class of the thread that owns it, and bins hold nothing else.
\<close>

theorem tca_caches_wellformed:
  assumes "memory_provider P live ok" and "ok (w_prov w)" and "tca_create P i so co w = (Inr x0, w0)"
    and "tca_run P (w0, x0) (w1, x1) K"
  shows "(\<forall>t bs. tca_caches x1 t = Some bs \<longrightarrow> length bs = class_count (tca_state x1) \<and>
        (\<forall>b \<in> set bs. distinct b \<and> length b \<le> unat (tco_high_watermark (tc_cache_options (tca_state x1))) \<and>
           length b + 1 \<le> unat (cache_capacity (tca_state x1)))) \<and>
     (\<forall>t bs j p. tca_caches x1 t = Some bs \<longrightarrow> j < length bs \<longrightarrow> p \<in> set (bs ! j) \<longrightarrow>
        (\<exists>r. find_record (tca_state x1) p = Some r \<and> \<not> arec_active r \<and> arec_owner_thread r = t \<and> arec_class_index r = of_nat j)) \<and>
     (\<forall>p r. find_record (tca_state x1) p = Some r \<longrightarrow>
        (if arec_active r then p \<in> fst ` K
         else p \<notin> fst ` K \<and> (\<exists>bs. tca_caches x1 (arec_owner_thread r) = Some bs \<and> unat (arec_class_index r) < length bs \<and>
            p \<in> set (bs ! unat (arec_class_index r)))))"
proof -
  note c = tca_reachable [OF assms]
  note d = cache_okD [OF cached_okD(1) [OF c]]
  let ?o = "tc_cache_options (tca_state x1)"
  have bin: "bins_of x1 t j = bs ! j" if "tca_caches x1 t = Some bs" "j < length bs" for t bs j
    using that by (simp add: bins_of_def nth_bin_def)
  have A: "length bs = class_count (tca_state x1)" "distinct b" "length b \<le> unat (tco_high_watermark ?o)"
    if cs: "tca_caches x1 t = Some bs" and b: "b \<in> set bs" for t bs b
  proof -
    show "length bs = class_count (tca_state x1)" "length b \<le> unat (tco_high_watermark ?o)"
      using cached_okD(2) [OF c cs] b by (auto simp: bins_bounded_def)
    obtain j where "j < length bs" "b = bs ! j" using b by (auto simp: in_set_conv_nth)
    then show "distinct b" using bins_okD(2) [OF d(4), of t j] bin [OF cs] by simp
  qed
  have B: "\<exists>r. find_record (tca_state x1) p = Some r \<and> \<not> arec_active r \<and> arec_owner_thread r = t \<and> arec_class_index r = of_nat j"
    if "tca_caches x1 t = Some bs" "j < length bs" "p \<in> set (bs ! j)" for t bs j p
    using bins_okD(1) [OF d(4), of p t j] bin [OF that(1,2)] that(3) by simp
  have C: "\<exists>bs. tca_caches x1 (arec_owner_thread r) = Some bs \<and> unat (arec_class_index r) < length bs \<and> p \<in> set (bs ! unat (arec_class_index r))"
    if "find_record (tca_state x1) p = Some r" "\<not> arec_active r" for p r
    using bins_okD(3) [OF d(4) that] by (auto simp: bins_of_def nth_bin_def split: option.splits if_splits)
  have E: "length bs = class_count (tca_state x1)" if "tca_caches x1 t = Some bs" for t bs
    using cached_okD(2) [OF c that] by (simp add: bins_bounded_def)
  show ?thesis
  proof (intro conjI allI impI ballI, goal_cases)
    case (6 p r)
    then show ?case using C record_active_iff [OF c] by (simp split: if_splits)
  qed (use A E B cache_capacity_unat [OF d(6)] in auto)
qed

theorem tca_caches_wellformed_witness:
  "class_count (tca_state (snd demo_tca_next)) = 1 \<and> unat (cache_capacity (tca_state (snd demo_tca_next))) \<ge> 1"
proof -
  have run: "tca_run new_delete_provider (demo_tca_world, demo_tca) (fst demo_tca_next, snd demo_tca_next) {(4096, 10, 8)}"
    using demo_tca_run by simp
  note wf = tca_caches_wellformed [OF new_delete.memory_provider_axioms demo_world_ok demo_tca_created run]
  show ?thesis using wf [THEN conjunct1, rule_format, OF demo_tca_held(1)] by auto
qed

text \<open>
  C37: a constructor that throws leaves the provider's grants as they were, and the destructor returns everything, whatever the
  threads did before. Releasing the cache of a thread, by call or at its end, never fails; once no thread has a
  cache, the allocator owns exactly what its clients hold.
\<close>

theorem tca_no_leak:
  assumes "memory_provider P live ok" and "ok (w_prov w)" and "tca_create P i so co w = (r, w0)"
  shows "case r of
       Inl _ \<Rightarrow> live (w_prov w0) = live (w_prov w)
     | Inr x0 \<Rightarrow> (\<forall>w1 x1 K. tca_run P (w0, x0) (w1, x1) K \<longrightarrow>
         (\<forall>t. live (w_prov (tca_destroy P t (w1, x1))) = live (w_prov w)) \<and>
         (\<forall>t. \<exists>n s'. release_current_thread_cache P t (w1, x1) = (Inr n, s') \<and> registry_exit P t (w1, x1) = s' \<and>
            tca_caches (snd s') = (tca_caches x1)(t := None)) \<and>
         (tca_caches x1 = Map.empty \<longrightarrow> (\<forall>q. tca_owns x1 q \<longleftrightarrow> q \<in> fst ` K)))"
proof (cases r)
  case (Inl e)
  then show ?thesis using memory_provider.tca_create_ok [OF assms] by simp
next
  case (Inr x0)
  note p = assms(1)
  have *: "(\<forall>t. live (w_prov (tca_destroy P t (w1, x1))) = live (w_prov w)) \<and>
         (\<forall>t. \<exists>n s'. release_current_thread_cache P t (w1, x1) = (Inr n, s') \<and> registry_exit P t (w1, x1) = s' \<and>
            tca_caches (snd s') = (tca_caches x1)(t := None)) \<and>
         (tca_caches x1 = Map.empty \<longrightarrow> (\<forall>q. tca_owns x1 q \<longleftrightarrow> q \<in> fst ` K))"
    if run: "tca_run P (w0, x0) (w1, x1) K" for w1 x1 K
  proof (intro conjI allI impI)
    note c = tca_reachable [OF assms(1,2) assms(3) [unfolded Inr] run]
    show "live (w_prov (tca_destroy P t (w1, x1))) = live (w_prov w)" for t by (rule memory_provider.tca_destroy_ok(2) [OF p c])
    show "\<exists>n s'. release_current_thread_cache P t (w1, x1) = (Inr n, s') \<and> registry_exit P t (w1, x1) = s' \<and>
        tca_caches (snd s') = (tca_caches x1)(t := None)" for t
      using memory_provider.registry_release_ok [OF p c, of t] by (auto simp: release_current_thread_cache_def)
    fix q
    assume none: "tca_caches x1 = Map.empty"
    note d = cache_okD [OF cached_okD(1) [OF c]]
    show "tca_owns x1 q \<longleftrightarrow> q \<in> fst ` K"
    proof
      assume "tca_owns x1 q"
      then obtain r where r: "find_record (tca_state x1) q = Some r" by (auto simp: tca_owns_def tc_owns_def split: if_splits)
      have "arec_active r" using bins_okD(3) [OF d(4) r] none by (auto simp: bins_of_def)
      then show "q \<in> fst ` K" using record_active_iff [OF c r] by simp
    next
      assume "q \<in> fst ` K"
      then obtain n a where k: "(q, n, a) \<in> K" by (metis imageE prod.collapse)
      show "tca_owns x1 q" by (rule memory_provider.client_record [OF p c k]) (simp add: tca_owns_def tc_owns_def)
    qed
  qed
  then show ?thesis using Inr by simp
qed

theorem tca_no_leak_witness:
  "new_delete_live (w_prov (tca_destroy new_delete_provider 2 demo_tca_next)) = {}"
proof -
  have "new_delete_live (w_prov demo_world) = {}"
    by (simp add: demo_world_def new_delete_live_def empty_sys_heap_def)
  moreover have "tca_run new_delete_provider (demo_tca_world, demo_tca) (fst demo_tca_next, snd demo_tca_next) {(4096, 10, 8)}"
    using demo_tca_run by simp
  ultimately show ?thesis
    using tca_no_leak [OF new_delete.memory_provider_axioms demo_world_ok demo_tca_created, unfolded sum.case] by (metis prod.collapse)
qed

text \<open>
  A thread with a cache that returns what it must not gets an exception that tells what is wrong, and nothing changes but the
  count of requests. A pointer that no client holds is reported as a double free while the block is cached,
  and as foreign otherwise. A size or alignment of another size class (for a direct allocation: other
  than the requested ones) is a mismatch, an alignment that is no power of two an invalid argument.
\<close>

theorem tca_rejects:
  assumes "memory_provider P live ok" and "ok (w_prov w)" and "tca_create P i so co w = (Inr x0, w0)"
    and "tca_run P (w0, x0) (w1, x1) K" and "tca_caches x1 t = Some bs" and "q \<noteq> 0"
  defines "pick \<equiv> selector_select (tc_selector (tca_state x1))"
    and "x2 \<equiv> x1\<lparr>tca_state := (tca_state x1)\<lparr>tc_statistics := (tc_statistics (tca_state x1))
           \<lparr>tcs_deallocation_requests := tcs_deallocation_requests (tc_statistics (tca_state x1)) + 1\<rparr>\<rparr>\<rparr>"
  shows "(q \<notin> fst ` K \<longrightarrow> tca_deallocate P t q sized (w1, x1) =
       (Inl (if tca_owns x1 q then DoubleFreeError else InvalidPoolPointer), (w1, x2))) \<and>
     (\<forall>n a n' a'. (q, n, a) \<in> K \<longrightarrow> \<not> (pick n' a' = pick n a \<and> (pick n a \<noteq> Inr None \<or> max n' 1 = max n 1 \<and> a' = a)) \<longrightarrow>
       tca_deallocate P t q (Some (n', a')) (w1, x1) =
       (Inl (if is_power_of_two a' \<or> pick n a = Inr None then AllocationMismatchError else InvalidArgument), (w1, x2)))"
proof -
  note p = assms(1) and c = tca_reachable [OF assms(1-4)]
  have rej: "tca_deallocate P t q z (w1, x1) = (Inl e, (w1, x2))"
    if "case find_record (tca_state x1) q of None \<Rightarrow> e = InvalidPoolPointer | Some r \<Rightarrow>
       (if arec_active r then size_check (tca_state x1) r z = Inl e else e = DoubleFreeError)" for z e
    using tc_deallocate_rejected [OF that, of P t bs w1] assms(5,6)
    by (simp add: tca_deallocate_def registry_get_def put_cache_def x2_def fun_upd_idem)
  show ?thesis
  proof (intro conjI allI impI)
    assume "q \<notin> fst ` K"
    then have "\<not> arec_active r" if "find_record (tca_state x1) q = Some r" for r using record_active_iff [OF c that] by simp
    then show "tca_deallocate P t q sized (w1, x1) = (Inl (if tca_owns x1 q then DoubleFreeError else InvalidPoolPointer), (w1, x2))"
      using assms(6) by (intro rej) (auto simp: tca_owns_def tc_owns_def split: option.splits)
  next
    fix n a n' a'
    assume k: "(q, n, a) \<in> K" and ne: "\<not> (pick n' a' = pick n a \<and> (pick n a \<noteq> Inr None \<or> max n' 1 = max n 1 \<and> a' = a))"
    obtain r where r: "find_record (tca_state x1) q = Some r" "arec_active r" by (rule memory_provider.client_record [OF p c k])
    have "\<not> request_matches (tc_selector (tca_state x1)) n a n' a'"
      using ne by (auto simp: request_matches_def pick_def normalize_size_def)
    then show "tca_deallocate P t q (Some (n', a')) (w1, x1) =
       (Inl (if is_power_of_two a' \<or> pick n a = Inr None then AllocationMismatchError else InvalidArgument), (w1, x2))"
      using r memory_provider.size_check_value [OF p cached_okD(1) [OF c] k r(1), of n' a'] by (intro rej) (simp add: pick_def)
  qed
qed

theorem tca_rejects_witness:
  "fst (tca_deallocate new_delete_provider 1 64 None demo_tca_next) = Inl InvalidPoolPointer \<and>
   fst (tca_deallocate new_delete_provider 1 4096 (Some (10, 3)) demo_tca_next) = Inl InvalidArgument"
proof -
  have run: "tca_run new_delete_provider (demo_tca_world, demo_tca) (fst demo_tca_next, snd demo_tca_next) {(4096, 10, 8)}"
    using demo_tca_run by simp
  note rej = tca_rejects [OF new_delete.memory_provider_axioms demo_world_ok demo_tca_created run demo_tca_held(1)]
  have "\<not> is_power_of_two 3" by (simp add: is_power_of_two_def)
  moreover have "selector_select [16] 10 3 = Inl InvalidArgument" using calculation by (simp add: selector_select_def)
  ultimately have "fst (tca_deallocate new_delete_provider 1 4096 (Some (10, 3)) demo_tca_next) = Inl InvalidArgument"
    using rej [of 4096] demo_sg_select demo_tca_held(2) by simp
  moreover have "\<not> tca_owns (snd demo_tca_next) 64"
    using demo_tca_held(5) by (simp add: tca_owns_def tc_owns_def)
  ultimately show ?thesis using rej [of 64 None] by simp
qed

section \<open>Reuse\<close>

lemma cached_deallocate_local:
  assumes "tca_caches x t = Some bs" and "q \<noteq> 0" and "find_record (tca_state x) q = Some r" and "arec_active r"
    and "arec_owner_thread r = t" and "arec_class_index r = of_nat i" and "unat (of_nat i :: size_t) = i" and "(of_nat i :: size_t) \<noteq> fallback_class"
    and "size_check (tca_state x) r sized = Inr ()"
    and "length (bs ! i) < unat (tco_high_watermark (tc_cache_options (tca_state x)))"
  shows "\<exists>x'. tca_deallocate P t q sized (w, x) = (Inr (), (w, x')) \<and> tca_caches x' = (tca_caches x)(t \<mapsto> bs[i := bs ! i @ [q]]) \<and>
     find_record (tca_state x') = (find_record (tca_state x))(q \<mapsto> r\<lparr>arec_active := False\<rparr>) \<and>
     tc_central (tca_state x') = tc_central (tca_state x) \<and> same_setup (tca_state x) (tca_state x')"
proof -
  have "size_check ((tca_state x)\<lparr>tc_statistics := y\<rparr>) r sized = Inr ()" for y
    using assms(9) by (auto simp: size_check_def validate_sized_deallocation_def Let_def split: option.splits)
  then show ?thesis
    using assms by (simp add: tca_deallocate_def registry_get_def tc_deallocate_def tc_deallocate_local_def Let_def size_check_def
        put_cache_def same_setup_def)
qed

lemma cached_allocate_hit:
  assumes "tca_caches x t = Some bs" and "selector_select (tc_selector (tca_state x)) (normalize_size n) a = Inr (Some i)" and "i < length bs"
    and "bs ! i = b @ [q]" and "find_record (tca_state x) q = Some r" and "\<not> arec_active r"
  shows "\<exists>x'. tca_allocate P t n a (w, x) = (Inr q, (w, x')) \<and> tca_caches x' = (tca_caches x)(t \<mapsto> bs[i := b]) \<and>
     tc_central (tca_state x') = tc_central (tca_state x)"
  using assms by (simp add: tca_allocate_def registry_get_def tc_allocate_def tc_allocate_cached_def Let_def put_cache_def)

text \<open>
  A block that its owner returns while its bin has room is what the owner's next request of the same size class gets, whatever
  size and alignment of the class it asks for. Neither call touches the central allocator, the memory or the provider, and the cache is
  as it was.
\<close>

theorem tca_cache_reuse:
  assumes "memory_provider P live ok" and "ok (w_prov w)" and "tca_create P i0 so co w = (Inr x0, w0)"
    and "tca_run P (w0, x0) (w1, x1) K" and "(q, n, a) \<in> K" and "sized = None \<or> sized = Some (n, a)"
    and "find_record (tca_state x1) q = Some r" and "tca_caches x1 (arec_owner_thread r) = Some bs"
    and "selector_select (tc_selector (tca_state x1)) n a = Inr (Some i)"
    and "selector_select (tc_selector (tca_state x1)) n' a' = Inr (Some i)"
    and "length (bs ! i) < unat (tco_high_watermark (tc_cache_options (tca_state x1)))"
  shows "\<exists>x2 x3. tca_deallocate P (arec_owner_thread r) q sized (w1, x1) = (Inr (), (w1, x2)) \<and>
     tca_allocate P (arec_owner_thread r) n' a' (w1, x2) = (Inr q, (w1, x3)) \<and>
     tc_central (tca_state x2) = tc_central (tca_state x1) \<and> tc_central (tca_state x3) = tc_central (tca_state x1) \<and>
     tca_caches x3 = tca_caches x1"
proof -
  note p = assms(1) and c = tca_reachable [OF assms(1-4)]
  let ?t = "arec_owner_thread r"
  note d = cache_okD [OF cached_okD(1) [OF c]] and v = memory_provider.cache_ok_valid [OF p cached_okD(1) [OF c]]
  have q0: "q \<noteq> 0" by (rule memory_provider.client_record [OF p c assms(5)])
  have act: "arec_active r" using record_active_iff [OF c assms(7)] assms(5) by force
  have na: "arec_requested_size r = normalize_size n" "arec_alignment r = a" using clients_okD(2) [OF d(5) assms(5)] assms(7) by auto
  have i: "i < length (tc_selector (tca_state x1))" by (rule selector_select_Some(1) [OF v assms(9)])
  have ix: "arec_class_index r = of_nat i" using record_class [OF d(3) assms(7)] na assms(9) by (auto split: if_splits)
  have ib: "i < length bs" using i cached_okD(2) [OF c assms(8)] by (simp add: bins_bounded_def class_count_def)
  obtain x2 where de: "tca_deallocate P ?t q sized (w1, x1) = (Inr (), (w1, x2))"
      "tca_caches x2 = (tca_caches x1)(?t \<mapsto> bs[i := bs ! i @ [q]])"
      "find_record (tca_state x2) = (find_record (tca_state x1))(q \<mapsto> r\<lparr>arec_active := False\<rparr>)"
      "tc_central (tca_state x2) = tc_central (tca_state x1)" "same_setup (tca_state x1) (tca_state x2)"
    using cached_deallocate_local [OF assms(8) q0 assms(7) act refl ix class_index [OF v i]
        memory_provider.size_check_same [OF p cached_okD(1) [OF c] assms(5,7,6)] assms(11), of P w1] by blast
  have "\<exists>x3. tca_allocate P ?t n' a' (w1, x2) = (Inr q, (w1, x3)) \<and>
      tca_caches x3 = (tca_caches x2)(?t \<mapsto> (bs[i := bs ! i @ [q]])[i := bs ! i]) \<and> tc_central (tca_state x3) = tc_central (tca_state x2)"
    using de(2,3,5) assms(10) ib by (intro cached_allocate_hit [where r = "r\<lparr>arec_active := False\<rparr>"]) (simp_all add: same_setup_def)
  then obtain x3 where al: "tca_allocate P ?t n' a' (w1, x2) = (Inr q, (w1, x3))"
      "tca_caches x3 = (tca_caches x2)(?t \<mapsto> bs)" "tc_central (tca_state x3) = tc_central (tca_state x2)" by auto
  have "tca_caches x3 = tca_caches x1" using al(2) de(2) assms(8) by (simp add: fun_upd_idem)
  then show ?thesis using de(1,4) al(1,3) by auto
qed

theorem tca_cache_reuse_witness:
  "\<exists>x2 x3. tca_deallocate new_delete_provider 1 4096 None demo_tca_next = (Inr (), (fst demo_tca_next, x2)) \<and>
     tca_allocate new_delete_provider 1 10 8 (fst demo_tca_next, x2) = (Inr 4096, (fst demo_tca_next, x3))"
proof -
  have run: "tca_run new_delete_provider (demo_tca_world, demo_tca) (fst demo_tca_next, snd demo_tca_next) {(4096, 10, 8)}"
    using demo_tca_run by simp
  show ?thesis
    using tca_cache_reuse [OF new_delete.memory_provider_axioms demo_world_ok demo_tca_created run _ _ demo_tca_held(4),
        of 10 8 None "[[]]" 0 10 8] demo_tca_held demo_sg_select by (auto simp: demo_tc_options_def)
qed

section \<open>Peaks under interference\<close>

text \<open>
  The loop of \<^verbatim>\<open>update_peak\<close>: \<open>sched k\<close> is the value of the counter when the \<open>k\<close>-th compare-and-exchange reaches it, and whether that
  attempt fails spuriously, as the weak form may. The result is the value the loop left or saw in the counter.
  A loop that has not ended within the fuel gives no result.
\<close>

fun update_peak_loop :: "nat \<Rightarrow> (nat \<Rightarrow> size_t \<times> bool) \<Rightarrow> nat \<Rightarrow> size_t \<Rightarrow> size_t \<Rightarrow> size_t option" where
  "update_peak_loop 0 sched k observed candidate = None"
| "update_peak_loop (Suc fuel) sched k observed candidate =
     (if observed < candidate
      then (case sched k of (peak, spurious) \<Rightarrow>
              if peak = observed \<and> \<not> spurious then Some candidate
              else update_peak_loop fuel sched (Suc k) peak candidate)
      else Some observed)"

lemma update_peak_loop_ends:
  assumes "\<And>k. fst (sched k) \<le> fst (sched (Suc k))" and "observed \<le> fst (sched k)"
    and "finite {j. k \<le> j \<and> snd (sched j)}" and "card {j. k \<le> j \<and> snd (sched j)} \<le> N" and "N + (unat candidate - unat observed) < fuel"
  shows "\<exists>v. update_peak_loop fuel sched k observed candidate = Some v \<and> candidate \<le> v \<and>
     (v = candidate \<or> v = observed \<or> (\<exists>j. v = fst (sched j)))"
  using assms(2-)
proof (induction fuel arbitrary: k observed N)
  case (Suc fuel)
  obtain peak spurious where sk: "sched k = (peak, spurious)" by (cases "sched k")
  show ?case
  proof (cases "observed < candidate \<and> \<not> (peak = observed \<and> \<not> spurious)")
    case False
    then show ?thesis using sk by auto
  next
    case True
    let ?S = "\<lambda>k. {j. k \<le> j \<and> snd (sched j)}"
    have sub: "?S (Suc k) \<subseteq> ?S k" by auto
    have fin: "finite (?S (Suc k))" by (rule finite_subset [OF sub Suc.prems(2)])
    have le: "peak \<le> fst (sched (Suc k))" using assms(1) [of k] sk by simp
    have "\<exists>M. card (?S (Suc k)) \<le> M \<and> M + (unat candidate - unat peak) < fuel"
    proof (cases spurious)
      case True
      have "?S k = insert k (?S (Suc k))" using sk True by (auto simp: le_less_Suc_eq Suc_le_eq le_less)
      then have "card (?S k) = Suc (card (?S (Suc k)))" using fin by simp
      moreover have "unat observed \<le> unat peak" using Suc.prems(1) sk by (simp add: word_le_nat_alt)
      ultimately show ?thesis using Suc.prems(3,4) by (intro exI [of _ "N - 1"]) linarith
    next
      case False
      have "card (?S (Suc k)) \<le> card (?S k)" by (rule card_mono [OF Suc.prems(2) sub])
      moreover have "observed < peak" using Suc.prems(1) sk False \<open>observed < candidate \<and> \<not> (peak = observed \<and> \<not> spurious)\<close> by auto
      moreover have "unat observed < unat peak" using calculation(2) by (simp add: word_less_nat_alt)
      moreover have "unat observed < unat candidate" using True by (simp add: word_less_nat_alt)
      ultimately show ?thesis using Suc.prems(3,4) by (intro exI [of _ N]) linarith
    qed
    then obtain M where M: "card (?S (Suc k)) \<le> M" "M + (unat candidate - unat peak) < fuel" by blast
    obtain v where v: "update_peak_loop fuel sched (Suc k) peak candidate = Some v" "candidate \<le> v"
        "v = candidate \<or> v = peak \<or> (\<exists>j. v = fst (sched j))"
      using Suc.IH [OF le fin M] by blast
    have "peak = fst (sched k)" using sk by simp
    then have "v = candidate \<or> v = observed \<or> (\<exists>j. v = fst (sched j))" using v(3) by blast
    then show ?thesis using True sk v(1,2) by auto
  qed
qed simp

text \<open>
  C40: whatever other threads do to a peak counter, which they only raise, the compare-and-exchange loop ends: after at most one attempt
  per spurious failure and one per value between the observed peak and the candidate. The counter is then at least
  the candidate, and holds the candidate or a value some thread put there. Undisturbed, the loop computes the maximum.
\<close>

theorem update_peak_terminates:
  assumes "\<And>k. fst (sched k) \<le> fst (sched (Suc k))" and "observed \<le> fst (sched 0)"
    and "finite {j. snd (sched j)}"
  shows "(\<exists>v. update_peak_loop (card {j. snd (sched j)} + (unat candidate - unat observed) + 1) sched 0 observed candidate = Some v \<and>
        candidate \<le> v \<and> (v = candidate \<or> v = observed \<or> (\<exists>j. v = fst (sched j)))) \<and>
     (sched 0 = (observed, False) \<longrightarrow> update_peak_loop 2 sched 0 observed candidate = Some (update_peak observed candidate))"
proof
  have "{j. 0 \<le> j \<and> snd (sched j)} = {j. snd (sched j)}" by simp
  then show "\<exists>v. update_peak_loop (card {j. snd (sched j)} + (unat candidate - unat observed) + 1) sched 0 observed candidate = Some v \<and>
        candidate \<le> v \<and> (v = candidate \<or> v = observed \<or> (\<exists>j. v = fst (sched j)))"
    using assms(3) by (intro update_peak_loop_ends [where N = "card {j. snd (sched j)}", OF assms(1,2)]) simp_all
  show "sched 0 = (observed, False) \<longrightarrow> update_peak_loop 2 sched 0 observed candidate = Some (update_peak observed candidate)"
    by (simp add: update_peak_def numeral_2_eq_2)
qed

theorem update_peak_terminates_witness:
  "\<exists>v. update_peak_loop 6 (\<lambda>k. (if k = 0 then 3 else 4, False)) 0 2 (7 :: size_t) = Some v \<and> 7 \<le> v"
proof -
  let ?s = "\<lambda>k :: nat. (if k = 0 then 3 else 4 :: size_t, False)"
  have "card {j. snd (?s j)} + (unat (7 :: size_t) - unat (2 :: size_t)) + 1 = 6" by simp
  moreover have "fst (?s k) \<le> fst (?s (Suc k))" for k by simp
  ultimately show ?thesis using update_peak_terminates [of ?s 2 7] by auto
qed

end
