(* ===== verification/Thread_Cache_Interleaving_Properties.thy ===== *)
theory Thread_Cache_Interleaving_Properties
  imports Thread_Cache_Linearizable Thread_Cache_Progress Thread_Cache_Properties
begin

text \<open>
  The properties of the thread-cached allocator when the critical sections of its calls interleave.
\<close>

section \<open>A concrete execution\<close>

text \<open>Thread 1 asks for ten bytes: its bin is empty, a batch of one block comes from the central allocator.\<close>

abbreviation demo_step :: "sys_heap tc_config \<Rightarrow> (tc_event \<times> sys_heap tc_config) option" where
  "demo_step c \<equiv> tc_step new_delete_provider 1 (cf_point c 1) c"

lemma demo_exec_steps:
  "\<exists>c1 c2 c3. demo_step (goto 1 (TAllocate 10 8) (demo_tca_world, demo_tca) (tc_start (demo_tca_world, demo_tca))) = Some (Silent, c1) \<and>
     demo_step c1 = Some (Silent, c2) \<and> demo_step c2 = Some (Acquired 4096 10 8, c3) \<and>
     cf_point c3 = (\<lambda>_. TIdle)(1 := TRefill 0 10 8 0 (Some 4096))"
proof -
  obtain cp c where "sa_pools (tc_central (tca_state demo_tca)) = [cp]" "cm_chunks (cp_manager cp) = [c]" "mc_free_blocks c = 1"
     "mc_free_head c = 4096" "mc_storage c = 4096" "mc_block_stride c = 16" "mc_states c = [0]" using demo_tca_fields(6) by blast
  then show ?thesis
    by (simp add: step_allocate_def registry_get_def demo_tca_fields(1-5) class_count_def cache_capacity_def vector_max_size_def tc_start_def
        demo_tc_options_def meta_alloc_def demo_tca_meta normalize_size_def demo_sg_select step_refill_def step_refill_record_def shard_free_def
        central_allocate_def record_allocation_def find_record_def put_record_def put_cache_def
        segregated_allocate_def allocate_pooled_def chunk_pool_allocate_def manager_try_allocate_def
        chunk_allocate_def chunk_block_index_def Let_def)
qed

lemma demo_exec:
  "\<exists>c. tc_exec new_delete_provider (demo_tca_world, demo_tca) c {(4096, 10, 8)} [(1, Called (CallAllocate 10 8))] \<and>
     cf_point c = (\<lambda>_. TIdle)(1 := TRefill 0 10 8 0 (Some 4096))"
proof -
  let ?s = "(demo_tca_world, demo_tca)"
  obtain c1 c2 c3 where st: "demo_step (goto 1 (TAllocate 10 8) ?s (tc_start ?s)) = Some (Silent, c1)"
      "demo_step c1 = Some (Silent, c2)" "demo_step c2 = Some (Acquired 4096 10 8, c3)"
      "cf_point c3 = (\<lambda>_. TIdle)(1 := TRefill 0 10 8 0 (Some 4096))" using demo_exec_steps by blast
  have "cf_point (tc_start ?s) 1 = TIdle" "cf_state (tc_start ?s) = ?s" by (simp_all add: tc_start_def)
  then have 0: "tc_exec new_delete_provider ?s (goto 1 (TAllocate 10 8) ?s (tc_start ?s)) {} [(1, Called (CallAllocate 10 8))]"
    using exec_call [OF exec_start, of "(demo_tca_world, demo_tca)" 1 new_delete_provider "CallAllocate 10 8"] by simp
  note 1 = exec_step [OF 0 st(1)]
  note 2 = exec_step [OF 1 st(2)]
  from exec_step [OF 2 st(3)] show ?thesis using st(4) by (auto simp: visible_def)
qed

section \<open>Safety\<close>

text \<open>
  C38: the calls of any number of threads are linearizable at the granularity of the critical sections. Whatever the threads
  call, also deallocations of pointers that nobody has or has any more, and in whatever order their sections under the mutexes of the
  record shards and of the central allocator run, the history of calls and answers is one of the atomic allocator: each call takes effect in a
  single step between its call and its return, which serves a request with a non-null, aligned block disjoint from everything that is out, takes a
  block back that is out, or answers with the exception that tells what is wrong. In every intermediate state what is out is owned and disjoint.
\<close>

theorem tc_linearizable:
  assumes "memory_provider P live ok" and "ok (w_prov w)" and "tca_create P i so co w = (Inr x0, w0)"
    and "tc_exec P (w0, x0) c K h"
  shows "atomic_run (sgo_size_classes so) K (\<lambda>t. status (cf_point c t)) h \<and>
     (\<forall>q n a. (q, n, a) \<in> K \<longrightarrow> q \<noteq> 0 \<and> unat a dvd unat q \<and> tca_owns (snd (cf_state c)) q \<and>
        (\<forall>q' n' a'. (q', n', a') \<in> K \<longrightarrow> (q', n', a') \<noteq> (q, n, a) \<longrightarrow> extent q n \<inter> extent q' n' = {}))"
proof -
  note p = assms(1)
  have st: "cached_ok live ok (live (w_prov w)) (w0, x0) {}" "tc_selector (tca_state x0) = sgo_size_classes so"
    using memory_provider.tca_create_ok [OF assms(1-3)] by simp_all
  note inv = memory_provider.tc_exec_ok [OF p assms(4) st(1)]
  have "atomic_run (sgo_size_classes so) K (\<lambda>t. status (cf_point c t)) h"
    using memory_provider.tc_exec_atomic [OF p assms(4) st(1)] st(2) by simp
  then show ?thesis using memory_provider.exec_client [OF p inv] by blast
qed

theorem tc_linearizable_witness:
  "atomic_run [16] {(4096, 10, 8)} ((\<lambda>_. Resting)(1 := Finished (Inr (AnsPointer 4096)))) [(1, Called (CallAllocate 10 8))] \<and>
     unat (8 :: size_t) dvd unat (4096 :: addr)"
proof -
  obtain c where c: "tc_exec new_delete_provider (demo_tca_world, demo_tca) c {(4096, 10, 8)} [(1, Called (CallAllocate 10 8))]"
      "cf_point c = (\<lambda>_. TIdle)(1 := TRefill 0 10 8 0 (Some 4096))" using demo_exec by blast
  note l = tc_linearizable [OF new_delete.memory_provider_axioms demo_world_ok demo_tca_created c(1)]
  have "sgo_size_classes demo_sg_options = [16]" by (simp add: demo_sg_options_def)
  moreover have "(\<lambda>t. status (cf_point c t)) = (\<lambda>_. Resting)(1 := Finished (Inr (AnsPointer 4096)))" using c(2) by (simp add: fun_eq_iff)
  moreover have "unat (8 :: size_t) dvd unat (4096 :: addr)" using l [THEN conjunct2, rule_format, of 4096 10 8] by simp
  ultimately show ?thesis using l [THEN conjunct1] by simp
qed

section \<open>Progress\<close>

text \<open>
  C39: the calls neither deadlock nor run forever. A thread that cannot move waits for the mutex of a shard, whose holder is another
  thread that can move. When no new calls begin, a thread takes at most \<open>work\<close> more steps (three per block of the refill batch and five for
  an allocation, three per block of the high watermark and eight for a deallocation), in whatever order the threads
  are scheduled, so that every schedule ends; one that cannot go on has finished all calls, no mutex is held, and the destructor then returns
  everything to the provider.
\<close>

theorem tc_progress:
  assumes "memory_provider P live ok" and "ok (w_prov w)" and "tca_create P i so co w = (Inr x0, w0)"
    and "tc_exec P (w0, x0) c K h"
  shows "(\<forall>t. cf_point c t \<noteq> TIdle \<longrightarrow> tc_step P t (cf_point c t) c = None \<longrightarrow>
        (\<exists>u p. u \<noteq> t \<and> cf_mutex c (shard_for p) = Some u \<and> tc_step P u (cf_point c u) c \<noteq> None)) \<and>
     (\<forall>t n a. cf_point c t = TAllocate n a \<longrightarrow> work t c = 3 * unat (tco_refill_batch co) + 5) \<and>
     (\<forall>t q sized. cf_point c t = TDeallocate q sized \<longrightarrow> work t c = 3 * unat (tco_high_watermark co) + 8) \<and>
     (\<forall>ts c'. tc_drain P ts c c' \<longrightarrow>
        (\<forall>t. count_list ts t \<le> work t c) \<and> length ts \<le> (\<Sum>t \<in> busy c. work t c) \<and>
        ((\<forall>t. tc_step P t (cf_point c' t) c' = None) \<longrightarrow>
           (\<forall>t. cf_point c' t = TIdle) \<and> cf_mutex c' = Map.empty \<and>
           (\<forall>t. live (w_prov (tca_destroy P t (cf_state c'))) = live (w_prov w))))"
proof -
  note p = assms(1)
  have st: "cached_ok live ok (live (w_prov w)) (w0, x0) {}" "tc_cache_options (tca_state x0) = co"
    using memory_provider.tca_create_ok [OF assms(1-3)] by simp_all
  note inv = memory_provider.tc_exec_ok [OF p assms(4) st(1)] and fin = busy_finite [OF assms(4)]
  have co: "tc_cache_options (tca_state (snd (cf_state c))) = co"
    using memory_provider.tc_exec_setup [OF p assms(4)] st(2) by (simp add: same_setup_def)
  have blocked: "\<exists>u p. u \<noteq> t \<and> cf_mutex c (shard_for p) = Some u \<and> tc_step P u (cf_point c u) c \<noteq> None"
    if "cf_point c t \<noteq> TIdle" "tc_step P t (cf_point c t) c = None" for t
    by (rule memory_provider.blocked_by_holder [OF p inv that]) blast
  have drained: "(\<forall>t. cf_point c' t = TIdle) \<and> cf_mutex c' = Map.empty \<and> (\<forall>t. live (w_prov (tca_destroy P t (cf_state c'))) = live (w_prov w))"
    if dr: "tc_drain P ts c c'" and stuck: "\<forall>t. tc_step P t (cf_point c' t) c' = None" for ts c'
  proof -
    obtain K' where inv': "interleaved_ok live ok (live (w_prov w)) c' K'" using memory_provider.drain_bound [OF p dr inv fin] by blast
    have idle: "cf_point c' t = TIdle" for t by (rule memory_provider.stuck_idle [OF p inv']) (use stuck in blast)
    note q = memory_provider.quiescent_ok [OF p inv' idle]
    show ?thesis using idle q(2) memory_provider.tca_destroy_ok(2) [OF p q(1)] by blast
  qed
  have "work t c = 3 * unat (tco_refill_batch co) + 5" if "cf_point c t = TAllocate n a" for t n a
    using that co by (simp add: work_def Let_def)
  moreover have "work t c = 3 * unat (tco_high_watermark co) + 8" if "cf_point c t = TDeallocate q sized" for t q sized
    using that co by (simp add: work_def Let_def)
  ultimately show ?thesis using blocked drained memory_provider.drain_bound [OF p _ inv fin] by blast
qed

lemma demo_drain:
  assumes "cf_point c = (\<lambda>_. TIdle)(1 := TRefill 0 10 8 0 (Some 4096))"
  shows "\<exists>c'. tc_drain new_delete_provider [1, 1] c c' \<and> cf_point c' = (\<lambda>_. TIdle)"
proof -
  obtain w x where s: "cf_state c = (w, x)" by (cases "cf_state c")
  let ?s = "(w, x\<lparr>tca_state := note_live_allocation (tca_state x)\<rparr>)"
  let ?c1 = "goto 1 (TDone (Inr (AnsPointer 4096))) ?s c"
  let ?c2 = "goto 1 TIdle ?s ?c1"
  have 1: "tc_step new_delete_provider 1 (cf_point c 1) c = Some (Silent, ?c1)" using assms s by (simp add: step_refill_def)
  have 2: "tc_step new_delete_provider 1 (cf_point ?c1 1) ?c1 = Some (Returned (Inr (AnsPointer 4096)), ?c2)" by simp
  have "tc_drain new_delete_provider [1, 1] c ?c2" by (rule drain_step [OF 1 drain_step [OF 2 drain_none]])
  moreover have "cf_point ?c2 = (\<lambda>_. TIdle)" using assms by (simp add: fun_eq_iff)
  ultimately show ?thesis by blast
qed

theorem tc_progress_witness:
  "\<exists>c c'. cf_point c 1 = TRefill 0 10 8 0 (Some 4096) \<and> tc_drain new_delete_provider [1, 1] c c' \<and> 2 \<le> work 1 c \<and>
     cf_mutex c' = Map.empty \<and> new_delete_live (w_prov (tca_destroy new_delete_provider 1 (cf_state c'))) = {}"
proof -
  obtain c where c: "tc_exec new_delete_provider (demo_tca_world, demo_tca) c {(4096, 10, 8)} [(1, Called (CallAllocate 10 8))]"
      "cf_point c = (\<lambda>_. TIdle)(1 := TRefill 0 10 8 0 (Some 4096))" using demo_exec by blast
  obtain c' where c': "tc_drain new_delete_provider [1, 1] c c'" "cf_point c' = (\<lambda>_. TIdle)" using demo_drain [OF c(2)] by blast
  note pr = tc_progress [OF new_delete.memory_provider_axioms demo_world_ok demo_tca_created c(1), THEN conjunct2, THEN conjunct2, THEN conjunct2,
      rule_format, OF c'(1)]
  have "count_list [1 :: thread_id, 1] 1 \<le> work 1 c" by (rule pr [THEN conjunct1, rule_format])
  then have "2 \<le> work 1 c" by simp
  moreover have "cf_mutex c' = Map.empty \<and> new_delete_live (w_prov (tca_destroy new_delete_provider 1 (cf_state c'))) = new_delete_live (w_prov demo_world)"
    using pr [THEN conjunct2, THEN conjunct2] c'(2) by simp
  moreover have "new_delete_live (w_prov demo_world) = {}" by (simp add: demo_world_def new_delete_live_def empty_sys_heap_def)
  ultimately show ?thesis using c(2) c'(1) by (intro exI [of _ c] exI [of _ c']) simp
qed

end
