(* ===== verification/Spec2Isabelle.thy ===== *)
theory Spec2Isabelle
  imports Fixed_Pool_Dump Chunk_Pool_Properties Segregated_Properties Arena_Properties Pool_Resource Synchronized_Properties
    Thread_Cache_Interleaving_Properties
begin

text \<open>
  A verification of the fixed-size memory pool library: the allocators under \<^verbatim>\<open>src/src\<close> and
  \<^verbatim>\<open>src/include/memory_pool\<close>, on a 64-bit platform.

  \<^bold>\<open>The program and its parts.\<close> At the bottom, \<^verbatim>\<open>FixedSizeMemoryPool\<close> cuts one allocation into equal blocks and
  keeps the free ones in a list inside the blocks; options add a state table, guard bytes, poison patterns and
  statistics. \<^verbatim>\<open>ObjectPool\<close> constructs objects in it. Beside it, \<^verbatim>\<open>MemoryChunk\<close> is the same idea on
  storage from an \<^verbatim>\<open>IMemoryProvider\<close>; \<^verbatim>\<open>ChunkManager\<close> owns a vector of chunks that grows and shrinks;
  \<^verbatim>\<open>BasicChunkPool\<close> adds what happens on exhaustion. \<^verbatim>\<open>SegregatedAllocator\<close> keeps a chunk pool per size class and goes to
  the provider for large requests. On it rest \<^verbatim>\<open>PoolMemoryResource\<close> (the \<^verbatim>\<open>std::pmr\<close> adapter),
  \<^verbatim>\<open>BasicSynchronizedAllocator\<close> (one mutex around an allocator) and \<^verbatim>\<open>ThreadCachedAllocator\<close> (caches of
  free blocks per thread in front of a locked segregated allocator). \<^verbatim>\<open>MonotonicArena\<close> allocates by moving a
  cursor through chunks of the provider and destroys what was created in it on reset.

  \<^bold>\<open>Theories and sources.\<close>
  \<^item> \<open>Pool_Prelude\<close>, \<open>Byte_Memory\<close>, \<open>Free_List\<close>: machine words, errors and outcomes, the byte memory, extents, and the
    intrusive free list that pool and chunk share.
  \<^item> \<open>Block_Layout\<close>, \<open>Memory_Guard\<close>, \<open>Diagnostic_State\<close>, \<open>Statistics_Tracker\<close>: the files of the same names in \<^verbatim>\<open>src/src/detail\<close>.
  \<^item> \<open>Fixed_Pool\<close>: \<^verbatim>\<open>fixed_size_memory_pool.cpp\<close>; \<open>Fixed_Pool_Correct\<close>, \<open>Fixed_Pool_Diagnostics\<close>,
    \<open>Fixed_Pool_Runs\<close>, \<open>Fixed_Pool_Properties\<close> and \<open>Fixed_Pool_Dump\<close> hold its invariant and theorems, \<open>Object_Pool\<close> the
    template functions for objects and \<^verbatim>\<open>object_pool.hpp\<close>.
  \<^item> \<open>Memory_Provider\<close>: \<^verbatim>\<open>memory_provider.hpp\<close> as a record of operations and a locale, and
    \<^verbatim>\<open>new_delete_memory_provider.cpp\<close>, which interprets it.
  \<^item> \<open>Memory_Chunk\<close>, \<open>Chunk_Manager\<close>, \<open>Chunk_Manager_Correct\<close>, \<open>Chunk_Pool\<close>, \<open>Chunk_Pool_Correct\<close>, \<open>Chunk_Pool_Runs\<close>,
    \<open>Chunk_Growth\<close>, \<open>Chunk_Pool_Properties\<close>: \<^verbatim>\<open>memory_chunk.cpp\<close>, \<^verbatim>\<open>chunk_manager.cpp\<close>, \<^verbatim>\<open>exhaustion_policies.hpp\<close> and \<^verbatim>\<open>chunk_pool.hpp\<close>.
  \<^item> \<open>Size_Class_Selector\<close>, \<open>Segregated_Allocator\<close>, \<open>Segregated_Correct\<close>, \<open>Segregated_Runs\<close>, \<open>Segregated_Properties\<close>:
    \<^verbatim>\<open>size_class_selector.cpp\<close> and \<^verbatim>\<open>segregated_allocator.cpp\<close>.
  \<^item> \<open>Arena_Chunk\<close>, \<open>Monotonic_Arena\<close>, \<open>Arena_Correct\<close>, \<open>Arena_Runs\<close>, \<open>Arena_Replay\<close>, \<open>Arena_Properties\<close>:
    \<^verbatim>\<open>arena_chunk.cpp\<close> and \<^verbatim>\<open>monotonic_arena.cpp\<close> with its header.
  \<^item> \<open>Pool_Resource\<close>: \<^verbatim>\<open>pool_memory_resource.cpp\<close>.
  \<^item> \<open>Synchronized_Allocator\<close>, \<open>Synchronized_Clients\<close>, \<open>Synchronized_Properties\<close>: \<^verbatim>\<open>synchronized_allocator.hpp\<close>; the second
    holds what well-behaved threads do with it.
  \<^item> \<open>Thread_Cache\<close>, \<open>Thread_Cached_Allocator\<close>: \<^verbatim>\<open>thread_cache_state.cpp\<close> and \<^verbatim>\<open>thread_cached_allocator.cpp\<close>, with
    \<open>Thread_Cache_Correct\<close>, \<open>Thread_Cache_Operations\<close>, \<open>Thread_Cache_Runs\<close>, \<open>Thread_Cached_Runs\<close>, \<open>Thread_Cached_Histories\<close> and
    \<open>Thread_Cache_Properties\<close> for the invariant and the theorems; here a call is one step.
  \<^item> \<open>Thread_Cache_Steps\<close>: the same calls cut at their critical sections, with the mutexes of the record shards explicit and the steps of all
    threads interleaved. \<open>Thread_Cache_Interleaving\<close> has the invariant of all points of all threads; \<open>Thread_Cache_Step_Correct\<close>,
    \<open>Thread_Cache_Step_Allocate\<close>, \<open>Thread_Cache_Step_Refill\<close>, \<open>Thread_Cache_Step_Free\<close>, \<open>Thread_Cache_Step_Flush\<close> and \<open>Thread_Cache_Executions\<close> show
    that every step keeps it; \<open>Thread_Cache_Atomic\<close> is the atomic allocator the calls promise, \<open>Thread_Cache_Linearizable\<close> the refinement,
    \<open>Thread_Cache_Progress\<close> the bound on the steps of a call; \<open>Thread_Cache_Interleaving_Properties\<close> has the theorems.

  \<^bold>\<open>State and errors.\<close> A class is a record with the fields of the class; an operation takes the state and returns an
  outcome: the value or the exception, and the state also when it throws. \<open>UndefinedBehaviour\<close> and \<open>Terminate\<close> are
  values of the error type, so that their absence is a theorem. Sizes and addresses are 64-bit words with the
  wrap-around of the code. The pools share one byte memory. Allocators over a provider also share a
  \<open>world\<close>: memory, state of the provider, and a stream of choices that decides whether each internal allocation of
  metadata (vectors, maps, control blocks) succeeds, so every \<^verbatim>\<open>bad_alloc\<close> path is taken in some world.

  \<^bold>\<open>Interfaces.\<close> The locale \<open>memory_provider\<close> is what every chunk-based allocator assumes of its provider;
  \<open>new_delete\<close> interprets it for \<^verbatim>\<open>NewDeleteMemoryProvider\<close>, and the \<^verbatim>\<open>std::pmr\<close> adapter hands on the contract of its
  upstream. \<open>block_source\<close> (blocks of one size) is interpreted on the fixed pool and, for every provider, on the chunk pools;
  \<open>sized_source\<close> (any size) on the segregated allocator; \<open>classed_source\<close> extends it by what the thread caches rely
  on. Their runs (\<open>client_run\<close>, \<open>sized_run\<close>, \<open>arena_steps\<close>, \<open>sync_clients\<close>, \<open>tca_run\<close>) are what well-behaved clients can do, writes into
  held storage included; \<open>tc_exec\<close> also allows deallocations of anything.

  \<^bold>\<open>What the lemmas show.\<close> Per allocator: in every reachable state held storage is non-null, aligned, inside the
  storage and disjoint, valid calls succeed, failures throw the documented exception and leave the state
  usable, and destruction gives the provider back exactly what was taken. In addition: layouts agree with
  unbounded arithmetic or throw; the integrity check is exact; overruns are detected; collected statistics agree with the
  history; a chunk refines a pool; the sizes of the chunks follow a closed form along every run; the arena replays a workload at the same
  addresses and destroys in reverse order; the mutex makes the synchronized allocator linearizable and free of deadlock; the
  thread caches stay within their bounds; with their critical sections interleaved in any order the calls are linearizable, that is, every history is
  one of the atomic allocator, which also says which deallocations are rejected and how, and they neither deadlock nor run forever;
  the compare-and-exchange loop of the peak counters ends under interference.

  \<^bold>\<open>Loops and fuel.\<close> Loops are structural or carry a termination proof (list traversals are bounded by the capacity, growth by
  the bytes left, flushing by the length of the bin). Fuel occurs only in \<open>update_peak_loop\<close>; its theorem gives an amount that
  is always enough.

  \<^bold>\<open>Not modelled.\<close> Accessors that return a field; the iteration order of hash maps (the model uses lists); deleted copy and move
  operations; build files, documentation, tests, examples and benchmarks. The temporary vectors of \<^verbatim>\<open>validate_integrity\<close>, the diagnostic
  table of a fixed pool and the default provider of a chunk manager (\<^verbatim>\<open>make_shared\<close>) are taken to be allocated. A destructor of an object
  in an arena is a function on the memory: it does not call back into the arena. Between two critical sections of
  \<^verbatim>\<open>ThreadCachedAllocator\<close> the relaxed atomic counters are updated with the step beside them, and nothing is claimed of their values under
  interleaving; the query functions \<^verbatim>\<open>owns\<close> and \<^verbatim>\<open>owning_size_class\<close> are single sections and are modelled as calls only.
\<close>

end
